(* ===== verification/S2E_Prelude.thy ===== *)
theory S2E_Prelude
  imports Main "HOL-Library.Word" "HOL-Library.Monad_Syntax" "HOL-Library.Signed_Division"
begin

text \<open>
  Shared vocabulary of the development: the collections the component theories add their
  facts to, the types that name the C++ integers, the reading of an assertion failure as
  \<open>None\<close>, and generic lemmas on options, lists and words.

  A C++ \<^verbatim>\<open>assert\<close> that fails, a read outside an array and a null dereference all end the
  run of the program. The model writes each of them as \<open>None\<close>; an operation that can abort
  returns \<open>'a option\<close> and the model binds results in the order the code evaluates them.
\<close>

unbundle bit_operations_syntax

named_theorems mem_simps "read and write laws of the store models"
named_theorems inv_intros "introduction rules for component invariants"
named_theorems step_defs "definitions of component operations"

type_synonym uint8_t = "8 word"
type_synonym uint32_t = "32 word"
type_synonym uint64_t = "64 word"

text \<open>The result of code that may abort: \<open>None\<close> is a failed assertion.\<close>

type_synonym 'a may_abort = "'a option"

definition assert_that :: "bool \<Rightarrow> unit may_abort" where
  "assert_that b = (if b then Some () else None)"

lemma assert_that_Some [simp]: "assert_that b = Some u \<longleftrightarrow> b"
  by (simp add: assert_that_def)

lemma assert_that_None [simp]: "assert_that b = None \<longleftrightarrow> \<not> b"
  by (simp add: assert_that_def)

lemma assert_that_simps [simp]: "assert_that True = Some ()" "assert_that False = None"
  by (simp_all add: assert_that_def)

lemma assert_bind [simp]: "(assert_that b \<bind> f = Some y) \<longleftrightarrow> (b \<and> f () = Some y)"
  by (cases b) simp_all

text \<open>An array access of the source: \<open>None\<close> where the code reads outside the array.\<close>

definition nth_opt :: "'a list \<Rightarrow> nat \<Rightarrow> 'a may_abort" where
  "nth_opt xs i = (if i < length xs then Some (xs ! i) else None)"

lemma nth_opt_Some [simp]: "nth_opt xs i = Some x \<longleftrightarrow> i < length xs \<and> xs ! i = x"
  by (auto simp: nth_opt_def)

lemma nth_opt_None [simp]: "nth_opt xs i = None \<longleftrightarrow> length xs \<le> i"
  by (auto simp: nth_opt_def)

lemma nth_opt_in: "i < length xs \<Longrightarrow> nth_opt xs i = Some (xs ! i)"
  by simp

definition upd_opt :: "'a list \<Rightarrow> nat \<Rightarrow> 'a \<Rightarrow> 'a list may_abort" where
  "upd_opt xs i v = (if i < length xs then Some (xs[i := v]) else None)"

lemma upd_opt_Some [simp]: "upd_opt xs i v = Some ys \<longleftrightarrow> i < length xs \<and> ys = xs[i := v]"
  by (auto simp: upd_opt_def)

lemma upd_opt_None [simp]: "upd_opt xs i v = None \<longleftrightarrow> length xs \<le> i"
  by (auto simp: upd_opt_def)

lemma upd_opt_in: "i < length xs \<Longrightarrow> upd_opt xs i v = Some (xs[i := v])"
  by simp

subsection \<open>Words\<close>

lemma take_bit_word_unat: "unat (take_bit n (x :: 'a::len word)) = unat x mod 2 ^ n"
  by (simp only: unsigned_take_bit_eq) (simp add: take_bit_eq_mod)

lemma unat_less_pow2_iff: "unat (x :: 'a::len word) < 2 ^ n \<longleftrightarrow> take_bit n x = x"
proof -
  have "unat x < 2 ^ n \<longleftrightarrow> unat x mod 2 ^ n = unat x"
    by (metis mod_less mod_less_divisor zero_less_numeral zero_less_power)
  then show ?thesis
    by (simp add: word_unat_eq_iff take_bit_word_unat)
qed

lemma bit_minus_one_word [simp]: "bit (- 1 :: 'a::len word) i \<longleftrightarrow> i < LENGTH('a)"
  by (simp add: bit_minus_1_iff)

lemma word_eq_iff_bits: "(x :: 'a::len word) = y \<longleftrightarrow> (\<forall>n < LENGTH('a). bit x n = bit y n)"
  by (auto intro: bit_word_eqI)

lemma and_ones_shift_eq_take_bit:
  fixes x :: "'a::len word"
  assumes "N \<le> LENGTH('a)"
  shows "x AND drop_bit (LENGTH('a) - N) (- 1) = take_bit N x"
  using assms by (intro bit_word_eqI) (auto simp: bit_simps)

lemma single_bit_word_unat:
  assumes "i < LENGTH('a)"
  shows "unat (push_bit i 1 :: 'a::len word) = 2 ^ i"
  using assms
  by (simp only: unsigned_push_bit_eq unsigned_1) (simp add: take_bit_nat_eq_self push_bit_eq_mult)

lemma option_eqI: "(\<And>v. a = Some v \<longleftrightarrow> b = Some v) \<Longrightarrow> a = b"
  by (cases a; cases b) auto

lemma less_pow2_mono: "x < 2 ^ m \<Longrightarrow> m \<le> n \<Longrightarrow> x < (2 :: int) ^ n"
  by (erule order_less_le_trans) (rule power_increasing; simp)

end
