(* ===== verification/ImmutableTree.thy ===== *)
theory ImmutableTree
  imports S2E_Prelude
begin

text \<open>
  The persistent search tree \<^verbatim>\<open>klee/Internal/ADT/ImmutableTree.h\<close>, which holds the address space
  of every execution state, with its wrappers \<^verbatim>\<open>ImmutableSet.h\<close> and \<^verbatim>\<open>ImmutableMap.h\<close>.

  A node is a value: the reference counts only decide when memory is released, never what an
  operation returns, and are left out. The template arguments \<^verbatim>\<open>KOV\<close> and \<^verbatim>\<open>CMP\<close> are the arguments
  \<open>kov\<close> and \<open>cmp\<close> of the definitions. The terminator node points to itself on both sides and has
  height 0; its value is the default-constructed one, of which nothing is assumed.
\<close>

subsection \<open>Nodes\<close>

datatype 'v node =
  Terminator
| Node (left: "'v node") (right: "'v node") (node_value: 'v) (height: nat)
where
  "left Terminator = Terminator"
| "right Terminator = Terminator"
| "height Terminator = 0"

fun isTerminator :: "'v node \<Rightarrow> bool" where
  "isTerminator Terminator = True"
| "isTerminator (Node _ _ _ _) = False"

definition new_Node :: "'v node \<Rightarrow> 'v node \<Rightarrow> 'v \<Rightarrow> 'v node" where
  "new_Node l r v = Node l r v (max (height l) (height r) + 1)"

definition balance :: "'v node \<Rightarrow> 'v \<Rightarrow> 'v node \<Rightarrow> 'v node" where
  "balance l v r =
    (if height l > height r + 2 then
       let ll = left l; lr = right l in
       if height ll \<ge> height lr then
         let nlr = new_Node lr r v in new_Node ll nlr (node_value l)
       else
         let lrl = left lr; lrr = right lr;
             nll = new_Node ll lrl (node_value l);
             nlr = new_Node lrr r v
         in new_Node nll nlr (node_value lr)
     else if height r > height l + 2 then
       let rl = left r; rr = right r in
       if height rr \<ge> height rl then
         let nrl = new_Node l rl v in new_Node nrl rr (node_value r)
       else
         let rll = left rl; rlr = right rl;
             nrl = new_Node l rll v;
             nrr = new_Node rlr rr (node_value r)
         in new_Node nrl nrr (node_value rl)
     else new_Node l r v)"

fun node_size :: "'v node \<Rightarrow> nat" where
  "node_size Terminator = 0"
| "node_size (Node l r _ _) = node_size l + 1 + node_size r"

fun node_popMin :: "'v node \<Rightarrow> 'v node \<times> 'v" where
  "node_popMin Terminator = (Terminator, node_value Terminator)"
| "node_popMin (Node l r v _) =
    (if isTerminator l then (r, v)
     else let (l', valueOut) = node_popMin l in (balance l' v r, valueOut))"

fun node_popMax :: "'v node \<Rightarrow> 'v node \<times> 'v" where
  "node_popMax Terminator = (Terminator, node_value Terminator)"
| "node_popMax (Node l r v _) =
    (if isTerminator r then (l, v)
     else let (r', valueOut) = node_popMax r in (balance l v r', valueOut))"

fun node_insert :: "('k \<Rightarrow> 'k \<Rightarrow> bool) \<Rightarrow> ('v \<Rightarrow> 'k) \<Rightarrow> 'v \<Rightarrow> 'v node \<Rightarrow> 'v node" where
  "node_insert cmp kov v Terminator = new_Node Terminator Terminator v"
| "node_insert cmp kov v (Node l r u h) =
    (if cmp (kov v) (kov u) then balance (node_insert cmp kov v l) u r
     else if cmp (kov u) (kov v) then balance l u (node_insert cmp kov v r)
     else Node l r u h)"

fun node_replace :: "('k \<Rightarrow> 'k \<Rightarrow> bool) \<Rightarrow> ('v \<Rightarrow> 'k) \<Rightarrow> 'v \<Rightarrow> 'v node \<Rightarrow> 'v node" where
  "node_replace cmp kov v Terminator = new_Node Terminator Terminator v"
| "node_replace cmp kov v (Node l r u h) =
    (if cmp (kov v) (kov u) then balance (node_replace cmp kov v l) u r
     else if cmp (kov u) (kov v) then balance l u (node_replace cmp kov v r)
     else new_Node l r v)"

fun node_remove :: "('k \<Rightarrow> 'k \<Rightarrow> bool) \<Rightarrow> ('v \<Rightarrow> 'k) \<Rightarrow> 'k \<Rightarrow> 'v node \<Rightarrow> 'v node" where
  "node_remove cmp kov k Terminator = Terminator"
| "node_remove cmp kov k (Node l r u h) =
    (if cmp k (kov u) then balance (node_remove cmp kov k l) u r
     else if cmp (kov u) k then balance l u (node_remove cmp kov k r)
     else if isTerminator l then r
     else if isTerminator r then l
     else let (nr, m) = node_popMin r in balance l m nr)"

subsection \<open>Searches of the tree\<close>

fun tree_count :: "('k \<Rightarrow> 'k \<Rightarrow> bool) \<Rightarrow> ('v \<Rightarrow> 'k) \<Rightarrow> 'k \<Rightarrow> 'v node \<Rightarrow> nat" where
  "tree_count cmp kov k Terminator = 0"
| "tree_count cmp kov k (Node l r u h) =
    (if cmp k (kov u) then tree_count cmp kov k l
     else if cmp (kov u) k then tree_count cmp kov k r
     else 1)"

fun tree_lookup :: "('k \<Rightarrow> 'k \<Rightarrow> bool) \<Rightarrow> ('v \<Rightarrow> 'k) \<Rightarrow> 'k \<Rightarrow> 'v node \<Rightarrow> 'v option" where
  "tree_lookup cmp kov k Terminator = None"
| "tree_lookup cmp kov k (Node l r u h) =
    (if cmp k (kov u) then tree_lookup cmp kov k l
     else if cmp (kov u) k then tree_lookup cmp kov k r
     else Some u)"

fun lookup_previous_loop ::
  "('k \<Rightarrow> 'k \<Rightarrow> bool) \<Rightarrow> ('v \<Rightarrow> 'k) \<Rightarrow> 'k \<Rightarrow> 'v option \<Rightarrow> 'v node \<Rightarrow> 'v option" where
  "lookup_previous_loop cmp kov k result Terminator = result"
| "lookup_previous_loop cmp kov k result (Node l r u h) =
    (if cmp k (kov u) then lookup_previous_loop cmp kov k result l
     else if cmp (kov u) k then lookup_previous_loop cmp kov k (Some u) r
     else Some u)"

definition tree_lookup_previous ::
  "('k \<Rightarrow> 'k \<Rightarrow> bool) \<Rightarrow> ('v \<Rightarrow> 'k) \<Rightarrow> 'k \<Rightarrow> 'v node \<Rightarrow> 'v option" where
  "tree_lookup_previous cmp kov k t = lookup_previous_loop cmp kov k None t"

fun tree_min :: "'v node \<Rightarrow> 'v may_abort" where
  "tree_min Terminator = None"
| "tree_min (Node l r u h) = (if isTerminator l then Some u else tree_min l)"

fun tree_max :: "'v node \<Rightarrow> 'v may_abort" where
  "tree_max Terminator = None"
| "tree_max (Node l r u h) = (if isTerminator r then Some u else tree_max r)"

definition tree_empty :: "'v node \<Rightarrow> bool" where
  "tree_empty t = isTerminator t"

subsection \<open>Iterators\<close>

text \<open>
  \<^verbatim>\<open>FixedStack\<close>: the elements with the top first and the capacity \<^verbatim>\<open>max\<close>. Writing past the capacity
  and reading or popping below position 0 leave the array, and are \<open>None\<close>.
\<close>

record 'a fixed_stack =
  fs_max :: nat
  fs_elts :: "'a list"

definition fs_new :: "nat \<Rightarrow> 'a fixed_stack" where
  "fs_new m = \<lparr>fs_max = m, fs_elts = []\<rparr>"

definition fs_push_back :: "'a \<Rightarrow> 'a fixed_stack \<Rightarrow> 'a fixed_stack may_abort" where
  "fs_push_back x s =
    (if length (fs_elts s) < fs_max s then Some (s\<lparr>fs_elts := x # fs_elts s\<rparr>) else None)"

fun fs_pop_back :: "'a fixed_stack \<Rightarrow> 'a fixed_stack may_abort" where
  "fs_pop_back s = (case fs_elts s of [] \<Rightarrow> None | _ # xs \<Rightarrow> Some (s\<lparr>fs_elts := xs\<rparr>))"

definition fs_empty :: "'a fixed_stack \<Rightarrow> bool" where
  "fs_empty s = (fs_elts s = [])"

fun fs_back :: "'a fixed_stack \<Rightarrow> 'a may_abort" where
  "fs_back s = (case fs_elts s of [] \<Rightarrow> None | x # _ \<Rightarrow> Some x)"

definition fs_eq :: "'a fixed_stack \<Rightarrow> 'a fixed_stack \<Rightarrow> bool" where
  "fs_eq s t = (length (fs_elts s) = length (fs_elts t) \<and> fs_elts s = fs_elts t)"

definition fs_assign :: "'a fixed_stack \<Rightarrow> 'a fixed_stack \<Rightarrow> 'a fixed_stack may_abort" where
  "fs_assign s b = (if fs_max s = fs_max b then Some (s\<lparr>fs_elts := fs_elts b\<rparr>) else None)"

record 'v iterator =
  it_root :: "'v node"
  it_stack :: "'v node fixed_stack"

text \<open>The loops \<^verbatim>\<open>for (; !n->isTerminator(); n=n->left) stack.push_back(n)\<close> and their mirror.\<close>

fun push_left :: "'v node \<Rightarrow> 'v node fixed_stack \<Rightarrow> 'v node fixed_stack may_abort" where
  "push_left Terminator s = Some s"
| "push_left (Node l r v h) s = do { s \<leftarrow> fs_push_back (Node l r v h) s; push_left l s }"

fun push_right :: "'v node \<Rightarrow> 'v node fixed_stack \<Rightarrow> 'v node fixed_stack may_abort" where
  "push_right Terminator s = Some s"
| "push_right (Node l r v h) s = do { s \<leftarrow> fs_push_back (Node l r v h) s; push_right r s }"

definition iterator_new :: "'v node \<Rightarrow> bool \<Rightarrow> 'v iterator may_abort" where
  "iterator_new root atBeginning = do {
     s \<leftarrow> (if atBeginning then push_left root (fs_new (height root))
          else Some (fs_new (height root)));
     Some \<lparr>it_root = root, it_stack = s\<rparr> }"

definition iterator_deref :: "'v iterator \<Rightarrow> 'v may_abort" where
  "iterator_deref i = map_option node_value (fs_back (it_stack i))"

definition iterator_eq :: "'v iterator \<Rightarrow> 'v iterator \<Rightarrow> bool" where
  "iterator_eq a b = fs_eq (it_stack a) (it_stack b)"

definition iterator_assign :: "'v iterator \<Rightarrow> 'v iterator \<Rightarrow> 'v iterator may_abort" where
  "iterator_assign a b = do {
     s \<leftarrow> fs_assign (it_stack a) (it_stack b);
     Some (a\<lparr>it_root := it_root b, it_stack := s\<rparr>) }"

text \<open>
  The climbing loops of \<^verbatim>\<open>operator++\<close> and \<^verbatim>\<open>operator--\<close> on the elements of the stack. The source
  compares node addresses; siblings of a search tree have different keys, so the comparison of
  the nodes themselves decides the same.
\<close>

fun climb_left :: "'v node list \<Rightarrow> 'v node list" where
  "climb_left (prev # n # st) = (if prev = left n then n # st else climb_left (n # st))"
| "climb_left _ = []"

fun climb_right :: "'v node list \<Rightarrow> 'v node list" where
  "climb_right (prev # n # st) = (if prev = right n then n # st else climb_right (n # st))"
| "climb_right _ = []"

definition iterator_incr :: "'v iterator \<Rightarrow> 'v iterator may_abort" where
  "iterator_incr i = do {
     n \<leftarrow> fs_back (it_stack i);
     if isTerminator (right n)
     then Some (i\<lparr>it_stack := (it_stack i)\<lparr>fs_elts := climb_left (fs_elts (it_stack i))\<rparr>\<rparr>)
     else do {
       s \<leftarrow> fs_push_back (right n) (it_stack i);
       s \<leftarrow> push_left (left (right n)) s;
       Some (i\<lparr>it_stack := s\<rparr>) } }"

definition iterator_decr :: "'v iterator \<Rightarrow> 'v iterator may_abort" where
  "iterator_decr i =
     (if fs_empty (it_stack i) then do {
        s \<leftarrow> push_right (it_root i) (it_stack i);
        Some (i\<lparr>it_stack := s\<rparr>) }
      else do {
        n \<leftarrow> fs_back (it_stack i);
        if isTerminator (left n)
        then Some (i\<lparr>it_stack := (it_stack i)\<lparr>fs_elts := climb_right (fs_elts (it_stack i))\<rparr>\<rparr>)
        else do {
          s \<leftarrow> fs_push_back (left n) (it_stack i);
          s \<leftarrow> push_right (right (left n)) s;
          Some (i\<lparr>it_stack := s\<rparr>) } })"

definition tree_begin :: "'v node \<Rightarrow> 'v iterator may_abort" where
  "tree_begin t = iterator_new t True"

definition tree_end :: "'v node \<Rightarrow> 'v iterator may_abort" where
  "tree_end t = iterator_new t False"

text \<open>The descent of \<^verbatim>\<open>lower_bound\<close>; the flag says that it returned on an equal key.\<close>

fun lower_bound_loop ::
  "('k \<Rightarrow> 'k \<Rightarrow> bool) \<Rightarrow> ('v \<Rightarrow> 'k) \<Rightarrow> 'k \<Rightarrow> 'v node \<Rightarrow> 'v node fixed_stack
    \<Rightarrow> (bool \<times> 'v node fixed_stack) may_abort" where
  "lower_bound_loop cmp kov k Terminator s = Some (False, s)"
| "lower_bound_loop cmp kov k (Node l r u h) s = do {
     s \<leftarrow> fs_push_back (Node l r u h) s;
     if cmp k (kov u) then lower_bound_loop cmp kov k l s
     else if cmp (kov u) k then lower_bound_loop cmp kov k r s
     else Some (True, s) }"

definition tree_lower_bound ::
  "('k \<Rightarrow> 'k \<Rightarrow> bool) \<Rightarrow> ('v \<Rightarrow> 'k) \<Rightarrow> 'k \<Rightarrow> 'v node \<Rightarrow> 'v iterator may_abort" where
  "tree_lower_bound cmp kov k t = do {
     it \<leftarrow> iterator_new t False;
     (found, s) \<leftarrow> lower_bound_loop cmp kov k t (it_stack it);
     let it = it\<lparr>it_stack := s\<rparr> in
     if found then Some it
     else if \<not> fs_empty s then do {
       last \<leftarrow> fs_back s;
       if cmp (kov (node_value last)) k then iterator_incr it else Some it }
     else Some it }"

definition tree_find ::
  "('k \<Rightarrow> 'k \<Rightarrow> bool) \<Rightarrow> ('v \<Rightarrow> 'k) \<Rightarrow> 'k \<Rightarrow> 'v node \<Rightarrow> 'v iterator may_abort" where
  "tree_find cmp kov k t = do {
     e \<leftarrow> iterator_new t False;
     it \<leftarrow> tree_lower_bound cmp kov k t;
     if iterator_eq it e then Some e
     else do {
       v \<leftarrow> iterator_deref it;
       if cmp k (kov v) then Some e else Some it } }"

definition tree_upper_bound ::
  "('k \<Rightarrow> 'k \<Rightarrow> bool) \<Rightarrow> ('v \<Rightarrow> 'k) \<Rightarrow> 'k \<Rightarrow> 'v node \<Rightarrow> 'v iterator may_abort" where
  "tree_upper_bound cmp kov k t = do {
     e \<leftarrow> iterator_new t False;
     it \<leftarrow> tree_lower_bound cmp kov k t;
     if \<not> iterator_eq it e then do {
       v \<leftarrow> iterator_deref it;
       if \<not> cmp k (kov v) then iterator_incr it else Some it }
     else Some it }"

subsection \<open>The values of a tree in order, and the balance invariant\<close>

fun elems :: "'v node \<Rightarrow> 'v list" where
  "elems Terminator = []"
| "elems (Node l r v _) = elems l @ v # elems r"

fun balanced :: "'v node \<Rightarrow> bool" where
  "balanced Terminator = True"
| "balanced (Node l r v h) \<longleftrightarrow>
    h = max (height l) (height r) + 1 \<and> height l \<le> height r + 2 \<and> height r \<le> height l + 2
    \<and> balanced l \<and> balanced r"

definition key_sorted :: "('k \<Rightarrow> 'k \<Rightarrow> bool) \<Rightarrow> ('v \<Rightarrow> 'k) \<Rightarrow> 'v list \<Rightarrow> bool" where
  "key_sorted cmp kov = sorted_wrt (\<lambda>a b. cmp (kov a) (kov b))"

lemma isTerminator_iff [simp]: "isTerminator t \<longleftrightarrow> t = Terminator"
  by (cases t) auto

lemma height_pos_Node: "0 < height t \<Longrightarrow> \<exists>l r v h. t = Node l r v h"
  by (cases t) auto

lemma elems_new_Node [simp]: "elems (new_Node l r v) = elems l @ v # elems r"
  by (simp add: new_Node_def)

lemma height_new_Node [simp]: "height (new_Node l r v) = max (height l) (height r) + 1"
  by (simp add: new_Node_def)

lemma balanced_new_Node [simp]:
  "balanced (new_Node l r v) \<longleftrightarrow>
    height l \<le> height r + 2 \<and> height r \<le> height l + 2 \<and> balanced l \<and> balanced r"
  by (auto simp: new_Node_def)

lemma balance_left_cases:
  assumes "height l > height r + 2"
  obtains ll lr lv h where "l = Node ll lr lv h" "height ll \<ge> height lr"
    "balance l v r = new_Node ll (new_Node lr r v) lv"
  | ll lrl lrr lrv h' lv h where "l = Node ll (Node lrl lrr lrv h') lv h" "height ll < h'"
    "balance l v r = new_Node (new_Node ll lrl lv) (new_Node lrr r v) lrv"
proof (cases l)
  case Terminator
  then show ?thesis using assms by simp
next
  case (Node ll lr lv h)
  show ?thesis
  proof (cases "height lr \<le> height ll")
    case True
    then show ?thesis using assms Node by (intro that(1)) (auto simp: balance_def)
  next
    case False
    then obtain lrl lrr lrv h' where "lr = Node lrl lrr lrv h'"
      using height_pos_Node [of lr] by auto
    then show ?thesis using assms Node False by (intro that(2)) (auto simp: balance_def)
  qed
qed

lemma balance_right_cases:
  assumes "height r > height l + 2"
  obtains rl rr rv h where "r = Node rl rr rv h" "height rr \<ge> height rl"
    "balance l v r = new_Node (new_Node l rl v) rr rv"
  | rll rlr rlv h' rr rv h where "r = Node (Node rll rlr rlv h') rr rv h" "height rr < h'"
    "balance l v r = new_Node (new_Node l rll v) (new_Node rlr rr rv) rlv"
proof (cases r)
  case Terminator
  then show ?thesis using assms by simp
next
  case (Node rl rr rv h)
  show ?thesis
  proof (cases "height rl \<le> height rr")
    case True
    then show ?thesis using assms Node by (intro that(1)) (auto simp: balance_def)
  next
    case False
    then obtain rll rlr rlv h' where "rl = Node rll rlr rlv h'"
      using height_pos_Node [of rl] by auto
    then show ?thesis using assms Node False by (intro that(2)) (auto simp: balance_def)
  qed
qed

lemma balance_none: "\<not> height l > height r + 2 \<Longrightarrow> \<not> height r > height l + 2 \<Longrightarrow>
    balance l v r = new_Node l r v"
  by (simp add: balance_def)

lemma elems_balance [simp]: "elems (balance l v r) = elems l @ v # elems r"
proof (cases "height l > height r + 2")
  case True
  then show ?thesis by (cases rule: balance_left_cases [where v = v]) auto
next
  case nl: False
  show ?thesis
  proof (cases "height r > height l + 2")
    case True
    then show ?thesis by (cases rule: balance_right_cases [where v = v]) auto
  next
    case False
    with nl show ?thesis by (simp add: balance_none)
  qed
qed

lemma balanced_balance:
  assumes "balanced l" "balanced r" "height l \<le> height r + 3" "height r \<le> height l + 3"
  shows "balanced (balance l v r)"
proof (cases "height l > height r + 2")
  case True
  show ?thesis using assms True by (cases rule: balance_left_cases [OF True, where v = v]) auto
next
  case nl: False
  show ?thesis
  proof (cases "height r > height l + 2")
    case True
    show ?thesis using assms True by (cases rule: balance_right_cases [OF True, where v = v]) auto
  next
    case False
    with nl assms show ?thesis by (simp add: balance_none)
  qed
qed

lemma height_balance:
  assumes "balanced l" "balanced r" "height l \<le> height r + 3" "height r \<le> height l + 3"
  shows "max (height l) (height r) \<le> height (balance l v r)
    \<and> height (balance l v r) \<le> max (height l) (height r) + 1
    \<and> (height l \<le> height r + 2 \<and> height r \<le> height l + 2 \<longrightarrow>
       height (balance l v r) = max (height l) (height r) + 1)"
proof (cases "height l > height r + 2")
  case True
  show ?thesis using assms True by (cases rule: balance_left_cases [OF True, where v = v]) auto
next
  case nl: False
  show ?thesis
  proof (cases "height r > height l + 2")
    case True
    show ?thesis using assms True by (cases rule: balance_right_cases [OF True, where v = v]) auto
  next
    case False
    with nl show ?thesis by (simp add: balance_none max_def)
  qed
qed

text \<open>Rebalancing after one subtree grew or shrank by at most one.\<close>

definition grown :: "'v node \<Rightarrow> 'v node \<Rightarrow> bool" where
  "grown t t' \<longleftrightarrow> balanced t' \<and> height t \<le> height t' \<and> height t' \<le> height t + 1"

definition shrunk :: "'v node \<Rightarrow> 'v node \<Rightarrow> bool" where
  "shrunk t t' \<longleftrightarrow> balanced t' \<and> height t' \<le> height t \<and> height t \<le> height t' + 1"

lemma grown_balance_left:
  assumes "balanced (Node l r u h)" "grown l l'"
  shows "grown (Node l r u h) (balance l' u r)"
  using assms balanced_balance [of l' r u] height_balance [of l' r u]
  unfolding grown_def by (cases "height l' \<le> height r + 2") (simp_all add: max_def split: if_splits)

lemma grown_balance_right:
  assumes "balanced (Node l r u h)" "grown r r'"
  shows "grown (Node l r u h) (balance l u r')"
  using assms balanced_balance [of l r' u] height_balance [of l r' u]
  unfolding grown_def by (cases "height r' \<le> height l + 2") (simp_all add: max_def split: if_splits)

lemma shrunk_balance_left:
  assumes "balanced (Node l r u h)" "shrunk l l'"
  shows "shrunk (Node l r u h) (balance l' u r)"
  using assms balanced_balance [of l' r u] height_balance [of l' r u]
  unfolding shrunk_def by (cases "height r \<le> height l' + 2") (simp_all add: max_def split: if_splits)

lemma shrunk_balance_right:
  assumes "balanced (Node l r u h)" "shrunk r r'"
  shows "shrunk (Node l r u h) (balance l v r')"
  using assms balanced_balance [of l r' v] height_balance [of l r' v]
  unfolding shrunk_def by (cases "height l \<le> height r' + 2") (simp_all add: max_def split: if_splits)

lemmas rebalance_intros =
  grown_balance_left grown_balance_right shrunk_balance_left shrunk_balance_right

lemma grown_node_insert: "balanced t \<Longrightarrow> grown t (node_insert cmp kov v t)"
proof (induction t)
  case (Node l r u h)
  then show ?case by (auto simp del: balanced.simps intro: rebalance_intros
      dest: iffD1 [OF balanced.simps(2)]) (simp add: grown_def max_def)
qed (simp add: grown_def)

lemma grown_node_replace: "balanced t \<Longrightarrow> grown t (node_replace cmp kov v t)"
proof (induction t)
  case (Node l r u h)
  then show ?case by (auto simp del: balanced.simps intro: rebalance_intros
      dest: iffD1 [OF balanced.simps(2)]) (simp add: grown_def max_def)
qed (simp add: grown_def)

lemma shrunk_node_popMin: "balanced t \<Longrightarrow> shrunk t (fst (node_popMin t))"
proof (induction t)
  case (Node l r u h)
  then have "l \<noteq> Terminator \<Longrightarrow> shrunk l (fst (node_popMin l))" by simp
  with Node.prems show ?case
    by (cases "l = Terminator") (auto simp: case_prod_unfold Let_def shrunk_balance_left, simp add: shrunk_def)
qed (simp add: shrunk_def)

lemma shrunk_node_popMax: "balanced t \<Longrightarrow> shrunk t (fst (node_popMax t))"
proof (induction t)
  case (Node l r u h)
  then have "r \<noteq> Terminator \<Longrightarrow> shrunk r (fst (node_popMax r))" by simp
  with Node.prems show ?case
    by (cases "r = Terminator") (auto simp: case_prod_unfold Let_def shrunk_balance_right, simp add: shrunk_def)
qed (simp add: shrunk_def)

lemma shrunk_node_remove: "balanced t \<Longrightarrow> shrunk t (node_remove cmp kov k t)"
proof (induction t)
  case (Node l r u h)
  then have "shrunk l (node_remove cmp kov k l)" "shrunk r (node_remove cmp kov k r)"
    "shrunk r (fst (node_popMin r))" by (simp_all add: shrunk_node_popMin)
  moreover have "shrunk (Node l r u h) r" if "l = Terminator"
    using that Node.prems by (simp add: shrunk_def)
  moreover have "shrunk (Node l r u h) l" if "r = Terminator"
    using that Node.prems by (simp add: shrunk_def)
  ultimately show ?case
    using Node.prems
    by (simp add: case_prod_unfold Let_def shrunk_balance_left shrunk_balance_right del: balanced.simps)
qed (simp add: shrunk_def)

lemma elems_popMin: "t \<noteq> Terminator \<Longrightarrow> snd (node_popMin t) # elems (fst (node_popMin t)) = elems t"
proof (induction t)
  case (Node l r u h)
  then show ?case by (cases "l = Terminator") (auto simp: case_prod_unfold Let_def append_eq_Cons_conv)
qed simp

lemma elems_popMax: "t \<noteq> Terminator \<Longrightarrow> elems (fst (node_popMax t)) @ [snd (node_popMax t)] = elems t"
proof (induction t)
  case (Node l r u h)
  then show ?case by (cases "r = Terminator") (auto simp: case_prod_unfold Let_def)
qed simp

subsection \<open>Sorted lists as the specification of the operations\<close>

fun ins_list :: "('k \<Rightarrow> 'k \<Rightarrow> bool) \<Rightarrow> ('v \<Rightarrow> 'k) \<Rightarrow> 'v \<Rightarrow> 'v list \<Rightarrow> 'v list" where
  "ins_list cmp kov v [] = [v]"
| "ins_list cmp kov v (u # us) =
    (if cmp (kov v) (kov u) then v # u # us
     else if cmp (kov u) (kov v) then u # ins_list cmp kov v us else u # us)"

fun rep_list :: "('k \<Rightarrow> 'k \<Rightarrow> bool) \<Rightarrow> ('v \<Rightarrow> 'k) \<Rightarrow> 'v \<Rightarrow> 'v list \<Rightarrow> 'v list" where
  "rep_list cmp kov v [] = [v]"
| "rep_list cmp kov v (u # us) =
    (if cmp (kov v) (kov u) then v # u # us
     else if cmp (kov u) (kov v) then u # rep_list cmp kov v us else v # us)"

definition same_key :: "('k \<Rightarrow> 'k \<Rightarrow> bool) \<Rightarrow> 'k \<Rightarrow> 'k \<Rightarrow> bool" where
  "same_key cmp a b \<longleftrightarrow> \<not> cmp a b \<and> \<not> cmp b a"

definition tree_inv :: "('k \<Rightarrow> 'k \<Rightarrow> bool) \<Rightarrow> ('v \<Rightarrow> 'k) \<Rightarrow> 'v node \<Rightarrow> bool" where
  "tree_inv cmp kov t \<longleftrightarrow> balanced t \<and> key_sorted cmp kov (elems t)"

locale strict_weak_order =
  fixes cmp :: "'k \<Rightarrow> 'k \<Rightarrow> bool"
  assumes cmp_asym: "cmp a b \<Longrightarrow> \<not> cmp b a"
    and cmp_neg_trans: "cmp a c \<Longrightarrow> cmp a b \<or> cmp b c"
begin

lemma cmp_irrefl [simp]: "\<not> cmp a a"
  using cmp_asym by blast

lemma cmp_trans: "cmp a b \<Longrightarrow> cmp b c \<Longrightarrow> cmp a c"
  using cmp_asym cmp_neg_trans by blast

lemma same_key_cmp:
  "same_key cmp a b \<Longrightarrow> cmp a c \<longleftrightarrow> cmp b c" "same_key cmp a b \<Longrightarrow> cmp c a \<longleftrightarrow> cmp c b"
  unfolding same_key_def using cmp_neg_trans by blast+

lemma same_key_refl [simp]: "same_key cmp a a"
  by (simp add: same_key_def)

lemma same_key_sym: "same_key cmp a b \<longleftrightarrow> same_key cmp b a"
  by (auto simp: same_key_def)

lemma cmp_less_le: "\<not> cmp b a \<Longrightarrow> cmp b c \<Longrightarrow> cmp a c" "cmp a b \<Longrightarrow> \<not> cmp c b \<Longrightarrow> cmp a c"
  using cmp_neg_trans by blast+

lemma same_key_below: "\<not> cmp k u \<Longrightarrow> cmp a u \<Longrightarrow> \<not> same_key cmp k a"
  unfolding same_key_def using cmp_less_le(2) by blast

lemma same_key_above: "\<not> cmp u k \<Longrightarrow> cmp u a \<Longrightarrow> \<not> same_key cmp k a"
  unfolding same_key_def using cmp_less_le(1) by blast

lemma key_sorted_Cons:
  "key_sorted cmp kov (u # us) \<longleftrightarrow> (\<forall>x \<in> set us. cmp (kov u) (kov x)) \<and> key_sorted cmp kov us"
  by (simp add: key_sorted_def)

lemma key_sorted_append:
  "key_sorted cmp kov (xs @ ys) \<longleftrightarrow> key_sorted cmp kov xs \<and> key_sorted cmp kov ys \<and>
    (\<forall>x \<in> set xs. \<forall>y \<in> set ys. cmp (kov x) (kov y))"
  by (simp add: key_sorted_def sorted_wrt_append)

lemma key_sorted_Nil [simp]: "key_sorted cmp kov []"
  by (simp add: key_sorted_def)

lemmas key_sorted_simps = key_sorted_Cons key_sorted_append

lemma ins_list_append:
  assumes "key_sorted cmp kov (xs @ u # ys)"
  shows "ins_list cmp kov v (xs @ u # ys) =
    (if cmp (kov v) (kov u) then ins_list cmp kov v xs @ u # ys
     else if cmp (kov u) (kov v) then xs @ u # ins_list cmp kov v ys else xs @ u # ys)"
  using assms
proof (induction xs)
  case (Cons x xs)
  then have "cmp (kov x) (kov u)" by (simp add: key_sorted_simps)
  then have "\<not> cmp (kov v) (kov u) \<Longrightarrow> cmp (kov x) (kov v) \<and> \<not> cmp (kov v) (kov x)"
    using cmp_less_le(2) cmp_asym by blast
  with Cons show ?case by (simp add: key_sorted_Cons)
qed simp

lemma rep_list_append:
  assumes "key_sorted cmp kov (xs @ u # ys)"
  shows "rep_list cmp kov v (xs @ u # ys) =
    (if cmp (kov v) (kov u) then rep_list cmp kov v xs @ u # ys
     else if cmp (kov u) (kov v) then xs @ u # rep_list cmp kov v ys else xs @ v # ys)"
  using assms
proof (induction xs)
  case (Cons x xs)
  then have "cmp (kov x) (kov u)" by (simp add: key_sorted_simps)
  then have "\<not> cmp (kov v) (kov u) \<Longrightarrow> cmp (kov x) (kov v) \<and> \<not> cmp (kov v) (kov x)"
    using cmp_less_le(2) cmp_asym by blast
  with Cons show ?case by (simp add: key_sorted_Cons)
qed simp

lemma elems_node_insert:
  "key_sorted cmp kov (elems t) \<Longrightarrow> elems (node_insert cmp kov v t) = ins_list cmp kov v (elems t)"
  by (induction t) (simp_all add: ins_list_append, simp add: key_sorted_simps)

lemma elems_node_replace:
  "key_sorted cmp kov (elems t) \<Longrightarrow> elems (node_replace cmp kov v t) = rep_list cmp kov v (elems t)"
  by (induction t) (simp_all add: rep_list_append, simp add: key_sorted_simps)

lemma set_ins_list: "set (ins_list cmp kov v xs) \<subseteq> insert v (set xs)"
  by (induction xs) auto

lemma set_rep_list: "set (rep_list cmp kov v xs) \<subseteq> insert v (set xs)"
  by (induction xs) auto

lemma key_sorted_ins_list: "key_sorted cmp kov xs \<Longrightarrow> key_sorted cmp kov (ins_list cmp kov v xs)"
proof (induction xs)
  case (Cons x xs)
  then show ?case
    using set_ins_list [of kov v xs] cmp_trans [of "kov v" "kov x"]
    by (auto simp: key_sorted_Cons)
qed (simp add: key_sorted_def)

lemma key_sorted_rep_list: "key_sorted cmp kov xs \<Longrightarrow> key_sorted cmp kov (rep_list cmp kov v xs)"
proof (induction xs)
  case (Cons x xs)
  then show ?case
    using set_rep_list [of kov v xs] cmp_trans [of "kov v" "kov x"]
      cmp_less_le(1) [of "kov x" "kov v"]
    by (auto simp: key_sorted_Cons)
qed (simp add: key_sorted_def)

lemma elems_node_remove:
  "key_sorted cmp kov (elems t) \<Longrightarrow>
    elems (node_remove cmp kov k t) = filter (\<lambda>u. \<not> same_key cmp k (kov u)) (elems t)"
proof (induction t)
  case (Node l r u h)
  let ?P = "\<lambda>u. \<not> same_key cmp k (kov u)"
  have srt: "key_sorted cmp kov (elems l)" "key_sorted cmp kov (elems r)"
    "\<forall>x \<in> set (elems l). cmp (kov x) (kov u)" "\<forall>x \<in> set (elems r). cmp (kov u) (kov x)"
    using Node.prems by (auto simp: key_sorted_simps)
  have lo: "filter ?P (elems l) = elems l" if "\<not> cmp k (kov u)"
    using that srt(3) by (simp add: filter_id_conv same_key_below)
  have hi: "filter ?P (elems r) = elems r" if "\<not> cmp (kov u) k"
    using that srt(4) by (simp add: filter_id_conv same_key_above)
  have pop: "snd (node_popMin r) # elems (fst (node_popMin r)) = elems r" if "r \<noteq> Terminator"
    by (rule elems_popMin [OF that])
  show ?case
    using Node.IH srt(1,2) lo hi pop cmp_asym [of k "kov u"]
    by (auto simp: case_prod_unfold Let_def same_key_def)
qed simp

lemma tree_lookup_iff:
  "key_sorted cmp kov (elems t) \<Longrightarrow>
    tree_lookup cmp kov k t = Some v \<longleftrightarrow> v \<in> set (elems t) \<and> same_key cmp k (kov v)"
proof (induction t)
  case (Node l r u h)
  have srt: "key_sorted cmp kov (elems l)" "key_sorted cmp kov (elems r)"
    "\<And>x. x \<in> set (elems l) \<Longrightarrow> cmp (kov x) (kov u)"
    "\<And>x. x \<in> set (elems r) \<Longrightarrow> cmp (kov u) (kov x)"
    using Node.prems by (auto simp: key_sorted_simps)
  have lo: "\<not> same_key cmp k (kov x)" if "\<not> cmp k (kov u)" "x \<in> set (elems l)" for x
    using that srt(3) same_key_below by blast
  have hi: "\<not> same_key cmp k (kov x)" if "\<not> cmp (kov u) k" "x \<in> set (elems r)" for x
    using that srt(4) same_key_above by blast
  show ?case
    using Node.IH srt(1,2) lo hi cmp_asym [of k "kov u"]
    by (auto simp: same_key_def)
qed simp

lemma set_ins_list_eq:
  "key_sorted cmp kov xs \<Longrightarrow> set (ins_list cmp kov v xs) =
    (if \<exists>u \<in> set xs. same_key cmp (kov v) (kov u) then set xs else insert v (set xs))"
proof (induction xs)
  case (Cons x xs)
  have "\<forall>y \<in> set xs. \<not> same_key cmp (kov v) (kov y)" if "\<not> cmp (kov x) (kov v)"
    using Cons.prems that same_key_above by (simp add: key_sorted_Cons)
  moreover have "\<not> same_key cmp (kov v) (kov x)" if "cmp (kov v) (kov x) \<or> cmp (kov x) (kov v)"
    using that by (auto simp: same_key_def)
  ultimately show ?case
    using Cons cmp_asym [of "kov v" "kov x"] by (auto simp: key_sorted_Cons same_key_def)
qed simp

lemma set_rep_list_eq:
  "key_sorted cmp kov xs \<Longrightarrow> set (rep_list cmp kov v xs) =
    insert v {u \<in> set xs. \<not> same_key cmp (kov v) (kov u)}"
proof (induction xs)
  case (Cons x xs)
  have "\<forall>y \<in> set xs. \<not> same_key cmp (kov v) (kov y)" if "\<not> cmp (kov x) (kov v)"
    using Cons.prems that same_key_above by (simp add: key_sorted_Cons)
  then show ?case
    using Cons cmp_asym [of "kov v" "kov x"] by (auto simp: key_sorted_Cons same_key_def)
qed simp

text \<open>The invariant of a tree, kept by every operation.\<close>

lemma tree_inv_insert: "tree_inv cmp kov t \<Longrightarrow> tree_inv cmp kov (node_insert cmp kov v t)"
  using grown_node_insert [of t cmp kov v]
  by (simp add: tree_inv_def grown_def elems_node_insert key_sorted_ins_list)

lemma tree_inv_replace: "tree_inv cmp kov t \<Longrightarrow> tree_inv cmp kov (node_replace cmp kov v t)"
  using grown_node_replace [of t cmp kov v]
  by (simp add: tree_inv_def grown_def elems_node_replace key_sorted_rep_list)

lemma tree_inv_remove: "tree_inv cmp kov t \<Longrightarrow> tree_inv cmp kov (node_remove cmp kov k t)"
  using shrunk_node_remove [of t cmp kov k]
  by (simp add: tree_inv_def shrunk_def elems_node_remove) (simp add: key_sorted_def sorted_wrt_filter)

lemma tree_inv_popMin: "tree_inv cmp kov t \<Longrightarrow> tree_inv cmp kov (fst (node_popMin t))"
  using shrunk_node_popMin [of t] key_sorted_Cons [of kov "snd (node_popMin t)" "elems (fst (node_popMin t))"]
  by (cases "t = Terminator") (auto simp: tree_inv_def shrunk_def elems_popMin)

lemma tree_inv_popMax: "tree_inv cmp kov t \<Longrightarrow> tree_inv cmp kov (fst (node_popMax t))"
  using shrunk_node_popMax [of t] key_sorted_append [of kov "elems (fst (node_popMax t))" "[snd (node_popMax t)]"]
  by (cases "t = Terminator") (auto simp: tree_inv_def shrunk_def elems_popMax)

lemmas tree_inv_intros =
  tree_inv_insert tree_inv_replace tree_inv_remove tree_inv_popMin tree_inv_popMax

lemma key_sorted_same_key:
  "key_sorted cmp kov xs \<Longrightarrow> u \<in> set xs \<Longrightarrow> v \<in> set xs \<Longrightarrow> same_key cmp (kov u) (kov v) \<Longrightarrow> u = v"
  by (induction xs) (auto simp: key_sorted_Cons same_key_def)

lemma same_key_trans: "same_key cmp a b \<Longrightarrow> same_key cmp b c \<longleftrightarrow> same_key cmp a c"
  using same_key_cmp [of a b c] by (simp add: same_key_def)

lemma same_key_eq: "same_key cmp k c \<Longrightarrow> same_key cmp a c \<longleftrightarrow> same_key cmp k a"
  using same_key_cmp [of k c a] by (auto simp: same_key_def)

lemma tree_lookup_None:
  "key_sorted cmp kov (elems t) \<Longrightarrow>
    tree_lookup cmp kov k t = None \<longleftrightarrow> (\<forall>u \<in> set (elems t). \<not> same_key cmp k (kov u))"
proof -
  assume s: "key_sorted cmp kov (elems t)"
  show ?thesis
    unfolding not_Some_eq [symmetric] tree_lookup_iff [OF s] by blast
qed

lemma tree_lookup_cong:
  assumes "key_sorted cmp kov (elems t)" "key_sorted cmp kov (elems t')"
    and "\<And>u. same_key cmp k (kov u) \<Longrightarrow> u \<in> set (elems t) \<longleftrightarrow> u \<in> set (elems t')"
  shows "tree_lookup cmp kov k t = tree_lookup cmp kov k t'"
  using assms by (intro option_eqI) (auto simp: tree_lookup_iff)

lemma lookup_insert:
  assumes inv: "tree_inv cmp kov t"
  shows "tree_lookup cmp kov k (node_insert cmp kov v t) =
    (if same_key cmp k (kov v) \<and> tree_lookup cmp kov k t = None then Some v
     else tree_lookup cmp kov k t)"
proof -
  have s: "key_sorted cmp kov (elems t)" "key_sorted cmp kov (elems (node_insert cmp kov v t))"
    using inv tree_inv_insert [OF inv, of v] by (simp_all add: tree_inv_def)
  have e: "set (elems (node_insert cmp kov v t)) =
      (if \<exists>u \<in> set (elems t). same_key cmp (kov v) (kov u) then set (elems t)
       else insert v (set (elems t)))"
    using s(1) by (simp add: elems_node_insert set_ins_list_eq)
  show ?thesis
  proof (cases "same_key cmp k (kov v) \<and> tree_lookup cmp kov k t = None")
    case True
    then have "v \<in> set (elems (node_insert cmp kov v t))"
      using tree_lookup_None [OF s(1), of k] same_key_trans [of k "kov v"] unfolding e by simp
    with True show ?thesis
      using tree_lookup_iff [OF s(2), of k v] by simp
  next
    case False
    have "tree_lookup cmp kov k (node_insert cmp kov v t) = tree_lookup cmp kov k t"
    proof (rule tree_lookup_cong [OF s(2,1)])
      fix u
      assume "same_key cmp k (kov u)"
      then show "u \<in> set (elems (node_insert cmp kov v t)) \<longleftrightarrow> u \<in> set (elems t)"
        using False tree_lookup_None [OF s(1), of k] same_key_trans [of k "kov v"]
        unfolding e by (cases "u = v") simp_all
    qed
    with False show ?thesis by simp
  qed
qed

lemma lookup_replace:
  assumes inv: "tree_inv cmp kov t"
  shows "tree_lookup cmp kov k (node_replace cmp kov v t) =
    (if same_key cmp k (kov v) then Some v else tree_lookup cmp kov k t)"
proof -
  have s: "key_sorted cmp kov (elems t)" "key_sorted cmp kov (elems (node_replace cmp kov v t))"
    using inv tree_inv_replace [OF inv, of v] by (simp_all add: tree_inv_def)
  have e: "set (elems (node_replace cmp kov v t)) =
      insert v {u \<in> set (elems t). \<not> same_key cmp (kov v) (kov u)}"
    using s(1) by (simp add: elems_node_replace set_rep_list_eq)
  show ?thesis
  proof (cases "same_key cmp k (kov v)")
    case True
    then show ?thesis
      using tree_lookup_iff [OF s(2), of k v] by (simp add: e)
  next
    case False
    have "tree_lookup cmp kov k (node_replace cmp kov v t) = tree_lookup cmp kov k t"
    proof (rule tree_lookup_cong [OF s(2,1)])
      fix u
      assume "same_key cmp k (kov u)"
      with same_key_eq [OF this, of "kov v"] False
      show "u \<in> set (elems (node_replace cmp kov v t)) \<longleftrightarrow> u \<in> set (elems t)"
        by (auto simp: e)
    qed
    with False show ?thesis by simp
  qed
qed

lemma lookup_remove:
  assumes inv: "tree_inv cmp kov t"
  shows "tree_lookup cmp kov k (node_remove cmp kov k' t) =
    (if same_key cmp k k' then None else tree_lookup cmp kov k t)"
proof -
  have s: "key_sorted cmp kov (elems t)" "key_sorted cmp kov (elems (node_remove cmp kov k' t))"
    using inv tree_inv_remove [OF inv, of k'] by (simp_all add: tree_inv_def)
  have e: "set (elems (node_remove cmp kov k' t)) = {u \<in> set (elems t). \<not> same_key cmp k' (kov u)}"
    using s(1) by (simp add: elems_node_remove)
  show ?thesis
  proof (cases "same_key cmp k k'")
    case True
    then show ?thesis
      using same_key_trans [OF True] by (simp add: tree_lookup_None [OF s(2)] e)
  next
    case False
    have "tree_lookup cmp kov k (node_remove cmp kov k' t) = tree_lookup cmp kov k t"
    proof (rule tree_lookup_cong [OF s(2,1)])
      fix u
      assume "same_key cmp k (kov u)"
      with same_key_eq [OF this, of k'] False
      show "u \<in> set (elems (node_remove cmp kov k' t)) \<longleftrightarrow> u \<in> set (elems t)"
        by (simp add: e)
    qed
    with False show ?thesis by simp
  qed
qed

lemma lookup_previous_loop_last:
  "key_sorted cmp kov (elems t) \<Longrightarrow> lookup_previous_loop cmp kov k result t =
    (let ys = filter (\<lambda>u. \<not> cmp k (kov u)) (elems t) in if ys = [] then result else Some (last ys))"
proof (induction t arbitrary: result)
  case (Node l r u h)
  let ?P = "\<lambda>u. \<not> cmp k (kov u)"
  have srt: "key_sorted cmp kov (elems l)" "key_sorted cmp kov (elems r)"
    "\<forall>x \<in> set (elems l). cmp (kov x) (kov u)" "\<forall>x \<in> set (elems r). cmp (kov u) (kov x)"
    using Node.prems by (auto simp: key_sorted_simps)
  have hi: "filter ?P (elems r) = []" if "\<not> cmp (kov u) k"
    using srt(4) cmp_less_le(1) [OF that] by (simp add: filter_empty_conv)
  show ?case
    using Node.IH(1) [OF srt(1)] Node.IH(2) [OF srt(2)] hi cmp_asym [of k "kov u"]
    by (auto simp: Let_def)
qed simp

end

subsection \<open>Iterators: the values still to come\<close>

text \<open>
  \<open>remaining st\<close> is the sequence of values an iterator with stack \<open>st\<close> will yield: the value on
  top, its right subtree, and then what the ancestors contribute (\<open>above\<close>).
\<close>

fun above :: "'v node \<Rightarrow> 'v node list \<Rightarrow> 'v list" where
  "above prev [] = []"
| "above prev (n # st) = (if prev = left n then node_value n # elems (right n) else []) @ above n st"

fun remaining :: "'v node list \<Rightarrow> 'v list" where
  "remaining [] = []"
| "remaining (n # st) = node_value n # elems (right n) @ above n st"

fun path_to :: "'v node \<Rightarrow> 'v node list \<Rightarrow> bool" where
  "path_to root [] = True"
| "path_to root [n] = (n = root \<and> n \<noteq> Terminator)"
| "path_to root (c # n # st) = ((c = left n \<or> c = right n) \<and> c \<noteq> Terminator \<and> path_to root (n # st))"

definition iter_ok :: "'v iterator \<Rightarrow> bool" where
  "iter_ok i \<longleftrightarrow> path_to (it_root i) (fs_elts (it_stack i)) \<and> fs_max (it_stack i) = height (it_root i)"

definition iter_rest :: "'v iterator \<Rightarrow> 'v list" where
  "iter_rest i = remaining (fs_elts (it_stack i))"

fun iterate :: "nat \<Rightarrow> 'v node \<Rightarrow> 'v iterator \<Rightarrow> 'v list may_abort" where
  "iterate 0 t i = None"
| "iterate (Suc fuel) t i = do {
     e \<leftarrow> iterator_new t False;
     if iterator_eq i e then Some []
     else do {
       v \<leftarrow> iterator_deref i;
       i \<leftarrow> iterator_incr i;
       vs \<leftarrow> iterate fuel t i;
       Some (v # vs) } }"

lemma path_to_tl: "path_to root (n # st) \<Longrightarrow> path_to root st"
  by (cases st) auto

lemma path_to_not_Terminator: "path_to root (n # st) \<Longrightarrow> n \<noteq> Terminator"
  by (cases st) auto

lemma balanced_child:
  assumes "balanced n" "c = left n \<or> c = right n" "c \<noteq> Terminator"
  shows "balanced c" "height c + 1 \<le> height n"
  using assms by (cases n; auto)+

lemma path_to_balanced:
  "balanced root \<Longrightarrow> path_to root (n # st) \<Longrightarrow> balanced n \<and> length st + height n \<le> height root"
proof (induction st arbitrary: n)
  case (Cons m st)
  then have "balanced m" "length st + height m \<le> height root" "n = left m \<or> n = right m" "n \<noteq> Terminator"
    by auto
  with balanced_child [of m n] show ?case by auto
qed simp

lemma climb_left_remaining: "remaining (climb_left (n # st)) = above n st"
  by (induction st arbitrary: n) auto

lemma climb_left_path: "path_to root st \<Longrightarrow> path_to root (climb_left st)"
  by (induction st rule: climb_left.induct) (auto dest: path_to_tl)

lemma fs_push_back_fits:
  "length (fs_elts s) < fs_max s \<Longrightarrow> fs_push_back x s = Some (s\<lparr>fs_elts := x # fs_elts s\<rparr>)"
  by (simp add: fs_push_back_def)

text \<open>Pushing a whole left spine never overflows the stack and yields the subtree in order.\<close>

lemma push_left_ok:
  assumes "balanced c" "length (fs_elts s) + height c \<le> fs_max s"
    and "c \<noteq> Terminator \<Longrightarrow> path_to root (c # fs_elts s)"
  shows "\<exists>s'. push_left c s = Some s' \<and> fs_max s' = fs_max s
    \<and> (if c = Terminator then s' = s
       else path_to root (fs_elts s') \<and> remaining (fs_elts s') = elems c @ above c (fs_elts s))"
  using assms
proof (induction c arbitrary: s)
  case (Node l r v h)
  let ?s = "s\<lparr>fs_elts := Node l r v h # fs_elts s\<rparr>"
  have "h = max (height l) (height r) + 1" "balanced l"
    using Node.prems(1) by simp_all
  then have push: "fs_push_back (Node l r v h) s = Some ?s"
    and fit: "length (fs_elts ?s) + height l \<le> fs_max ?s"
    using Node.prems(2) by (simp_all add: fs_push_back_def)
  have p: "l \<noteq> Terminator \<Longrightarrow> path_to root (l # fs_elts ?s)"
    using Node.prems(3) by simp
  from Node.IH(1) [OF \<open>balanced l\<close> fit p] push Node.prems(3)
  show ?case by (auto split: if_splits)
qed simp

lemma iterator_deref_rest:
  "iterator_deref i = (case iter_rest i of [] \<Rightarrow> None | v # _ \<Rightarrow> Some v)"
  by (cases "fs_elts (it_stack i)") (simp_all add: iterator_deref_def iter_rest_def)

lemma iterator_eq_end:
  "iterator_new t False = Some e \<Longrightarrow> iterator_eq i e \<longleftrightarrow> iter_rest i = []"
  by (cases "fs_elts (it_stack i)")
    (auto simp: iterator_new_def iterator_eq_def fs_eq_def fs_new_def iter_rest_def)

lemma tree_begin_ok:
  assumes "balanced t"
  shows "\<exists>i. tree_begin t = Some i \<and> iter_ok i \<and> it_root i = t \<and> iter_rest i = elems t"
  using assms push_left_ok [of t "fs_new (height t)" t]
  by (cases "t = Terminator")
    (auto simp: tree_begin_def iterator_new_def iter_ok_def iter_rest_def fs_new_def)

context strict_weak_order
begin

lemma sorted_child_distinct:
  assumes "key_sorted cmp kov (elems n)" "right n \<noteq> Terminator"
  shows "right n \<noteq> left n"
proof
  assume eq: "right n = left n"
  define u where "u = node_value (right n)"
  have "u \<in> set (elems (right n))"
    using assms(2) by (cases "right n") (auto simp: u_def)
  with eq assms have "cmp (kov u) (kov u)"
    by (cases n) (auto simp: key_sorted_simps dest!: bspec [where x = u])
  then show False by simp
qed

lemma path_to_sorted:
  "key_sorted cmp kov (elems root) \<Longrightarrow> path_to root (n # st) \<Longrightarrow> key_sorted cmp kov (elems n)"
proof (induction st arbitrary: n)
  case (Cons m st)
  then have "key_sorted cmp kov (elems m)" "n = left m \<or> n = right m" by auto
  then show ?case by (cases m) (auto simp: key_sorted_simps)
qed simp

lemma iterator_incr_ok:
  assumes inv: "tree_inv cmp kov (it_root i)" and ok: "iter_ok i" and ne: "iter_rest i \<noteq> []"
  shows "\<exists>i'. iterator_incr i = Some i' \<and> iter_ok i' \<and> it_root i' = it_root i
    \<and> iter_rest i' = tl (iter_rest i)"
proof -
  obtain n st where st: "fs_elts (it_stack i) = n # st"
    using ne by (cases "fs_elts (it_stack i)") (auto simp: iter_rest_def)
  have path: "path_to (it_root i) (n # st)"
    using ok st by (simp add: iter_ok_def)
  show ?thesis
  proof (cases "right n = Terminator")
    case True
    then show ?thesis
      using ok st climb_left_path [OF path]
      by (simp add: iterator_incr_def iter_ok_def iter_rest_def climb_left_remaining)
  next
    case False
    have bal: "balanced n" "length st + height n \<le> height (it_root i)"
      using path_to_balanced path inv by (auto simp: tree_inv_def)
    have c: "balanced (right n)" "height (right n) + 1 \<le> height n"
      using balanced_child [OF bal(1), of "right n"] False by auto
    have ab: "above (right n) (n # st) = above n st"
      using sorted_child_distinct [OF path_to_sorted [of kov, OF _ path] False] inv
      by (simp add: tree_inv_def)
    have eq: "iterator_incr i = map_option (\<lambda>s. i\<lparr>it_stack := s\<rparr>) (push_left (right n) (it_stack i))"
      using False st by (cases "right n") (auto simp: iterator_incr_def split: bind_splits)
    from push_left_ok [of "right n" "it_stack i" "it_root i"] show ?thesis
      using ok st bal c False path ab unfolding eq
      by (auto simp: iter_ok_def iter_rest_def simp del: above.simps)
  qed
qed

lemma lower_bound_loop_ok:
  assumes "balanced c" "key_sorted cmp kov (elems c)" "c \<noteq> Terminator"
    and "length (fs_elts s) + height c \<le> fs_max s" "path_to root (c # fs_elts s)"
  shows "\<exists>found s'. lower_bound_loop cmp kov k c s = Some (found, s') \<and> fs_max s' = fs_max s
    \<and> path_to root (fs_elts s') \<and> fs_elts s' \<noteq> []
    \<and> filter (\<lambda>u. \<not> cmp (kov u) k) (elems c) @ above c (fs_elts s) =
      (if \<not> found \<and> cmp (kov (node_value (hd (fs_elts s')))) k then tl (remaining (fs_elts s'))
       else remaining (fs_elts s'))"
  using assms
proof (induction c arbitrary: s)
  case (Node l r u h)
  let ?c = "Node l r u h"
  let ?P = "\<lambda>u. \<not> cmp (kov u) k"
  let ?s = "s\<lparr>fs_elts := ?c # fs_elts s\<rparr>"
  have h: "h = max (height l) (height r) + 1" "balanced l" "balanced r"
    using Node.prems(1) by simp_all
  then have push: "fs_push_back ?c s = Some ?s"
    and fit: "length (fs_elts ?s) + height l \<le> fs_max ?s" "length (fs_elts ?s) + height r \<le> fs_max ?s"
    using Node.prems(4) by (simp_all add: fs_push_back_def)
  have srt: "key_sorted cmp kov (elems l)" "key_sorted cmp kov (elems r)"
    "\<forall>x \<in> set (elems l). cmp (kov x) (kov u)" "\<forall>x \<in> set (elems r). cmp (kov u) (kov x)"
    using Node.prems(2) by (auto simp: key_sorted_simps)
  have hi: "filter ?P (elems r) = elems r" if "\<not> cmp (kov u) k"
    using srt(4) that cmp_asym cmp_less_le(1) [OF that] by (auto simp: filter_id_conv)
  have lo: "filter ?P (elems l) = []" if "\<not> cmp k (kov u)"
    using srt(3) cmp_less_le(2) [OF _ that] by (simp add: filter_empty_conv)
  have ne: "r \<noteq> Terminator \<Longrightarrow> r \<noteq> l"
    using sorted_child_distinct [of kov ?c] Node.prems(2) by simp
  consider (lt) "cmp k (kov u)" "\<not> cmp (kov u) k" | (gt) "cmp (kov u) k" "\<not> cmp k (kov u)"
    | (eq) "\<not> cmp (kov u) k" "\<not> cmp k (kov u)"
    using cmp_asym by blast
  then show ?case
  proof cases
    case lt
    then show ?thesis
      using Node.IH(1) [OF h(2) srt(1) _ fit(1)] Node.prems(5) push hi
      by (cases "l = Terminator") auto
  next
    case gt
    then show ?thesis
      using Node.IH(2) [OF h(3) srt(2) _ fit(2)] Node.prems(5) push lo ne
      by (cases "r = Terminator") auto
  next
    case eq
    then show ?thesis using Node.prems(5) push hi lo by auto
  qed
qed simp

lemma tree_lower_bound_ok:
  assumes inv: "tree_inv cmp kov t"
  shows "\<exists>i. tree_lower_bound cmp kov k t = Some i \<and> iter_ok i \<and> it_root i = t
    \<and> iter_rest i = filter (\<lambda>u. \<not> cmp (kov u) k) (elems t)"
proof (cases "t = Terminator")
  case True
  then show ?thesis
    by (simp add: tree_lower_bound_def iterator_new_def fs_new_def fs_empty_def iter_ok_def iter_rest_def)
next
  case False
  obtain found s' where loop: "lower_bound_loop cmp kov k t (fs_new (height t)) = Some (found, s')"
    "fs_max s' = height t" "path_to t (fs_elts s')" "fs_elts s' \<noteq> []"
    and rest: "filter (\<lambda>u. \<not> cmp (kov u) k) (elems t) =
      (if \<not> found \<and> cmp (kov (node_value (hd (fs_elts s')))) k then tl (remaining (fs_elts s'))
       else remaining (fs_elts s'))"
    using lower_bound_loop_ok [of t kov "fs_new (height t)" t k] inv False
    by (auto simp: tree_inv_def fs_new_def)
  let ?i = "\<lparr>it_root = t, it_stack = s'\<rparr>"
  have ok: "iter_ok ?i" "iter_rest ?i \<noteq> []" "fs_back s' = Some (hd (fs_elts s'))"
    using loop by (cases "fs_elts s'"; simp add: iter_ok_def iter_rest_def)+
  have eq: "tree_lower_bound cmp kov k t =
      (if \<not> found \<and> cmp (kov (node_value (hd (fs_elts s')))) k then iterator_incr ?i else Some ?i)"
    using loop ok(3) by (simp add: tree_lower_bound_def iterator_new_def fs_empty_def Let_def)
  show ?thesis
    using iterator_incr_ok [of kov ?i] inv ok rest unfolding eq by (auto simp: iter_rest_def)
qed

lemma filter_sorted_Cons:
  assumes "key_sorted cmp kov xs" "filter (\<lambda>u. \<not> cmp (kov u) k) xs = v # vs"
  shows "v \<in> set xs" "\<not> cmp (kov v) k" "\<forall>u \<in> set vs. cmp (kov v) (kov u)"
    and "filter (\<lambda>u. cmp k (kov u)) xs = (if cmp k (kov v) then v # vs else vs)"
proof -
  have "v \<in> set (filter (\<lambda>u. \<not> cmp (kov u) k) xs)" using assms(2) by simp
  then show v: "v \<in> set xs" "\<not> cmp (kov v) k" by auto
  have "key_sorted cmp kov (v # vs)"
    using assms unfolding key_sorted_def by (metis sorted_wrt_filter)
  then show vs: "\<forall>u \<in> set vs. cmp (kov v) (kov u)" by (simp add: key_sorted_Cons)
  have "filter (\<lambda>u. cmp k (kov u)) xs = filter (\<lambda>u. cmp k (kov u)) (filter (\<lambda>u. \<not> cmp (kov u) k) xs)"
    unfolding filter_filter by (rule filter_cong [OF refl]) (auto dest: cmp_asym)
  also have "\<dots> = (if cmp k (kov v) then v # vs else vs)"
    using vs cmp_less_le(1) [OF v(2)] by (simp add: assms(2) filter_id_conv)
  finally show "filter (\<lambda>u. cmp k (kov u)) xs = (if cmp k (kov v) then v # vs else vs)" .
qed

lemma tree_find_ok:
  assumes inv: "tree_inv cmp kov t"
  shows "\<exists>i. tree_find cmp kov k t = Some i \<and> iterator_deref i = tree_lookup cmp kov k t"
proof -
  have s: "key_sorted cmp kov (elems t)" using inv by (simp add: tree_inv_def)
  obtain i where i: "tree_lower_bound cmp kov k t = Some i"
    "iter_rest i = filter (\<lambda>u. \<not> cmp (kov u) k) (elems t)"
    using tree_lower_bound_ok [OF inv, of k] by blast
  obtain e where e: "iterator_new t False = Some e" "iterator_deref e = None"
    by (simp add: iterator_new_def iterator_deref_def fs_new_def)
  show ?thesis
  proof (cases "iter_rest i")
    case Nil
    then have "tree_lookup cmp kov k t = None"
      using i(2) by (auto simp: tree_lookup_None [OF s] same_key_def filter_empty_conv)
    with Nil show ?thesis
      using i e by (simp add: tree_find_def iterator_eq_end)
  next
    case (Cons v vs)
    note f = filter_sorted_Cons [OF s Cons [unfolded i(2)]]
    have "tree_lookup cmp kov k t = (if cmp k (kov v) then None else Some v)"
    proof (cases "cmp k (kov v)")
      case True
      have "\<not> same_key cmp k (kov u)" if "u \<in> set (elems t)" for u
      proof
        assume k: "same_key cmp k (kov u)"
        then have "u \<in> set (iter_rest i)"
          using that by (simp add: i(2) same_key_def)
        then have "u = v \<or> cmp (kov v) (kov u)" using f(3) Cons by auto
        with True k show False using cmp_trans by (auto simp: same_key_def)
      qed
      with True show ?thesis by (simp add: tree_lookup_None [OF s])
    next
      case False
      with f(1,2) show ?thesis by (simp add: tree_lookup_iff [OF s] same_key_def)
    qed
    with Cons show ?thesis
      using i e by (simp add: tree_find_def iterator_eq_end iterator_deref_rest)
  qed
qed

lemma tree_upper_bound_ok:
  assumes inv: "tree_inv cmp kov t"
  shows "\<exists>i. tree_upper_bound cmp kov k t = Some i \<and> iter_ok i \<and> it_root i = t
    \<and> iter_rest i = filter (\<lambda>u. cmp k (kov u)) (elems t)"
proof -
  have s: "key_sorted cmp kov (elems t)" using inv by (simp add: tree_inv_def)
  obtain i where i: "tree_lower_bound cmp kov k t = Some i" "iter_ok i" "it_root i = t"
    "iter_rest i = filter (\<lambda>u. \<not> cmp (kov u) k) (elems t)"
    using tree_lower_bound_ok [OF inv, of k] by blast
  obtain e where e: "iterator_new t False = Some e"
    by (simp add: iterator_new_def)
  show ?thesis
  proof (cases "iter_rest i")
    case Nil
    then have "filter (\<lambda>u. cmp k (kov u)) (elems t) = []"
      using i(4) cmp_asym by (auto simp: filter_empty_conv)
    with Nil show ?thesis using i e by (simp add: tree_upper_bound_def iterator_eq_end)
  next
    case (Cons v vs)
    note f = filter_sorted_Cons(4) [OF s Cons [unfolded i(4)]]
    show ?thesis
      using Cons i e f iterator_incr_ok [of kov i] inv
      by (auto simp: tree_upper_bound_def iterator_eq_end iterator_deref_rest)
  qed
qed

text \<open>A loop from an iterator to the end collects the values that remain.\<close>

lemma iterate_ok:
  assumes "tree_inv cmp kov t" "iter_ok i" "it_root i = t" "length (iter_rest i) < fuel"
  shows "iterate fuel t i = Some (iter_rest i)"
  using assms
proof (induction fuel arbitrary: i)
  case (Suc fuel)
  obtain e where e: "iterator_new t False = Some e"
    by (simp add: iterator_new_def)
  show ?case
  proof (cases "iter_rest i")
    case Nil
    then show ?thesis using e by (simp add: iterator_eq_end)
  next
    case (Cons v vs)
    then obtain i' where "iterator_incr i = Some i'" "iter_ok i'" "it_root i' = t" "iter_rest i' = vs"
      using iterator_incr_ok [of kov i] Suc.prems by auto
    with Suc Cons e show ?thesis by (simp add: iterator_eq_end iterator_deref_rest)
  qed
qed simp

end

lemma height_log: "balanced t \<Longrightarrow> 2 ^ (height t div 3) \<le> node_size t + 1"
proof (induction t)
  case (Node l r u h)
  then have h: "h = max (height l) (height r) + 1" "h - 3 \<le> height l" "h - 3 \<le> height r"
    by auto
  show ?case
  proof (cases "3 \<le> h")
    case True
    then have "h div 3 = Suc ((h - 3) div 3)" by (simp add: le_div_geq)
    moreover have "2 ^ ((h - 3) div 3) \<le> node_size l + 1" "2 ^ ((h - 3) div 3) \<le> node_size r + 1"
      using Node h(2,3) by (auto intro: order_trans [OF power_increasing [OF div_le_mono]])
    ultimately show ?thesis by simp
  next
    case False
    then show ?thesis by simp
  qed
qed simp

lemma node_size_elems: "node_size t = length (elems t)"
  by (induction t) auto

subsection \<open>ImmutableMap and ImmutableSet\<close>

text \<open>
  The wrappers fix the key of a value: the first component of a pair, or the value itself.
\<close>

type_synonym ('k, 'd) imap = "('k \<times> 'd) node"

definition imap_empty :: "('k, 'd) imap" where
  "imap_empty = Terminator"

definition imap_count :: "('k \<Rightarrow> 'k \<Rightarrow> bool) \<Rightarrow> ('k, 'd) imap \<Rightarrow> 'k \<Rightarrow> nat" where
  "imap_count cmp m k = tree_count cmp fst k m"

definition imap_lookup :: "('k \<Rightarrow> 'k \<Rightarrow> bool) \<Rightarrow> ('k, 'd) imap \<Rightarrow> 'k \<Rightarrow> ('k \<times> 'd) option" where
  "imap_lookup cmp m k = tree_lookup cmp fst k m"

definition imap_lookup_previous ::
  "('k \<Rightarrow> 'k \<Rightarrow> bool) \<Rightarrow> ('k, 'd) imap \<Rightarrow> 'k \<Rightarrow> ('k \<times> 'd) option" where
  "imap_lookup_previous cmp m k = tree_lookup_previous cmp fst k m"

definition imap_size :: "('k, 'd) imap \<Rightarrow> nat" where
  "imap_size m = node_size m"

definition imap_insert :: "('k \<Rightarrow> 'k \<Rightarrow> bool) \<Rightarrow> ('k, 'd) imap \<Rightarrow> 'k \<times> 'd \<Rightarrow> ('k, 'd) imap" where
  "imap_insert cmp m v = node_insert cmp fst v m"

definition imap_replace :: "('k \<Rightarrow> 'k \<Rightarrow> bool) \<Rightarrow> ('k, 'd) imap \<Rightarrow> 'k \<times> 'd \<Rightarrow> ('k, 'd) imap" where
  "imap_replace cmp m v = node_replace cmp fst v m"

definition imap_remove :: "('k \<Rightarrow> 'k \<Rightarrow> bool) \<Rightarrow> ('k, 'd) imap \<Rightarrow> 'k \<Rightarrow> ('k, 'd) imap" where
  "imap_remove cmp m k = node_remove cmp fst k m"

type_synonym 'a iset = "'a node"

definition iset_count :: "('a \<Rightarrow> 'a \<Rightarrow> bool) \<Rightarrow> 'a iset \<Rightarrow> 'a \<Rightarrow> nat" where
  "iset_count cmp s k = tree_count cmp (\<lambda>a. a) k s"

definition iset_insert :: "('a \<Rightarrow> 'a \<Rightarrow> bool) \<Rightarrow> 'a iset \<Rightarrow> 'a \<Rightarrow> 'a iset" where
  "iset_insert cmp s v = node_insert cmp (\<lambda>a. a) v s"

definition iset_remove :: "('a \<Rightarrow> 'a \<Rightarrow> bool) \<Rightarrow> 'a iset \<Rightarrow> 'a \<Rightarrow> 'a iset" where
  "iset_remove cmp s k = node_remove cmp (\<lambda>a. a) k s"

text \<open>
  The interface of a map, and \<^verbatim>\<open>ImmutableMap\<close> as its implementation. The laws are those of a
  lookup after each update, under an invariant that the updates keep.
\<close>

locale map_interface =
  fixes mempty :: 'm and mlookup :: "'m \<Rightarrow> 'k \<Rightarrow> 'v option"
    and mput :: "'m \<Rightarrow> 'v \<Rightarrow> 'm" and mdel :: "'m \<Rightarrow> 'k \<Rightarrow> 'm"
    and minv :: "'m \<Rightarrow> bool" and same :: "'k \<Rightarrow> 'k \<Rightarrow> bool" and key :: "'v \<Rightarrow> 'k"
  assumes empty_inv: "minv mempty"
    and put_inv: "minv m \<Longrightarrow> minv (mput m v)"
    and del_inv: "minv m \<Longrightarrow> minv (mdel m k)"
    and lookup_mempty: "mlookup mempty k = None"
    and lookup_mput: "minv m \<Longrightarrow> mlookup (mput m v) k = (if same k (key v) then Some v else mlookup m k)"
    and lookup_mdel: "minv m \<Longrightarrow> mlookup (mdel m k') k = (if same k k' then None else mlookup m k)"
begin

lemma fold_put_inv: "minv m \<Longrightarrow> minv (foldl mput m vs)"
  by (induction vs arbitrary: m) (auto simp: put_inv)

lemma lookup_fold_put:
  "minv m \<Longrightarrow> mlookup (foldl mput m vs) k =
    (case List.find (\<lambda>v. same k (key v)) (rev vs) of Some v \<Rightarrow> Some v | None \<Rightarrow> mlookup m k)"
proof (induction vs rule: rev_induct)
  case (snoc v vs)
  then show ?case by (simp add: lookup_mput fold_put_inv)
qed simp

end

context strict_weak_order
begin

lemma imap_interface:
  "map_interface imap_empty (imap_lookup cmp) (imap_replace cmp) (imap_remove cmp)
    (tree_inv cmp fst) (same_key cmp) fst"
  by unfold_locales
    (simp_all add: imap_empty_def imap_lookup_def imap_replace_def imap_remove_def tree_inv_def
      tree_inv_replace [unfolded tree_inv_def] tree_inv_remove [unfolded tree_inv_def]
      lookup_replace [unfolded tree_inv_def] lookup_remove [unfolded tree_inv_def])

end

subsection \<open>Properties\<close>

text \<open>\<^verbatim>\<open>std::less\<close>, the default comparison of the wrappers.\<close>

lemma strict_weak_order_less: "strict_weak_order ((<) :: 'a::linorder \<Rightarrow> 'a \<Rightarrow> bool)"
  by unfold_locales auto

interpretation std_less: map_interface imap_empty "imap_lookup ((<) :: 'k::linorder \<Rightarrow> 'k \<Rightarrow> bool)"
  "imap_replace (<)" "imap_remove (<)" "tree_inv (<) fst" "same_key (<)" fst
  by (rule strict_weak_order.imap_interface [OF strict_weak_order_less])

lemmas tree_eval = tree_inv_def key_sorted_def new_Node_def balance_def same_key_def

text \<open>
  C5: the tree invariant. For every strict weak order of the keys, \<^verbatim>\<open>insert\<close>, \<^verbatim>\<open>replace\<close>, \<^verbatim>\<open>remove\<close>,
  \<^verbatim>\<open>popMin\<close> and \<^verbatim>\<open>popMax\<close> keep the tree sorted by key and height-balanced with correctly stored
  heights, so the height stays logarithmic in the number of values.
\<close>

theorem tree_invariant:
  assumes "strict_weak_order cmp" "tree_inv cmp kov t"
  shows "tree_inv cmp kov (node_insert cmp kov v t) \<and> tree_inv cmp kov (node_replace cmp kov v t)
    \<and> tree_inv cmp kov (node_remove cmp kov k t) \<and> tree_inv cmp kov (fst (node_popMin t))
    \<and> tree_inv cmp kov (fst (node_popMax t)) \<and> 2 ^ (height t div 3) \<le> node_size t + 1"
  using strict_weak_order.tree_inv_intros [OF assms] height_log [of t] assms(2)
  by (simp add: tree_inv_def)

theorem tree_invariant_witness:
  "tree_inv (<) (\<lambda>x. x) (node_remove (<) (\<lambda>x. x) 3 (Node (Node Terminator Terminator 1 1) Terminator (3::nat) 2))"
  using tree_invariant [OF strict_weak_order_less,
      of "\<lambda>x. x" "Node (Node Terminator Terminator 1 1) Terminator (3::nat) 2" 0 3]
  by (simp add: tree_inv_def key_sorted_def)

text \<open>
  C15: lookups. After \<^verbatim>\<open>insert\<close> a key of an existing value still has the old value, after \<^verbatim>\<open>replace\<close>
  it has the new one, after \<^verbatim>\<open>remove\<close> none, and every other key is unaffected.
\<close>

theorem tree_lookup_laws:
  assumes "strict_weak_order cmp" "tree_inv cmp kov t"
  shows "tree_lookup cmp kov k (node_insert cmp kov v t) =
      (if same_key cmp k (kov v) \<and> tree_lookup cmp kov k t = None then Some v
       else tree_lookup cmp kov k t)
    \<and> tree_lookup cmp kov k (node_replace cmp kov v t) =
      (if same_key cmp k (kov v) then Some v else tree_lookup cmp kov k t)
    \<and> tree_lookup cmp kov k (node_remove cmp kov k' t) =
      (if same_key cmp k k' then None else tree_lookup cmp kov k t)"
  using strict_weak_order.lookup_insert [OF assms] strict_weak_order.lookup_replace [OF assms]
    strict_weak_order.lookup_remove [OF assms] by simp

theorem tree_lookup_laws_witness:
  "tree_lookup (<) fst 3 (node_replace (<) fst (3, ''new'')
     (Node (Node Terminator Terminator (1, ''a'') 1) Terminator (3::nat, ''old'') 2)) = Some (3, ''new'')"
  using tree_lookup_laws [OF strict_weak_order_less, of fst
      "Node (Node Terminator Terminator (1, ''a'') 1) Terminator (3::nat, ''old'') 2" 3 "(3, ''new'')" 0]
  by (simp add: tree_inv_def key_sorted_def same_key_def)

text \<open>
  C26: \<^verbatim>\<open>lookup_previous\<close> returns the last value whose key is not greater than the given key, and
  null when there is none. The address space finds the object of an address with it.
\<close>

theorem tree_lookup_previous_correct:
  assumes "strict_weak_order cmp" "tree_inv cmp kov t"
  shows "tree_lookup_previous cmp kov k t =
    (let below = filter (\<lambda>u. \<not> cmp k (kov u)) (elems t)
     in if below = [] then None else Some (last below))"
  using assms strict_weak_order.lookup_previous_loop_last [of cmp kov t k None]
  by (simp add: tree_lookup_previous_def tree_inv_def)

theorem tree_lookup_previous_correct_witness:
  "tree_lookup_previous (<) (\<lambda>x. x) 4
     (Node (Node Terminator Terminator 1 1) (Node Terminator Terminator 6 1) (3::nat) 2) = Some 3"
  using tree_lookup_previous_correct [OF strict_weak_order_less, of "\<lambda>x. x"
      "Node (Node Terminator Terminator 1 1) (Node Terminator Terminator 6 1) (3::nat) 2" 4]
  by (simp add: tree_inv_def key_sorted_def)

text \<open>
  C27: iteration. A loop from \<^verbatim>\<open>begin\<close> to \<^verbatim>\<open>end\<close> visits all values in key order, and one that starts
  at \<^verbatim>\<open>lower_bound\<close> or \<^verbatim>\<open>upper_bound\<close> exactly those not below, respectively above, the key. The
  stack of the iterator, whose capacity is the stored height of the root, never overflows.
\<close>

theorem tree_iteration:
  assumes "strict_weak_order cmp" "tree_inv cmp kov t" "length (elems t) < fuel"
  shows "Option.bind (tree_begin t) (iterate fuel t) = Some (elems t)
    \<and> Option.bind (tree_lower_bound cmp kov k t) (iterate fuel t) =
      Some (filter (\<lambda>u. \<not> cmp (kov u) k) (elems t))
    \<and> Option.bind (tree_upper_bound cmp kov k t) (iterate fuel t) =
      Some (filter (\<lambda>u. cmp k (kov u)) (elems t))"
proof -
  note ok = strict_weak_order.iterate_ok [OF assms(1,2)]
  have len: "length (filter P (elems t)) < fuel" for P
    using assms(3) length_filter_le [of P "elems t"] by linarith
  show ?thesis
    using tree_begin_ok [of t] strict_weak_order.tree_lower_bound_ok [OF assms(1,2), of k]
      strict_weak_order.tree_upper_bound_ok [OF assms(1,2), of k] ok len assms
    by (auto simp: tree_inv_def)
qed

theorem tree_iteration_witness:
  "Option.bind (tree_lower_bound (<) (\<lambda>x. x) 2
      (Node (Node Terminator Terminator 1 1) (Node Terminator Terminator 6 1) (3::nat) 2))
    (iterate 4 (Node (Node Terminator Terminator 1 1) (Node Terminator Terminator 6 1) 3 2)) = Some [3, 6]"
  using tree_iteration [OF strict_weak_order_less, of "\<lambda>x. x"
      "Node (Node Terminator Terminator 1 1) (Node Terminator Terminator 6 1) (3::nat) 2" 4 2]
  by (simp add: tree_inv_def key_sorted_def)

end
