(* ===== verification/Bits.thy ===== *)
theory Bits
  imports S2E_Prelude
begin

text \<open>
  Machine integers of the engine: \<^verbatim>\<open>klee/util/Bits.h\<close> (masks and bit scans on 32- and
  64-bit words), \<^verbatim>\<open>klee/Internal/Support/IntEvaluation.h\<close> (the arithmetic of values of at
  most 64 bits kept in a \<^verbatim>\<open>uint64_t\<close> with zero upper bits) and \<^verbatim>\<open>klee/util/BitArray.h\<close> (the
  packed bit vectors that hold the masks of an object).

  Every width \<open>N\<close> is a natural number. \<^verbatim>\<open>Bits.h\<close> states the preconditions \<open>0 < N \<le> 64\<close> of its
  masks in comments (outside of them the C++ shift amount is out of range), and the properties
  assume them. The operations of \<^verbatim>\<open>IntEvaluation.h\<close> state no precondition on a shift amount or a
  divisor: where C++ leaves the result undefined the definitions return \<open>None\<close>.
\<close>

subsection \<open>bits32\<close>

definition maxValueOfNBits32 :: "nat \<Rightarrow> uint32_t" where
  "maxValueOfNBits32 N = (if N = 0 then 0 else drop_bit (32 - N) (- 1))"

definition truncateToNBits32 :: "uint32_t \<Rightarrow> nat \<Rightarrow> uint32_t" where
  "truncateToNBits32 x N = x AND drop_bit (32 - N) (- 1)"

definition withoutRightmostBit32 :: "uint32_t \<Rightarrow> uint32_t" where
  "withoutRightmostBit32 x = x AND (x - 1)"

definition isolateRightmostBit32 :: "uint32_t \<Rightarrow> uint32_t" where
  "isolateRightmostBit32 x = x AND - x"

definition isPowerOfTwo32 :: "uint32_t \<Rightarrow> bool" where
  "isPowerOfTwo32 x = (if x = 0 then False else x AND (x - 1) = 0)"

definition indexOfSingleBit32 :: "uint32_t \<Rightarrow> nat" where
  "indexOfSingleBit32 x =
     (if x AND 0xFFFF0000 \<noteq> 0 then 16 else 0) +
     (if x AND 0xFF00FF00 \<noteq> 0 then 8 else 0) +
     (if x AND 0xF0F0F0F0 \<noteq> 0 then 4 else 0) +
     (if x AND 0xCCCCCCCC \<noteq> 0 then 2 else 0) +
     (if x AND 0xAAAAAAAA \<noteq> 0 then 1 else 0)"

definition indexOfRightmostBit32 :: "uint32_t \<Rightarrow> nat" where
  "indexOfRightmostBit32 x = indexOfSingleBit32 (isolateRightmostBit32 x)"

subsection \<open>bits64\<close>

definition maxValueOfNBits :: "nat \<Rightarrow> uint64_t" where
  "maxValueOfNBits N = (if N = 0 then 0 else drop_bit (64 - N) (- 1))"

definition truncateToNBits :: "uint64_t \<Rightarrow> nat \<Rightarrow> uint64_t" where
  "truncateToNBits x N = x AND drop_bit (64 - N) (- 1)"

definition withoutRightmostBit :: "uint64_t \<Rightarrow> uint64_t" where
  "withoutRightmostBit x = x AND (x - 1)"

definition isolateRightmostBit :: "uint64_t \<Rightarrow> uint64_t" where
  "isolateRightmostBit x = x AND - x"

definition isPowerOfTwo :: "uint64_t \<Rightarrow> bool" where
  "isPowerOfTwo x = (if x = 0 then False else x AND (x - 1) = 0)"

definition indexOfSingleBit :: "uint64_t \<Rightarrow> nat" where
  "indexOfSingleBit x =
     indexOfSingleBit32 (ucast (x OR drop_bit 32 x)) +
     (if x AND push_bit 32 0xFFFFFFFF \<noteq> 0 then 32 else 0)"

definition indexOfRightmostBit :: "uint64_t \<Rightarrow> nat" where
  "indexOfRightmostBit x = indexOfSingleBit (isolateRightmostBit x)"

subsection \<open>ints: arithmetic on values of at most 64 bits\<close>

text \<open>
  A signed value is read from the 64-bit word by \<open>sint\<close>; C++ division truncates towards zero,
  which is \<open>sdiv\<close>/\<open>smod\<close> of \<open>HOL-Library.Signed_Division\<close>. A zero divisor, the quotient of the
  smallest \<^verbatim>\<open>int64_t\<close> by \<open>- 1\<close> (which does not fit) and a shift by 64 or more are \<open>None\<close>.
\<close>

definition add_i :: "uint64_t \<Rightarrow> uint64_t \<Rightarrow> nat \<Rightarrow> uint64_t" where
  "add_i l r inWidth = truncateToNBits (l + r) inWidth"

definition sub_i :: "uint64_t \<Rightarrow> uint64_t \<Rightarrow> nat \<Rightarrow> uint64_t" where
  "sub_i l r inWidth = truncateToNBits (l - r) inWidth"

definition mul_i :: "uint64_t \<Rightarrow> uint64_t \<Rightarrow> nat \<Rightarrow> uint64_t" where
  "mul_i l r inWidth = truncateToNBits (l * r) inWidth"

definition trunc_i :: "uint64_t \<Rightarrow> nat \<Rightarrow> nat \<Rightarrow> uint64_t" where
  "trunc_i l outWidth inWidth = truncateToNBits l outWidth"

definition zext_i :: "uint64_t \<Rightarrow> nat \<Rightarrow> nat \<Rightarrow> uint64_t" where
  "zext_i l outWidth inWidth = l"

definition sext_i :: "uint64_t \<Rightarrow> nat \<Rightarrow> nat \<Rightarrow> uint64_t" where
  "sext_i l outWidth inWidth =
     (let numInvalidBits = 64 - inWidth in
      truncateToNBits (signed_drop_bit numInvalidBits (push_bit numInvalidBits l)) outWidth)"

definition udiv_i :: "uint64_t \<Rightarrow> uint64_t \<Rightarrow> nat \<Rightarrow> uint64_t may_abort" where
  "udiv_i l r inWidth = (if r = 0 then None else Some (truncateToNBits (l div r) inWidth))"

definition urem_i :: "uint64_t \<Rightarrow> uint64_t \<Rightarrow> nat \<Rightarrow> uint64_t may_abort" where
  "urem_i l r inWidth = (if r = 0 then None else Some (truncateToNBits (l mod r) inWidth))"

definition sdiv_undefined :: "int \<Rightarrow> int \<Rightarrow> bool" where
  "sdiv_undefined sl sr \<longleftrightarrow> sr = 0 \<or> sl = - (2 ^ 63) \<and> sr = - 1"

definition sdiv_i :: "uint64_t \<Rightarrow> uint64_t \<Rightarrow> nat \<Rightarrow> uint64_t may_abort" where
  "sdiv_i l r inWidth =
     (let sl = sint (sext_i l 64 inWidth); sr = sint (sext_i r 64 inWidth) in
      if sdiv_undefined sl sr then None else Some (truncateToNBits (word_of_int (sl sdiv sr)) inWidth))"

definition srem_i :: "uint64_t \<Rightarrow> uint64_t \<Rightarrow> nat \<Rightarrow> uint64_t may_abort" where
  "srem_i l r inWidth =
     (let sl = sint (sext_i l 64 inWidth); sr = sint (sext_i r 64 inWidth) in
      if sdiv_undefined sl sr then None else Some (truncateToNBits (word_of_int (sl smod sr)) inWidth))"

definition ashr_i :: "uint64_t \<Rightarrow> uint64_t \<Rightarrow> nat \<Rightarrow> uint64_t may_abort" where
  "ashr_i l shift inWidth =
     (if 64 \<le> shift then None
      else Some (truncateToNBits (signed_drop_bit (unat shift) (sext_i l 64 inWidth)) inWidth))"

definition lshr_i :: "uint64_t \<Rightarrow> uint64_t \<Rightarrow> nat \<Rightarrow> uint64_t may_abort" where
  "lshr_i l shift inWidth =
     (if 64 \<le> shift then None else Some (drop_bit (unat shift) l))"

definition shl_i :: "uint64_t \<Rightarrow> uint64_t \<Rightarrow> nat \<Rightarrow> uint64_t may_abort" where
  "shl_i l shift inWidth =
     (if 64 \<le> shift then None else Some (truncateToNBits (push_bit (unat shift) l) inWidth))"

definition land_i :: "uint64_t \<Rightarrow> uint64_t \<Rightarrow> nat \<Rightarrow> uint64_t" where
  "land_i l r inWidth = l AND r"

definition lor_i :: "uint64_t \<Rightarrow> uint64_t \<Rightarrow> nat \<Rightarrow> uint64_t" where
  "lor_i l r inWidth = l OR r"

definition lxor_i :: "uint64_t \<Rightarrow> uint64_t \<Rightarrow> nat \<Rightarrow> uint64_t" where
  "lxor_i l r inWidth = l XOR r"

definition eq_i :: "uint64_t \<Rightarrow> uint64_t \<Rightarrow> nat \<Rightarrow> bool" where
  "eq_i l r inWidth = (l = r)"

definition ne_i :: "uint64_t \<Rightarrow> uint64_t \<Rightarrow> nat \<Rightarrow> bool" where
  "ne_i l r inWidth = (l \<noteq> r)"

definition ult_i :: "uint64_t \<Rightarrow> uint64_t \<Rightarrow> nat \<Rightarrow> bool" where
  "ult_i l r inWidth = (l < r)"

definition ule_i :: "uint64_t \<Rightarrow> uint64_t \<Rightarrow> nat \<Rightarrow> bool" where
  "ule_i l r inWidth = (l \<le> r)"

definition ugt_i :: "uint64_t \<Rightarrow> uint64_t \<Rightarrow> nat \<Rightarrow> bool" where
  "ugt_i l r inWidth = (l > r)"

definition uge_i :: "uint64_t \<Rightarrow> uint64_t \<Rightarrow> nat \<Rightarrow> bool" where
  "uge_i l r inWidth = (l \<ge> r)"

definition slt_i :: "uint64_t \<Rightarrow> uint64_t \<Rightarrow> nat \<Rightarrow> bool" where
  "slt_i l r inWidth = (sint (sext_i l 64 inWidth) < sint (sext_i r 64 inWidth))"

definition sle_i :: "uint64_t \<Rightarrow> uint64_t \<Rightarrow> nat \<Rightarrow> bool" where
  "sle_i l r inWidth = (sint (sext_i l 64 inWidth) \<le> sint (sext_i r 64 inWidth))"

definition sgt_i :: "uint64_t \<Rightarrow> uint64_t \<Rightarrow> nat \<Rightarrow> bool" where
  "sgt_i l r inWidth = (sint (sext_i l 64 inWidth) > sint (sext_i r 64 inWidth))"

definition sge_i :: "uint64_t \<Rightarrow> uint64_t \<Rightarrow> nat \<Rightarrow> bool" where
  "sge_i l r inWidth = (sint (sext_i l 64 inWidth) \<ge> sint (sext_i r 64 inWidth))"

subsection \<open>BitArray\<close>

text \<open>
  The array of 32-bit words behind \<^verbatim>\<open>BitArray\<close>. The sum in \<^verbatim>\<open>length\<close> is unsigned and wraps around. The C++ class does not store its length; every
  access is checked here against the words that were allocated, so an access outside them is
  \<open>None\<close>.
\<close>

definition length_ba :: "nat \<Rightarrow> nat" where
  "length_ba sz = nat ((int sz + 31) mod 2 ^ 32 div 32)"

type_synonym bitarray = "uint32_t list"

definition BitArray_new :: "nat \<Rightarrow> bool \<Rightarrow> bitarray" where
  "BitArray_new sz value = replicate (length_ba sz) (if value then 0xFFFFFFFF else 0)"

definition BitArray_copy :: "bitarray \<Rightarrow> nat \<Rightarrow> bitarray may_abort" where
  "BitArray_copy b sz = (if length_ba sz \<le> length b then Some (take (length_ba sz) b) else None)"

definition ba_get :: "bitarray \<Rightarrow> nat \<Rightarrow> bool may_abort" where
  "ba_get bits idx = do {
     w \<leftarrow> nth_opt bits (idx div 32);
     Some (drop_bit (idx mod 32) w AND 1 \<noteq> 0) }"

definition ba_set :: "bitarray \<Rightarrow> nat \<Rightarrow> bitarray may_abort" where
  "ba_set bits idx = do {
     w \<leftarrow> nth_opt bits (idx div 32);
     upd_opt bits (idx div 32) (w OR push_bit (idx mod 32) 1) }"

definition ba_unset :: "bitarray \<Rightarrow> nat \<Rightarrow> bitarray may_abort" where
  "ba_unset bits idx = do {
     w \<leftarrow> nth_opt bits (idx div 32);
     upd_opt bits (idx div 32) (w AND NOT (push_bit (idx mod 32) 1)) }"

definition ba_set_value :: "bitarray \<Rightarrow> nat \<Rightarrow> bool \<Rightarrow> bitarray may_abort" where
  "ba_set_value bits idx value = (if value then ba_set bits idx else ba_unset bits idx)"

fun ba_all_words :: "bitarray \<Rightarrow> uint32_t \<Rightarrow> nat \<Rightarrow> nat \<Rightarrow> bool may_abort" where
  "ba_all_words bits v i 0 = Some True"
| "ba_all_words bits v i (Suc n) = do {
     w \<leftarrow> nth_opt bits i;
     if w \<noteq> v then Some False else ba_all_words bits v (Suc i) n }"

definition isAllZeros :: "bitarray \<Rightarrow> nat \<Rightarrow> bool may_abort" where
  "isAllZeros bits sz = do {
     b \<leftarrow> ba_all_words bits 0 0 (sz div 32);
     if \<not> b then Some False else do {
       w \<leftarrow> nth_opt bits (sz div 32);
       Some (w AND (push_bit (sz mod 32) 1 - 1) = 0) } }"

definition isAllOnes :: "bitarray \<Rightarrow> nat \<Rightarrow> bool may_abort" where
  "isAllOnes bits sz = do {
     b \<leftarrow> ba_all_words bits 0xffffffff 0 (sz div 32);
     if \<not> b then Some False else do {
       w \<leftarrow> nth_opt bits (sz div 32);
       let m = push_bit (sz mod 32) 1 - 1 in
       Some (w AND m = m) } }"

subsection \<open>Masks and sign extension\<close>

lemma truncateToNBits_take_bit:
  "N \<le> 64 \<Longrightarrow> truncateToNBits x N = take_bit N x"
  using and_ones_shift_eq_take_bit [of N x] by (simp add: truncateToNBits_def)

text \<open>The signed reading of a value of width \<open>w\<close>: two's complement on its low \<open>w\<close> bits.\<close>

definition sval :: "nat \<Rightarrow> uint64_t \<Rightarrow> int" where
  "sval w x = signed_take_bit (w - 1) (uint x)"

lemma sint_sext_i:
  assumes "0 < w" "w \<le> 64"
  shows "sint (sext_i l 64 w) = sval w l"
proof -
  obtain v where w: "w = Suc v" using assms(1) by (cases w) auto
  show ?thesis
    by (rule bit_eqI)
      (use assms(2) w in \<open>auto simp: sext_i_def sval_def Let_def truncateToNBits_take_bit bit_simps
        min_def not_le less_Suc_eq_le dest: le_antisym\<close>)
qed

lemma uint_truncateToNBits: "N \<le> 64 \<Longrightarrow> uint (truncateToNBits x N) = uint x mod 2 ^ N"
  by (simp only: truncateToNBits_take_bit unsigned_take_bit_eq) (simp add: take_bit_eq_mod)

lemma uint_truncate_word_of_int:
  assumes "N \<le> 64"
  shows "uint (truncateToNBits (word_of_int k) N) = k mod 2 ^ N"
proof -
  have "take_bit N (take_bit 64 k) = take_bit N k"
    using assms by simp
  then show ?thesis
    using assms by (simp add: uint_truncateToNBits unsigned_of_int flip: take_bit_eq_mod)
qed

lemma single_bit_and: "push_bit i 1 AND (m :: 'a::len word) \<noteq> 0 \<longleftrightarrow> bit m i"
proof -
  have "push_bit i 1 AND m = (if bit m i then push_bit i 1 else 0)"
    by (rule bit_word_eqI) (auto simp: bit_simps)
  moreover have "bit m i \<Longrightarrow> bit (push_bit i 1 :: 'a word) i"
    by (simp add: bit_simps bit_imp_le_length)
  ultimately show ?thesis by (metis bit_0_eq bot_apply bot_bool_def)
qed

lemma indexOfSingleBit32_push_bit:
  assumes "i < 32"
  shows "indexOfSingleBit32 (push_bit i 1) = i"
proof -
  have "list_all (\<lambda>i. indexOfSingleBit32 (push_bit i 1) = i) [0..<32]"
    unfolding indexOfSingleBit32_def single_bit_and by (simp add: upt_rec)
  with assms show ?thesis by (simp add: list_all_iff)
qed

lemma indexOfSingleBit_push_bit:
  assumes "i < 64"
  shows "indexOfSingleBit (push_bit i 1) = i"
proof -
  let ?x = "push_bit i 1 :: uint64_t"
  let ?j = "if i < 32 then i else i - 32"
  have "ucast (?x OR drop_bit 32 ?x) = (push_bit ?j 1 :: uint32_t)"
    using assms by (intro bit_word_eqI) (auto simp: bit_simps)
  moreover have "bit (push_bit 32 0xFFFFFFFF :: uint64_t) i \<longleftrightarrow> 32 \<le> i"
  proof -
    have m: "push_bit 32 0xFFFFFFFF = (push_bit 32 (mask 32) :: uint64_t)"
      by (simp add: mask_eq_exp_minus_1)
    show ?thesis
      unfolding m using assms by (auto simp: bit_simps)
  qed
  moreover have "indexOfSingleBit32 (push_bit ?j 1) = ?j"
    using assms by (intro indexOfSingleBit32_push_bit) auto
  ultimately show ?thesis
    unfolding indexOfSingleBit_def single_bit_and by (simp only:) simp
qed

lemma bit_double_plus_one: "bit (1 + 2 * k :: int) n \<longleftrightarrow> (n = 0 \<or> bit k (n - 1))"
  by (cases n) (simp_all add: bit_0 bit_Suc)

lemma int_and_uminus: "(push_bit i (1 + 2 * k) :: int) AND - push_bit i (1 + 2 * k) = push_bit i 1"
proof -
  have neg: "- (1 + 2 * k) = 1 + 2 * NOT k" for k :: int
    by (simp add: not_int_def)
  have "(1 + 2 * k) AND (1 + 2 * NOT k) = (1 :: int)"
    by (rule bit_eqI) (auto simp: bit_and_iff bit_double_plus_one bit_1_iff bit_not_iff)
  then have "push_bit i ((1 + 2 * k) AND (1 + 2 * NOT k)) = (push_bit i 1 :: int)"
    by simp
  moreover have "- push_bit i (1 + 2 * k) = push_bit i (1 + 2 * NOT k)"
    by (simp only: push_bit_eq_mult neg [symmetric] mult_minus_left)
  ultimately show ?thesis by (simp add: push_bit_and)
qed

lemma isolateRightmostBit_eq:
  assumes "bit x i" "\<forall>j<i. \<not> bit x j"
  shows "isolateRightmostBit x = push_bit i 1"
proof -
  obtain k where k: "drop_bit i (uint x) = 1 + 2 * k"
    using assms(1) by (metis bit_iff_odd_drop_bit bit_uint_iff bit_imp_le_length oddE add.commute)
  have "uint x = push_bit i (drop_bit i (uint x))"
    using assms
    by (intro bit_eqI) (auto simp: bit_simps, metis not_le, metis add_diff_inverse_nat)
  then have x: "x = word_of_int (push_bit i (1 + 2 * k))"
    by (metis k word_of_int_uint)
  show ?thesis
    unfolding isolateRightmostBit_def x
    by (simp only: flip: of_int_minus of_int_and_eq) (simp only: int_and_uminus of_int_push_bit of_int_1)
qed


lemma indexOfRightmostBit_eq:
  assumes "bit x i" "\<forall>j<i. \<not> bit x j"
  shows "indexOfRightmostBit x = i"
proof -
  have "i < 64" using assms(1) by (auto dest: bit_imp_le_length)
  then show ?thesis
    unfolding indexOfRightmostBit_def isolateRightmostBit_eq [OF assms]
    by (rule indexOfSingleBit_push_bit)
qed

lemma ex_rightmost_bit:
  assumes "(x :: 'a::len word) \<noteq> 0"
  obtains i where "i < LENGTH('a)" "bit x i" "\<forall>j<i. \<not> bit x j"
proof -
  have ex: "\<exists>i. bit x i"
    using assms by (auto simp: bit_eq_iff)
  have "bit x (LEAST i. bit x i)"
    using ex by (rule LeastI_ex)
  moreover have "\<forall>j<(LEAST i. bit x i). \<not> bit x j"
    using not_less_Least by blast
  ultimately show ?thesis
    using that bit_imp_le_length by blast
qed

subsection \<open>Laws of the bit arrays\<close>

lemma ba_get_eq: "idx div 32 < length b \<Longrightarrow> ba_get b idx = Some (bit (b ! (idx div 32)) (idx mod 32))"
  by (simp add: ba_get_def nth_opt_in bit_iff_odd_drop_bit and_one_eq odd_iff_mod_2_eq_one)

text \<open>The words that hold the given number of bits.\<close>

definition words_for :: "nat \<Rightarrow> nat" where
  "words_for sz = (sz + 31) div 32"

lemma ba_in: "idx < sz \<Longrightarrow> idx div 32 < words_for sz"
  unfolding words_for_def by linarith

lemma ba_set_spec:
  assumes "length b = words_for sz" "idx < sz"
  shows "\<exists>b'. ba_set b idx = Some b' \<and> length b' = words_for sz \<and>
    (\<forall>j< sz. ba_get b' j = (if j = idx then Some True else ba_get b j))"
proof -
  let ?b' = "b[idx div 32 := b ! (idx div 32) OR push_bit (idx mod 32) 1]"
  have "ba_set b idx = Some ?b'"
    using assms by (simp add: ba_set_def nth_opt_in upd_opt_in ba_in)
  moreover have "ba_get ?b' j = (if j = idx then Some True else ba_get b j)" if "j < sz" for j
    using assms that
    by (auto simp: ba_get_eq ba_in nth_list_update bit_simps) (metis div_mult_mod_eq)
  ultimately show ?thesis using assms by simp
qed

lemma ba_unset_spec:
  assumes "length b = words_for sz" "idx < sz"
  shows "\<exists>b'. ba_unset b idx = Some b' \<and> length b' = words_for sz \<and>
    (\<forall>j< sz. ba_get b' j = (if j = idx then Some False else ba_get b j))"
proof -
  let ?b' = "b[idx div 32 := b ! (idx div 32) AND NOT (push_bit (idx mod 32) 1)]"
  have "ba_unset b idx = Some ?b'"
    using assms by (simp add: ba_unset_def nth_opt_in upd_opt_in ba_in)
  moreover have "ba_get ?b' j = (if j = idx then Some False else ba_get b j)" if "j < sz" for j
    using assms that
    by (auto simp: ba_get_eq ba_in nth_list_update bit_simps) (metis div_mult_mod_eq)
  ultimately show ?thesis using assms by simp
qed

lemma length_ba_words: "sz + 31 < 2 ^ 32 \<Longrightarrow> length_ba sz = words_for sz"
  by (simp add: length_ba_def words_for_def nat_div_distrib)

lemma BitArray_new_spec:
  assumes "sz + 31 < 2 ^ 32"
  shows "length (BitArray_new sz v) = words_for sz"
    and "j < sz \<Longrightarrow> ba_get (BitArray_new sz v) j = Some v"
proof -
  note l = length_ba_words [OF assms]
  show "length (BitArray_new sz v) = words_for sz" by (simp add: BitArray_new_def l)
  have m: "(0xFFFFFFFF :: uint32_t) = mask 32" by (simp add: mask_eq_exp_minus_1)
  show "j < sz \<Longrightarrow> ba_get (BitArray_new sz v) j = Some v"
    by (simp only: BitArray_new_def m l) (simp add: ba_get_eq ba_in bit_simps)
qed

lemma ba_all_words_eq:
  "i + n \<le> length b \<Longrightarrow> ba_all_words b v i n = Some (\<forall>k<n. b ! (i + k) = v)"
proof (induction n arbitrary: i)
  case (Suc n)
  then have "ba_all_words b v (Suc i) n = Some (\<forall>k<n. b ! (Suc i + k) = v)" by simp
  with Suc.prems show ?case
    by (auto simp: nth_opt_in All_less_Suc2)
qed simp

lemma all_less_div_mod:
  assumes "0 < (d :: nat)"
  shows "(\<forall>j < s. P (j div d) (j mod d)) \<longleftrightarrow>
    (\<forall>k < s div d. \<forall>n < d. P k n) \<and> (\<forall>n < s mod d. P (s div d) n)"
proof (intro iffI conjI allI impI)
  fix k n assume all: "\<forall>j < s. P (j div d) (j mod d)" and "k < s div d" "n < d"
  have "k * d + n < Suc k * d" using \<open>n < d\<close> by simp
  also have "\<dots> \<le> s div d * d" using \<open>k < s div d\<close> by (intro mult_le_mono1) simp
  also have "\<dots> \<le> s" by simp
  finally have "k * d + n < s" .
  then show "P k n"
    using all [rule_format, of "k * d + n"] \<open>n < d\<close> by simp
next
  fix n assume all: "\<forall>j < s. P (j div d) (j mod d)" and n: "n < s mod d"
  have "n < d" using n assms mod_less_divisor less_trans by blast
  have "s div d * d + n < s div d * d + s mod d" using n by (rule add_strict_left_mono)
  then have "s div d * d + n < s" by (simp only: div_mult_mod_eq)
  then have "P ((s div d * d + n) div d) ((s div d * d + n) mod d)" using all by blast
  then show "P (s div d) n" using \<open>n < d\<close> by simp
next
  fix j assume all: "(\<forall>k < s div d. \<forall>n < d. P k n) \<and> (\<forall>n < s mod d. P (s div d) n)" and "j < s"
  show "P (j div d) (j mod d)"
  proof (cases "j div d < s div d")
    case True
    with all assms show ?thesis by simp
  next
    case False
    with \<open>j < s\<close> have eq: "j div d = s div d"
      by (meson div_le_mono le_antisym less_imp_le not_le)
    have "j div d * d + j mod d < s div d * d + s mod d"
      using \<open>j < s\<close> by (simp only: div_mult_mod_eq)
    then have "j mod d < s mod d" by (simp only: eq add_less_cancel_left)
    with all eq show ?thesis by simp
  qed
qed

lemma word32_all_ones: "(x :: uint32_t) = 0xffffffff \<longleftrightarrow> (\<forall>n < 32. bit x n)"
proof -
  have m: "(0xffffffff :: uint32_t) = mask 32" by (simp add: mask_eq_exp_minus_1)
  show ?thesis unfolding m word_eq_iff_bits by (simp add: bit_mask_iff)
qed

lemma word32_all_zeros: "(x :: uint32_t) = 0 \<longleftrightarrow> (\<forall>n < 32. \<not> bit x n)"
  unfolding word_eq_iff_bits by simp

lemma word_and_mask_ones:
  "(x :: 'a::len word) AND mask r = mask r \<longleftrightarrow> (\<forall>n < min r LENGTH('a). bit x n)"
  unfolding word_eq_iff_bits by (auto simp: bit_simps)

lemma word_and_mask_zeros:
  "(x :: 'a::len word) AND mask r = 0 \<longleftrightarrow> (\<forall>n < min r LENGTH('a). \<not> bit x n)"
  unfolding word_eq_iff_bits by (auto simp: bit_simps)

lemma push_one_minus_one: "push_bit r 1 - 1 = (mask r :: 'a::len word)"
  by (simp add: mask_eq_exp_minus_1)

lemma ba_get_all:
  assumes "length b = words_for sz"
  shows "(\<forall>j < sz. ba_get b j = Some v) \<longleftrightarrow>
    (\<forall>k < sz div 32. \<forall>n < 32. bit (b ! k) n = v) \<and> (\<forall>n < sz mod 32. bit (b ! (sz div 32)) n = v)"
proof -
  have "(\<forall>j < sz. ba_get b j = Some v) \<longleftrightarrow> (\<forall>j < sz. bit (b ! (j div 32)) (j mod 32) = v)"
    using assms by (auto simp: ba_get_eq ba_in)
  also have "\<dots> \<longleftrightarrow> (\<forall>k < sz div 32. \<forall>n < 32. bit (b ! k) n = v) \<and>
      (\<forall>n < sz mod 32. bit (b ! (sz div 32)) n = v)"
    by (rule all_less_div_mod [where P = "\<lambda>k n. bit (b ! k) n = v"]) simp
  finally show ?thesis .
qed

lemma words_for_div:
  "sz div 32 \<le> words_for sz"
  "sz div 32 < words_for sz \<longleftrightarrow> sz mod 32 \<noteq> 0"
proof -
  show "sz div 32 \<le> words_for sz"
    unfolding words_for_def by linarith
  show "sz div 32 < words_for sz \<longleftrightarrow> sz mod 32 \<noteq> 0"
  proof -
    have "(32 * q + r + 31) div 32 = (if r = 0 then q else Suc q)" if "r < 32" for q r :: nat
      using that by (auto simp: div_nat_eqI)
    from this [of "sz mod 32" "sz div 32"] show ?thesis
      unfolding words_for_def by simp
  qed
qed

lemma isAllOnes_spec:
  assumes "length b = words_for sz"
  shows "isAllOnes b sz =
    (if sz mod 32 = 0 \<and> (\<forall>j < sz. ba_get b j = Some True) then None
     else Some (\<forall>j < sz. ba_get b j = Some True))"
  unfolding isAllOnes_def ba_get_all [OF assms] push_one_minus_one Let_def
  using assms words_for_div [of sz]
  by (auto simp: ba_all_words_eq word32_all_ones word_and_mask_ones nth_opt_def)

lemma isAllZeros_spec:
  assumes "length b = words_for sz"
  shows "isAllZeros b sz =
    (if sz mod 32 = 0 \<and> (\<forall>j < sz. ba_get b j = Some False) then None
     else Some (\<forall>j < sz. ba_get b j = Some False))"
  unfolding isAllZeros_def ba_get_all [OF assms] push_one_minus_one
  using assms words_for_div [of sz]
  by (auto simp: ba_all_words_eq word32_all_zeros [of "b ! k" for k] word_and_mask_zeros
      nth_opt_def)

subsection \<open>Properties\<close>

text \<open>The values of width \<open>w\<close>: the upper bits of the word are zero.\<close>

definition fits :: "nat \<Rightarrow> uint64_t \<Rightarrow> bool" where
  "fits w x \<longleftrightarrow> uint x < 2 ^ w"

lemma fits_truncate: "N \<le> 64 \<Longrightarrow> fits N (truncateToNBits x N)"
  by (simp add: fits_def uint_truncateToNBits)

lemma fits_take_bit: "fits w x \<longleftrightarrow> take_bit w x = x"
  unfolding fits_def word_uint_eq_iff unsigned_take_bit_eq
  by (simp add: take_bit_int_eq_self_iff)

lemma fits_bitwise:
  assumes "fits w l" "fits w r"
  shows "fits w (l AND r)" "fits w (l OR r)" "fits w (l XOR r)"
  using assms by (simp_all add: fits_take_bit)

lemma fits_mono: "fits w x \<Longrightarrow> w \<le> v \<Longrightarrow> fits v x"
  unfolding fits_def by (erule order_less_le_trans) (rule power_increasing; simp)

lemma fits_drop_bit: "fits w x \<Longrightarrow> fits w (drop_bit n x)"
  using fits_mono [of w x "w + n"] by (simp add: fits_take_bit take_bit_drop_bit)

text \<open>
  C23: wrap-around arithmetic. \<^verbatim>\<open>ints::add\<close>, \<^verbatim>\<open>sub\<close>, \<^verbatim>\<open>mul\<close> and \<^verbatim>\<open>shl\<close> of two values give the
  mathematical result modulo two to the width, for every width up to 64 (a shift by less than
  64; a larger one is undefined).
\<close>

theorem ints_wrap:
  assumes "0 < w" "w \<le> 64"
  shows "uint (add_i l r w) = (uint l + uint r) mod 2 ^ w
    \<and> uint (sub_i l r w) = (uint l - uint r) mod 2 ^ w
    \<and> uint (mul_i l r w) = (uint l * uint r) mod 2 ^ w
    \<and> map_option uint (shl_i l r w) =
      (if r < 64 then Some ((uint l * 2 ^ unat r) mod 2 ^ w) else None)"
proof -
  have "push_bit (unat r) l = word_of_int (uint l * 2 ^ unat r)"
    by (simp add: push_bit_eq_mult)
  then show ?thesis
    using uint_truncate_word_of_int [OF assms(2), of "uint l + uint r"]
      uint_truncate_word_of_int [OF assms(2), of "uint l - uint r"]
      uint_truncate_word_of_int [OF assms(2), of "uint l * uint r"]
      uint_truncate_word_of_int [OF assms(2), of "uint l * 2 ^ unat r"]
    by (simp add: add_i_def sub_i_def mul_i_def shl_i_def not_le
        flip: linorder_not_less)
qed

theorem ints_wrap_witness:
  "uint (add_i 200 100 8) = 44 \<and> uint (sub_i 1 2 8) = 255"
  using ints_wrap [of 8 200 100] ints_wrap [of 8 1 2] by simp

text \<open>
  signed division. \<^verbatim>\<open>ints::sdiv\<close> and \<^verbatim>\<open>ints::srem\<close> return the quotient and remainder of the
  two's complement readings, rounded towards zero, modulo two to the width; they are undefined
  exactly for a zero divisor and for the smallest 64-bit value divided by minus one.
\<close>

theorem ints_signed_division:
  assumes "0 < w" "w \<le> 64"
  shows "map_option uint (sdiv_i l r w) =
      (if sval w r = 0 \<or> sval w l = - (2 ^ 63) \<and> sval w r = - 1 then None
       else Some ((sval w l sdiv sval w r) mod 2 ^ w))
    \<and> map_option uint (srem_i l r w) =
      (if sval w r = 0 \<or> sval w l = - (2 ^ 63) \<and> sval w r = - 1 then None
       else Some ((sval w l smod sval w r) mod 2 ^ w))"
  using assms
  by (simp add: sdiv_i_def srem_i_def sint_sext_i uint_truncate_word_of_int sdiv_undefined_def Let_def)

theorem ints_signed_division_witness:
  "map_option uint (sdiv_i 0xF9 2 8) = Some 253"
  using ints_signed_division [of 8 "0xF9" 2] by (simp add: sval_def signed_take_bit_eq_if_negative)

text \<open>
  C24: the representation invariant of \<^verbatim>\<open>IntEvaluation.h\<close> (``invalid bits in each uint64_t are
  0''). Every operation maps values of width \<open>w\<close> to values of the result width, so the
  invariant holds along every evaluation.
\<close>

theorem ints_invalid_bits_zero:
  assumes w: "0 < w" "w \<le> 64" and v: "0 < v" "v \<le> 64" and l: "fits w l" and r: "fits w r"
  shows "fits w (add_i l r w) \<and> fits w (sub_i l r w) \<and> fits w (mul_i l r w)
    \<and> fits v (trunc_i l v w) \<and> (w \<le> v \<longrightarrow> fits v (zext_i l v w)) \<and> fits v (sext_i l v w)
    \<and> pred_option (fits w) (udiv_i l r w) \<and> pred_option (fits w) (urem_i l r w)
    \<and> pred_option (fits w) (sdiv_i l r w) \<and> pred_option (fits w) (srem_i l r w)
    \<and> pred_option (fits w) (ashr_i l n w) \<and> pred_option (fits w) (lshr_i l n w)
    \<and> pred_option (fits w) (shl_i l n w)
    \<and> fits w (land_i l r w) \<and> fits w (lor_i l r w) \<and> fits w (lxor_i l r w)"
  using w v fits_mono [OF l] fits_drop_bit [OF l] fits_bitwise [OF l r]
  by (simp add: add_i_def sub_i_def mul_i_def trunc_i_def zext_i_def sext_i_def udiv_i_def
      urem_i_def sdiv_i_def srem_i_def ashr_i_def lshr_i_def shl_i_def land_i_def lor_i_def
      lxor_i_def Let_def fits_truncate)

theorem ints_invalid_bits_zero_witness:
  "fits 8 (add_i 200 100 8) \<and> fits 16 (sext_i 200 16 8)"
  using ints_invalid_bits_zero [of 8 16 200 100] by (simp add: fits_def)

text \<open>
  the bit scan. On a word that is not zero \<^verbatim>\<open>bits64::indexOfRightmostBit\<close> returns the index
  of its lowest set bit.
\<close>

theorem indexOfRightmostBit_correct:
  assumes "x \<noteq> 0"
  shows "indexOfRightmostBit x < 64 \<and> bit x (indexOfRightmostBit x)
    \<and> (\<forall>j < indexOfRightmostBit x. \<not> bit x j)"
proof -
  obtain i where "i < 64" "bit x i" "\<forall>j<i. \<not> bit x j"
    using ex_rightmost_bit [OF assms] by auto
  then show ?thesis by (simp add: indexOfRightmostBit_eq)
qed

theorem indexOfRightmostBit_correct_witness: "bit (40 :: uint64_t) (indexOfRightmostBit 40)"
  using indexOfRightmostBit_correct [of 40] by simp

text \<open>
  C25: the whole-array tests of \<^verbatim>\<open>BitArray\<close>. \<^verbatim>\<open>isAllOnes\<close> and \<^verbatim>\<open>isAllZeros\<close> return whether every bit
  below the size has the value, except that for a size that is a multiple of 32 whose bits all
  have it they read the word after the last one of the array.
\<close>

theorem BitArray_whole_tests:
  assumes "length b = words_for sz"
  shows "isAllOnes b sz =
      (if sz mod 32 = 0 \<and> (\<forall>j < sz. ba_get b j = Some True) then None
       else Some (\<forall>j < sz. ba_get b j = Some True))
    \<and> isAllZeros b sz =
      (if sz mod 32 = 0 \<and> (\<forall>j < sz. ba_get b j = Some False) then None
       else Some (\<forall>j < sz. ba_get b j = Some False))"
  using isAllOnes_spec [OF assms] isAllZeros_spec [OF assms] by blast

theorem BitArray_whole_tests_witness:
  "isAllOnes (BitArray_new 64 True) 64 = None \<and> isAllOnes (BitArray_new 40 True) 40 = Some True"
  using BitArray_whole_tests [of "BitArray_new 64 True" 64]
    BitArray_whole_tests [of "BitArray_new 40 True" 40]
  by (simp add: BitArray_new_spec)

end
