(* ===== verification/Expr.thy ===== *)
theory Expr
  imports Bits
begin

text \<open>
  The symbolic expressions of the executor: the classes of \<^verbatim>\<open>klee/Expr.h\<close>, the update lists of
  \<^verbatim>\<open>lib/Expr/Updates.cpp\<close> and the simplifying constructors of \<^verbatim>\<open>lib/Expr/Expr.cpp\<close>.

  Constants hold an LLVM \<^verbatim>\<open>APInt\<close>, which is not part of the program: an \<open>apint\<close> is the bit width and
  the unsigned value it stands for, and the operations on it are the fields of the record
  \<open>expr_env\<close>, an argument of every definition that calls them. The record also has the command
  line option \<^verbatim>\<open>const-array-opt\<close>.

  A \<^verbatim>\<open>ref<Expr>\<close> is the expression it points to; \<^verbatim>\<open>Expr::compare\<close> decides structural equality (with
  arrays compared by address, the field \<open>arr_address\<close>), so equality of references is \<open>=\<close>. The code may
  in addition take two equal objects with a \<^verbatim>\<open>NotExpr\<close> inside for different ones, see the theory of the order.
  A failed \<^verbatim>\<open>assert\<close> is \<open>None\<close>.
\<close>

subsection \<open>Data\<close>

datatype apint = APInt (ap_width: nat) (ap_val: int)

datatype bkind = Add | Sub | Mul | UDiv | SDiv | URem | SRem | And | Or | Xor | Shl | LShr | AShr

datatype ckind = Eq | Ne | Ult | Ule | Ugt | Uge | Slt | Sle | Sgt | Sge

record array =
  arr_address :: nat
  arr_name :: string
  arr_size :: nat
  constantValues :: "apint list"

datatype expr =
  ConstantExpr apint
| NotOptimizedExpr expr
| ReadExpr array update_node expr
| SelectExpr expr expr expr
| ConcatExpr expr expr
| ExtractExpr expr nat nat
| ZExtExpr expr nat
| SExtExpr expr nat
| NotExpr expr
| BinaryExpr bkind expr expr
| CmpExpr ckind expr expr
and update_node =
  NoUpdate
| UpdateNode expr expr update_node

text \<open>The operations of \<^verbatim>\<open>llvm::APInt\<close> that the program calls, and the command line option.\<close>

record expr_env =
  ap_new :: "nat \<Rightarrow> uint64_t \<Rightarrow> apint"
  ap_getZExtValue :: "apint \<Rightarrow> uint64_t may_abort"
  ap_zext :: "apint \<Rightarrow> nat \<Rightarrow> apint"
  ap_zextOrTrunc :: "apint \<Rightarrow> nat \<Rightarrow> apint"
  ap_sextOrTrunc :: "apint \<Rightarrow> nat \<Rightarrow> apint"
  ap_shl_by :: "apint \<Rightarrow> nat \<Rightarrow> apint"
  ap_ashr_by :: "apint \<Rightarrow> nat \<Rightarrow> apint"
  ap_not :: "apint \<Rightarrow> apint"
  ap_bin :: "bkind \<Rightarrow> apint \<Rightarrow> apint \<Rightarrow> apint may_abort"
  ap_cmp :: "ckind \<Rightarrow> apint \<Rightarrow> apint \<Rightarrow> bool"
  ConstArrayOpt :: bool

definition isSymbolicArray :: "array \<Rightarrow> bool" where
  "isSymbolicArray a = (constantValues a = [])"

definition isConstantArray :: "array \<Rightarrow> bool" where
  "isConstantArray a = (\<not> isSymbolicArray a)"

definition Array_new :: "nat \<Rightarrow> string \<Rightarrow> nat \<Rightarrow> apint list \<Rightarrow> array may_abort" where
  "Array_new addr name sz vals =
    (let a = \<lparr>arr_address = addr, arr_name = name, arr_size = sz, constantValues = vals\<rparr> in
     do { assert_that (isSymbolicArray a \<or> length (constantValues a) = sz); Some a })"

fun getWidth :: "expr \<Rightarrow> nat" where
  "getWidth (ConstantExpr a) = ap_width a"
| "getWidth (NotOptimizedExpr e) = getWidth e"
| "getWidth (ReadExpr _ _ _) = 8"
| "getWidth (SelectExpr _ t _) = getWidth t"
| "getWidth (ConcatExpr l r) = getWidth l + getWidth r"
| "getWidth (ExtractExpr _ _ w) = w"
| "getWidth (ZExtExpr _ w) = w"
| "getWidth (SExtExpr _ w) = w"
| "getWidth (NotExpr e) = getWidth e"
| "getWidth (BinaryExpr _ l _) = getWidth l"
| "getWidth (CmpExpr _ _ _) = 1"

fun update_size :: "update_node \<Rightarrow> nat" where
  "update_size NoUpdate = 0"
| "update_size (UpdateNode _ _ n) = 1 + update_size n"

definition new_UpdateNode :: "update_node \<Rightarrow> expr \<Rightarrow> expr \<Rightarrow> update_node may_abort" where
  "new_UpdateNode next index val = do {
     assert_that (getWidth val = 8);
     Some (UpdateNode index val next) }"

text \<open>\<^verbatim>\<open>dyn_cast<ConstantExpr>\<close>.\<close>

fun dyn_const :: "expr \<Rightarrow> apint option" where
  "dyn_const (ConstantExpr a) = Some a"
| "dyn_const _ = None"

fun isConstant :: "expr \<Rightarrow> bool" where
  "isConstant (ConstantExpr _) = True"
| "isConstant _ = False"

definition getMinBytesForWidth :: "nat \<Rightarrow> nat" where
  "getMinBytesForWidth w = (w + 7) div 8"

subsection \<open>Constants\<close>

definition getZExtValue :: "expr_env \<Rightarrow> nat \<Rightarrow> apint \<Rightarrow> uint64_t may_abort" where
  "getZExtValue E bits a = do { assert_that (ap_width a \<le> bits); ap_getZExtValue E a }"

definition ConstantExpr_alloc :: "expr_env \<Rightarrow> uint64_t \<Rightarrow> nat \<Rightarrow> apint" where
  "ConstantExpr_alloc E v w = ap_new E w v"

definition ConstantExpr_create :: "expr_env \<Rightarrow> uint64_t \<Rightarrow> nat \<Rightarrow> apint may_abort" where
  "ConstantExpr_create E v w = do {
     assert_that (v = truncateToNBits v w);
     Some (ConstantExpr_alloc E v w) }"

definition isZero :: "expr_env \<Rightarrow> apint \<Rightarrow> bool may_abort" where
  "isZero E a = do { v \<leftarrow> getZExtValue E 64 a; Some (v = 0) }"

definition isOne :: "expr_env \<Rightarrow> apint \<Rightarrow> bool may_abort" where
  "isOne E a = do { v \<leftarrow> getZExtValue E 64 a; Some (v = 1) }"

definition isTrue :: "expr_env \<Rightarrow> apint \<Rightarrow> bool may_abort" where
  "isTrue E a = do { v \<leftarrow> getZExtValue E 1 a; Some (v = 1) }"

definition isFalse :: "expr_env \<Rightarrow> apint \<Rightarrow> bool may_abort" where
  "isFalse E a = do { v \<leftarrow> getZExtValue E 1 a; Some (v = 0) }"

text \<open>\<^verbatim>\<open>maxValueOfNBits\<close> of a width above 64 shifts out of range.\<close>

definition CE_isAllOnes :: "expr_env \<Rightarrow> apint \<Rightarrow> bool may_abort" where
  "CE_isAllOnes E a = do {
     v \<leftarrow> getZExtValue E (ap_width a) a;
     assert_that (ap_width a \<le> 64);
     Some (v = maxValueOfNBits (ap_width a)) }"

definition CE_Concat :: "expr_env \<Rightarrow> apint \<Rightarrow> apint \<Rightarrow> apint may_abort" where
  "CE_Concat E l r =
    (let W = ap_width l + ap_width r; Tmp = ap_zext E l W; Tmp = ap_shl_by E Tmp (ap_width r)
     in ap_bin E Or Tmp (ap_zext E r W))"

definition CE_Extract :: "expr_env \<Rightarrow> apint \<Rightarrow> nat \<Rightarrow> nat \<Rightarrow> apint" where
  "CE_Extract E a Offset W = ap_zextOrTrunc E (ap_ashr_by E a Offset) W"

definition CE_ZExt :: "expr_env \<Rightarrow> apint \<Rightarrow> nat \<Rightarrow> apint" where
  "CE_ZExt E a W = ap_zextOrTrunc E a W"

definition CE_SExt :: "expr_env \<Rightarrow> apint \<Rightarrow> nat \<Rightarrow> apint" where
  "CE_SExt E a W = ap_sextOrTrunc E a W"

definition CE_Not :: "expr_env \<Rightarrow> apint \<Rightarrow> apint" where
  "CE_Not E a = ap_not E a"

text \<open>\<^verbatim>\<open>ConstantExpr::Add\<close> to \<^verbatim>\<open>AShr\<close>, and the comparisons \<^verbatim>\<open>Eq\<close> to \<^verbatim>\<open>Sge\<close>.\<close>

definition CE_bin :: "expr_env \<Rightarrow> bkind \<Rightarrow> apint \<Rightarrow> apint \<Rightarrow> apint may_abort" where
  "CE_bin E k l r = ap_bin E k l r"

definition CE_cmp :: "expr_env \<Rightarrow> ckind \<Rightarrow> apint \<Rightarrow> apint \<Rightarrow> apint" where
  "CE_cmp E k l r = ConstantExpr_alloc E (if ap_cmp E k l r then 1 else 0) 1"

subsection \<open>Extraction, extension and concatenation\<close>

definition NotOptimizedExpr_create :: "expr \<Rightarrow> expr" where
  "NotOptimizedExpr_create src = NotOptimizedExpr src"

definition NotExpr_create :: "expr_env \<Rightarrow> expr \<Rightarrow> expr" where
  "NotExpr_create E e = (case e of ConstantExpr a \<Rightarrow> ConstantExpr (CE_Not E a) | _ \<Rightarrow> NotExpr e)"

text \<open>The branches of \<^verbatim>\<open>ZExtExpr::create\<close> that do not truncate.\<close>

definition ZExtExpr_widen :: "expr_env \<Rightarrow> expr \<Rightarrow> nat \<Rightarrow> expr" where
  "ZExtExpr_widen E e w =
    (if w = getWidth e then e
     else case e of
       ConstantExpr a \<Rightarrow> ConstantExpr (CE_ZExt E a w)
     | ZExtExpr x zw \<Rightarrow> if zw < w then ZExtExpr x w else ZExtExpr e w
     | _ \<Rightarrow> ZExtExpr e w)"

text \<open>
  \<^verbatim>\<open>ExtractExpr::create\<close> and the part of \<^verbatim>\<open>ConcatExpr::create\<close> that merges contiguous extracts call
  each other. The merged extract is of an expression inside of the two operands, which is
  smaller than the concatenation that is being split; the test of the sizes makes this
  explicit, and \<open>ExtractExpr_create_Concat\<close> shows that it never fails. The width of the left part
  is computed as \<^verbatim>\<open>w - rw + off\<close> on unsigned numbers, where a negative difference wraps around and
  the sum is the one of \<open>w + off - rw\<close>.
\<close>

function ExtractExpr_create :: "expr_env \<Rightarrow> expr \<Rightarrow> nat \<Rightarrow> nat \<Rightarrow> expr may_abort" where
  "ExtractExpr_create E e off w = do {
     assert_that (w > 0 \<and> off + w \<le> getWidth e);
     if w = getWidth e then Some e
     else case e of
       ConstantExpr a \<Rightarrow> Some (ConstantExpr (CE_Extract E a off w))
     | ZExtExpr x zw \<Rightarrow>
         if getWidth x = w \<and> off = 0 then Some x
         else if w \<le> zw \<and> getWidth x \<le> w \<and> off = 0 then Some (ZExtExpr_widen E x w)
         else Some (ExtractExpr e off w)
     | ConcatExpr l r \<Rightarrow>
         if getWidth r \<le> off then ExtractExpr_create E l (off - getWidth r) w
         else if off + w \<le> getWidth r then ExtractExpr_create E r off w
         else do {
           el \<leftarrow> ExtractExpr_create E l 0 (w + off - getWidth r);
           er \<leftarrow> ExtractExpr_create E r off (getWidth r - off);
           case (el, er) of
             (ConstantExpr a, ConstantExpr b) \<Rightarrow> map_option ConstantExpr (CE_Concat E a b)
           | (ExtractExpr x xo xw, ExtractExpr y yo yw) \<Rightarrow>
               if x = y \<and> yo + yw = xo
               then (if size x < size e then ExtractExpr_create E x yo (xw + yw) else None)
               else Some (ConcatExpr el er)
           | _ \<Rightarrow> Some (ConcatExpr el er) }
     | SExtExpr x sw \<Rightarrow>
         if off = 0 \<and> w = 8 \<and> getWidth x = 8 then Some x else Some (ExtractExpr e off w)
     | _ \<Rightarrow> Some (ExtractExpr e off w) }"
  by pat_completeness auto
termination by (relation "measure (\<lambda>(E, e, off, w). size e)") auto

declare ExtractExpr_create.simps [simp del]

definition create_Concat :: "expr_env \<Rightarrow> expr \<Rightarrow> expr \<Rightarrow> expr may_abort" where
  "create_Concat E l r =
    (let w = getWidth l + getWidth r in
     case (l, r) of
       (ConstantExpr a, ConstantExpr b) \<Rightarrow> map_option ConstantExpr (CE_Concat E a b)
     | (ExtractExpr x xo xw, ExtractExpr y yo yw) \<Rightarrow>
         if x = y \<and> yo + yw = xo then ExtractExpr_create E x yo w else Some (ConcatExpr l r)
     | _ \<Rightarrow> Some (ConcatExpr l r))"

fun ConcatExpr_createN :: "expr_env \<Rightarrow> expr list \<Rightarrow> expr may_abort" where
  "ConcatExpr_createN E [] = None"
| "ConcatExpr_createN E [k] = Some k"
| "ConcatExpr_createN E (k # ks) = do { r \<leftarrow> ConcatExpr_createN E ks; create_Concat E k r }"

definition ConcatExpr_create4 :: "expr_env \<Rightarrow> expr \<Rightarrow> expr \<Rightarrow> expr \<Rightarrow> expr \<Rightarrow> expr may_abort" where
  "ConcatExpr_create4 E k1 k2 k3 k4 = do {
     r \<leftarrow> create_Concat E k3 k4;
     r \<leftarrow> create_Concat E k2 r;
     create_Concat E k1 r }"

definition ConcatExpr_create8 ::
  "expr_env \<Rightarrow> expr \<Rightarrow> expr \<Rightarrow> expr \<Rightarrow> expr \<Rightarrow> expr \<Rightarrow> expr \<Rightarrow> expr \<Rightarrow> expr \<Rightarrow> expr may_abort" where
  "ConcatExpr_create8 E k1 k2 k3 k4 k5 k6 k7 k8 = do {
     r \<leftarrow> ConcatExpr_create4 E k5 k6 k7 k8;
     r \<leftarrow> create_Concat E k4 r;
     r \<leftarrow> create_Concat E k3 r;
     r \<leftarrow> create_Concat E k2 r;
     create_Concat E k1 r }"

definition create_ZExt :: "expr_env \<Rightarrow> expr \<Rightarrow> nat \<Rightarrow> expr may_abort" where
  "create_ZExt E e w =
    (if w = getWidth e then Some e
     else if w < getWidth e then ExtractExpr_create E e 0 w
     else Some (ZExtExpr_widen E e w))"

definition create_SExt :: "expr_env \<Rightarrow> expr \<Rightarrow> nat \<Rightarrow> expr may_abort" where
  "create_SExt E e w =
    (if w = getWidth e then Some e
     else if w < getWidth e then ExtractExpr_create E e 0 w
     else case e of
       ConstantExpr a \<Rightarrow> Some (ConstantExpr (CE_SExt E a w))
     | _ \<Rightarrow> Some (SExtExpr e w))"

subsection \<open>Bitwise operations and equality\<close>

text \<open>The macros \<^verbatim>\<open>BCREATE_R\<close>, \<^verbatim>\<open>BCREATE\<close>, \<^verbatim>\<open>CMPCREATE\<close> and \<^verbatim>\<open>CMPCREATE_T\<close>.\<close>

definition BCREATE_R ::
  "expr_env \<Rightarrow> bkind \<Rightarrow> (expr \<Rightarrow> apint \<Rightarrow> expr may_abort) \<Rightarrow> (apint \<Rightarrow> expr \<Rightarrow> expr may_abort)
    \<Rightarrow> (expr \<Rightarrow> expr \<Rightarrow> expr may_abort) \<Rightarrow> expr \<Rightarrow> expr \<Rightarrow> expr may_abort" where
  "BCREATE_R E k partialL partialR full l r = do {
     assert_that (getWidth l = getWidth r);
     case dyn_const l of
       Some cl \<Rightarrow>
         (case dyn_const r of
            Some cr \<Rightarrow> map_option ConstantExpr (CE_bin E k cl cr)
          | None \<Rightarrow> partialR cl r)
     | None \<Rightarrow>
         (case dyn_const r of
            Some cr \<Rightarrow> partialL l cr
          | None \<Rightarrow> full l r) }"

definition BCREATE ::
  "expr_env \<Rightarrow> bkind \<Rightarrow> (expr \<Rightarrow> expr \<Rightarrow> expr may_abort) \<Rightarrow> expr \<Rightarrow> expr \<Rightarrow> expr may_abort" where
  "BCREATE E k full l r = do {
     assert_that (getWidth l = getWidth r);
     case (dyn_const l, dyn_const r) of
       (Some cl, Some cr) \<Rightarrow> map_option ConstantExpr (CE_bin E k cl cr)
     | _ \<Rightarrow> full l r }"

definition CMPCREATE ::
  "expr_env \<Rightarrow> ckind \<Rightarrow> (expr \<Rightarrow> expr \<Rightarrow> expr may_abort) \<Rightarrow> expr \<Rightarrow> expr \<Rightarrow> expr may_abort" where
  "CMPCREATE E k full l r = do {
     assert_that (getWidth l = getWidth r);
     case (dyn_const l, dyn_const r) of
       (Some cl, Some cr) \<Rightarrow> Some (ConstantExpr (CE_cmp E k cl cr))
     | _ \<Rightarrow> full l r }"

definition CMPCREATE_T ::
  "expr_env \<Rightarrow> ckind \<Rightarrow> (expr \<Rightarrow> apint \<Rightarrow> expr may_abort) \<Rightarrow> (apint \<Rightarrow> expr \<Rightarrow> expr may_abort)
    \<Rightarrow> (expr \<Rightarrow> expr \<Rightarrow> expr may_abort) \<Rightarrow> expr \<Rightarrow> expr \<Rightarrow> expr may_abort" where
  "CMPCREATE_T E k partialL partialR full l r = do {
     assert_that (getWidth l = getWidth r);
     case dyn_const l of
       Some cl \<Rightarrow>
         (case dyn_const r of
            Some cr \<Rightarrow> Some (ConstantExpr (CE_cmp E k cl cr))
          | None \<Rightarrow> partialR cl r)
     | None \<Rightarrow>
         (case dyn_const r of
            Some cr \<Rightarrow> partialL l cr
          | None \<Rightarrow> full l r) }"

definition AndExpr_createPartial :: "expr_env \<Rightarrow> expr \<Rightarrow> apint \<Rightarrow> expr may_abort" where
  "AndExpr_createPartial E l cr = do {
     ones \<leftarrow> CE_isAllOnes E cr;
     if ones then Some l
     else do {
       z \<leftarrow> isZero E cr;
       if z then Some (ConstantExpr cr) else Some (BinaryExpr And l (ConstantExpr cr)) } }"

definition AndExpr_createPartialR :: "expr_env \<Rightarrow> apint \<Rightarrow> expr \<Rightarrow> expr may_abort" where
  "AndExpr_createPartialR E cl r = AndExpr_createPartial E r cl"

definition AndExpr_create :: "expr \<Rightarrow> expr \<Rightarrow> expr may_abort" where
  "AndExpr_create l r = Some (BinaryExpr And l r)"

definition create_And :: "expr_env \<Rightarrow> expr \<Rightarrow> expr \<Rightarrow> expr may_abort" where
  "create_And E = BCREATE_R E And (AndExpr_createPartial E) (AndExpr_createPartialR E) AndExpr_create"

definition OrExpr_createPartial :: "expr_env \<Rightarrow> expr \<Rightarrow> apint \<Rightarrow> expr may_abort" where
  "OrExpr_createPartial E l cr = do {
     ones \<leftarrow> CE_isAllOnes E cr;
     if ones then Some (ConstantExpr cr)
     else do {
       z \<leftarrow> isZero E cr;
       if z then Some l else Some (BinaryExpr Or l (ConstantExpr cr)) } }"

definition OrExpr_createPartialR :: "expr_env \<Rightarrow> apint \<Rightarrow> expr \<Rightarrow> expr may_abort" where
  "OrExpr_createPartialR E cl r = OrExpr_createPartial E r cl"

definition OrExpr_create :: "expr \<Rightarrow> expr \<Rightarrow> expr may_abort" where
  "OrExpr_create l r = Some (BinaryExpr Or l r)"

definition create_Or :: "expr_env \<Rightarrow> expr \<Rightarrow> expr \<Rightarrow> expr may_abort" where
  "create_Or E = BCREATE_R E Or (OrExpr_createPartial E) (OrExpr_createPartialR E) OrExpr_create"

definition EqExpr_create :: "expr_env \<Rightarrow> expr \<Rightarrow> expr \<Rightarrow> expr may_abort" where
  "EqExpr_create E l r =
    (if l = r then Some (ConstantExpr (ConstantExpr_alloc E 1 1)) else Some (CmpExpr Eq l r))"

text \<open>
  The loop of \<^verbatim>\<open>TryConstArrayOpt\<close> from position \<open>i\<close>, with \<open>n\<close> positions left. The argument \<open>eqc\<close> is the
  call \<^verbatim>\<open>EqExpr::create(rd->index, ...)\<close> on a constant. The result is \<open>Inl ()\<close> when more than 100
  positions match and the function returns the plain equality.
\<close>

fun const_array_loop ::
  "expr_env \<Rightarrow> (apint \<Rightarrow> expr may_abort) \<Rightarrow> apint \<Rightarrow> apint list \<Rightarrow> nat \<Rightarrow> nat \<Rightarrow> nat \<Rightarrow> nat \<Rightarrow> expr
    \<Rightarrow> (unit + expr) may_abort" where
  "const_array_loop E eqc cl vals iw i 0 numMatches res = Some (Inr res)"
| "const_array_loop E eqc cl vals iw i (Suc n) numMatches res = do {
     v \<leftarrow> nth_opt vals i;
     if cl = v then
       if numMatches + 1 > 100 then Some (Inl ())
       else do {
         mayBe \<leftarrow> eqc (ConstantExpr_alloc E (of_nat i) iw);
         res \<leftarrow> create_Or E res mayBe;
         const_array_loop E eqc cl vals iw (i + 1) n (numMatches + 1) res }
     else const_array_loop E eqc cl vals iw (i + 1) n numMatches res }"

text \<open>
  \<^verbatim>\<open>EqExpr::create(x, c)\<close> with a constant second operand, on the function \<open>partialR\<close> for an operand
  that is not a constant, and \<^verbatim>\<open>Expr::createIsZero\<close> on it.
\<close>

definition create_Eq_const ::
  "expr_env \<Rightarrow> (apint \<Rightarrow> expr \<Rightarrow> expr may_abort) \<Rightarrow> expr \<Rightarrow> apint \<Rightarrow> expr may_abort" where
  "create_Eq_const E partialR x c = do {
     assert_that (getWidth x = ap_width c);
     case dyn_const x of
       Some cx \<Rightarrow> Some (ConstantExpr (CE_cmp E Eq cx c))
     | None \<Rightarrow> partialR c x }"

lemma create_Eq_const_cong [fundef_cong]:
  assumes "E = E'" "x = x'" "c = c'" "partialR c' x' = partialR' c' x'"
  shows "create_Eq_const E partialR x c = create_Eq_const E' partialR' x' c'"
  using assms by (simp add: create_Eq_const_def split: option.split)

function EqExpr_createPartialR :: "expr_env \<Rightarrow> apint \<Rightarrow> expr \<Rightarrow> expr may_abort" where
  "EqExpr_createPartialR E cl r =
    (if ap_width cl = 1 then do {
       t \<leftarrow> isTrue E cl;
       if t then Some r
       else case r of
         CmpExpr Eq (ConstantExpr ce) right \<Rightarrow>
           if ap_width ce = 1 then do {
             f \<leftarrow> isFalse E ce;
             if f then Some right else EqExpr_create E (ConstantExpr cl) r }
           else EqExpr_create E (ConstantExpr cl) r
       | BinaryExpr Or left right \<Rightarrow> do {
           zl \<leftarrow> ConstantExpr_create E 0 (getWidth left);
           nl \<leftarrow> create_Eq_const E (\<lambda>c x. EqExpr_createPartialR E c x) left zl;
           zr \<leftarrow> ConstantExpr_create E 0 (getWidth right);
           nr \<leftarrow> create_Eq_const E (\<lambda>c x. EqExpr_createPartialR E c x) right zr;
           create_And E nl nr }
       | _ \<Rightarrow> EqExpr_create E (ConstantExpr cl) r }
     else case r of
       SExtExpr src w \<Rightarrow>
         let trunc = CE_ZExt E cl (getWidth src) in
         if cl = CE_SExt E trunc (ap_width cl)
         then create_Eq_const E (\<lambda>c x. EqExpr_createPartialR E c x) src trunc
         else map_option ConstantExpr (ConstantExpr_create E 0 1)
     | ZExtExpr src w \<Rightarrow>
         let trunc = CE_ZExt E cl (getWidth src) in
         if cl = CE_ZExt E trunc (ap_width cl)
         then create_Eq_const E (\<lambda>c x. EqExpr_createPartialR E c x) src trunc
         else map_option ConstantExpr (ConstantExpr_create E 0 1)
     | BinaryExpr Add (ConstantExpr a) right \<Rightarrow> do {
         assert_that (ap_width cl = ap_width a);
         c \<leftarrow> CE_bin E Sub cl a;
         EqExpr_createPartialR E c right }
     | BinaryExpr Sub (ConstantExpr a) right \<Rightarrow> do {
         assert_that (ap_width a = ap_width cl);
         c \<leftarrow> CE_bin E Sub a cl;
         EqExpr_createPartialR E c right }
     | ReadExpr root updates index \<Rightarrow>
         if ConstArrayOpt E then
           if isSymbolicArray root \<or> update_size updates \<noteq> 0
           then EqExpr_create E (ConstantExpr cl) r
           else do {
             res \<leftarrow> const_array_loop E
               (\<lambda>c. create_Eq_const E (\<lambda>c _. EqExpr_createPartialR E c index) index c)
               cl (constantValues root) (getWidth index) 0 (arr_size root) 0
               (ConstantExpr (ConstantExpr_alloc E 0 1));
             case res of
               Inl _ \<Rightarrow> EqExpr_create E (ConstantExpr cl) r
             | Inr e \<Rightarrow> Some e }
         else EqExpr_create E (ConstantExpr cl) r
     | _ \<Rightarrow> EqExpr_create E (ConstantExpr cl) r)"
  by pat_completeness auto
termination by (relation "measure (\<lambda>(E, cl, r). size r)") auto

declare EqExpr_createPartialR.simps [simp del]

definition EqExpr_createPartial :: "expr_env \<Rightarrow> expr \<Rightarrow> apint \<Rightarrow> expr may_abort" where
  "EqExpr_createPartial E l cr = EqExpr_createPartialR E cr l"

definition create_Eq :: "expr_env \<Rightarrow> expr \<Rightarrow> expr \<Rightarrow> expr may_abort" where
  "create_Eq E = CMPCREATE_T E Eq (EqExpr_createPartial E) (EqExpr_createPartialR E) (EqExpr_create E)"

definition createIsZero :: "expr_env \<Rightarrow> expr \<Rightarrow> expr may_abort" where
  "createIsZero E e = do {
     z \<leftarrow> ConstantExpr_create E 0 (getWidth e);
     create_Eq E e (ConstantExpr z) }"

definition createImplies :: "expr_env \<Rightarrow> expr \<Rightarrow> expr \<Rightarrow> expr may_abort" where
  "createImplies E hyp conc = do {
     z \<leftarrow> createIsZero E hyp;
     create_Or E z conc }"

definition create_Ne :: "expr_env \<Rightarrow> expr \<Rightarrow> expr \<Rightarrow> expr may_abort" where
  "create_Ne E l r = do {
     z \<leftarrow> ConstantExpr_create E 0 1;
     e \<leftarrow> create_Eq E l r;
     create_Eq E (ConstantExpr z) e }"

subsection \<open>Arithmetic\<close>

definition XorExpr_createPartialR :: "expr_env \<Rightarrow> apint \<Rightarrow> expr \<Rightarrow> expr may_abort" where
  "XorExpr_createPartialR E cl r = do {
     z \<leftarrow> isZero E cl;
     if z then Some r
     else if ap_width cl = 1 then do {
       c \<leftarrow> ConstantExpr_create E 0 1;
       EqExpr_createPartial E r c }
     else Some (BinaryExpr Xor (ConstantExpr cl) r) }"

definition XorExpr_createPartial :: "expr_env \<Rightarrow> expr \<Rightarrow> apint \<Rightarrow> expr may_abort" where
  "XorExpr_createPartial E l cr = XorExpr_createPartialR E cr l"

definition XorExpr_create :: "expr \<Rightarrow> expr \<Rightarrow> expr may_abort" where
  "XorExpr_create l r = Some (BinaryExpr Xor l r)"

definition create_Xor :: "expr_env \<Rightarrow> expr \<Rightarrow> expr \<Rightarrow> expr may_abort" where
  "create_Xor E = BCREATE_R E Xor (XorExpr_createPartial E) (XorExpr_createPartialR E) XorExpr_create"

text \<open>
  \<^verbatim>\<open>AddExpr\<close> and \<^verbatim>\<open>SubExpr\<close>. First the functions for a constant left operand, with the calls
  \<^verbatim>\<open>AddExpr::create(c, x)\<close> and \<^verbatim>\<open>SubExpr::create(c, x)\<close> of their bodies written out by the case of \<open>x\<close>.
\<close>

definition create_const_l ::
  "expr_env \<Rightarrow> bkind \<Rightarrow> (apint \<Rightarrow> expr \<Rightarrow> expr may_abort) \<Rightarrow> apint \<Rightarrow> expr \<Rightarrow> expr may_abort" where
  "create_const_l E k partialR c x = do {
     assert_that (ap_width c = getWidth x);
     case dyn_const x of
       Some cx \<Rightarrow> map_option ConstantExpr (CE_bin E k c cx)
     | None \<Rightarrow> partialR c x }"

lemma create_const_l_cong [fundef_cong]:
  assumes "E = E'" "k = k'" "x = x'" "c = c'" "partialR c' x' = partialR' c' x'"
  shows "create_const_l E k partialR c x = create_const_l E' k' partialR' c' x'"
  using assms by (simp add: create_const_l_def split: option.split)

text \<open>The test \<^verbatim>\<open>rk==k && isa<ConstantExpr>(r->getKid(0))\<close>, with the two kids.\<close>

fun const_kid :: "bkind \<Rightarrow> expr \<Rightarrow> (apint \<times> expr) option" where
  "const_kid k (BinaryExpr k' (ConstantExpr c) a) = (if k' = k then Some (c, a) else None)"
| "const_kid k _ = None"

lemma const_kid_Some: "const_kid k e = Some (c, a) \<longleftrightarrow> e = BinaryExpr k (ConstantExpr c) a"
  by (cases "(k, e)" rule: const_kid.cases) auto

lemma const_kid_size [termination_simp]: "const_kid k e = Some (c, a) \<Longrightarrow> size a < size e"
  by (simp add: const_kid_Some)

function AddExpr_createPartialR :: "expr_env \<Rightarrow> apint \<Rightarrow> expr \<Rightarrow> expr may_abort"
  and SubExpr_createPartialR :: "expr_env \<Rightarrow> apint \<Rightarrow> expr \<Rightarrow> expr may_abort" where
  "AddExpr_createPartialR E cl r =
    (if ap_width cl = 1 then XorExpr_createPartialR E cl r
     else do {
       z \<leftarrow> isZero E cl;
       if z then Some r
       else case const_kid Add r of
         Some (b, c) \<Rightarrow> do {
           assert_that (ap_width cl = ap_width b);
           ab \<leftarrow> CE_bin E Add cl b;
           create_const_l E Add (\<lambda>c x. AddExpr_createPartialR E c x) ab c }
       | None \<Rightarrow> (case const_kid Sub r of
         Some (b, c) \<Rightarrow> do {
           assert_that (ap_width cl = ap_width b);
           ab \<leftarrow> CE_bin E Add cl b;
           create_const_l E Sub (\<lambda>c x. SubExpr_createPartialR E c x) ab c }
       | None \<Rightarrow> Some (BinaryExpr Add (ConstantExpr cl) r)) })"
| "SubExpr_createPartialR E cl r =
    (if ap_width cl = 1 then XorExpr_createPartialR E cl r
     else case const_kid Add r of
       Some (b, c) \<Rightarrow> do {
         assert_that (ap_width cl = ap_width b);
         ab \<leftarrow> CE_bin E Sub cl b;
         create_const_l E Sub (\<lambda>c x. SubExpr_createPartialR E c x) ab c }
     | None \<Rightarrow> (case const_kid Sub r of
       Some (b, c) \<Rightarrow> do {
         assert_that (ap_width cl = ap_width b);
         ab \<leftarrow> CE_bin E Sub cl b;
         create_const_l E Add (\<lambda>c x. AddExpr_createPartialR E c x) ab c }
     | None \<Rightarrow> Some (BinaryExpr Sub (ConstantExpr cl) r)))"
  by pat_completeness auto
termination
  by (relation "measure (\<lambda>x. case x of Inl (E, cl, r) \<Rightarrow> size r | Inr (E, cl, r) \<Rightarrow> size r)")
    (auto simp: const_kid_Some)

declare AddExpr_createPartialR.simps [simp del] SubExpr_createPartialR.simps [simp del]

definition AddExpr_createPartial :: "expr_env \<Rightarrow> expr \<Rightarrow> apint \<Rightarrow> expr may_abort" where
  "AddExpr_createPartial E l cr = AddExpr_createPartialR E cr l"

definition SubExpr_createPartial :: "expr_env \<Rightarrow> expr \<Rightarrow> apint \<Rightarrow> expr may_abort" where
  "SubExpr_createPartial E l cr = do {
     c \<leftarrow> CE_bin E Sub (ConstantExpr_alloc E 0 (ap_width cr)) cr;
     AddExpr_createPartial E l c }"

text \<open>
  Then the mutually recursive \<^verbatim>\<open>create\<close> functions. Their outer calls have a constant operand and are
  written with the functions above; the inner calls are on parts of the two operands.
\<close>

definition create_Sub_const_r :: "expr_env \<Rightarrow> expr \<Rightarrow> apint \<Rightarrow> expr may_abort" where
  "create_Sub_const_r E x c = do {
     assert_that (getWidth x = ap_width c);
     case dyn_const x of
       Some cx \<Rightarrow> map_option ConstantExpr (CE_bin E Sub cx c)
     | None \<Rightarrow> SubExpr_createPartial E x c }"

function create_Add :: "expr_env \<Rightarrow> expr \<Rightarrow> expr \<Rightarrow> expr may_abort"
  and create_Sub :: "expr_env \<Rightarrow> expr \<Rightarrow> expr \<Rightarrow> expr may_abort" where
  "create_Add E l r = do {
     assert_that (getWidth l = getWidth r);
     case dyn_const l of
       Some cl \<Rightarrow> create_const_l E Add (AddExpr_createPartialR E) cl r
     | None \<Rightarrow> (case dyn_const r of
       Some cr \<Rightarrow> AddExpr_createPartial E l cr
     | None \<Rightarrow>
       if getWidth l = 1 then XorExpr_create l r
       else (case const_kid Add l of
         Some (k, a) \<Rightarrow> do {
           e \<leftarrow> create_Add E a r;
           create_const_l E Add (AddExpr_createPartialR E) k e }
       | None \<Rightarrow> (case const_kid Sub l of
         Some (k, a) \<Rightarrow> do {
           e \<leftarrow> create_Sub E r a;
           create_const_l E Add (AddExpr_createPartialR E) k e }
       | None \<Rightarrow> (case const_kid Add r of
         Some (k, b) \<Rightarrow> do {
           e \<leftarrow> create_Add E l b;
           create_const_l E Add (AddExpr_createPartialR E) k e }
       | None \<Rightarrow> (case const_kid Sub r of
         Some (k, b) \<Rightarrow> do {
           e \<leftarrow> create_Sub E l b;
           create_const_l E Add (AddExpr_createPartialR E) k e }
       | None \<Rightarrow> Some (BinaryExpr Add l r)))))) }"
| "create_Sub E l r = do {
     assert_that (getWidth l = getWidth r);
     case dyn_const l of
       Some cl \<Rightarrow> create_const_l E Sub (SubExpr_createPartialR E) cl r
     | None \<Rightarrow> (case dyn_const r of
       Some cr \<Rightarrow> SubExpr_createPartial E l cr
     | None \<Rightarrow>
       if getWidth l = 1 then XorExpr_create l r
       else if l = r then Some (ConstantExpr (ConstantExpr_alloc E 0 (getWidth l)))
       else (case const_kid Add l of
         Some (k, a) \<Rightarrow> do {
           e \<leftarrow> create_Sub E a r;
           create_const_l E Add (AddExpr_createPartialR E) k e }
       | None \<Rightarrow> (case const_kid Sub l of
         Some (k, a) \<Rightarrow> do {
           e \<leftarrow> create_Add E a r;
           create_const_l E Sub (SubExpr_createPartialR E) k e }
       | None \<Rightarrow> (case const_kid Add r of
         Some (k, b) \<Rightarrow> do {
           e \<leftarrow> create_Sub E l b;
           create_Sub_const_r E e k }
       | None \<Rightarrow> (case const_kid Sub r of
         Some (k, b) \<Rightarrow> do {
           e \<leftarrow> create_Add E l b;
           create_Sub_const_r E e k }
       | None \<Rightarrow> Some (BinaryExpr Sub l r)))))) }"
  by pat_completeness auto
termination
  by (relation "measure (\<lambda>x. case x of Inl (E, l, r) \<Rightarrow> size l + size r | Inr (E, l, r) \<Rightarrow> size l + size r)")
    (auto simp: const_kid_Some)

declare create_Add.simps [simp del] create_Sub.simps [simp del]

definition MulExpr_createPartialR :: "expr_env \<Rightarrow> apint \<Rightarrow> expr \<Rightarrow> expr may_abort" where
  "MulExpr_createPartialR E cl r =
    (if ap_width cl = 1 then AndExpr_createPartialR E cl r
     else do {
       one \<leftarrow> isOne E cl;
       if one then Some r
       else do {
         z \<leftarrow> isZero E cl;
         if z then Some (ConstantExpr cl) else Some (BinaryExpr Mul (ConstantExpr cl) r) } })"

definition MulExpr_createPartial :: "expr_env \<Rightarrow> expr \<Rightarrow> apint \<Rightarrow> expr may_abort" where
  "MulExpr_createPartial E l cr = MulExpr_createPartialR E cr l"

definition MulExpr_create :: "expr \<Rightarrow> expr \<Rightarrow> expr may_abort" where
  "MulExpr_create l r =
    (if getWidth l = 1 then Some (BinaryExpr And l r) else Some (BinaryExpr Mul l r))"

definition create_Mul :: "expr_env \<Rightarrow> expr \<Rightarrow> expr \<Rightarrow> expr may_abort" where
  "create_Mul E = BCREATE_R E Mul (MulExpr_createPartial E) (MulExpr_createPartialR E) MulExpr_create"

definition UDivExpr_create :: "expr \<Rightarrow> expr \<Rightarrow> expr may_abort" where
  "UDivExpr_create l r = (if getWidth l = 1 then Some l else Some (BinaryExpr UDiv l r))"

definition SDivExpr_create :: "expr \<Rightarrow> expr \<Rightarrow> expr may_abort" where
  "SDivExpr_create l r = (if getWidth l = 1 then Some l else Some (BinaryExpr SDiv l r))"

definition URemExpr_create :: "expr_env \<Rightarrow> expr \<Rightarrow> expr \<Rightarrow> expr may_abort" where
  "URemExpr_create E l r =
    (if getWidth l = 1 then map_option ConstantExpr (ConstantExpr_create E 0 1)
     else Some (BinaryExpr URem l r))"

definition SRemExpr_create :: "expr_env \<Rightarrow> expr \<Rightarrow> expr \<Rightarrow> expr may_abort" where
  "SRemExpr_create E l r =
    (if getWidth l = 1 then map_option ConstantExpr (ConstantExpr_create E 0 1)
     else Some (BinaryExpr SRem l r))"

definition ShlExpr_create :: "expr_env \<Rightarrow> expr \<Rightarrow> expr \<Rightarrow> expr may_abort" where
  "ShlExpr_create E l r =
    (if getWidth l = 1 then do { z \<leftarrow> createIsZero E r; create_And E l z }
     else Some (BinaryExpr Shl l r))"

definition LShrExpr_create :: "expr_env \<Rightarrow> expr \<Rightarrow> expr \<Rightarrow> expr may_abort" where
  "LShrExpr_create E l r =
    (if getWidth l = 1 then do { z \<leftarrow> createIsZero E r; create_And E l z }
     else Some (BinaryExpr LShr l r))"

definition AShrExpr_create :: "expr \<Rightarrow> expr \<Rightarrow> expr may_abort" where
  "AShrExpr_create l r = (if getWidth l = 1 then Some l else Some (BinaryExpr AShr l r))"

definition create_UDiv :: "expr_env \<Rightarrow> expr \<Rightarrow> expr \<Rightarrow> expr may_abort" where
  "create_UDiv E = BCREATE E UDiv UDivExpr_create"

definition create_SDiv :: "expr_env \<Rightarrow> expr \<Rightarrow> expr \<Rightarrow> expr may_abort" where
  "create_SDiv E = BCREATE E SDiv SDivExpr_create"

definition create_URem :: "expr_env \<Rightarrow> expr \<Rightarrow> expr \<Rightarrow> expr may_abort" where
  "create_URem E = BCREATE E URem (URemExpr_create E)"

definition create_SRem :: "expr_env \<Rightarrow> expr \<Rightarrow> expr \<Rightarrow> expr may_abort" where
  "create_SRem E = BCREATE E SRem (SRemExpr_create E)"

definition create_Shl :: "expr_env \<Rightarrow> expr \<Rightarrow> expr \<Rightarrow> expr may_abort" where
  "create_Shl E = BCREATE E Shl (ShlExpr_create E)"

definition create_LShr :: "expr_env \<Rightarrow> expr \<Rightarrow> expr \<Rightarrow> expr may_abort" where
  "create_LShr E = BCREATE E LShr (LShrExpr_create E)"

definition create_AShr :: "expr_env \<Rightarrow> expr \<Rightarrow> expr \<Rightarrow> expr may_abort" where
  "create_AShr E = BCREATE E AShr AShrExpr_create"

subsection \<open>Comparisons, selection and reads\<close>

definition UltExpr_create :: "expr_env \<Rightarrow> expr \<Rightarrow> expr \<Rightarrow> expr may_abort" where
  "UltExpr_create E l r =
    (if getWidth l = 1 then do { z \<leftarrow> createIsZero E l; create_And E z r }
     else Some (CmpExpr Ult l r))"

definition UleExpr_create :: "expr_env \<Rightarrow> expr \<Rightarrow> expr \<Rightarrow> expr may_abort" where
  "UleExpr_create E l r =
    (if getWidth l = 1 then do { z \<leftarrow> createIsZero E l; create_Or E z r }
     else Some (CmpExpr Ule l r))"

definition SltExpr_create :: "expr_env \<Rightarrow> expr \<Rightarrow> expr \<Rightarrow> expr may_abort" where
  "SltExpr_create E l r =
    (if getWidth l = 1 then do { z \<leftarrow> createIsZero E r; create_And E l z }
     else Some (CmpExpr Slt l r))"

definition SleExpr_create :: "expr_env \<Rightarrow> expr \<Rightarrow> expr \<Rightarrow> expr may_abort" where
  "SleExpr_create E l r =
    (if getWidth l = 1 then do { z \<leftarrow> createIsZero E r; create_Or E l z }
     else Some (CmpExpr Sle l r))"

definition create_Ult :: "expr_env \<Rightarrow> expr \<Rightarrow> expr \<Rightarrow> expr may_abort" where
  "create_Ult E = CMPCREATE E Ult (UltExpr_create E)"

definition create_Ule :: "expr_env \<Rightarrow> expr \<Rightarrow> expr \<Rightarrow> expr may_abort" where
  "create_Ule E = CMPCREATE E Ule (UleExpr_create E)"

definition create_Slt :: "expr_env \<Rightarrow> expr \<Rightarrow> expr \<Rightarrow> expr may_abort" where
  "create_Slt E = CMPCREATE E Slt (SltExpr_create E)"

definition create_Sle :: "expr_env \<Rightarrow> expr \<Rightarrow> expr \<Rightarrow> expr may_abort" where
  "create_Sle E = CMPCREATE E Sle (SleExpr_create E)"

definition create_Ugt :: "expr_env \<Rightarrow> expr \<Rightarrow> expr \<Rightarrow> expr may_abort" where
  "create_Ugt E l r = create_Ult E r l"

definition create_Uge :: "expr_env \<Rightarrow> expr \<Rightarrow> expr \<Rightarrow> expr may_abort" where
  "create_Uge E l r = create_Ule E r l"

definition create_Sgt :: "expr_env \<Rightarrow> expr \<Rightarrow> expr \<Rightarrow> expr may_abort" where
  "create_Sgt E l r = create_Slt E r l"

definition create_Sge :: "expr_env \<Rightarrow> expr \<Rightarrow> expr \<Rightarrow> expr may_abort" where
  "create_Sge E l r = create_Sle E r l"

definition create_Select :: "expr_env \<Rightarrow> expr \<Rightarrow> expr \<Rightarrow> expr \<Rightarrow> expr may_abort" where
  "create_Select E c t f = do {
     assert_that (getWidth c = 1);
     assert_that (getWidth t = getWidth f);
     case dyn_const c of
       Some ce \<Rightarrow> do { b \<leftarrow> isTrue E ce; Some (if b then t else f) }
     | None \<Rightarrow>
       (if t = f then Some t
        else if getWidth t = 1 then
          (case dyn_const t of
             Some ce \<Rightarrow> do {
               b \<leftarrow> isTrue E ce;
               if b then create_Or E c f
               else do { z \<leftarrow> createIsZero E c; create_And E z f } }
           | None \<Rightarrow> (case dyn_const f of
               Some ce \<Rightarrow> do {
                 b \<leftarrow> isTrue E ce;
                 if b then do { z \<leftarrow> createIsZero E c; create_Or E z t }
                 else create_And E c t }
             | None \<Rightarrow> Some (SelectExpr c t f)))
        else Some (SelectExpr c t f)) }"

text \<open>The scan of \<^verbatim>\<open>ReadExpr::create\<close>; \<open>ul\<close> is the whole update list, for the final \<^verbatim>\<open>alloc\<close>.\<close>

fun ReadExpr_scan :: "expr_env \<Rightarrow> array \<Rightarrow> update_node \<Rightarrow> expr \<Rightarrow> update_node \<Rightarrow> expr may_abort" where
  "ReadExpr_scan E root ul index NoUpdate = Some (ReadExpr root ul index)"
| "ReadExpr_scan E root ul index (UpdateNode ui uv next) = do {
     cond \<leftarrow> create_Eq E index ui;
     case dyn_const cond of
       Some ce \<Rightarrow> do {
         t \<leftarrow> isTrue E ce;
         if t then Some uv else ReadExpr_scan E root ul index next }
     | None \<Rightarrow> Some (ReadExpr root ul index) }"

definition create_Read :: "expr_env \<Rightarrow> array \<Rightarrow> update_node \<Rightarrow> expr \<Rightarrow> expr may_abort" where
  "create_Read E root ul index = ReadExpr_scan E root ul index ul"

fun create_bin :: "expr_env \<Rightarrow> bkind \<Rightarrow> expr \<Rightarrow> expr \<Rightarrow> expr may_abort" where
  "create_bin E Add l r = create_Add E l r"
| "create_bin E Sub l r = create_Sub E l r"
| "create_bin E Mul l r = create_Mul E l r"
| "create_bin E UDiv l r = create_UDiv E l r"
| "create_bin E SDiv l r = create_SDiv E l r"
| "create_bin E URem l r = create_URem E l r"
| "create_bin E SRem l r = create_SRem E l r"
| "create_bin E And l r = create_And E l r"
| "create_bin E Or l r = create_Or E l r"
| "create_bin E Xor l r = create_Xor E l r"
| "create_bin E Shl l r = create_Shl E l r"
| "create_bin E LShr l r = create_LShr E l r"
| "create_bin E AShr l r = create_AShr E l r"

fun create_cmp :: "expr_env \<Rightarrow> ckind \<Rightarrow> expr \<Rightarrow> expr \<Rightarrow> expr may_abort" where
  "create_cmp E Eq l r = create_Eq E l r"
| "create_cmp E Ne l r = create_Ne E l r"
| "create_cmp E Ult l r = create_Ult E l r"
| "create_cmp E Ule l r = create_Ule E l r"
| "create_cmp E Ugt l r = create_Ugt E l r"
| "create_cmp E Uge l r = create_Uge E l r"
| "create_cmp E Slt l r = create_Slt E l r"
| "create_cmp E Sle l r = create_Sle E l r"
| "create_cmp E Sgt l r = create_Sgt E l r"
| "create_cmp E Sge l r = create_Sge E l r"

end
