(* ===== verification/Expr_Sem.thy ===== *)
theory Expr_Sem
  imports Expr
begin

text \<open>
  What an expression means, and the correctness of the simplifying constructors.

  The value of an expression of width \<open>w\<close> is a number below \<open>2 ^ w\<close>, for given contents of the
  symbolic arrays. Division by zero and the out-of-range reads of a constant array are given
  values by the definition below that no statement relies on without saying so.
\<close>

declare One_nat_def [simp del]

subsection \<open>Two's complement operations\<close>

definition sgn_val :: "nat \<Rightarrow> int \<Rightarrow> int" where
  "sgn_val w a = (if a < 2 ^ (w - 1) then a else a - 2 ^ w)"

fun sem_bin :: "bkind \<Rightarrow> nat \<Rightarrow> int \<Rightarrow> int \<Rightarrow> int" where
  "sem_bin Add w a b = (a + b) mod 2 ^ w"
| "sem_bin Sub w a b = (a - b) mod 2 ^ w"
| "sem_bin Mul w a b = (a * b) mod 2 ^ w"
| "sem_bin UDiv w a b = (a div b) mod 2 ^ w"
| "sem_bin SDiv w a b = (sgn_val w a sdiv sgn_val w b) mod 2 ^ w"
| "sem_bin URem w a b = (a mod b) mod 2 ^ w"
| "sem_bin SRem w a b = (sgn_val w a smod sgn_val w b) mod 2 ^ w"
| "sem_bin And w a b = (a AND b) mod 2 ^ w"
| "sem_bin Or w a b = (a OR b) mod 2 ^ w"
| "sem_bin Xor w a b = (a XOR b) mod 2 ^ w"
| "sem_bin Shl w a b = (if b < int w then a * 2 ^ nat b mod 2 ^ w else 0)"
| "sem_bin LShr w a b = (if b < int w then a div 2 ^ nat b mod 2 ^ w else 0)"
| "sem_bin AShr w a b =
    (if b < int w then sgn_val w a div 2 ^ nat b else if sgn_val w a < 0 then - 1 else 0) mod 2 ^ w"

fun sem_cmp :: "ckind \<Rightarrow> nat \<Rightarrow> int \<Rightarrow> int \<Rightarrow> bool" where
  "sem_cmp Eq w a b = (a = b)"
| "sem_cmp Ne w a b = (a \<noteq> b)"
| "sem_cmp Ult w a b = (a < b)"
| "sem_cmp Ule w a b = (a \<le> b)"
| "sem_cmp Ugt w a b = (a > b)"
| "sem_cmp Uge w a b = (a \<ge> b)"
| "sem_cmp Slt w a b = (sgn_val w a < sgn_val w b)"
| "sem_cmp Sle w a b = (sgn_val w a \<le> sgn_val w b)"
| "sem_cmp Sgt w a b = (sgn_val w a > sgn_val w b)"
| "sem_cmp Sge w a b = (sgn_val w a \<ge> sgn_val w b)"

definition is_div :: "bkind \<Rightarrow> bool" where
  "is_div k \<longleftrightarrow> k \<in> {UDiv, SDiv, URem, SRem}"

definition wf_ap :: "apint \<Rightarrow> bool" where
  "wf_ap a \<longleftrightarrow> 0 < ap_width a \<and> 0 \<le> ap_val a \<and> ap_val a < 2 ^ ap_width a"

text \<open>
  The documented behaviour of \<^verbatim>\<open>llvm::APInt\<close> that the program relies on: its operations are those
  of two's complement numbers of the given width. Nothing is said of a division by zero, of
  operands of different widths or of shifts beyond the width by a plain number.
\<close>

locale apint_laws =
  fixes E :: expr_env
  assumes ap_new: "0 < w \<Longrightarrow> ap_new E w v = APInt w (uint v mod 2 ^ w)"
    and ap_getZExtValue: "wf_ap a \<Longrightarrow> ap_val a < 2 ^ 64 \<Longrightarrow>
      ap_getZExtValue E a = Some (word_of_int (ap_val a))"
    and ap_zext: "wf_ap a \<Longrightarrow> ap_width a < w \<Longrightarrow> ap_zext E a w = APInt w (ap_val a)"
    and ap_zextOrTrunc: "wf_ap a \<Longrightarrow> 0 < w \<Longrightarrow> ap_zextOrTrunc E a w = APInt w (ap_val a mod 2 ^ w)"
    and ap_sextOrTrunc: "wf_ap a \<Longrightarrow> 0 < w \<Longrightarrow>
      ap_sextOrTrunc E a w = APInt w (sgn_val (ap_width a) (ap_val a) mod 2 ^ w)"
    and ap_shl_by: "wf_ap a \<Longrightarrow> n < ap_width a \<Longrightarrow>
      ap_shl_by E a n = APInt (ap_width a) (ap_val a * 2 ^ n mod 2 ^ ap_width a)"
    and ap_ashr_by: "wf_ap a \<Longrightarrow> n < ap_width a \<Longrightarrow>
      ap_ashr_by E a n =
        APInt (ap_width a) (sgn_val (ap_width a) (ap_val a) div 2 ^ n mod 2 ^ ap_width a)"
    and ap_not: "wf_ap a \<Longrightarrow> ap_not E a = APInt (ap_width a) (2 ^ ap_width a - 1 - ap_val a)"
    and ap_bin: "wf_ap a \<Longrightarrow> wf_ap b \<Longrightarrow> ap_width a = ap_width b \<Longrightarrow> (is_div k \<longrightarrow> ap_val b \<noteq> 0) \<Longrightarrow>
      ap_bin E k a b = Some (APInt (ap_width a) (sem_bin k (ap_width a) (ap_val a) (ap_val b)))"
    and ap_cmp: "wf_ap a \<Longrightarrow> wf_ap b \<Longrightarrow> ap_width a = ap_width b \<Longrightarrow>
      ap_cmp E c a b = sem_cmp c (ap_width a) (ap_val a) (ap_val b)"

text \<open>An implementation with these laws: the operations on the numbers themselves.\<close>

definition apint_env :: "bool \<Rightarrow> expr_env" where
  "apint_env opt = \<lparr>
     ap_new = (\<lambda>w v. APInt w (uint v mod 2 ^ w)),
     ap_getZExtValue = (\<lambda>a. if ap_val a < 2 ^ 64 then Some (word_of_int (ap_val a)) else None),
     ap_zext = (\<lambda>a w. APInt w (ap_val a)),
     ap_zextOrTrunc = (\<lambda>a w. APInt w (ap_val a mod 2 ^ w)),
     ap_sextOrTrunc = (\<lambda>a w. APInt w (sgn_val (ap_width a) (ap_val a) mod 2 ^ w)),
     ap_shl_by = (\<lambda>a n. APInt (ap_width a) (ap_val a * 2 ^ n mod 2 ^ ap_width a)),
     ap_ashr_by = (\<lambda>a n. APInt (ap_width a) (sgn_val (ap_width a) (ap_val a) div 2 ^ n mod 2 ^ ap_width a)),
     ap_not = (\<lambda>a. APInt (ap_width a) (2 ^ ap_width a - 1 - ap_val a)),
     ap_bin = (\<lambda>k a b. if is_div k \<and> ap_val b = 0 then None
       else Some (APInt (ap_width a) (sem_bin k (ap_width a) (ap_val a) (ap_val b)))),
     ap_cmp = (\<lambda>k a b. sem_cmp k (ap_width a) (ap_val a) (ap_val b)),
     ConstArrayOpt = opt\<rparr>"

interpretation apint_env: apint_laws "apint_env opt"
  by unfold_locales (auto simp: apint_env_def)

subsection \<open>Values of expressions\<close>

type_synonym contents = "array \<Rightarrow> nat \<Rightarrow> int"

definition bytes :: "contents \<Rightarrow> bool" where
  "bytes \<alpha> \<longleftrightarrow> (\<forall>a i. 0 \<le> \<alpha> a i \<and> \<alpha> a i < 256)"

definition initial_value :: "contents \<Rightarrow> array \<Rightarrow> int \<Rightarrow> int" where
  "initial_value \<alpha> a i =
    (if isConstantArray a \<and> nat i < arr_size a then ap_val (constantValues a ! nat i) else \<alpha> a (nat i))"

fun eval :: "contents \<Rightarrow> expr \<Rightarrow> int"
  and eval_updates :: "contents \<Rightarrow> update_node \<Rightarrow> int \<Rightarrow> int \<Rightarrow> int" where
  "eval \<alpha> (ConstantExpr a) = ap_val a"
| "eval \<alpha> (NotOptimizedExpr e) = eval \<alpha> e"
| "eval \<alpha> (ReadExpr a us i) = eval_updates \<alpha> us (eval \<alpha> i) (initial_value \<alpha> a (eval \<alpha> i))"
| "eval \<alpha> (SelectExpr c t f) = (if eval \<alpha> c = 1 then eval \<alpha> t else eval \<alpha> f)"
| "eval \<alpha> (ConcatExpr l r) = eval \<alpha> l * 2 ^ getWidth r + eval \<alpha> r"
| "eval \<alpha> (ExtractExpr e off w) = eval \<alpha> e div 2 ^ off mod 2 ^ w"
| "eval \<alpha> (ZExtExpr e w) = eval \<alpha> e"
| "eval \<alpha> (SExtExpr e w) = sgn_val (getWidth e) (eval \<alpha> e) mod 2 ^ w"
| "eval \<alpha> (NotExpr e) = 2 ^ getWidth e - 1 - eval \<alpha> e"
| "eval \<alpha> (BinaryExpr k l r) = sem_bin k (getWidth l) (eval \<alpha> l) (eval \<alpha> r)"
| "eval \<alpha> (CmpExpr k l r) = of_bool (sem_cmp k (getWidth l) (eval \<alpha> l) (eval \<alpha> r))"
| "eval_updates \<alpha> NoUpdate i d = d"
| "eval_updates \<alpha> (UpdateNode x v n) i d = (if eval \<alpha> x = i then eval \<alpha> v else eval_updates \<alpha> n i d)"

definition wf_array :: "array \<Rightarrow> bool" where
  "wf_array a \<longleftrightarrow> arr_size a < 2 ^ 32 \<and> (isConstantArray a \<longrightarrow>
    length (constantValues a) = arr_size a \<and> (\<forall>v \<in> set (constantValues a). wf_ap v \<and> ap_width v = 8))"

fun wf_expr :: "expr \<Rightarrow> bool" and wf_updates :: "update_node \<Rightarrow> bool" where
  "wf_expr (ConstantExpr a) = wf_ap a"
| "wf_expr (NotOptimizedExpr e) = wf_expr e"
| "wf_expr (ReadExpr a us i) = (wf_array a \<and> wf_updates us \<and> wf_expr i \<and> getWidth i = 32)"
| "wf_expr (SelectExpr c t f) =
    (wf_expr c \<and> wf_expr t \<and> wf_expr f \<and> getWidth c = 1 \<and> getWidth t = getWidth f)"
| "wf_expr (ConcatExpr l r) = (wf_expr l \<and> wf_expr r)"
| "wf_expr (ExtractExpr e off w) = (wf_expr e \<and> 0 < w \<and> off + w \<le> getWidth e)"
| "wf_expr (ZExtExpr e w) = (wf_expr e \<and> 0 < w \<and> getWidth e \<le> w)"
| "wf_expr (SExtExpr e w) = (wf_expr e \<and> 0 < w \<and> getWidth e \<le> w)"
| "wf_expr (NotExpr e) = wf_expr e"
| "wf_expr (BinaryExpr k l r) = (wf_expr l \<and> wf_expr r \<and> getWidth l = getWidth r)"
| "wf_expr (CmpExpr k l r) = (wf_expr l \<and> wf_expr r \<and> getWidth l = getWidth r)"
| "wf_updates NoUpdate = True"
| "wf_updates (UpdateNode x v n) =
    (wf_expr x \<and> getWidth x = 32 \<and> wf_expr v \<and> getWidth v = 8 \<and> wf_updates n)"

lemma wf_expr_width: "wf_expr e \<Longrightarrow> 0 < getWidth e"
  by (induction e rule: getWidth.induct) (auto simp: wf_ap_def)

lemma sem_bin_range: "0 \<le> sem_bin k w a b \<and> sem_bin k w a b < 2 ^ w"
  by (cases k) auto

lemma initial_value_range:
  "wf_array a \<Longrightarrow> bytes \<alpha> \<Longrightarrow> 0 \<le> initial_value \<alpha> a i \<and> initial_value \<alpha> a i < 256"
  using nth_mem [of "nat i" "constantValues a"]
  by (auto simp: initial_value_def wf_array_def bytes_def wf_ap_def
      dest!: bspec [where x = "constantValues a ! nat i"])

lemma eval_range:
  shows "bytes \<alpha> \<Longrightarrow> wf_expr e \<Longrightarrow> 0 \<le> eval \<alpha> e \<and> eval \<alpha> e < 2 ^ getWidth e"
    and "bytes \<alpha> \<Longrightarrow> wf_updates us \<Longrightarrow> 0 \<le> d \<Longrightarrow> d < 256 \<Longrightarrow>
      0 \<le> eval_updates \<alpha> us i d \<and> eval_updates \<alpha> us i d < 256"
proof (induction \<alpha> e and \<alpha> us i d rule: eval_eval_updates.induct)
  case (1 \<alpha> a)
  then show ?case by (simp add: wf_ap_def)
next
  case (3 \<alpha> a us i)
  then show ?case using initial_value_range [of a \<alpha> "eval \<alpha> i"] by simp
next
  case (5 \<alpha> l r)
  then have "eval \<alpha> l * 2 ^ getWidth r + eval \<alpha> r < (eval \<alpha> l + 1) * 2 ^ getWidth r"
    by (simp add: algebra_simps)
  also have "\<dots> \<le> 2 ^ getWidth l * 2 ^ getWidth r"
    using 5 by (intro mult_right_mono) auto
  finally show ?case using 5 by (simp add: power_add)
next
  case (7 \<alpha> e w)
  then show ?case by (auto intro: less_pow2_mono)
qed (use sem_bin_range in \<open>auto simp: of_bool_def\<close>)

subsection \<open>Slices of numbers\<close>

lemma slice_eq: "x div 2 ^ off mod 2 ^ w = take_bit w (drop_bit off (x :: int))"
  by (simp add: take_bit_eq_mod drop_bit_eq_div)

lemma cat_eq: "0 \<le> r \<Longrightarrow> r < 2 ^ n \<Longrightarrow> l * 2 ^ n + r = concat_bit n r (l :: int)"
  by (simp add: concat_bit_eq push_bit_eq_mult take_bit_int_eq_self)

lemma range_take_bit: "0 \<le> x \<Longrightarrow> x < 2 ^ w \<Longrightarrow> take_bit w x = (x :: int)"
  by (rule take_bit_int_eq_self)

lemma slice_cat_left:
  assumes "0 \<le> r" "r < 2 ^ n" "n \<le> off"
  shows "(l * 2 ^ n + r) div 2 ^ off mod 2 ^ w = (l :: int) div 2 ^ (off - n) mod 2 ^ w"
  unfolding slice_eq cat_eq [OF assms(1,2)]
  by (rule bit_eqI) (use assms(3) in \<open>auto simp: bit_simps bit_concat_bit_iff\<close>)

lemma slice_cat_right:
  assumes "0 \<le> r" "r < 2 ^ n" "off + w \<le> n"
  shows "(l * 2 ^ n + r) div 2 ^ off mod 2 ^ w = (r :: int) div 2 ^ off mod 2 ^ w"
  unfolding slice_eq cat_eq [OF assms(1,2)]
  by (rule bit_eqI) (use assms(3) in \<open>auto simp: bit_simps bit_concat_bit_iff\<close>)

lemma slice_cat_both:
  assumes "0 \<le> r" "r < 2 ^ n" "off < n" "n < off + w"
  shows "(l * 2 ^ n + r) div 2 ^ off mod 2 ^ w =
    (l div 2 ^ 0 mod 2 ^ (w + off - n)) * 2 ^ (n - off) + (r :: int) div 2 ^ off mod 2 ^ (n - off)"
proof -
  have "0 \<le> r div 2 ^ off mod 2 ^ (n - off)" "r div 2 ^ off mod 2 ^ (n - off) < 2 ^ (n - off)"
    by simp_all
  note c = cat_eq [OF this]
  show ?thesis
    unfolding c unfolding slice_eq cat_eq [OF assms(1,2)]
    by (rule bit_eqI) (use assms(3,4) in \<open>auto simp: bit_simps bit_concat_bit_iff add.commute\<close>)
qed

lemma slice_join:
  "(x div 2 ^ (off + w) mod 2 ^ v) * 2 ^ w + x div 2 ^ off mod 2 ^ w = (x :: int) div 2 ^ off mod 2 ^ (v + w)"
proof -
  have "0 \<le> x div 2 ^ off mod 2 ^ w" "x div 2 ^ off mod 2 ^ w < 2 ^ w" by simp_all
  note c = cat_eq [OF this]
  show ?thesis
    unfolding c unfolding slice_eq
    by (rule bit_eqI) (auto simp: bit_simps bit_concat_bit_iff)
qed

lemma slice_slice:
  assumes "off + w \<le> v"
  shows "((x :: int) mod 2 ^ v) div 2 ^ off mod 2 ^ w = x div 2 ^ off mod 2 ^ w"
proof -
  have "x mod 2 ^ v = take_bit v x" by (simp add: take_bit_eq_mod)
  then show ?thesis
    unfolding slice_eq by (intro bit_eqI) (use assms in \<open>auto simp: bit_simps\<close>)
qed

lemma slice_whole: "0 \<le> x \<Longrightarrow> x < 2 ^ w \<Longrightarrow> (x :: int) div 2 ^ 0 mod 2 ^ w = x"
  by simp

lemma or_disjoint:
  assumes "0 \<le> r" "r < 2 ^ n"
  shows "(l * 2 ^ n) OR r = l * 2 ^ n + (r :: int)"
proof -
  have "l * 2 ^ n = push_bit n l" by (simp add: push_bit_eq_mult)
  then have "(l * 2 ^ n) OR r = concat_bit n r l"
    using range_take_bit [OF assms] by (simp add: concat_bit_def or.commute)
  then show ?thesis by (simp add: cat_eq assms)
qed

lemma sgn_val_mod: "sgn_val w x mod 2 ^ w = x mod 2 ^ w"
  by (simp add: sgn_val_def)

lemma sgn_val_range: "0 < w \<Longrightarrow> 0 \<le> x \<Longrightarrow> x < 2 ^ w \<Longrightarrow> - (2 ^ (w - 1)) \<le> sgn_val w x \<and> sgn_val w x < 2 ^ (w - 1)"
  by (cases w) (auto simp: sgn_val_def)

text \<open>
  The optimisation of reads of constant arrays assumes that they are in bounds, for every read
  inside of an expression.
\<close>

fun reads_ok :: "contents \<Rightarrow> expr \<Rightarrow> bool" and updates_reads_ok :: "contents \<Rightarrow> update_node \<Rightarrow> bool" where
  "reads_ok \<alpha> (ConstantExpr a) = True"
| "reads_ok \<alpha> (NotOptimizedExpr e) = reads_ok \<alpha> e"
| "reads_ok \<alpha> (ReadExpr a us i) =
    ((isConstantArray a \<longrightarrow> eval \<alpha> i < int (arr_size a)) \<and> reads_ok \<alpha> i \<and> updates_reads_ok \<alpha> us)"
| "reads_ok \<alpha> (SelectExpr c t f) = (reads_ok \<alpha> c \<and> reads_ok \<alpha> t \<and> reads_ok \<alpha> f)"
| "reads_ok \<alpha> (ConcatExpr l r) = (reads_ok \<alpha> l \<and> reads_ok \<alpha> r)"
| "reads_ok \<alpha> (ExtractExpr e off w) = reads_ok \<alpha> e"
| "reads_ok \<alpha> (ZExtExpr e w) = reads_ok \<alpha> e"
| "reads_ok \<alpha> (SExtExpr e w) = reads_ok \<alpha> e"
| "reads_ok \<alpha> (NotExpr e) = reads_ok \<alpha> e"
| "reads_ok \<alpha> (BinaryExpr k l r) = (reads_ok \<alpha> l \<and> reads_ok \<alpha> r)"
| "reads_ok \<alpha> (CmpExpr k l r) = (reads_ok \<alpha> l \<and> reads_ok \<alpha> r)"
| "updates_reads_ok \<alpha> NoUpdate = True"
| "updates_reads_ok \<alpha> (UpdateNode x v n) = (reads_ok \<alpha> x \<and> reads_ok \<alpha> v \<and> updates_reads_ok \<alpha> n)"

definition expr_ok :: "expr_env \<Rightarrow> contents \<Rightarrow> expr \<Rightarrow> bool" where
  "expr_ok E \<alpha> e \<longleftrightarrow> wf_expr e \<and> (ConstArrayOpt E \<longrightarrow> reads_ok \<alpha> e)"

definition updates_ok :: "expr_env \<Rightarrow> contents \<Rightarrow> update_node \<Rightarrow> bool" where
  "updates_ok E \<alpha> us \<longleftrightarrow> wf_updates us \<and> (ConstArrayOpt E \<longrightarrow> updates_reads_ok \<alpha> us)"

lemma expr_ok_simps [simp]:
  "expr_ok E \<alpha> (ConstantExpr a) \<longleftrightarrow> wf_ap a"
  "expr_ok E \<alpha> (NotOptimizedExpr e) \<longleftrightarrow> expr_ok E \<alpha> e"
  "expr_ok E \<alpha> (ReadExpr ar us i) \<longleftrightarrow> wf_array ar \<and> updates_ok E \<alpha> us \<and> expr_ok E \<alpha> i \<and> getWidth i = 32
    \<and> (ConstArrayOpt E \<and> isConstantArray ar \<longrightarrow> eval \<alpha> i < int (arr_size ar))"
  "expr_ok E \<alpha> (SelectExpr c t f) \<longleftrightarrow>
    expr_ok E \<alpha> c \<and> expr_ok E \<alpha> t \<and> expr_ok E \<alpha> f \<and> getWidth c = 1 \<and> getWidth t = getWidth f"
  "expr_ok E \<alpha> (ConcatExpr l r) \<longleftrightarrow> expr_ok E \<alpha> l \<and> expr_ok E \<alpha> r"
  "expr_ok E \<alpha> (ExtractExpr e off w) \<longleftrightarrow> expr_ok E \<alpha> e \<and> 0 < w \<and> off + w \<le> getWidth e"
  "expr_ok E \<alpha> (ZExtExpr e w) \<longleftrightarrow> expr_ok E \<alpha> e \<and> 0 < w \<and> getWidth e \<le> w"
  "expr_ok E \<alpha> (SExtExpr e w) \<longleftrightarrow> expr_ok E \<alpha> e \<and> 0 < w \<and> getWidth e \<le> w"
  "expr_ok E \<alpha> (NotExpr e) \<longleftrightarrow> expr_ok E \<alpha> e"
  "expr_ok E \<alpha> (BinaryExpr k l r) \<longleftrightarrow> expr_ok E \<alpha> l \<and> expr_ok E \<alpha> r \<and> getWidth l = getWidth r"
  "expr_ok E \<alpha> (CmpExpr ck l r) \<longleftrightarrow> expr_ok E \<alpha> l \<and> expr_ok E \<alpha> r \<and> getWidth l = getWidth r"
  "updates_ok E \<alpha> NoUpdate"
  "updates_ok E \<alpha> (UpdateNode x v n) \<longleftrightarrow>
    expr_ok E \<alpha> x \<and> getWidth x = 32 \<and> expr_ok E \<alpha> v \<and> getWidth v = 8 \<and> updates_ok E \<alpha> n"
  by (auto simp: expr_ok_def updates_ok_def)

lemma expr_ok_width: "expr_ok E \<alpha> e \<Longrightarrow> 0 < getWidth e"
  by (simp add: expr_ok_def wf_expr_width)

lemma eval_bounds:
  "bytes \<alpha> \<Longrightarrow> expr_ok E \<alpha> e \<Longrightarrow> 0 \<le> eval \<alpha> e"
  "bytes \<alpha> \<Longrightarrow> expr_ok E \<alpha> e \<Longrightarrow> eval \<alpha> e < 2 ^ getWidth e"
  using eval_range(1) by (auto simp: expr_ok_def)

text \<open>A constructor returns an expression of the given width and value.\<close>

definition creates :: "expr_env \<Rightarrow> contents \<Rightarrow> nat \<Rightarrow> int \<Rightarrow> expr may_abort \<Rightarrow> bool" where
  "creates E \<alpha> w v r \<longleftrightarrow> (\<exists>e. r = Some e \<and> expr_ok E \<alpha> e \<and> getWidth e = w \<and> eval \<alpha> e = v)"

lemma creates_Some [simp]:
  "creates E \<alpha> w v (Some e) \<longleftrightarrow> expr_ok E \<alpha> e \<and> getWidth e = w \<and> eval \<alpha> e = v"
  by (auto simp: creates_def)

lemma creates_bind:
  assumes "creates E \<alpha> w v r"
    "\<And>e. r = Some e \<Longrightarrow> expr_ok E \<alpha> e \<Longrightarrow> getWidth e = w \<Longrightarrow> eval \<alpha> e = v \<Longrightarrow> creates E \<alpha> w' v' (f e)"
  shows "creates E \<alpha> w' v' (r \<bind> f)"
  using assms by (auto simp: creates_def)

subsection \<open>Constants\<close>

lemma word_of_int_eq_iff:
  fixes a b :: int
  assumes "0 \<le> a" "a < 2 ^ 64" "0 \<le> b" "b < 2 ^ 64"
  shows "(word_of_int a :: uint64_t) = word_of_int b \<longleftrightarrow> a = b"
  using assms by (auto simp: word_of_int_eq_iff take_bit_int_eq_self)

lemma wf_ap_APInt: "wf_ap (APInt w v) \<longleftrightarrow> 0 < w \<and> 0 \<le> v \<and> v < 2 ^ w"
  by (simp add: wf_ap_def)

lemma wf_ap_64: "wf_ap a \<Longrightarrow> ap_width a \<le> 64 \<Longrightarrow> 0 \<le> ap_val a \<and> ap_val a < 2 ^ 64"
  using less_pow2_mono [of "ap_val a" "ap_width a" 64] by (simp add: wf_ap_def)

context apint_laws
begin

lemma getZExtValue_eq:
  "wf_ap a \<Longrightarrow> ap_width a \<le> bits \<Longrightarrow> ap_width a \<le> 64 \<Longrightarrow>
    getZExtValue E bits a = Some (word_of_int (ap_val a))"
  using wf_ap_64 [of a] by (simp add: getZExtValue_def ap_getZExtValue)

lemma isZero_eq: "wf_ap a \<Longrightarrow> ap_width a \<le> 64 \<Longrightarrow> isZero E a = Some (ap_val a = 0)"
  using wf_ap_64 [of a] word_of_int_eq_iff [of "ap_val a" 0] by (simp add: isZero_def getZExtValue_eq)

lemma isOne_eq: "wf_ap a \<Longrightarrow> ap_width a \<le> 64 \<Longrightarrow> isOne E a = Some (ap_val a = 1)"
  using wf_ap_64 [of a] word_of_int_eq_iff [of "ap_val a" 1] by (simp add: isOne_def getZExtValue_eq)

lemma isTrue_eq: "wf_ap a \<Longrightarrow> ap_width a = 1 \<Longrightarrow> isTrue E a = Some (ap_val a = 1)"
  using wf_ap_64 [of a] word_of_int_eq_iff [of "ap_val a" 1] by (simp add: isTrue_def getZExtValue_eq)

lemma isFalse_eq: "wf_ap a \<Longrightarrow> ap_width a = 1 \<Longrightarrow> isFalse E a = Some (ap_val a = 0)"
  using wf_ap_64 [of a] word_of_int_eq_iff [of "ap_val a" 0] by (simp add: isFalse_def getZExtValue_eq)

lemma maxValueOfNBits_word: "w \<le> 64 \<Longrightarrow> maxValueOfNBits w = word_of_int (2 ^ w - 1)"
proof -
  assume w: "w \<le> 64"
  have "drop_bit (64 - w) (- 1 :: uint64_t) = mask w"
    by (rule bit_word_eqI) (use w in \<open>auto simp: bit_simps\<close>)
  then show ?thesis by (simp add: maxValueOfNBits_def mask_eq_exp_minus_1)
qed

lemma CE_isAllOnes_eq:
  assumes "wf_ap a" "ap_width a \<le> 64"
  shows "CE_isAllOnes E a = Some (ap_val a = 2 ^ ap_width a - 1)"
proof -
  have "(2::int) ^ ap_width a \<le> 2 ^ 64" using assms(2) by (rule power_increasing) simp
  then have "0 \<le> (2::int) ^ ap_width a - 1 \<and> (2::int) ^ ap_width a - 1 < 2 ^ 64" by simp
  then show ?thesis
    using assms wf_ap_64 [OF assms] word_of_int_eq_iff [of "ap_val a" "2 ^ ap_width a - 1"]
    by (simp add: CE_isAllOnes_def getZExtValue_eq maxValueOfNBits_word)
qed

lemma alloc_0 [simp]: "0 < w \<Longrightarrow> ConstantExpr_alloc E 0 w = APInt w 0"
  by (simp add: ConstantExpr_alloc_def ap_new)

lemma alloc_1 [simp]: "ConstantExpr_alloc E 1 1 = APInt 1 1"
  by (simp add: ConstantExpr_alloc_def ap_new)

lemma create_0 [simp]: "0 < w \<Longrightarrow> ConstantExpr_create E 0 w = Some (APInt w 0)"
  by (simp add: ConstantExpr_create_def truncateToNBits_def)

lemma CE_cmp_eq:
  "wf_ap a \<Longrightarrow> wf_ap b \<Longrightarrow> ap_width a = ap_width b \<Longrightarrow>
    CE_cmp E k a b = APInt 1 (of_bool (sem_cmp k (ap_width a) (ap_val a) (ap_val b)))"
  by (simp add: CE_cmp_def ap_cmp)

lemma CE_Concat_eq:
  assumes "wf_ap a" "wf_ap b"
  shows "wf_ap (APInt (ap_width a + ap_width b) (ap_val a * 2 ^ ap_width b + ap_val b))"
    and "CE_Concat E a b = Some (APInt (ap_width a + ap_width b) (ap_val a * 2 ^ ap_width b + ap_val b))"
proof -
  let ?W = "ap_width a + ap_width b" and ?v = "ap_val a * 2 ^ ap_width b + ap_val b"
  have "eval (\<lambda>_ _. 0) (ConcatExpr (ConstantExpr a) (ConstantExpr b)) < 2 ^ ?W"
    using eval_range(1) [of "\<lambda>_ _. 0" "ConcatExpr (ConstantExpr a) (ConstantExpr b)"] assms
    by (simp add: bytes_def)
  then have v: "0 \<le> ?v" "?v < 2 ^ ?W" "0 \<le> ap_val b" "ap_val b < 2 ^ ap_width b"
    using assms by (simp_all add: wf_ap_def)
  then show wf: "wf_ap (APInt ?W ?v)"
    using assms by (simp add: wf_ap_def)
  have less: "ap_val a * 2 ^ ap_width b < 2 ^ ?W" "0 \<le> ap_val a * 2 ^ ap_width b"
    using v assms by (simp_all add: wf_ap_def)
  have big: "ap_val a < 2 ^ ?W" "ap_val b < 2 ^ ?W"
    using assms by (auto simp: wf_ap_def intro: less_pow2_mono)
  have wfs: "wf_ap (APInt ?W (ap_val a * 2 ^ ap_width b))" "wf_ap (APInt ?W (ap_val b))"
    "wf_ap (APInt ?W (ap_val a))"
    using less big assms by (simp_all only: wf_ap_APInt) (simp_all add: wf_ap_def)
  have pos: "0 < ap_width a" "0 < ap_width b" using assms by (simp_all add: wf_ap_def)
  have "ap_val a * 2 ^ ap_width b mod 2 ^ ?W = ap_val a * 2 ^ ap_width b" "?v mod 2 ^ ?W = ?v"
    using less v(1,2) mod_pos_pos_trivial by blast+
  moreover have "ap_zext E a ?W = APInt ?W (ap_val a)" "ap_zext E b ?W = APInt ?W (ap_val b)"
    using assms pos by (simp_all add: ap_zext)
  moreover have "ap_val a * 2 ^ ap_width b OR ap_val b = ?v"
    using v(3,4) by (rule or_disjoint)
  ultimately show "CE_Concat E a b = Some (APInt ?W ?v)"
    using ap_shl_by [OF wfs(3), of "ap_width b"] ap_bin [OF wfs(1,2), of Or] pos
    unfolding CE_Concat_def Let_def by (simp add: is_div_def)
qed

lemma sgn_val_slice:
  assumes "off + w \<le> v"
  shows "sgn_val v x div 2 ^ off mod 2 ^ w = x div 2 ^ off mod 2 ^ w"
  using slice_slice [OF assms, of "sgn_val v x"] slice_slice [OF assms, of x]
  by (simp add: sgn_val_mod)

lemma CE_Extract_eq:
  assumes "wf_ap a" "0 < w" "off + w \<le> ap_width a"
  shows "CE_Extract E a off w = APInt w (ap_val a div 2 ^ off mod 2 ^ w)"
  using assms sgn_val_slice [OF assms(3), of "ap_val a"]
  by (simp add: CE_Extract_def ap_ashr_by ap_zextOrTrunc wf_ap_def mod_mod_cancel le_imp_power_dvd)

end

end
