(* ===== verification/Expr_Concat.thy ===== *)
theory Expr_Concat
  imports Expr_Sem
begin

text \<open>
  Correctness of the constructors that cut and join expressions: \<^verbatim>\<open>ExtractExpr::create\<close>,
  \<^verbatim>\<open>ConcatExpr::create\<close>, \<^verbatim>\<open>ZExtExpr::create\<close> and \<^verbatim>\<open>SExtExpr::create\<close> of \<^verbatim>\<open>lib/Expr/Expr.cpp\<close>.
\<close>

subsection \<open>Extraction, extension and concatenation\<close>

text \<open>
  An extract created from \<open>e\<close> is of an expression that is not larger than \<open>e\<close>, so the size test of
  \<open>ExtractExpr_create\<close> holds.
\<close>

definition extract_ok :: "expr_env \<Rightarrow> contents \<Rightarrow> expr \<Rightarrow> nat \<Rightarrow> nat \<Rightarrow> expr may_abort \<Rightarrow> bool" where
  "extract_ok E \<alpha> e off w r \<longleftrightarrow> creates E \<alpha> w (eval \<alpha> e div 2 ^ off mod 2 ^ w) r
    \<and> (\<forall>x xo xw. r = Some (ExtractExpr x xo xw) \<longrightarrow> size x \<le> size e)"

lemma extract_ok_alloc:
  "expr_ok E \<alpha> e \<Longrightarrow> 0 < w \<Longrightarrow> off + w \<le> getWidth e \<Longrightarrow> extract_ok E \<alpha> e off w (Some (ExtractExpr e off w))"
  by (simp add: extract_ok_def)

lemma extract_ok_whole:
  "bytes \<alpha> \<Longrightarrow> expr_ok E \<alpha> e \<Longrightarrow> extract_ok E \<alpha> e 0 (getWidth e) (Some e)"
  using eval_bounds [of \<alpha> E e] by (cases e) (auto simp: extract_ok_def)

context apint_laws
begin

lemma ZExtExpr_widen_ok:
  assumes "expr_ok E \<alpha> e" "getWidth e \<le> w"
  shows "expr_ok E \<alpha> (ZExtExpr_widen E e w)" "getWidth (ZExtExpr_widen E e w) = w"
    "eval \<alpha> (ZExtExpr_widen E e w) = eval \<alpha> e"
proof -
  have w: "0 < w" using assms expr_ok_width [of E \<alpha> e] by simp
  have c: "CE_ZExt E a w = APInt w (ap_val a)" "wf_ap (APInt w (ap_val a))" if "e = ConstantExpr a" for a
  proof -
    have "wf_ap a" "ap_val a < 2 ^ w" using assms that by (auto simp: wf_ap_def intro: less_pow2_mono)
    then show "CE_ZExt E a w = APInt w (ap_val a)" "wf_ap (APInt w (ap_val a))"
      using w by (simp_all add: CE_ZExt_def ap_zextOrTrunc wf_ap_def)
  qed
  show "expr_ok E \<alpha> (ZExtExpr_widen E e w)" "getWidth (ZExtExpr_widen E e w) = w"
    "eval \<alpha> (ZExtExpr_widen E e w) = eval \<alpha> e"
    using assms w c by (cases e; simp add: ZExtExpr_widen_def)+
qed

lemma extract_ok_ZExt:
  assumes "bytes \<alpha>" "expr_ok E \<alpha> (ZExtExpr x zw)" "0 < w" "off + w \<le> zw" "w \<noteq> zw"
  shows "extract_ok E \<alpha> (ZExtExpr x zw) off w (ExtractExpr_create E (ZExtExpr x zw) off w)"
proof -
  have x: "expr_ok E \<alpha> x" "0 \<le> eval \<alpha> x" "eval \<alpha> x < 2 ^ getWidth x"
    using assms eval_bounds [of \<alpha> E x] by auto
  show ?thesis
  proof (cases "off = 0 \<and> getWidth x \<le> w")
    case True
    then have v: "eval \<alpha> x mod 2 ^ w = eval \<alpha> x"
      using x less_pow2_mono [of "eval \<alpha> x" "getWidth x" w] by simp
    show ?thesis
    proof (cases "getWidth x = w")
      case eq: True
      have "ExtractExpr_create E (ZExtExpr x zw) off w = Some x"
        using assms True eq by (subst ExtractExpr_create.simps) simp
      with True eq x v show ?thesis by (auto simp: extract_ok_def)
    next
      case False
      have "ExtractExpr_create E (ZExtExpr x zw) off w = Some (ZExtExpr_widen E x w)"
        using assms True False by (subst ExtractExpr_create.simps) simp
      moreover have "size y < size x" if "ZExtExpr_widen E x w = ExtractExpr y yo yw" for y yo yw
        using that False by (cases x) (auto simp: ZExtExpr_widen_def split: if_splits)
      ultimately show ?thesis
        using True x v ZExtExpr_widen_ok(1,2) [OF x(1), of w]
          ZExtExpr_widen_ok(3) [OF x(1), of w] by (fastforce simp: extract_ok_def)
    qed
  next
    case False
    then have "ExtractExpr_create E (ZExtExpr x zw) off w = Some (ExtractExpr (ZExtExpr x zw) off w)"
      using assms by (subst ExtractExpr_create.simps) auto
    then show ?thesis using assms by (simp add: extract_ok_alloc)
  qed
qed

lemma extract_ok_SExt:
  assumes "bytes \<alpha>" "expr_ok E \<alpha> (SExtExpr x sw)" "0 < w" "off + w \<le> sw" "w \<noteq> sw"
  shows "extract_ok E \<alpha> (SExtExpr x sw) off w (ExtractExpr_create E (SExtExpr x sw) off w)"
proof (cases "off = 0 \<and> w = 8 \<and> getWidth x = 8")
  case True
  then have "ExtractExpr_create E (SExtExpr x sw) off w = Some x"
    using assms by (subst ExtractExpr_create.simps) simp
  moreover have "sgn_val 8 (eval \<alpha> x) mod 2 ^ sw mod 2 ^ 8 = eval \<alpha> x"
    using True assms eval_bounds [of \<alpha> E x] sgn_val_mod [of 8 "eval \<alpha> x"]
    by (simp add: mod_mod_cancel le_imp_power_dvd [of 8 sw "2 :: int", simplified])
  ultimately show ?thesis using True assms by (auto simp: extract_ok_def)
next
  case False
  then have "ExtractExpr_create E (SExtExpr x sw) off w = Some (ExtractExpr (SExtExpr x sw) off w)"
    using assms by (subst ExtractExpr_create.simps) auto
  then show ?thesis using assms by (simp add: extract_ok_alloc)
qed

lemma extract_ok_Constant:
  assumes "wf_ap a" "0 < w" "off + w \<le> ap_width a" "w \<noteq> ap_width a"
  shows "extract_ok E \<alpha> (ConstantExpr a) off w (ExtractExpr_create E (ConstantExpr a) off w)"
  using assms
  by (subst ExtractExpr_create.simps) (simp add: extract_ok_def CE_Extract_eq wf_ap_APInt)

text \<open>Joining two parts, with the extract of the merged part given by \<open>ex\<close>.\<close>

lemma concat_join_ok:
  assumes "expr_ok E \<alpha> l" "expr_ok E \<alpha> r" "bytes \<alpha>"
    and merge: "\<And>x xo xw yo yw. l = ExtractExpr x xo xw \<Longrightarrow> r = ExtractExpr x yo yw \<Longrightarrow> yo + yw = xo \<Longrightarrow>
      extract_ok E \<alpha> x yo (xw + yw) (ex x yo (xw + yw))"
  shows "creates E \<alpha> (getWidth l + getWidth r) (eval \<alpha> l * 2 ^ getWidth r + eval \<alpha> r)
    (case (l, r) of
       (ConstantExpr a, ConstantExpr b) \<Rightarrow> map_option ConstantExpr (CE_Concat E a b)
     | (ExtractExpr x xo xw, ExtractExpr y yo yw) \<Rightarrow>
         if x = y \<and> yo + yw = xo then ex x yo (xw + yw) else Some (ConcatExpr l r)
     | _ \<Rightarrow> Some (ConcatExpr l r))"
proof -
  have "creates E \<alpha> (xw + yw)
      ((eval \<alpha> x div 2 ^ (yo + yw) mod 2 ^ xw) * 2 ^ yw + eval \<alpha> x div 2 ^ yo mod 2 ^ yw)
      (ex x yo (xw + yw))" if "l = ExtractExpr x (yo + yw) xw" "r = ExtractExpr x yo yw" for x xw yo yw
    using merge [OF that(1,2) refl] unfolding slice_join by (simp add: extract_ok_def)
  with assms(1,2) show ?thesis
    by (cases l; cases r) (auto simp: CE_Concat_eq)
qed

lemma extract_ok_Concat:
  assumes b: "bytes \<alpha>" and wf: "expr_ok E \<alpha> (ConcatExpr l r)" and w: "0 < w" "off + w \<le> getWidth l + getWidth r"
    "w \<noteq> getWidth l + getWidth r"
    and IH: "\<And>x xo xw. size x < size (ConcatExpr l r) \<Longrightarrow> expr_ok E \<alpha> x \<Longrightarrow> 0 < xw \<Longrightarrow> xo + xw \<le> getWidth x \<Longrightarrow>
      extract_ok E \<alpha> x xo xw (ExtractExpr_create E x xo xw)"
  shows "extract_ok E \<alpha> (ConcatExpr l r) off w (ExtractExpr_create E (ConcatExpr l r) off w)"
proof -
  let ?e = "ConcatExpr l r"
  have lr: "expr_ok E \<alpha> l" "expr_ok E \<alpha> r" using wf by auto
  note r = eval_bounds [OF b lr(2)]
  consider (left) "getWidth r \<le> off" | (right) "off < getWidth r" "off + w \<le> getWidth r"
    | (both) "off < getWidth r" "getWidth r < off + w" by linarith
  then show ?thesis
  proof cases
    case left
    then have "ExtractExpr_create E ?e off w = ExtractExpr_create E l (off - getWidth r) w"
      using w by (subst ExtractExpr_create.simps) simp
    moreover have "extract_ok E \<alpha> l (off - getWidth r) w (ExtractExpr_create E l (off - getWidth r) w)"
      by (rule IH) (use left w lr in auto)
    ultimately show ?thesis
      using slice_cat_left [OF r left, of "eval \<alpha> l" w] by (auto simp: extract_ok_def)
  next
    case right
    then have "ExtractExpr_create E ?e off w = ExtractExpr_create E r off w"
      using w by (subst ExtractExpr_create.simps) simp
    with IH [of r w off] right w lr slice_cat_right [OF r right(2), of "eval \<alpha> l"] show ?thesis
      by (auto simp: extract_ok_def)
  next
    case both
    define wl wr where "wl = w + off - getWidth r" and "wr = getWidth r - off"
    have ws: "0 < wl" "0 < wr" "wl \<le> getWidth l" "off + wr = getWidth r" "wl + wr = w"
      using both w by (auto simp: wl_def wr_def)
    obtain el where el: "ExtractExpr_create E l 0 wl = Some el" "expr_ok E \<alpha> el" "getWidth el = wl"
      "eval \<alpha> el = eval \<alpha> l div 2 ^ 0 mod 2 ^ wl"
      "\<And>x xo xw. el = ExtractExpr x xo xw \<Longrightarrow> size x \<le> size l"
      using IH [of l wl 0] ws lr by (auto simp: extract_ok_def creates_def)
    obtain er where er: "ExtractExpr_create E r off wr = Some er" "expr_ok E \<alpha> er" "getWidth er = wr"
      "eval \<alpha> er = eval \<alpha> r div 2 ^ off mod 2 ^ wr"
      using IH [of r wr off] ws lr by (auto simp: extract_ok_def creates_def)
    define ex where "ex = (\<lambda>x yo v. if size x < size ?e then ExtractExpr_create E x yo v else None)"
    have eq: "ExtractExpr_create E ?e off w =
      (case (el, er) of
         (ConstantExpr a, ConstantExpr b) \<Rightarrow> map_option ConstantExpr (CE_Concat E a b)
       | (ExtractExpr x xo xw, ExtractExpr y yo yw) \<Rightarrow>
           if x = y \<and> yo + yw = xo then ex x yo (xw + yw) else Some (ConcatExpr el er)
       | _ \<Rightarrow> Some (ConcatExpr el er))"
      using both w el(1) er(1) unfolding wl_def wr_def ex_def
      by (subst ExtractExpr_create.simps) (simp cong: if_cong)
    have val: "eval \<alpha> el * 2 ^ getWidth er + eval \<alpha> er = eval \<alpha> ?e div 2 ^ off mod 2 ^ w"
      using slice_cat_both [OF r both, of "eval \<alpha> l"] el(4) er(3,4) by (simp add: wl_def wr_def)
    have merge: "extract_ok E \<alpha> x yo (xw + yw) (ex x yo (xw + yw)) \<and> size x \<le> size l"
      if "el = ExtractExpr x xo xw" "er = ExtractExpr x yo yw" "yo + yw = xo" for x xo xw yo yw
    proof -
      have "size x \<le> size l" using el(5) that(1) by simp
      then show ?thesis
        using IH [of x "xw + yw" yo] el(2) er(2) that by (simp add: ex_def)
    qed
    have "creates E \<alpha> w (eval \<alpha> ?e div 2 ^ off mod 2 ^ w) (ExtractExpr_create E ?e off w)"
      using concat_join_ok [OF el(2) er(2) b, of ex] merge val ws(5) unfolding eq el(3) er(3) by simp
    moreover have "size y \<le> size ?e" if "ExtractExpr_create E ?e off w = Some (ExtractExpr y yo yw)" for y yo yw
      using that merge unfolding eq
      by (cases el; cases er) (auto simp: extract_ok_def split: if_splits dest!: le_trans [of "size y"])
    ultimately show ?thesis by (simp add: extract_ok_def)
  qed
qed

lemma ExtractExpr_create_ok:
  assumes "bytes \<alpha>" "expr_ok E \<alpha> e" "0 < w" "off + w \<le> getWidth e"
  shows "extract_ok E \<alpha> e off w (ExtractExpr_create E e off w)"
  using assms
proof (induction e arbitrary: off w rule: measure_induct_rule [where f = size])
  case (less e)
  show ?case
  proof (cases "w = getWidth e")
    case True
    then have "ExtractExpr_create E e off w = Some e"
      using less.prems by (subst ExtractExpr_create.simps) simp
    moreover have "off = 0" using True less.prems by simp
    ultimately show ?thesis using True extract_ok_whole [OF less.prems(1,2)] by simp
  next
    case False
    have *: "extract_ok E \<alpha> e off w (Some (ExtractExpr e off w))"
      using less.prems by (simp add: extract_ok_alloc)
    show ?thesis
    proof (cases e)
      case (ConstantExpr a)
      then show ?thesis using less.prems False extract_ok_Constant by simp
    next
      case (ConcatExpr l r)
      show ?thesis
        unfolding ConcatExpr
        by (rule extract_ok_Concat) (use less ConcatExpr False in auto)
    next
      case (ZExtExpr x zw)
      then show ?thesis using less.prems False extract_ok_ZExt by simp
    next
      case (SExtExpr x sw)
      then show ?thesis using less.prems False extract_ok_SExt by simp
    qed (use less.prems False * in \<open>subst ExtractExpr_create.simps, simp\<close>)+
  qed
qed

lemma ExtractExpr_create_creates:
  assumes "bytes \<alpha>" "expr_ok E \<alpha> e" "0 < w" "off + w \<le> getWidth e"
  shows "creates E \<alpha> w (eval \<alpha> e div 2 ^ off mod 2 ^ w) (ExtractExpr_create E e off w)"
  using ExtractExpr_create_ok [OF assms] by (simp add: extract_ok_def)

text \<open>The splitting of a concatenation as the source has it.\<close>

lemma ExtractExpr_create_Concat:
  assumes b: "bytes \<alpha>" and wf: "expr_ok E \<alpha> (ConcatExpr l r)" and w: "off < getWidth r" "getWidth r < off + w"
    "off + w \<le> getWidth l + getWidth r" "w \<noteq> getWidth l + getWidth r"
  shows "ExtractExpr_create E (ConcatExpr l r) off w = do {
    el \<leftarrow> ExtractExpr_create E l 0 (w + off - getWidth r);
    er \<leftarrow> ExtractExpr_create E r off (getWidth r - off);
    create_Concat E el er }"
proof -
  have wl: "w + off - getWidth r \<le> getWidth l" using w by linarith
  obtain el where el: "ExtractExpr_create E l 0 (w + off - getWidth r) = Some el"
    "\<And>x xo xw. el = ExtractExpr x xo xw \<Longrightarrow> size x \<le> size l"
    using ExtractExpr_create_ok [OF b, of l "w + off - getWidth r" 0] wf w wl
    by (auto simp: extract_ok_def creates_def)
  obtain er where er: "ExtractExpr_create E r off (getWidth r - off) = Some er"
    using ExtractExpr_create_ok [OF b, of r "getWidth r - off" off] wf w
    by (auto simp: extract_ok_def creates_def)
  show ?thesis
    using w el er
    by (subst ExtractExpr_create.simps, cases el; cases er) (auto simp: create_Concat_def le_imp_less_Suc trans_le_add1)
qed

lemma create_Concat_ok:
  assumes "bytes \<alpha>" "expr_ok E \<alpha> l" "expr_ok E \<alpha> r"
  shows "creates E \<alpha> (getWidth l + getWidth r) (eval \<alpha> l * 2 ^ getWidth r + eval \<alpha> r) (create_Concat E l r)"
proof -
  have "creates E \<alpha> (getWidth l + getWidth r) (eval \<alpha> l * 2 ^ getWidth r + eval \<alpha> r)
    (case (l, r) of
       (ConstantExpr a, ConstantExpr b) \<Rightarrow> map_option ConstantExpr (CE_Concat E a b)
     | (ExtractExpr x xo xw, ExtractExpr y yo yw) \<Rightarrow>
         if x = y \<and> yo + yw = xo then ExtractExpr_create E x yo (xw + yw) else Some (ConcatExpr l r)
     | _ \<Rightarrow> Some (ConcatExpr l r))"
    by (rule concat_join_ok [OF assms(2,3,1)]) (use assms ExtractExpr_create_ok in auto)
  then show ?thesis
    by (cases l; cases r) (simp_all add: create_Concat_def cong: if_cong)
qed

lemma create_ZExt_ok:
  assumes "bytes \<alpha>" "expr_ok E \<alpha> e" "0 < w"
  shows "creates E \<alpha> w (eval \<alpha> e mod 2 ^ w) (create_ZExt E e w)"
proof (cases "w < getWidth e")
  case True
  then show ?thesis
    using ExtractExpr_create_creates [OF assms(1,2,3), of 0] by (simp add: create_ZExt_def)
next
  case False
  then have "eval \<alpha> e mod 2 ^ w = eval \<alpha> e"
    using eval_bounds [OF assms(1,2)] less_pow2_mono [of "eval \<alpha> e" "getWidth e" w] by simp
  with False show ?thesis
    using assms ZExtExpr_widen_ok [of \<alpha> e w]
    by (auto simp: create_ZExt_def)
qed

lemma create_SExt_ok:
  assumes "bytes \<alpha>" "expr_ok E \<alpha> e" "0 < w"
  shows "creates E \<alpha> w (sgn_val (getWidth e) (eval \<alpha> e) mod 2 ^ w) (create_SExt E e w)"
proof -
  consider "w < getWidth e" | "w = getWidth e" | "getWidth e < w" by linarith
  then show ?thesis
  proof cases
    case 1
    then show ?thesis
      using ExtractExpr_create_creates [OF assms(1,2,3), of 0] sgn_val_slice [of 0 w "getWidth e" "eval \<alpha> e"]
      by (simp add: create_SExt_def)
  next
    case 2
    then show ?thesis
      using assms eval_bounds [OF assms(1,2)] by (simp add: create_SExt_def sgn_val_mod)
  next
    case 3
    then show ?thesis
      using assms by (cases e) (auto simp: create_SExt_def CE_SExt_def ap_sextOrTrunc wf_ap_APInt)
  qed
qed

end

end
