(* ===== verification/Expr_Eq.thy ===== *)
theory Expr_Eq
  imports Expr_Concat
begin

text \<open>
  Correctness of the bitwise constructors and of \<^verbatim>\<open>EqExpr::create\<close> with its rewriting of equalities
  with a constant, in \<^verbatim>\<open>lib/Expr/Expr.cpp\<close>.
\<close>

subsection \<open>Bitwise operations and equality\<close>

lemma dyn_const_Some: "dyn_const e = Some a \<longleftrightarrow> e = ConstantExpr a"
  by (cases e) auto

lemma and_ones:
  assumes "0 \<le> x" "x < 2 ^ w"
  shows "x AND (2 ^ w - 1) = (x :: int)"
  using assms by (simp add: take_bit_int_eq_self flip: mask_eq_exp_minus_1 take_bit_eq_mask)

lemma or_ones:
  assumes "0 \<le> x" "x < 2 ^ w"
  shows "x OR (2 ^ w - 1) = (2 ^ w - 1 :: int)"
proof -
  have "bit x n \<Longrightarrow> n < w" for n
    using range_take_bit [OF assms] bit_take_bit_iff [of w x n] by simp
  then have "x OR mask w = mask w"
    by (intro bit_eqI) (auto simp: bit_simps)
  then show ?thesis by (simp add: mask_eq_exp_minus_1)
qed

text \<open>The unit laws that the constructors use, on values in range.\<close>

lemma sem_bin_units:
  assumes "0 \<le> x" "x < 2 ^ w" "0 < w"
  shows "sem_bin And w x (2 ^ w - 1) = x" "sem_bin And w x 0 = 0"
    "sem_bin Or w x (2 ^ w - 1) = 2 ^ w - 1" "sem_bin Or w x 0 = x" "sem_bin Xor w 0 x = x"
    "sem_bin Add w 0 x = x" "sem_bin Mul w 1 x = x" "sem_bin Mul w 0 x = 0"
  using assms or_ones [OF assms(1,2)] and_ones [OF assms(1,2)]
    mod_pos_pos_trivial [of "2 ^ w - 1 :: int" "2 ^ w"]
  by simp_all

lemma sem_bin_commute:
  "sem_bin Add w a b = sem_bin Add w b a" "sem_bin Mul w a b = sem_bin Mul w b a"
  "sem_bin And w a b = sem_bin And w b a" "sem_bin Or w a b = sem_bin Or w b a"
  "sem_bin Xor w a b = sem_bin Xor w b a"
  by (simp_all add: add.commute mult.commute and.commute or.commute xor.commute)

declare sem_bin.simps [simp del]

context apint_laws
begin

lemma wf_ap_bin:
  "wf_ap a \<Longrightarrow> wf_ap (APInt (ap_width a) (sem_bin k (ap_width a) x y))"
  using sem_bin_range by (simp add: wf_ap_def)

lemma CE_bin_eq:
  "wf_ap a \<Longrightarrow> wf_ap b \<Longrightarrow> ap_width a = ap_width b \<Longrightarrow> (is_div k \<longrightarrow> ap_val b \<noteq> 0) \<Longrightarrow>
    CE_bin E k a b = Some (APInt (ap_width a) (sem_bin k (ap_width a) (ap_val a) (ap_val b)))"
  by (simp add: CE_bin_def ap_bin)

lemma BCREATE_R_ok:
  assumes "bytes \<alpha>" "expr_ok E \<alpha> l" "expr_ok E \<alpha> r" "getWidth l = w" "getWidth r = w" "\<not> is_div k"
    and "\<And>c. r = ConstantExpr c \<Longrightarrow> creates E \<alpha> w (sem_bin k w (eval \<alpha> l) (eval \<alpha> r)) (partialL l c)"
    and "\<And>c. l = ConstantExpr c \<Longrightarrow> creates E \<alpha> w (sem_bin k w (eval \<alpha> l) (eval \<alpha> r)) (partialR c r)"
    and "creates E \<alpha> w (sem_bin k w (eval \<alpha> l) (eval \<alpha> r)) (full l r)"
  shows "creates E \<alpha> w (sem_bin k w (eval \<alpha> l) (eval \<alpha> r)) (BCREATE_R E k partialL partialR full l r)"
  using assms
  by (auto simp: BCREATE_R_def dyn_const_Some CE_bin_eq wf_ap_bin split: option.split)

lemma AndExpr_createPartial_ok:
  assumes "bytes \<alpha>" "expr_ok E \<alpha> l" "wf_ap c" "getWidth l = w" "ap_width c = w" "w \<le> 64"
  shows "creates E \<alpha> w (sem_bin And w (eval \<alpha> l) (ap_val c)) (AndExpr_createPartial E l c)"
  using assms eval_bounds [OF assms(1,2)] expr_ok_width [OF assms(2)]
  by (auto simp: AndExpr_createPartial_def CE_isAllOnes_eq isZero_eq sem_bin_units)

lemma AndExpr_createPartialR_ok:
  assumes "bytes \<alpha>" "expr_ok E \<alpha> r" "wf_ap c" "getWidth r = w" "ap_width c = w" "w \<le> 64"
  shows "creates E \<alpha> w (sem_bin And w (ap_val c) (eval \<alpha> r)) (AndExpr_createPartialR E c r)"
  using AndExpr_createPartial_ok [OF assms]
  by (simp add: AndExpr_createPartialR_def sem_bin_commute(3) [of _ "ap_val c"])

lemma OrExpr_createPartial_ok:
  assumes "bytes \<alpha>" "expr_ok E \<alpha> l" "wf_ap c" "getWidth l = w" "ap_width c = w" "w \<le> 64"
  shows "creates E \<alpha> w (sem_bin Or w (eval \<alpha> l) (ap_val c)) (OrExpr_createPartial E l c)"
  using assms eval_bounds [OF assms(1,2)] expr_ok_width [OF assms(2)]
  by (auto simp: OrExpr_createPartial_def CE_isAllOnes_eq isZero_eq sem_bin_units)

lemma OrExpr_createPartialR_ok:
  assumes "bytes \<alpha>" "expr_ok E \<alpha> r" "wf_ap c" "getWidth r = w" "ap_width c = w" "w \<le> 64"
  shows "creates E \<alpha> w (sem_bin Or w (ap_val c) (eval \<alpha> r)) (OrExpr_createPartialR E c r)"
  using OrExpr_createPartial_ok [OF assms]
  by (simp add: OrExpr_createPartialR_def sem_bin_commute(4) [of _ "ap_val c"])

lemma create_And_ok:
  assumes "bytes \<alpha>" "expr_ok E \<alpha> l" "expr_ok E \<alpha> r" "getWidth l = w" "getWidth r = w" "w \<le> 64"
  shows "creates E \<alpha> w (sem_bin And w (eval \<alpha> l) (eval \<alpha> r)) (create_And E l r)"
  unfolding create_And_def
proof (rule BCREATE_R_ok [OF assms(1-5)])
  show "creates E \<alpha> w (sem_bin And w (eval \<alpha> l) (eval \<alpha> r)) (AndExpr_createPartial E l c)"
    if "r = ConstantExpr c" for c
    using that assms AndExpr_createPartial_ok [of \<alpha> l c w] by simp
  show "creates E \<alpha> w (sem_bin And w (eval \<alpha> l) (eval \<alpha> r)) (AndExpr_createPartialR E c r)"
    if "l = ConstantExpr c" for c
    using that assms AndExpr_createPartialR_ok [of \<alpha> r c w] by simp
qed (use assms in \<open>auto simp: is_div_def AndExpr_create_def\<close>)

lemma create_Or_ok:
  assumes "bytes \<alpha>" "expr_ok E \<alpha> l" "expr_ok E \<alpha> r" "getWidth l = w" "getWidth r = w" "w \<le> 64"
  shows "creates E \<alpha> w (sem_bin Or w (eval \<alpha> l) (eval \<alpha> r)) (create_Or E l r)"
  unfolding create_Or_def
proof (rule BCREATE_R_ok [OF assms(1-5)])
  show "creates E \<alpha> w (sem_bin Or w (eval \<alpha> l) (eval \<alpha> r)) (OrExpr_createPartial E l c)"
    if "r = ConstantExpr c" for c
    using that assms OrExpr_createPartial_ok [of \<alpha> l c w] by simp
  show "creates E \<alpha> w (sem_bin Or w (eval \<alpha> l) (eval \<alpha> r)) (OrExpr_createPartialR E c r)"
    if "l = ConstantExpr c" for c
    using that assms OrExpr_createPartialR_ok [of \<alpha> r c w] by simp
qed (use assms in \<open>auto simp: is_div_def OrExpr_create_def\<close>)

end

subsection \<open>Equality\<close>

lemma bool_range: "0 \<le> x \<Longrightarrow> x < 2 ^ 1 \<Longrightarrow> x = 0 \<or> x = (1 :: int)"
  by auto

lemma sext_eq_iff:
  fixes c x :: int
  assumes "0 \<le> x" "x < 2 ^ n" "n \<le> w" "0 \<le> c" "c < 2 ^ w"
  shows "c = sgn_val n x mod 2 ^ w \<longleftrightarrow> c = sgn_val n (c mod 2 ^ n) mod 2 ^ w \<and> c mod 2 ^ n = x"
proof -
  have "sgn_val n x mod 2 ^ w mod 2 ^ n = x"
    using assms by (simp add: mod_mod_cancel le_imp_power_dvd sgn_val_mod)
  then show ?thesis by auto
qed

lemma zext_eq_iff:
  fixes c x :: int
  assumes "0 \<le> x" "x < 2 ^ n"
  shows "c = x \<longleftrightarrow> c = c mod 2 ^ n \<and> c mod 2 ^ n = x"
  using assms by auto

lemma mod_eq_range: "0 \<le> c \<Longrightarrow> c < m \<Longrightarrow> c = y mod m \<longleftrightarrow> m dvd y - (c :: int)"
  by (metis mod_eq_dvd_iff mod_pos_pos_trivial)

lemma move_add:
  assumes "0 \<le> x" "x < m" "0 \<le> c" "c < m"
  shows "c = (a + x) mod m \<longleftrightarrow> (c - a) mod m = (x :: int)"
  using mod_eq_range [OF assms(1,2), of "c - a"] mod_eq_range [OF assms(3,4), of "a + x"]
    dvd_minus_iff [of m "c - a - x"] by (auto simp: algebra_simps)

lemma move_sub:
  assumes "0 \<le> x" "x < m" "0 \<le> c" "c < m"
  shows "c = (a - x) mod m \<longleftrightarrow> (a - c) mod m = (x :: int)"
  using mod_eq_range [OF assms(1,2), of "a - c"] mod_eq_range [OF assms(3,4), of "a - x"]
  by (auto simp: algebra_simps)

lemma creates_if_eq:
  assumes "r = (if P then a else b)" "P \<longleftrightarrow> Q" "(V \<longleftrightarrow> W) \<Longrightarrow> creates E \<alpha> 1 (of_bool V) a"
    "V \<longleftrightarrow> Q \<and> W" "\<not> V \<Longrightarrow> creates E \<alpha> 1 (of_bool V) b"
  shows "creates E \<alpha> 1 (of_bool V) r"
  using assms by (cases Q) auto

context apint_laws
begin

lemma EqExpr_create_ok:
  assumes "expr_ok E \<alpha> l" "expr_ok E \<alpha> r" "getWidth l = getWidth r"
  shows "creates E \<alpha> 1 (of_bool (eval \<alpha> l = eval \<alpha> r)) (EqExpr_create E l r)"
  using assms by (simp add: EqExpr_create_def wf_ap_APInt)

lemma create_Eq_const_ok:
  assumes "expr_ok E \<alpha> x" "wf_ap c" "getWidth x = ap_width c"
    "creates E \<alpha> 1 (of_bool (ap_val c = eval \<alpha> x)) (partialR c x)"
  shows "creates E \<alpha> 1 (of_bool (ap_val c = eval \<alpha> x)) (create_Eq_const E partialR x c)"
  using assms
  by (auto simp: create_Eq_const_def dyn_const_Some CE_cmp_eq wf_ap_APInt eq_commute [of "ap_val c"] split: option.split)

lemma alloc_index: "i < 2 ^ 32 \<Longrightarrow> ConstantExpr_alloc E (of_nat i) 32 = APInt 32 (int i)"
  by (simp add: ConstantExpr_alloc_def ap_new unsigned_of_nat take_bit_nat_eq_self)

lemma sem_bool:
  "sem_bin And 1 (of_bool p) (of_bool q) = of_bool (p \<and> q)"
  "sem_bin Or 1 (of_bool p) (of_bool q) = of_bool (p \<or> q)"
  by (auto simp: sem_bin.simps of_bool_def)

lemma const_array_loop_ok:
  assumes "bytes \<alpha>"
    and eqc: "\<And>j. j < 2 ^ 32 \<Longrightarrow> creates E \<alpha> 1 (of_bool (int j = v)) (eqc (APInt 32 (int j)))"
  shows "length vals = i + n \<Longrightarrow> i + n < 2 ^ 32 \<Longrightarrow> expr_ok E \<alpha> res \<Longrightarrow> getWidth res = 1 \<Longrightarrow>
    eval \<alpha> res = of_bool p \<Longrightarrow>
    \<exists>out. const_array_loop E eqc cl vals 32 i n m res = Some out \<and>
      (\<forall>e. out = Inr e \<longrightarrow> creates E \<alpha> 1 (of_bool (p \<or> (\<exists>j \<in> {i..<i + n}. vals ! j = cl \<and> int j = v))) (Some e))"
proof (induction n arbitrary: i m res p)
  case 0
  then show ?case by simp
next
  case (Suc n)
  let ?P = "\<lambda>j. vals ! j = cl \<and> int j = v"
  have split: "(\<exists>j \<in> {i..<i + Suc n}. ?P j) \<longleftrightarrow> ?P i \<or> (\<exists>j \<in> {i + 1..<i + 1 + n}. ?P j)"
    by (auto simp: Suc_le_eq order_le_less)
  have nth: "nth_opt vals i = Some (vals ! i)" using Suc.prems by simp
  show ?case
  proof (cases "cl = vals ! i \<and> m + 1 \<le> 100")
    case True
    have "creates E \<alpha> 1 (of_bool (int i = v)) (eqc (APInt 32 (int i)))"
      using eqc Suc.prems by simp
    then obtain mayBe where mb: "eqc (APInt 32 (int i)) = Some mayBe" "expr_ok E \<alpha> mayBe"
      "getWidth mayBe = 1" "eval \<alpha> mayBe = of_bool (int i = v)"
      by (auto simp: creates_def)
    have "creates E \<alpha> 1 (of_bool (p \<or> int i = v)) (create_Or E res mayBe)"
      using create_Or_ok [OF assms(1) Suc.prems(3) mb(2) Suc.prems(4) mb(3)] Suc.prems(5) mb(4)
      by (simp add: sem_bool)
    then obtain res' where r: "create_Or E res mayBe = Some res'" "expr_ok E \<alpha> res'" "getWidth res' = 1"
      "eval \<alpha> res' = of_bool (p \<or> int i = v)"
      by (auto simp: creates_def)
    have "const_array_loop E eqc cl vals 32 i (Suc n) m res = const_array_loop E eqc cl vals 32 (i + 1) n (m + 1) res'"
      using Suc.prems(2) True by (simp add: nth alloc_index mb(1) r(1))
    moreover have "p \<or> (\<exists>j \<in> {i..<i + Suc n}. ?P j) \<longleftrightarrow> (p \<or> int i = v) \<or> (\<exists>j \<in> {i + 1..<i + 1 + n}. ?P j)"
      unfolding split using True by blast
    moreover note Suc.IH [of "i + 1" res' "p \<or> int i = v" "m + 1", OF _ _ r(2-4)]
    ultimately show ?thesis using Suc.prems(1,2) by simp
  next
    case False
    show ?thesis
    proof (cases "cl = vals ! i")
      case True
      then show ?thesis using False by (simp add: nth)
    next
      case neq: False
      then have "const_array_loop E eqc cl vals 32 i (Suc n) m res = const_array_loop E eqc cl vals 32 (i + 1) n m res"
        by (simp add: nth)
      moreover have "p \<or> (\<exists>j \<in> {i..<i + Suc n}. ?P j) \<longleftrightarrow> p \<or> (\<exists>j \<in> {i + 1..<i + 1 + n}. ?P j)"
        unfolding split using neq by blast
      moreover note Suc.IH [of "i + 1" res p m, OF _ _ Suc.prems(3-5)]
      ultimately show ?thesis using Suc.prems(1,2) by simp
    qed
  qed
qed

lemma Eq_bool_ok:
  assumes "bytes \<alpha>" "expr_ok E \<alpha> r" "wf_ap cl" "ap_width cl = 1" "getWidth r = 1"
    and IH: "\<And>x c. size x < size r \<Longrightarrow> expr_ok E \<alpha> x \<Longrightarrow> wf_ap c \<Longrightarrow> ap_width c = getWidth x \<Longrightarrow> getWidth x \<le> 64 \<Longrightarrow>
      creates E \<alpha> 1 (of_bool (ap_val c = eval \<alpha> x)) (EqExpr_createPartialR E c x)"
  shows "creates E \<alpha> 1 (of_bool (ap_val cl = eval \<alpha> r)) (EqExpr_createPartialR E cl r)"
proof -
  have full: "creates E \<alpha> 1 (of_bool (ap_val cl = eval \<alpha> r)) (EqExpr_create E (ConstantExpr cl) r)"
    using EqExpr_create_ok [of \<alpha> "ConstantExpr cl" r] assms by simp
  have b: "eval \<alpha> r = 0 \<or> eval \<alpha> r = 1" "ap_val cl = 0 \<or> ap_val cl = 1"
    using eval_bounds [OF assms(1,2)] assms(3-5) by (auto simp: wf_ap_def)
  show ?thesis
  proof (cases "ap_val cl = 1")
    case True
    then show ?thesis
      using assms b by (subst EqExpr_createPartialR.simps) (auto simp: isTrue_eq)
  next
    case False
    then have cl: "ap_val cl = 0" "isTrue E cl = Some False" using b assms by (auto simp: isTrue_eq)
    consider (dneg) ce right where "r = CmpExpr Eq (ConstantExpr ce) right" "ap_width ce = 1" "ap_val ce = 0"
      | (disj) left right where "r = BinaryExpr Or left right"
      | (other) "EqExpr_createPartialR E cl r = EqExpr_create E (ConstantExpr cl) r"
    proof (cases r)
      case (BinaryExpr k left right)
      then show ?thesis using that cl assms(4)
        by (cases k) (auto simp: EqExpr_createPartialR.simps [of E cl])
    next
      case (CmpExpr k left right)
      show ?thesis
      proof (cases "k = Eq \<and> (\<exists>ce. left = ConstantExpr ce \<and> ap_width ce = 1)")
        case True
        then obtain ce where ce: "left = ConstantExpr ce" "ap_width ce = 1" "k = Eq" by blast
        then have "isFalse E ce = Some (ap_val ce = 0)" using CmpExpr assms(2) by (simp add: isFalse_eq)
        then show ?thesis using that ce CmpExpr cl assms(4)
          by (cases "ap_val ce = 0") (auto simp: EqExpr_createPartialR.simps [of E cl])
      next
        case False
        then have "EqExpr_createPartialR E cl r = EqExpr_create E (ConstantExpr cl) r"
          using CmpExpr cl assms(4)
          by (subst EqExpr_createPartialR.simps) (cases k; cases left; simp)
        then show ?thesis by (rule that(3))
      qed
    qed (use that cl assms(4) in \<open>auto simp: EqExpr_createPartialR.simps [of E cl]\<close>)
    then show ?thesis
    proof cases
      case dneg
      then have "EqExpr_createPartialR E cl r = Some right"
        using cl assms(2,4) by (subst EqExpr_createPartialR.simps) (auto simp: isFalse_eq)
      moreover have "eval \<alpha> right = 0 \<or> eval \<alpha> right = 1"
        using eval_bounds [of \<alpha> E right] assms(1,2) dneg by auto
      ultimately show ?thesis using dneg assms(2) cl by auto
    next
      case disj
      have lr: "expr_ok E \<alpha> left" "expr_ok E \<alpha> right" "getWidth left = 1" "getWidth right = 1"
        using disj assms(2,5) by auto
      have z: "wf_ap (APInt 1 0)" by (simp add: wf_ap_APInt)
      let ?eq = "\<lambda>x. create_Eq_const E (\<lambda>c x. EqExpr_createPartialR E c x) x (APInt 1 0)"
      have "creates E \<alpha> 1 (of_bool (ap_val (APInt 1 0) = eval \<alpha> left)) (?eq left)"
        by (rule create_Eq_const_ok) (use lr z disj IH [of left "APInt 1 0"] in simp_all)
      then obtain nl where nl: "?eq left = Some nl" "expr_ok E \<alpha> nl" "getWidth nl = 1" "eval \<alpha> nl = of_bool (0 = eval \<alpha> left)"
        by (auto simp: creates_def)
      have "creates E \<alpha> 1 (of_bool (ap_val (APInt 1 0) = eval \<alpha> right)) (?eq right)"
        by (rule create_Eq_const_ok) (use lr z disj IH [of right "APInt 1 0"] in simp_all)
      then obtain nr where nr: "?eq right = Some nr" "expr_ok E \<alpha> nr" "getWidth nr = 1" "eval \<alpha> nr = of_bool (0 = eval \<alpha> right)"
        by (auto simp: creates_def)
      have "EqExpr_createPartialR E cl r = create_And E nl nr"
        using cl disj assms(4) lr nl(1) nr(1) by (subst EqExpr_createPartialR.simps) simp
      moreover have "(0 = eval \<alpha> left \<and> 0 = eval \<alpha> right) \<longleftrightarrow> 0 = eval \<alpha> r"
        using eval_bounds [OF assms(1) lr(1)] eval_bounds [OF assms(1) lr(2)] lr disj
        by (auto simp: sem_bin.simps dest!: bool_range)
      ultimately show ?thesis
        using create_And_ok [OF assms(1) nl(2) nr(2) nl(3) nr(3)] nl(4) nr(4) cl(1)
        by (simp add: sem_bool)
    qed (use full in simp)
  qed
qed

lemma Eq_read_ok:
  assumes "bytes \<alpha>" and r: "r = ReadExpr root us index" and "expr_ok E \<alpha> r" "wf_ap cl" "ap_width cl = 8"
    and IH: "\<And>x c. size x < size r \<Longrightarrow> expr_ok E \<alpha> x \<Longrightarrow> wf_ap c \<Longrightarrow> ap_width c = getWidth x \<Longrightarrow> getWidth x \<le> 64 \<Longrightarrow>
      creates E \<alpha> 1 (of_bool (ap_val c = eval \<alpha> x)) (EqExpr_createPartialR E c x)"
  shows "creates E \<alpha> 1 (of_bool (ap_val cl = eval \<alpha> r)) (EqExpr_createPartialR E cl r)"
proof -
  have full: "creates E \<alpha> 1 (of_bool (ap_val cl = eval \<alpha> r)) (EqExpr_create E (ConstantExpr cl) r)"
    using EqExpr_create_ok [of \<alpha> "ConstantExpr cl" r] assms by simp
  show ?thesis
  proof (cases "ConstArrayOpt E \<and> isConstantArray root \<and> update_size us = 0")
    case False
    then show ?thesis
      using assms(5) full r by (subst EqExpr_createPartialR.simps) (auto simp: isConstantArray_def)
  next
    case True
    let ?n = "arr_size root" and ?vals = "constantValues root" and ?i = "eval \<alpha> index"
    let ?eqc = "\<lambda>c. create_Eq_const E (\<lambda>c _. EqExpr_createPartialR E c index) index c"
    have us: "us = NoUpdate" using True by (cases us) auto
    have ix: "expr_ok E \<alpha> index" "getWidth index = 32" "0 \<le> ?i" "?i < int ?n" "wf_array root"
      using assms(1,3) True r eval_bounds(1) [of \<alpha> E index] by auto
    have len: "length ?vals = ?n" "?n < 2 ^ 32" "\<And>v. v \<in> set ?vals \<Longrightarrow> ap_width v = 8"
      using ix(5) True by (auto simp: wf_array_def)
    have eqc: "creates E \<alpha> 1 (of_bool (int j = ?i)) (?eqc (APInt 32 (int j)))" if "j < 2 ^ 32" for j
      using create_Eq_const_ok [of \<alpha> index "APInt 32 (int j)" "\<lambda>c _. EqExpr_createPartialR E c index"]
        IH [of index "APInt 32 (int j)"] ix that r by (simp add: wf_ap_APInt)
    obtain out where out: "const_array_loop E ?eqc cl ?vals 32 0 ?n 0 (ConstantExpr (APInt 1 0)) = Some out"
      "\<And>e. out = Inr e \<Longrightarrow> creates E \<alpha> 1 (of_bool (False \<or> (\<exists>j \<in> {0..<0 + ?n}. ?vals ! j = cl \<and> int j = ?i))) (Some e)"
      using const_array_loop_ok [OF assms(1) eqc, of ?vals 0 ?n "ConstantExpr (APInt 1 0)" False cl 0] len
      by (auto simp: wf_ap_APInt)
    obtain k where k: "?i = int k" using ix(3) by (metis nonneg_int_cases)
    have "(\<exists>j \<in> {0..<0 + ?n}. ?vals ! j = cl \<and> int j = ?i) \<longleftrightarrow> ?vals ! nat ?i = cl"
      using ix(4) by (auto simp: k)
    also have "\<dots> \<longleftrightarrow> ap_val cl = eval \<alpha> r"
      using len(3) [of "?vals ! nat ?i"] ix(3,4) len(1) True us r assms(5)
      by (auto simp: initial_value_def apint.expand)
    finally have val: "(\<exists>j \<in> {0..<0 + ?n}. ?vals ! j = cl \<and> int j = ?i) \<longleftrightarrow> ap_val cl = eval \<alpha> r" .
    have "EqExpr_createPartialR E cl r =
      (case out of Inl _ \<Rightarrow> EqExpr_create E (ConstantExpr cl) r | Inr e \<Rightarrow> Some e)"
      using assms(5) True out(1) ix(2)
      by (subst EqExpr_createPartialR.simps) (cases out; simp add: isConstantArray_def r us)
    then show ?thesis using full out(2) unfolding val by (cases out) auto
  qed
qed

lemma CE_ZExt_eq: "wf_ap a \<Longrightarrow> 0 < w \<Longrightarrow> CE_ZExt E a w = APInt w (ap_val a mod 2 ^ w)"
  by (simp add: CE_ZExt_def ap_zextOrTrunc)

lemma CE_SExt_eq: "wf_ap a \<Longrightarrow> 0 < w \<Longrightarrow> CE_SExt E a w = APInt w (sgn_val (ap_width a) (ap_val a) mod 2 ^ w)"
  by (simp add: CE_SExt_def ap_sextOrTrunc)

lemma EqExpr_createPartialR_ok:
  assumes "bytes \<alpha>" "expr_ok E \<alpha> r" "wf_ap cl" "ap_width cl = getWidth r" "getWidth r \<le> 64"
  shows "creates E \<alpha> 1 (of_bool (ap_val cl = eval \<alpha> r)) (EqExpr_createPartialR E cl r)"
  using assms(2-)
proof (induction r arbitrary: cl rule: measure_induct_rule [where f = size])
  case (less r)
  note IH = less.IH and ok = less.prems(1) and cl = less.prems(2) and w = less.prems(3,4)
  let ?val = "creates E \<alpha> 1 (of_bool (ap_val cl = eval \<alpha> r))"
  have full: "?val (EqExpr_create E (ConstantExpr cl) r)"
    using EqExpr_create_ok [of \<alpha> "ConstantExpr cl" r] less.prems by simp
  have clr: "0 \<le> ap_val cl" "ap_val cl < 2 ^ getWidth r" using cl w by (auto simp: wf_ap_def)
  have zero: "?val (map_option ConstantExpr (ConstantExpr_create E 0 1))" if "ap_val cl \<noteq> eval \<alpha> r"
    using that by (simp add: wf_ap_APInt)
  show ?case
  proof (cases "getWidth r = 1")
    case True
    show ?thesis by (rule Eq_bool_ok) (use assms(1) less.prems True IH in auto)
  next
    case False
    note unf = EqExpr_createPartialR.simps [of E cl r]
    have ne: "ap_width cl \<noteq> 1" using False w by simp
    show ?thesis
    proof (cases r)
      case (ReadExpr root us index)
      show ?thesis by (rule Eq_read_ok [OF assms(1) ReadExpr]) (use less.prems ReadExpr IH in auto)
    next
      case (SExtExpr src sw)
      define t where "t = CE_ZExt E cl (getWidth src)"
      have src: "expr_ok E \<alpha> src" "getWidth src \<le> sw" "0 < getWidth src" "ap_width cl = sw"
        using ok SExtExpr w expr_ok_width by auto
      have t: "t = APInt (getWidth src) (ap_val cl mod 2 ^ getWidth src)" "wf_ap t"
        using src(3) cl by (auto simp: t_def CE_ZExt_eq wf_ap_APInt)
      then have tw: "ap_width t = getWidth src" by simp
      have 2: "cl = CE_SExt E t (ap_width cl) \<longleftrightarrow>
          ap_val cl = sgn_val (getWidth src) (ap_val cl mod 2 ^ getWidth src) mod 2 ^ sw"
        using t cl src(4) by (cases cl) (simp add: CE_SExt_eq wf_ap_def)
      have 3: "?val (create_Eq_const E (\<lambda>c x. EqExpr_createPartialR E c x) src t)"
        if "ap_val cl = eval \<alpha> r \<longleftrightarrow> ap_val t = eval \<alpha> src"
        unfolding that
        by (rule create_Eq_const_ok) (use IH [of src t] src(1-3) t(2) tw w(2) SExtExpr in simp_all)
      have 4: "ap_val cl = eval \<alpha> r \<longleftrightarrow> (ap_val cl = sgn_val (getWidth src) (ap_val cl mod 2 ^ getWidth src) mod 2 ^ sw) \<and> ap_val t = eval \<alpha> src"
        using sext_eq_iff [OF eval_bounds [OF assms(1) src(1)] src(2), of "ap_val cl"] clr
        by (simp only: SExtExpr t(1) eval.simps getWidth.simps apint.sel)
      have 1: "EqExpr_createPartialR E cl r = (if cl = CE_SExt E t (ap_width cl)
          then create_Eq_const E (\<lambda>c x. EqExpr_createPartialR E c x) src t
          else map_option ConstantExpr (ConstantExpr_create E 0 1))"
        using ne by (subst unf) (simp add: SExtExpr t_def)
      show ?thesis by (rule creates_if_eq [OF 1 2 3 4 zero])
    next
      case (ZExtExpr src sw)
      define t where "t = CE_ZExt E cl (getWidth src)"
      have src: "expr_ok E \<alpha> src" "getWidth src \<le> sw" "0 < getWidth src" "ap_width cl = sw"
        using ok ZExtExpr w expr_ok_width by auto
      have t: "t = APInt (getWidth src) (ap_val cl mod 2 ^ getWidth src)" "wf_ap t"
        using src(3) cl by (auto simp: t_def CE_ZExt_eq wf_ap_APInt)
      then have tw: "ap_width t = getWidth src" by simp
      have 2: "cl = CE_ZExt E t (ap_width cl) \<longleftrightarrow> ap_val cl = ap_val cl mod 2 ^ getWidth src"
        using t cl src mod_pos_pos_trivial [of "ap_val cl mod 2 ^ getWidth src" "2 ^ sw"]
          less_pow2_mono [of "ap_val cl mod 2 ^ getWidth src" "getWidth src" sw]
        by (cases cl) (simp add: CE_ZExt_eq wf_ap_def)
      have 3: "?val (create_Eq_const E (\<lambda>c x. EqExpr_createPartialR E c x) src t)"
        if "ap_val cl = eval \<alpha> r \<longleftrightarrow> ap_val t = eval \<alpha> src"
        unfolding that
        by (rule create_Eq_const_ok) (use IH [of src t] src(1-3) t(2) tw w(2) ZExtExpr in simp_all)
      have 4: "ap_val cl = eval \<alpha> r \<longleftrightarrow> (ap_val cl = ap_val cl mod 2 ^ getWidth src) \<and> ap_val t = eval \<alpha> src"
        using zext_eq_iff [OF eval_bounds [OF assms(1) src(1)], of "ap_val cl"]
        by (simp only: ZExtExpr t(1) eval.simps apint.sel)
      have 1: "EqExpr_createPartialR E cl r = (if cl = CE_ZExt E t (ap_width cl)
          then create_Eq_const E (\<lambda>c x. EqExpr_createPartialR E c x) src t
          else map_option ConstantExpr (ConstantExpr_create E 0 1))"
        using ne by (subst unf) (simp add: ZExtExpr t_def)
      show ?thesis by (rule creates_if_eq [OF 1 2 3 4 zero])
    next
      case (BinaryExpr k l x)
      show ?thesis
      proof (cases "(k = Add \<or> k = Sub) \<and> (\<exists>a. l = ConstantExpr a)")
        case True
        then obtain a where a: "l = ConstantExpr a" "k = Add \<or> k = Sub" by blast
        let ?w = "ap_width cl"
        define c where "c = (if k = Add then ap_val cl - ap_val a else ap_val a - ap_val cl) mod 2 ^ ?w"
        have x: "expr_ok E \<alpha> x" "getWidth x = ?w" "ap_width a = ?w" "wf_ap a"
          using ok BinaryExpr a w by auto
        have "CE_bin E Sub cl a = Some (APInt ?w ((ap_val cl - ap_val a) mod 2 ^ ?w))"
          "CE_bin E Sub a cl = Some (APInt ?w ((ap_val a - ap_val cl) mod 2 ^ ?w))"
          using CE_bin_eq [of cl a Sub] CE_bin_eq [of a cl Sub] x(3,4) cl by (simp_all add: is_div_def sem_bin.simps)
        then have "EqExpr_createPartialR E cl r = EqExpr_createPartialR E (APInt ?w c) x"
          using a(2) ne x(3) by (subst unf) (auto simp: c_def BinaryExpr a(1))
        moreover have "ap_val cl = eval \<alpha> r \<longleftrightarrow> c = eval \<alpha> x"
          using a(2) move_add [OF eval_bounds [OF assms(1) x(1)], of "ap_val cl" "ap_val a"]
            move_sub [OF eval_bounds [OF assms(1) x(1)], of "ap_val cl" "ap_val a"] clr(1) cl x(2,3)
          by (auto simp: c_def sem_bin.simps BinaryExpr a(1) wf_ap_def)
        moreover have "wf_ap (APInt ?w c)"
          using cl by (simp add: wf_ap_def c_def)
        ultimately show ?thesis
          using IH [of x "APInt ?w c"] x(1,2) w(2) unfolding w(1) [symmetric] by (simp add: BinaryExpr)
      next
        case False
        then have "EqExpr_createPartialR E cl r = EqExpr_create E (ConstantExpr cl) r"
          using BinaryExpr ne by (subst unf) (cases k; cases l; simp)
        with full show ?thesis by simp
      qed
    qed (use full ne in \<open>subst unf, simp\<close>)+
  qed
qed

lemma create_Eq_ok:
  assumes "bytes \<alpha>" "expr_ok E \<alpha> l" "expr_ok E \<alpha> r" "getWidth l = getWidth r" "getWidth r \<le> 64"
  shows "creates E \<alpha> 1 (of_bool (eval \<alpha> l = eval \<alpha> r)) (create_Eq E l r)"
proof -
  have "creates E \<alpha> 1 (of_bool (eval \<alpha> l = eval \<alpha> r)) (EqExpr_createPartialR E c l)" if "r = ConstantExpr c" for c
    using EqExpr_createPartialR_ok [OF assms(1,2), of c] assms that by (simp add: eq_commute [of "ap_val c"])
  moreover have "creates E \<alpha> 1 (of_bool (eval \<alpha> l = eval \<alpha> r)) (EqExpr_createPartialR E c r)" if "l = ConstantExpr c" for c
    using EqExpr_createPartialR_ok [OF assms(1,3), of c] assms that by simp
  ultimately show ?thesis
    using assms EqExpr_create_ok [OF assms(2-4)]
    by (auto simp: create_Eq_def CMPCREATE_T_def EqExpr_createPartial_def dyn_const_Some CE_cmp_eq wf_ap_APInt
        split: option.split)
qed

end

end
