(* ===== verification/Expr_Arith.thy ===== *)
theory Expr_Arith
  imports Expr_Eq
begin

text \<open>
  Correctness of the arithmetic, comparison, selection and read constructors of
  \<^verbatim>\<open>lib/Expr/Expr.cpp\<close>, and the properties of all the constructors.
\<close>

subsection \<open>Arithmetic\<close>

lemma sem_bin_assoc:
  "sem_bin Add w a (sem_bin Add w b x) = sem_bin Add w (sem_bin Add w a b) x"
  "sem_bin Add w a (sem_bin Sub w b x) = sem_bin Sub w (sem_bin Add w a b) x"
  "sem_bin Sub w a (sem_bin Add w b x) = sem_bin Sub w (sem_bin Sub w a b) x"
  "sem_bin Sub w a (sem_bin Sub w b x) = sem_bin Add w (sem_bin Sub w a b) x"
  by (simp_all add: sem_bin.simps mod_simps algebra_simps)

lemma sem_bin_left:
  "sem_bin Add w (sem_bin Add w k a) b = sem_bin Add w k (sem_bin Add w a b)"
  "sem_bin Add w (sem_bin Sub w k a) b = sem_bin Add w k (sem_bin Sub w b a)"
  "sem_bin Add w a (sem_bin Add w k b) = sem_bin Add w k (sem_bin Add w a b)"
  "sem_bin Add w a (sem_bin Sub w k b) = sem_bin Add w k (sem_bin Sub w a b)"
  "sem_bin Sub w (sem_bin Add w k a) b = sem_bin Add w k (sem_bin Sub w a b)"
  "sem_bin Sub w (sem_bin Sub w k a) b = sem_bin Sub w k (sem_bin Add w a b)"
  "sem_bin Sub w a (sem_bin Add w k b) = sem_bin Sub w (sem_bin Sub w a b) k"
  "sem_bin Sub w a (sem_bin Sub w k b) = sem_bin Sub w (sem_bin Add w a b) k"
  "sem_bin Add w (sem_bin Sub w 0 k) a = sem_bin Sub w a k"
  by (simp_all add: sem_bin.simps mod_simps algebra_simps)

lemma sem_bin_1:
  assumes "a = 0 \<or> a = 1" "b = 0 \<or> b = 1"
  shows "sem_bin Add 1 a b = sem_bin Xor 1 a b" "sem_bin Sub 1 a b = sem_bin Xor 1 a b"
    "sem_bin Mul 1 a b = sem_bin And 1 a b" "sem_bin Xor 1 1 a = of_bool (0 = a)"
    "b \<noteq> 0 \<Longrightarrow> sem_bin UDiv 1 a b = a" "b \<noteq> 0 \<Longrightarrow> sem_bin SDiv 1 a b = a"
    "b \<noteq> 0 \<Longrightarrow> sem_bin URem 1 a b = 0" "b \<noteq> 0 \<Longrightarrow> sem_bin SRem 1 a b = 0"
    "sem_bin Shl 1 a b = sem_bin And 1 a (of_bool (b = 0))"
    "sem_bin LShr 1 a b = sem_bin And 1 a (of_bool (b = 0))" "sem_bin AShr 1 a b = a"
  using assms by (auto simp: sem_bin.simps sgn_val_def signed_divide_int_def signed_modulo_int_def)

lemma sem_cmp_1:
  assumes "a = 0 \<or> a = 1" "b = 0 \<or> b = 1"
  shows "of_bool (sem_cmp Ult 1 a b) = sem_bin And 1 (of_bool (a = 0)) b"
    "of_bool (sem_cmp Ule 1 a b) = sem_bin Or 1 (of_bool (a = 0)) b"
    "of_bool (sem_cmp Slt 1 a b) = sem_bin And 1 a (of_bool (b = 0))"
    "of_bool (sem_cmp Sle 1 a b) = sem_bin Or 1 a (of_bool (b = 0))"
  using assms by (auto simp: sem_bin.simps sgn_val_def)

lemma eval_bool:
  "bytes \<alpha> \<Longrightarrow> expr_ok E \<alpha> e \<Longrightarrow> getWidth e = 1 \<Longrightarrow> eval \<alpha> e = 0 \<or> eval \<alpha> e = 1"
  using eval_bounds [of \<alpha> E e] by auto

text \<open>A constant is folded into a constant operand of \<open>r\<close> and the rest is built again.\<close>

definition AddSub_partial :: "expr_env \<Rightarrow> bkind \<Rightarrow> apint \<Rightarrow> expr \<Rightarrow> expr may_abort" where
  "AddSub_partial E k = (if k = Add then AddExpr_createPartialR E else SubExpr_createPartialR E)"

context apint_laws
begin

lemma createIsZero_ok:
  assumes "bytes \<alpha>" "expr_ok E \<alpha> e" "getWidth e \<le> 64"
  shows "creates E \<alpha> 1 (of_bool (eval \<alpha> e = 0)) (createIsZero E e)"
  using create_Eq_ok [OF assms(1,2), of "ConstantExpr (APInt (getWidth e) 0)"] assms expr_ok_width [OF assms(2)]
  by (simp add: createIsZero_def wf_ap_APInt)

lemma create_Ne_ok:
  assumes "bytes \<alpha>" "expr_ok E \<alpha> l" "expr_ok E \<alpha> r" "getWidth l = getWidth r" "getWidth r \<le> 64"
  shows "creates E \<alpha> 1 (of_bool (eval \<alpha> l \<noteq> eval \<alpha> r)) (create_Ne E l r)"
proof -
  obtain e where e: "create_Eq E l r = Some e" "expr_ok E \<alpha> e" "getWidth e = 1" "eval \<alpha> e = of_bool (eval \<alpha> l = eval \<alpha> r)"
    using create_Eq_ok [OF assms] by (auto simp: creates_def)
  then show ?thesis
    using create_Eq_ok [OF assms(1), of "ConstantExpr (APInt 1 0)" e] by (simp add: create_Ne_def wf_ap_APInt)
qed

lemma createImplies_ok:
  assumes "bytes \<alpha>" "expr_ok E \<alpha> h" "expr_ok E \<alpha> c" "getWidth h = 1" "getWidth c = 1"
  shows "creates E \<alpha> 1 (of_bool (eval \<alpha> h = 1 \<longrightarrow> eval \<alpha> c = 1)) (createImplies E h c)"
proof -
  have "creates E \<alpha> 1 (of_bool (eval \<alpha> h = 0)) (createIsZero E h)"
    using createIsZero_ok [OF assms(1,2)] assms(4) by simp
  then show ?thesis
    unfolding createImplies_def
  proof (rule creates_bind)
    fix z assume "expr_ok E \<alpha> z" "getWidth z = 1" "eval \<alpha> z = of_bool (eval \<alpha> h = 0)"
    then show "creates E \<alpha> 1 (of_bool (eval \<alpha> h = 1 \<longrightarrow> eval \<alpha> c = 1)) (create_Or E z c)"
      using create_Or_ok [OF assms(1), of z c 1] assms eval_bool [OF assms(1,2,4)] eval_bool [OF assms(1,3,5)]
      by (auto simp: sem_bin.simps)
  qed
qed

lemma create_const_l_ok:
  assumes "expr_ok E \<alpha> x" "wf_ap c" "ap_width c = w" "getWidth x = w" "\<not> is_div k"
    "creates E \<alpha> w (sem_bin k w (ap_val c) (eval \<alpha> x)) (partialR c x)"
  shows "creates E \<alpha> w (sem_bin k w (ap_val c) (eval \<alpha> x)) (create_const_l E k partialR c x)"
  using assms
  by (auto simp: create_const_l_def dyn_const_Some CE_bin_eq wf_ap_bin split: option.split)

lemma XorExpr_createPartialR_ok:
  assumes "bytes \<alpha>" "expr_ok E \<alpha> r" "wf_ap c" "ap_width c = w" "getWidth r = w" "w \<le> 64"
  shows "creates E \<alpha> w (sem_bin Xor w (ap_val c) (eval \<alpha> r)) (XorExpr_createPartialR E c r)"
proof -
  have "creates E \<alpha> 1 (of_bool (0 = eval \<alpha> r)) (EqExpr_createPartial E r (APInt 1 0))" if "w = 1"
    using EqExpr_createPartialR_ok [OF assms(1,2), of "APInt 1 0"] assms that
    by (simp add: EqExpr_createPartial_def wf_ap_APInt)
  moreover have "ap_val c = 1" if "w = 1" "ap_val c \<noteq> 0"
    using that assms(3,4) by (auto simp: wf_ap_def)
  moreover have "sem_bin Xor w 0 (eval \<alpha> r) = eval \<alpha> r"
    using sem_bin_units(5) [OF eval_bounds [OF assms(1,2)]] expr_ok_width [OF assms(2)] assms(5) by simp
  ultimately show ?thesis
    using assms eval_bool [OF assms(1,2)] sem_bin_1(4) [of "eval \<alpha> r" 0]
    by (auto simp: XorExpr_createPartialR_def isZero_eq)
qed

lemma bool_val: "wf_ap c \<Longrightarrow> ap_width c = 1 \<Longrightarrow> ap_val c = 0 \<or> ap_val c = 1"
  by (auto simp: wf_ap_def)

lemma fold_kid_ok:
  assumes "bytes \<alpha>" "expr_ok E \<alpha> r" "getWidth r = w" "wf_ap c" "ap_width c = w"
    and IH: "\<And>x c k. size x < size r \<Longrightarrow> expr_ok E \<alpha> x \<Longrightarrow> wf_ap c \<Longrightarrow> ap_width c = w \<Longrightarrow> getWidth x = w \<Longrightarrow>
      k \<in> {Add, Sub} \<Longrightarrow> creates E \<alpha> w (sem_bin k w (ap_val c) (eval \<alpha> x)) (AddSub_partial E k c x)"
    and r: "r = BinaryExpr j (ConstantExpr b) x" "k \<in> {Add, Sub}" "k' \<in> {Add, Sub}"
  shows "creates E \<alpha> w (sem_bin k' w (sem_bin k w (ap_val c) (ap_val b)) (eval \<alpha> x))
    (CE_bin E k c b \<bind> (\<lambda>ab. create_const_l E k' (AddSub_partial E k') ab x))"
proof -
  have x: "expr_ok E \<alpha> x" "wf_ap b" "ap_width b = w" "getWidth x = w" "size x < size r"
    using assms(2,3) r(1) by auto
  have nd: "\<not> is_div k" "\<not> is_div k'" using r(2,3) by (auto simp: is_div_def)
  let ?ab = "APInt w (sem_bin k w (ap_val c) (ap_val b))"
  have ab: "CE_bin E k c b = Some ?ab" "wf_ap ?ab" "ap_width ?ab = w"
    using CE_bin_eq [OF assms(4) x(2), of k] wf_ap_bin [OF assms(4), of k] assms(5) x nd by auto
  have "creates E \<alpha> w (sem_bin k' w (ap_val ?ab) (eval \<alpha> x)) (create_const_l E k' (AddSub_partial E k') ?ab x)"
    by (rule create_const_l_ok [OF x(1) ab(2,3) x(4) nd(2)]) (rule IH [OF x(5,1) ab(2,3) x(4) r(3)])
  then show ?thesis using ab(1) by simp
qed

lemma AddSub_createPartialR_ok:
  assumes "bytes \<alpha>" "w \<le> 64"
  shows "expr_ok E \<alpha> r \<Longrightarrow> wf_ap c \<Longrightarrow> ap_width c = w \<Longrightarrow> getWidth r = w \<Longrightarrow>
    creates E \<alpha> w (sem_bin Add w (ap_val c) (eval \<alpha> r)) (AddExpr_createPartialR E c r) \<and>
    creates E \<alpha> w (sem_bin Sub w (ap_val c) (eval \<alpha> r)) (SubExpr_createPartialR E c r)"
proof (induction r arbitrary: c rule: measure_induct_rule [where f = size])
  case (less r)
  note c = less.prems(2,3)
  let ?v = "\<lambda>k. sem_bin k w (ap_val c) (eval \<alpha> r)"
  show ?case
  proof (cases "w = 1")
    case True
    then show ?thesis
      using XorExpr_createPartialR_ok [OF assms(1) less.prems assms(2)] bool_val [OF c(1)] c(2)
        eval_bool [OF assms(1) less.prems(1)] less.prems(4)
      by (subst AddExpr_createPartialR.simps, subst SubExpr_createPartialR.simps) (auto simp: sem_bin_1)
  next
    case False
    have IH: "creates E \<alpha> w (sem_bin k w (ap_val c) (eval \<alpha> x)) (AddSub_partial E k c x)"
      if "size x < size r" "expr_ok E \<alpha> x" "wf_ap c" "ap_width c = w" "getWidth x = w" "k \<in> {Add, Sub}" for x c k
      using less.IH [OF that(1-5)] that(6) by (auto simp: AddSub_partial_def)
    have kid: "creates E \<alpha> w (sem_bin k' w (sem_bin k w (ap_val c) (ap_val b)) (eval \<alpha> x))
        (CE_bin E k c b \<bind> (\<lambda>ab. create_const_l E k' (AddSub_partial E k') ab x))"
      if "r = BinaryExpr j (ConstantExpr b) x" "k \<in> {Add, Sub}" "k' \<in> {Add, Sub}" for j b x k k'
      by (rule fold_kid_ok [OF assms(1) less.prems(1,4) c _ that]) (rule IH)
    have "creates E \<alpha> w (?v Add) (AddExpr_createPartialR E c r)"
    proof (cases "ap_val c = 0")
      case True
      then show ?thesis
        using False c less.prems assms(2) sem_bin_units(6) [OF eval_bounds [OF assms(1) less.prems(1)]] expr_ok_width [OF less.prems(1)]
        by (subst AddExpr_createPartialR.simps) (simp add: isZero_eq)
    next
      case nz: False
      show ?thesis
      proof (cases "const_kid Add r")
        case (Some p)
        obtain b x where p: "p = (b, x)" by force
        then have r: "r = BinaryExpr Add (ConstantExpr b) x" using Some by (simp add: const_kid_Some)
        then show ?thesis
          using kid [OF r, of Add Add] c False nz assms(2) less.prems p Some
          by (subst AddExpr_createPartialR.simps) (auto simp: isZero_eq sem_bin_assoc AddSub_partial_def)
      next
        case None
        show ?thesis
        proof (cases "const_kid Sub r")
          case (Some p)
          obtain b x where p: "p = (b, x)" by force
          then have r: "r = BinaryExpr Sub (ConstantExpr b) x" using Some by (simp add: const_kid_Some)
          then show ?thesis
            using kid [OF r, of Add Sub] c False nz assms(2) less.prems p Some None
            by (subst AddExpr_createPartialR.simps) (auto simp: isZero_eq sem_bin_assoc AddSub_partial_def)
        next
          case none: None
          then show ?thesis using None c False nz assms(2) less.prems
            by (subst AddExpr_createPartialR.simps) (auto simp: isZero_eq)
        qed
      qed
    qed
    moreover have "creates E \<alpha> w (?v Sub) (SubExpr_createPartialR E c r)"
    proof (cases "const_kid Add r")
      case (Some p)
      obtain b x where p: "p = (b, x)" by force
      then have r: "r = BinaryExpr Add (ConstantExpr b) x" using Some by (simp add: const_kid_Some)
      then show ?thesis
        using kid [OF r, of Sub Sub] c False less.prems p Some
        by (subst SubExpr_createPartialR.simps) (auto simp: sem_bin_assoc AddSub_partial_def)
    next
      case None
      show ?thesis
      proof (cases "const_kid Sub r")
        case (Some p)
        obtain b x where p: "p = (b, x)" by force
        then have r: "r = BinaryExpr Sub (ConstantExpr b) x" using Some by (simp add: const_kid_Some)
        then show ?thesis
          using kid [OF r, of Sub Add] c False less.prems p Some None
          by (subst SubExpr_createPartialR.simps) (auto simp: sem_bin_assoc AddSub_partial_def)
      next
        case none: None
        then show ?thesis using None c False less.prems
          by (subst SubExpr_createPartialR.simps) auto
      qed
    qed
    ultimately show ?thesis by blast
  qed
qed

lemma AddExpr_createPartialR_ok:
  assumes "bytes \<alpha>" "expr_ok E \<alpha> r" "wf_ap c" "ap_width c = w" "getWidth r = w" "w \<le> 64"
  shows "creates E \<alpha> w (sem_bin Add w (ap_val c) (eval \<alpha> r)) (AddExpr_createPartialR E c r)"
  using AddSub_createPartialR_ok [OF assms(1,6,2-5)] by blast

lemma SubExpr_createPartialR_ok:
  assumes "bytes \<alpha>" "expr_ok E \<alpha> r" "wf_ap c" "ap_width c = w" "getWidth r = w" "w \<le> 64"
  shows "creates E \<alpha> w (sem_bin Sub w (ap_val c) (eval \<alpha> r)) (SubExpr_createPartialR E c r)"
  using AddSub_createPartialR_ok [OF assms(1,6,2-5)] by blast

lemma SubExpr_createPartial_ok:
  assumes "bytes \<alpha>" "expr_ok E \<alpha> l" "wf_ap c" "ap_width c = w" "getWidth l = w" "w \<le> 64"
  shows "creates E \<alpha> w (sem_bin Sub w (eval \<alpha> l) (ap_val c)) (SubExpr_createPartial E l c)"
proof -
  have w: "0 < w" using assms(2,5) expr_ok_width by blast
  let ?n = "APInt w (sem_bin Sub w 0 (ap_val c))"
  have n: "CE_bin E Sub (APInt w 0) c = Some ?n" "wf_ap ?n"
    using CE_bin_eq [of "APInt w 0" c Sub] wf_ap_bin [of "APInt w 0" Sub 0 "ap_val c"] assms w
    by (simp_all add: wf_ap_APInt is_div_def)
  show ?thesis
    using AddExpr_createPartialR_ok [OF assms(1,2) n(2) _ assms(5,6)] w assms(4) n(1)
    by (simp add: SubExpr_createPartial_def AddExpr_createPartial_def sem_bin_left(9))
qed

lemma create_Sub_const_r_ok:
  assumes "bytes \<alpha>" "expr_ok E \<alpha> x" "wf_ap c" "ap_width c = w" "getWidth x = w" "w \<le> 64"
  shows "creates E \<alpha> w (sem_bin Sub w (eval \<alpha> x) (ap_val c)) (create_Sub_const_r E x c)"
  using assms SubExpr_createPartial_ok [OF assms]
  by (auto simp: create_Sub_const_r_def dyn_const_Some CE_bin_eq wf_ap_bin is_div_def split: option.split)

lemma create_Add_const_ok:
  assumes "bytes \<alpha>" "expr_ok E \<alpha> x" "wf_ap c" "ap_width c = w" "getWidth x = w" "w \<le> 64"
  shows "creates E \<alpha> w (sem_bin Add w (ap_val c) (eval \<alpha> x)) (create_const_l E Add (AddExpr_createPartialR E) c x)"
  by (rule create_const_l_ok [OF assms(2-5)]) (auto simp: is_div_def AddExpr_createPartialR_ok [OF assms])

lemma create_Sub_const_ok:
  assumes "bytes \<alpha>" "expr_ok E \<alpha> x" "wf_ap c" "ap_width c = w" "getWidth x = w" "w \<le> 64"
  shows "creates E \<alpha> w (sem_bin Sub w (ap_val c) (eval \<alpha> x)) (create_const_l E Sub (SubExpr_createPartialR E) c x)"
  by (rule create_const_l_ok [OF assms(2-5)]) (auto simp: is_div_def SubExpr_createPartialR_ok [OF assms])

text \<open>
  The common shape of \<^verbatim>\<open>AddExpr_create\<close> and \<^verbatim>\<open>SubExpr_create\<close>: the first operand with a constant part
  is taken apart.
\<close>

lemma kid_cases:
  obtains (addl) c a where "const_kid Add l = Some (c, a)" "l = BinaryExpr Add (ConstantExpr c) a"
  | (subl) c a where "const_kid Add l = None" "const_kid Sub l = Some (c, a)" "l = BinaryExpr Sub (ConstantExpr c) a"
  | (addr) c a where "const_kid Add l = None" "const_kid Sub l = None" "const_kid Add r = Some (c, a)"
      "r = BinaryExpr Add (ConstantExpr c) a"
  | (subr) c a where "const_kid Add l = None" "const_kid Sub l = None" "const_kid Add r = None"
      "const_kid Sub r = Some (c, a)" "r = BinaryExpr Sub (ConstantExpr c) a"
  | (none) "const_kid Add l = None" "const_kid Sub l = None" "const_kid Add r = None" "const_kid Sub r = None"
proof -
  have kid: "\<exists>c a. const_kid k e = Some (c, a) \<and> e = BinaryExpr k (ConstantExpr c) a" if "const_kid k e \<noteq> None" for k e
    using that const_kid_Some by fastforce
  show ?thesis
    using that kid [of Add l] kid [of Sub l] kid [of Add r] kid [of Sub r] by blast
qed

lemma Add_bind_ok:
  assumes "bytes \<alpha>" "creates E \<alpha> w v m" "wf_ap c" "ap_width c = w" "w \<le> 64"
  shows "creates E \<alpha> w (sem_bin Add w (ap_val c) v) (m \<bind> create_const_l E Add (AddExpr_createPartialR E) c)"
  using creates_bind [OF assms(2)] create_Add_const_ok [OF assms(1) _ assms(3,4) _ assms(5)] by fastforce

lemma Sub_bind_ok:
  assumes "bytes \<alpha>" "creates E \<alpha> w v m" "wf_ap c" "ap_width c = w" "w \<le> 64"
  shows "creates E \<alpha> w (sem_bin Sub w (ap_val c) v) (m \<bind> create_const_l E Sub (SubExpr_createPartialR E) c)"
  using creates_bind [OF assms(2)] create_Sub_const_ok [OF assms(1) _ assms(3,4) _ assms(5)] by fastforce

lemma Sub_bind_r_ok:
  assumes "bytes \<alpha>" "creates E \<alpha> w v m" "wf_ap c" "ap_width c = w" "w \<le> 64"
  shows "creates E \<alpha> w (sem_bin Sub w v (ap_val c)) (m \<bind> (\<lambda>e. create_Sub_const_r E e c))"
  using creates_bind [OF assms(2)] create_Sub_const_r_ok [OF assms(1) _ assms(3,4) _ assms(5)] by fastforce

lemma create_Add_step:
  assumes b: "bytes \<alpha>" and w: "w \<le> 64" "w \<noteq> 1"
    and ok: "expr_ok E \<alpha> l" "expr_ok E \<alpha> r" "getWidth l = w" "getWidth r = w"
    and nc: "dyn_const l = None" "dyn_const r = None"
    and IH: "\<And>x y. size x + size y < size l + size r \<Longrightarrow> expr_ok E \<alpha> x \<Longrightarrow> expr_ok E \<alpha> y \<Longrightarrow> getWidth x = w \<Longrightarrow>
        getWidth y = w \<Longrightarrow> creates E \<alpha> w (sem_bin Add w (eval \<alpha> x) (eval \<alpha> y)) (create_Add E x y)"
      "\<And>x y. size x + size y < size l + size r \<Longrightarrow> expr_ok E \<alpha> x \<Longrightarrow> expr_ok E \<alpha> y \<Longrightarrow> getWidth x = w \<Longrightarrow>
        getWidth y = w \<Longrightarrow> creates E \<alpha> w (sem_bin Sub w (eval \<alpha> x) (eval \<alpha> y)) (create_Sub E x y)"
  shows "creates E \<alpha> w (sem_bin Add w (eval \<alpha> l) (eval \<alpha> r)) (create_Add E l r)"
proof -
  note unf = create_Add.simps [of E l r]
  note ops = Add_bind_ok [OF b _ _ _ w(1)] Sub_bind_ok [OF b _ _ _ w(1)] Sub_bind_r_ok [OF b _ _ _ w(1)]
  show ?thesis
  proof (cases rule: kid_cases [where l = l and r = r])
    case (addl c a)
    then have c: "wf_ap c" "ap_width c = w" "expr_ok E \<alpha> a" "getWidth a = w" using ok by auto
    from ops(1) [OF IH(1) c(1,2), of a r] show ?thesis
      using c ok addl nc w(2) by (subst unf) (simp add: sem_bin_left(1))
  next
    case (subl c a)
    then have c: "wf_ap c" "ap_width c = w" "expr_ok E \<alpha> a" "getWidth a = w" using ok by auto
    from ops(1) [OF IH(2) c(1,2), of r a] show ?thesis
      using c ok subl nc w(2) by (subst unf) (simp add: sem_bin_left(2))
  next
    case (addr c a)
    then have c: "wf_ap c" "ap_width c = w" "expr_ok E \<alpha> a" "getWidth a = w" using ok by auto
    from ops(1) [OF IH(1) c(1,2), of l a] show ?thesis
      using c ok addr nc w(2) by (subst unf) (simp add: sem_bin_left(3))
  next
    case (subr c a)
    then have c: "wf_ap c" "ap_width c = w" "expr_ok E \<alpha> a" "getWidth a = w" using ok by auto
    from ops(1) [OF IH(2) c(1,2), of l a] show ?thesis
      using c ok subr nc w(2) by (subst unf) (simp add: sem_bin_left(4))
  next
    case none
    then show ?thesis using ok nc w(2) by (subst unf) simp
  qed
qed

lemma create_Sub_step:
  assumes b: "bytes \<alpha>" and w: "w \<le> 64" "w \<noteq> 1"
    and ok: "expr_ok E \<alpha> l" "expr_ok E \<alpha> r" "getWidth l = w" "getWidth r = w"
    and nc: "dyn_const l = None" "dyn_const r = None"
    and IH: "\<And>x y. size x + size y < size l + size r \<Longrightarrow> expr_ok E \<alpha> x \<Longrightarrow> expr_ok E \<alpha> y \<Longrightarrow> getWidth x = w \<Longrightarrow>
        getWidth y = w \<Longrightarrow> creates E \<alpha> w (sem_bin Add w (eval \<alpha> x) (eval \<alpha> y)) (create_Add E x y)"
      "\<And>x y. size x + size y < size l + size r \<Longrightarrow> expr_ok E \<alpha> x \<Longrightarrow> expr_ok E \<alpha> y \<Longrightarrow> getWidth x = w \<Longrightarrow>
        getWidth y = w \<Longrightarrow> creates E \<alpha> w (sem_bin Sub w (eval \<alpha> x) (eval \<alpha> y)) (create_Sub E x y)"
  shows "creates E \<alpha> w (sem_bin Sub w (eval \<alpha> l) (eval \<alpha> r)) (create_Sub E l r)"
proof -
  note unf = create_Sub.simps [of E l r]
  note ops = Add_bind_ok [OF b _ _ _ w(1)] Sub_bind_ok [OF b _ _ _ w(1)] Sub_bind_r_ok [OF b _ _ _ w(1)]
  show ?thesis
  proof (cases "l = r")
    case True
    then show ?thesis
      using nc ok w(2) expr_ok_width [OF ok(1)] by (subst unf) (simp add: wf_ap_APInt sem_bin.simps)
  next
    case ne: False
    then show ?thesis
  proof (cases rule: kid_cases [where l = l and r = r])
    case (addl c a)
    then have c: "wf_ap c" "ap_width c = w" "expr_ok E \<alpha> a" "getWidth a = w" using ok by auto
    from ops(1) [OF IH(2) c(1,2), of a r] show ?thesis
      using c ok addl nc w(2) ne by (subst unf) (simp add: sem_bin_left(5))
  next
    case (subl c a)
    then have c: "wf_ap c" "ap_width c = w" "expr_ok E \<alpha> a" "getWidth a = w" using ok by auto
    from ops(2) [OF IH(1) c(1,2), of a r] show ?thesis
      using c ok subl nc w(2) ne by (subst unf) (simp add: sem_bin_left(6))
  next
    case (addr c a)
    then have c: "wf_ap c" "ap_width c = w" "expr_ok E \<alpha> a" "getWidth a = w" using ok by auto
    from ops(3) [OF IH(2) c(1,2), of l a] show ?thesis
      using c ok addr nc w(2) ne by (subst unf) (simp add: sem_bin_left(7))
  next
    case (subr c a)
    then have c: "wf_ap c" "ap_width c = w" "expr_ok E \<alpha> a" "getWidth a = w" using ok by auto
    from ops(3) [OF IH(1) c(1,2), of l a] show ?thesis
      using c ok subr nc w(2) ne by (subst unf) (simp add: sem_bin_left(8))
  next
    case none
    then show ?thesis using ok nc w(2) ne by (subst unf) simp
  qed
  qed
qed

lemma create_AddSub_ok:
  assumes b: "bytes \<alpha>" and w: "w \<le> 64"
  shows "expr_ok E \<alpha> l \<Longrightarrow> expr_ok E \<alpha> r \<Longrightarrow> getWidth l = w \<Longrightarrow> getWidth r = w \<Longrightarrow>
    creates E \<alpha> w (sem_bin Add w (eval \<alpha> l) (eval \<alpha> r)) (create_Add E l r) \<and>
    creates E \<alpha> w (sem_bin Sub w (eval \<alpha> l) (eval \<alpha> r)) (create_Sub E l r)"
proof (induction "size l + size r" arbitrary: l r rule: less_induct)
  case less
  note ok = less.prems
  note unf = create_Add.simps [of E l r] create_Sub.simps [of E l r]
  show ?case
  proof (cases "dyn_const l")
    case (Some cl)
    then have "l = ConstantExpr cl" by (simp add: dyn_const_Some)
    then show ?thesis
      using create_Add_const_ok [OF b ok(2), of cl w] create_Sub_const_ok [OF b ok(2), of cl w] w ok unfolding unf by simp
  next
    case l: None
    show ?thesis
    proof (cases "dyn_const r")
      case (Some cr)
      then have r: "r = ConstantExpr cr" by (simp add: dyn_const_Some)
      then show ?thesis
        using AddExpr_createPartialR_ok [OF b ok(1), of cr w] SubExpr_createPartial_ok [OF b ok(1), of cr w] w ok l
        unfolding unf by (simp add: AddExpr_createPartial_def sem_bin_commute(1) [of _ "eval \<alpha> l"])
    next
      case r: None
      note nc = l r
      show ?thesis
      proof (cases "w = 1")
        case True
        then show ?thesis
          using nc ok eval_bool [OF b ok(1)] eval_bool [OF b ok(2)] unfolding unf
          by (simp add: XorExpr_create_def sem_bin_1)
      next
        case False
        have IH: "creates E \<alpha> w (sem_bin Add w (eval \<alpha> x) (eval \<alpha> y)) (create_Add E x y)"
          "creates E \<alpha> w (sem_bin Sub w (eval \<alpha> x) (eval \<alpha> y)) (create_Sub E x y)"
          if "size x + size y < size l + size r" "expr_ok E \<alpha> x" "expr_ok E \<alpha> y" "getWidth x = w" "getWidth y = w" for x y
          using less.hyps [OF that] by blast+
        show ?thesis
          using create_Add_step [OF b w False ok nc] create_Sub_step [OF b w False ok nc] IH by blast
      qed
    qed
  qed
qed

lemma MulExpr_createPartialR_ok:
  assumes "bytes \<alpha>" "expr_ok E \<alpha> r" "wf_ap c" "getWidth r = w" "ap_width c = w" "w \<le> 64"
  shows "creates E \<alpha> w (sem_bin Mul w (ap_val c) (eval \<alpha> r)) (MulExpr_createPartialR E c r)"
proof (cases "w = 1")
  case True
  then show ?thesis
    using AndExpr_createPartialR_ok [OF assms] bool_val [OF assms(3)] eval_bool [OF assms(1,2)] assms(4,5)
    by (simp add: MulExpr_createPartialR_def sem_bin_1)
next
  case False
  then show ?thesis
    using assms eval_bounds [OF assms(1,2)] expr_ok_width [OF assms(2)]
    by (auto simp: MulExpr_createPartialR_def isOne_eq isZero_eq sem_bin_units)
qed

lemma create_Mul_ok:
  assumes "bytes \<alpha>" "expr_ok E \<alpha> l" "expr_ok E \<alpha> r" "getWidth l = w" "getWidth r = w" "w \<le> 64"
  shows "creates E \<alpha> w (sem_bin Mul w (eval \<alpha> l) (eval \<alpha> r)) (create_Mul E l r)"
  unfolding create_Mul_def
proof (rule BCREATE_R_ok [OF assms(1-5)])
  show "creates E \<alpha> w (sem_bin Mul w (eval \<alpha> l) (eval \<alpha> r)) (MulExpr_createPartial E l c)"
    if "r = ConstantExpr c" for c
    using that assms MulExpr_createPartialR_ok [of \<alpha> l c w]
    by (simp add: MulExpr_createPartial_def sem_bin_commute(2) [of _ "eval \<alpha> l"])
  show "creates E \<alpha> w (sem_bin Mul w (eval \<alpha> l) (eval \<alpha> r)) (MulExpr_createPartialR E c r)"
    if "l = ConstantExpr c" for c
    using that assms MulExpr_createPartialR_ok [of \<alpha> r c w] by simp
  show "creates E \<alpha> w (sem_bin Mul w (eval \<alpha> l) (eval \<alpha> r)) (MulExpr_create l r)"
    using assms eval_bool [OF assms(1,2)] eval_bool [OF assms(1,3)]
    by (auto simp: MulExpr_create_def sem_bin_1)
qed (simp add: is_div_def)

lemma create_Xor_ok:
  assumes "bytes \<alpha>" "expr_ok E \<alpha> l" "expr_ok E \<alpha> r" "getWidth l = w" "getWidth r = w" "w \<le> 64"
  shows "creates E \<alpha> w (sem_bin Xor w (eval \<alpha> l) (eval \<alpha> r)) (create_Xor E l r)"
  unfolding create_Xor_def
proof (rule BCREATE_R_ok [OF assms(1-5)])
  show "creates E \<alpha> w (sem_bin Xor w (eval \<alpha> l) (eval \<alpha> r)) (XorExpr_createPartial E l c)"
    if "r = ConstantExpr c" for c
    using that assms XorExpr_createPartialR_ok [of \<alpha> l c w]
    by (simp add: XorExpr_createPartial_def sem_bin_commute(5) [of _ "eval \<alpha> l"])
  show "creates E \<alpha> w (sem_bin Xor w (eval \<alpha> l) (eval \<alpha> r)) (XorExpr_createPartialR E c r)"
    if "l = ConstantExpr c" for c
    using that assms XorExpr_createPartialR_ok [of \<alpha> r c w] by simp
qed (use assms in \<open>auto simp: is_div_def XorExpr_create_def\<close>)

lemma BCREATE_ok:
  assumes "expr_ok E \<alpha> l" "expr_ok E \<alpha> r" "getWidth l = w" "getWidth r = w" "is_div k \<longrightarrow> eval \<alpha> r \<noteq> 0"
    "creates E \<alpha> w (sem_bin k w (eval \<alpha> l) (eval \<alpha> r)) (full l r)"
  shows "creates E \<alpha> w (sem_bin k w (eval \<alpha> l) (eval \<alpha> r)) (BCREATE E k full l r)"
  using assms by (auto simp: BCREATE_def dyn_const_Some CE_bin_eq wf_ap_bin split: option.split)

lemma IsZero_then_ok:
  assumes "bytes \<alpha>" "expr_ok E \<alpha> x" "expr_ok E \<alpha> y" "getWidth x = 1" "getWidth y = 1"
  shows "creates E \<alpha> 1 (sem_bin And 1 (eval \<alpha> x) (of_bool (eval \<alpha> y = 0))) (createIsZero E y \<bind> create_And E x)"
    "creates E \<alpha> 1 (sem_bin Or 1 (eval \<alpha> x) (of_bool (eval \<alpha> y = 0))) (createIsZero E y \<bind> create_Or E x)"
    "creates E \<alpha> 1 (sem_bin And 1 (of_bool (eval \<alpha> y = 0)) (eval \<alpha> x)) (createIsZero E y \<bind> (\<lambda>z. create_And E z x))"
    "creates E \<alpha> 1 (sem_bin Or 1 (of_bool (eval \<alpha> y = 0)) (eval \<alpha> x)) (createIsZero E y \<bind> (\<lambda>z. create_Or E z x))"
proof -
  obtain z where z: "createIsZero E y = Some z" "expr_ok E \<alpha> z" "getWidth z = 1" "eval \<alpha> z = of_bool (eval \<alpha> y = 0)"
    using createIsZero_ok [OF assms(1,3)] assms(5) by (auto simp: creates_def)
  note ops = create_And_ok [OF assms(1)] create_Or_ok [OF assms(1)]
  show "creates E \<alpha> 1 (sem_bin And 1 (eval \<alpha> x) (of_bool (eval \<alpha> y = 0))) (createIsZero E y \<bind> create_And E x)"
    "creates E \<alpha> 1 (sem_bin Or 1 (eval \<alpha> x) (of_bool (eval \<alpha> y = 0))) (createIsZero E y \<bind> create_Or E x)"
    "creates E \<alpha> 1 (sem_bin And 1 (of_bool (eval \<alpha> y = 0)) (eval \<alpha> x)) (createIsZero E y \<bind> (\<lambda>z. create_And E z x))"
    "creates E \<alpha> 1 (sem_bin Or 1 (of_bool (eval \<alpha> y = 0)) (eval \<alpha> x)) (createIsZero E y \<bind> (\<lambda>z. create_Or E z x))"
    using ops [of x z 1] ops [of z x 1] z assms by simp_all
qed

lemma div_shift_full_ok:
  assumes "bytes \<alpha>" "expr_ok E \<alpha> l" "expr_ok E \<alpha> r" "getWidth l = w" "getWidth r = w"
  shows "eval \<alpha> r \<noteq> 0 \<Longrightarrow> creates E \<alpha> w (sem_bin UDiv w (eval \<alpha> l) (eval \<alpha> r)) (UDivExpr_create l r)"
    "eval \<alpha> r \<noteq> 0 \<Longrightarrow> creates E \<alpha> w (sem_bin SDiv w (eval \<alpha> l) (eval \<alpha> r)) (SDivExpr_create l r)"
    "eval \<alpha> r \<noteq> 0 \<Longrightarrow> creates E \<alpha> w (sem_bin URem w (eval \<alpha> l) (eval \<alpha> r)) (URemExpr_create E l r)"
    "eval \<alpha> r \<noteq> 0 \<Longrightarrow> creates E \<alpha> w (sem_bin SRem w (eval \<alpha> l) (eval \<alpha> r)) (SRemExpr_create E l r)"
    "creates E \<alpha> w (sem_bin Shl w (eval \<alpha> l) (eval \<alpha> r)) (ShlExpr_create E l r)"
    "creates E \<alpha> w (sem_bin LShr w (eval \<alpha> l) (eval \<alpha> r)) (LShrExpr_create E l r)"
    "creates E \<alpha> w (sem_bin AShr w (eval \<alpha> l) (eval \<alpha> r)) (AShrExpr_create l r)"
  using assms eval_bool [OF assms(1,2)] eval_bool [OF assms(1,3)] IsZero_then_ok(1) [OF assms(1-3)]
    sem_bin_1(5-11) [of "eval \<alpha> l" "eval \<alpha> r"]
  by (simp_all add: UDivExpr_create_def SDivExpr_create_def URemExpr_create_def SRemExpr_create_def
      ShlExpr_create_def LShrExpr_create_def AShrExpr_create_def wf_ap_APInt)

lemma create_bin_ok:
  assumes "bytes \<alpha>" "expr_ok E \<alpha> l" "expr_ok E \<alpha> r" "getWidth l = w" "getWidth r = w" "w \<le> 64"
    "is_div k \<longrightarrow> eval \<alpha> r \<noteq> 0"
  shows "creates E \<alpha> w (sem_bin k w (eval \<alpha> l) (eval \<alpha> r)) (create_bin E k l r)"
proof -
  note full = div_shift_full_ok [OF assms(1-5)] and B = BCREATE_ok [OF assms(2-5), of k]
  show ?thesis
    using create_AddSub_ok [OF assms(1,6,2-5)] create_Mul_ok [OF assms(1-6)] create_And_ok [OF assms(1-6)]
      create_Or_ok [OF assms(1-6)] create_Xor_ok [OF assms(1-6)] full B assms(7)
    by (cases k) (simp_all add: is_div_def create_UDiv_def create_SDiv_def create_URem_def create_SRem_def
        create_Shl_def create_LShr_def create_AShr_def)
qed

lemma CMPCREATE_ok:
  assumes "expr_ok E \<alpha> l" "expr_ok E \<alpha> r" "getWidth l = w" "getWidth r = w"
    "creates E \<alpha> 1 (of_bool (sem_cmp k w (eval \<alpha> l) (eval \<alpha> r))) (full l r)"
  shows "creates E \<alpha> 1 (of_bool (sem_cmp k w (eval \<alpha> l) (eval \<alpha> r))) (CMPCREATE E k full l r)"
  using assms by (auto simp: CMPCREATE_def dyn_const_Some CE_cmp_eq wf_ap_APInt split: option.split)

lemma cmp_full_ok:
  assumes "bytes \<alpha>" "expr_ok E \<alpha> l" "expr_ok E \<alpha> r" "getWidth l = w" "getWidth r = w"
  shows "creates E \<alpha> 1 (of_bool (sem_cmp Ult w (eval \<alpha> l) (eval \<alpha> r))) (create_Ult E l r)"
    "creates E \<alpha> 1 (of_bool (sem_cmp Ule w (eval \<alpha> l) (eval \<alpha> r))) (create_Ule E l r)"
    "creates E \<alpha> 1 (of_bool (sem_cmp Slt w (eval \<alpha> l) (eval \<alpha> r))) (create_Slt E l r)"
    "creates E \<alpha> 1 (of_bool (sem_cmp Sle w (eval \<alpha> l) (eval \<alpha> r))) (create_Sle E l r)"
  unfolding create_Ult_def create_Ule_def create_Slt_def create_Sle_def
  using assms eval_bool [OF assms(1,2)] eval_bool [OF assms(1,3)] IsZero_then_ok(1,2) [OF assms(1-3)]
    IsZero_then_ok(3,4) [OF assms(1,3,2)] sem_cmp_1 [of "eval \<alpha> l" "eval \<alpha> r"]
  by (intro CMPCREATE_ok; simp add: UltExpr_create_def UleExpr_create_def SltExpr_create_def SleExpr_create_def
      del: sem_cmp.simps)+

lemma create_cmp_ok:
  assumes "bytes \<alpha>" "expr_ok E \<alpha> l" "expr_ok E \<alpha> r" "getWidth l = w" "getWidth r = w" "w \<le> 64"
  shows "creates E \<alpha> 1 (of_bool (sem_cmp k w (eval \<alpha> l) (eval \<alpha> r))) (create_cmp E k l r)"
  using create_Eq_ok [OF assms(1-3)] create_Ne_ok [OF assms(1-3)] cmp_full_ok [OF assms(1-5)]
    cmp_full_ok [OF assms(1,3,2,5,4)] assms(4-6)
  by (cases k) (simp_all add: create_Ugt_def create_Uge_def create_Sgt_def create_Sge_def)

lemma NotExpr_create_ok:
  assumes "expr_ok E \<alpha> e"
  shows "creates E \<alpha> (getWidth e) (2 ^ getWidth e - 1 - eval \<alpha> e) (Some (NotExpr_create E e))"
  using assms by (cases e) (auto simp: NotExpr_create_def CE_Not_def ap_not wf_ap_def)

lemma create_Select_ok:
  assumes "bytes \<alpha>" "expr_ok E \<alpha> c" "expr_ok E \<alpha> t" "expr_ok E \<alpha> f"
    and w: "getWidth c = 1" "getWidth t = w" "getWidth f = w"
  shows "creates E \<alpha> w (if eval \<alpha> c = 1 then eval \<alpha> t else eval \<alpha> f) (create_Select E c t f)"
proof (cases "dyn_const c")
  case (Some ce)
  then show ?thesis
    using assms by (auto simp: create_Select_def dyn_const_Some isTrue_eq)
next
  case c: None
  note bool = eval_bool [OF assms(1,2)] eval_bool [OF assms(1,3)] eval_bool [OF assms(1,4)]
  show ?thesis
  proof (cases "t = f \<or> w \<noteq> 1")
    case True
    then show ?thesis using assms c by (auto simp: create_Select_def)
  next
    case ne: False
    then have w1: "getWidth t = 1" "getWidth f = 1" "t \<noteq> f" "w = 1" using w by auto
    show ?thesis
    proof (cases "dyn_const t")
      case (Some ct)
      then have t: "t = ConstantExpr ct" "isTrue E ct = Some (ap_val ct = 1)"
        using assms w1 by (auto simp: dyn_const_Some isTrue_eq)
      then show ?thesis
        using create_Or_ok [OF assms(1,2,4), of 1] IsZero_then_ok(3) [OF assms(1,4,2)] assms w1 c bool
        by (auto simp: create_Select_def sem_bin.simps)
    next
      case t: None
      show ?thesis
      proof (cases "dyn_const f")
        case (Some cf)
        then have f: "f = ConstantExpr cf" "isTrue E cf = Some (ap_val cf = 1)"
          using assms w1 by (auto simp: dyn_const_Some isTrue_eq)
        then show ?thesis
          using create_And_ok [OF assms(1,2,3), of 1] IsZero_then_ok(4) [OF assms(1,3,2)] assms w1 c t bool
          by (auto simp: create_Select_def sem_bin.simps)
      qed (use assms w1 c t in \<open>simp add: create_Select_def\<close>)
    qed
  qed
qed

lemma ReadExpr_scan_ok:
  assumes "bytes \<alpha>" "wf_array root" "updates_ok E \<alpha> ul" "expr_ok E \<alpha> i" "getWidth i = 32"
    "ConstArrayOpt E \<and> isConstantArray root \<longrightarrow> eval \<alpha> i < int (arr_size root)"
  shows "updates_ok E \<alpha> un \<Longrightarrow> eval_updates \<alpha> ul (eval \<alpha> i) (initial_value \<alpha> root (eval \<alpha> i)) =
      eval_updates \<alpha> un (eval \<alpha> i) (initial_value \<alpha> root (eval \<alpha> i)) \<Longrightarrow>
    creates E \<alpha> 8 (eval \<alpha> (ReadExpr root ul i)) (ReadExpr_scan E root ul i un)"
proof (induction un rule: update_size.induct)
  case (2 ui uv n)
  have u: "expr_ok E \<alpha> ui" "getWidth ui = 32" "expr_ok E \<alpha> uv" "getWidth uv = 8" "updates_ok E \<alpha> n"
    using 2(2) by auto
  obtain cond where cond: "create_Eq E i ui = Some cond" "expr_ok E \<alpha> cond" "getWidth cond = 1"
    "eval \<alpha> cond = of_bool (eval \<alpha> i = eval \<alpha> ui)"
    using create_Eq_ok [OF assms(1,4) u(1)] assms(5) u(2) by (auto simp: creates_def)
  show ?case
  proof (cases "dyn_const cond")
    case (Some ce)
    then have "isTrue E ce = Some (eval \<alpha> i = eval \<alpha> ui)"
      using cond by (auto simp: dyn_const_Some isTrue_eq)
    then show ?thesis
      using cond(1) Some u 2(3) 2(1) by auto
  qed (use cond assms in simp)
qed (use assms in simp_all)

lemma create_Read_ok:
  assumes "bytes \<alpha>" "wf_array root" "updates_ok E \<alpha> ul" "expr_ok E \<alpha> i" "getWidth i = 32"
    "ConstArrayOpt E \<and> isConstantArray root \<longrightarrow> eval \<alpha> i < int (arr_size root)"
  shows "creates E \<alpha> 8 (eval_updates \<alpha> ul (eval \<alpha> i) (initial_value \<alpha> root (eval \<alpha> i))) (create_Read E root ul i)"
  using ReadExpr_scan_ok [OF assms assms(3) refl] by (simp add: create_Read_def)

end

subsection \<open>The simplifying constructors keep widths and values\<close>

lemma creates_exists:
  "creates E \<alpha> w v r \<Longrightarrow> \<exists>e. r = Some e \<and> wf_expr e \<and> getWidth e = w \<and> eval \<alpha> e = v"
  by (auto simp: creates_def expr_ok_def)

text \<open>
  C4: the binary constructors. Whatever simplifications \<^verbatim>\<open>AddExpr::create\<close> to \<^verbatim>\<open>AShrExpr::create\<close>
  apply, on operands of the same width of at most 64 bits they do not abort and return a
  well-formed expression with the width and the value of the plain operation, for every contents
  of the arrays. Divisions need a divisor that is not zero and, with the option
  \<^verbatim>\<open>const-array-opt\<close>, reads of constant arrays have to be in bounds.
\<close>

theorem create_bin_sound:
  assumes "apint_laws E" "bytes \<alpha>" "wf_expr l" "wf_expr r" "getWidth l = getWidth r" "getWidth l \<le> 64"
    and "ConstArrayOpt E \<longrightarrow> reads_ok \<alpha> l \<and> reads_ok \<alpha> r" "is_div k \<longrightarrow> eval \<alpha> r \<noteq> 0"
  shows "\<exists>e. create_bin E k l r = Some e \<and> wf_expr e \<and> getWidth e = getWidth l
    \<and> eval \<alpha> e = eval \<alpha> (BinaryExpr k l r)"
proof -
  have "expr_ok E \<alpha> l" "expr_ok E \<alpha> r" using assms(3,4,7) by (simp_all add: expr_ok_def)
  from apint_laws.create_bin_ok [OF assms(1,2) this refl assms(5) [symmetric] assms(6) assms(8)] show ?thesis
    unfolding eval.simps by (rule creates_exists)
qed

theorem create_bin_sound_witness:
  "\<exists>e. create_bin (apint_env True) Sub (BinaryExpr Add (ConstantExpr (APInt 8 250)) (NotExpr (ConstantExpr (APInt 8 1))))
      (ConstantExpr (APInt 8 3)) = Some e \<and> wf_expr e \<and> getWidth e = 8 \<and> eval (\<lambda>_ _. 0) e = 245"
  using create_bin_sound [OF apint_env.apint_laws_axioms, of "\<lambda>_ _. 0"
      "BinaryExpr Add (ConstantExpr (APInt 8 250)) (NotExpr (ConstantExpr (APInt 8 1)))" "ConstantExpr (APInt 8 3)" True Sub]
  by (simp add: bytes_def wf_ap_def is_div_def sem_bin.simps)

text \<open>
  C14: the comparison constructors, \<^verbatim>\<open>EqExpr::create\<close> with its rewriting of constants through
  extensions, sums, disjunctions and constant arrays included, do not abort and return a boolean expression with
  the value of the plain comparison. The operands have the same width of at most 64 bits and, with the
  option \<^verbatim>\<open>const-array-opt\<close>, reads of constant arrays are in bounds.
\<close>

theorem create_cmp_sound:
  assumes "apint_laws E" "bytes \<alpha>" "wf_expr l" "wf_expr r" "getWidth l = getWidth r" "getWidth l \<le> 64"
    and "ConstArrayOpt E \<longrightarrow> reads_ok \<alpha> l \<and> reads_ok \<alpha> r"
  shows "\<exists>e. create_cmp E k l r = Some e \<and> wf_expr e \<and> getWidth e = 1
    \<and> eval \<alpha> e = eval \<alpha> (CmpExpr k l r)"
proof -
  have "expr_ok E \<alpha> l" "expr_ok E \<alpha> r" using assms(3,4,7) by (simp_all add: expr_ok_def)
  from apint_laws.create_cmp_ok [OF assms(1,2) this refl assms(5) [symmetric] assms(6)] show ?thesis
    unfolding eval.simps by (rule creates_exists)
qed

theorem create_cmp_sound_witness:
  "\<exists>e. create_cmp (apint_env True) Eq (ConstantExpr (APInt 32 300)) (ZExtExpr (ReadExpr
        \<lparr>arr_address = 1, arr_name = ''a'', arr_size = 2, constantValues = [APInt 8 44, APInt 8 7]\<rparr>
        NoUpdate (ConstantExpr (APInt 32 0))) 32) = Some e \<and> wf_expr e \<and> getWidth e = 1 \<and> eval (\<lambda>_ _. 0) e = 0"
  using create_cmp_sound [OF apint_env.apint_laws_axioms, of "\<lambda>_ _. 0" "ConstantExpr (APInt 32 300)"
      "ZExtExpr (ReadExpr \<lparr>arr_address = 1, arr_name = ''a'', arr_size = 2, constantValues = [APInt 8 44, APInt 8 7]\<rparr>
        NoUpdate (ConstantExpr (APInt 32 0))) 32" True Eq]
  by (simp add: bytes_def wf_ap_def wf_array_def isConstantArray_def isSymbolicArray_def initial_value_def)

text \<open>
  C28: extraction, concatenation and extension. The constructors return expressions whose values
  are the bits cut out, joined and extended, and never abort on arguments in range.
\<close>

theorem create_cast_sound:
  assumes "apint_laws E" "bytes \<alpha>" "wf_expr e" "wf_expr r" "0 < w" "off + w \<le> getWidth e" "0 < v"
    and "ConstArrayOpt E \<longrightarrow> reads_ok \<alpha> e \<and> reads_ok \<alpha> r"
  shows "(\<exists>x. ExtractExpr_create E e off w = Some x \<and> wf_expr x \<and> getWidth x = w
      \<and> eval \<alpha> x = eval \<alpha> e div 2 ^ off mod 2 ^ w)
    \<and> (\<exists>x. create_Concat E e r = Some x \<and> wf_expr x \<and> getWidth x = getWidth e + getWidth r
      \<and> eval \<alpha> x = eval \<alpha> e * 2 ^ getWidth r + eval \<alpha> r)
    \<and> (\<exists>x. create_ZExt E e v = Some x \<and> wf_expr x \<and> getWidth x = v \<and> eval \<alpha> x = eval \<alpha> e mod 2 ^ v)
    \<and> (\<exists>x. create_SExt E e v = Some x \<and> wf_expr x \<and> getWidth x = v
      \<and> eval \<alpha> x = sgn_val (getWidth e) (eval \<alpha> e) mod 2 ^ v)"
proof -
  have "expr_ok E \<alpha> e" "expr_ok E \<alpha> r" using assms by (simp_all add: expr_ok_def)
  then show ?thesis
    using assms by (intro conjI creates_exists [where E = E] apint_laws.ExtractExpr_create_creates apint_laws.create_Concat_ok
        apint_laws.create_ZExt_ok apint_laws.create_SExt_ok)
qed

theorem create_cast_sound_witness:
  "\<exists>x. ExtractExpr_create (apint_env False) (ConcatExpr (ConstantExpr (APInt 8 171)) (NotExpr (ConstantExpr (APInt 8 50)))) 4 8 = Some x
    \<and> wf_expr x \<and> getWidth x = 8 \<and> eval (\<lambda>_ _. 0) x = 188"
  using create_cast_sound [OF apint_env.apint_laws_axioms, of "\<lambda>_ _. 0"
      "ConcatExpr (ConstantExpr (APInt 8 171)) (NotExpr (ConstantExpr (APInt 8 50)))" "ConstantExpr (APInt 8 50)" 8 4 1 False]
  by (simp add: bytes_def wf_ap_def apint_env_def)

text \<open>
  C29: selection and array reads. \<^verbatim>\<open>SelectExpr::create\<close> has the value of the chosen operand, and
  \<^verbatim>\<open>ReadExpr::create\<close>, which skips the updates that cannot match, the value of the most recent
  update at the index or else of the array's initial contents.
\<close>

theorem create_select_read_sound:
  assumes "apint_laws E" "bytes \<alpha>" "wf_expr c" "wf_expr t" "wf_expr f" "getWidth c = 1" "getWidth t = getWidth f"
    and "wf_expr (ReadExpr root ul i)"
    and "ConstArrayOpt E \<longrightarrow> reads_ok \<alpha> (SelectExpr c t f) \<and> reads_ok \<alpha> (ReadExpr root ul i)"
  shows "(\<exists>e. create_Select E c t f = Some e \<and> wf_expr e \<and> getWidth e = getWidth t
      \<and> eval \<alpha> e = eval \<alpha> (SelectExpr c t f))
    \<and> (\<exists>e. create_Read E root ul i = Some e \<and> wf_expr e \<and> getWidth e = 8
      \<and> eval \<alpha> e = eval \<alpha> (ReadExpr root ul i))"
proof -
  have ok: "expr_ok E \<alpha> c" "expr_ok E \<alpha> t" "expr_ok E \<alpha> f" "expr_ok E \<alpha> (ReadExpr root ul i)"
    using assms(3-) by (simp_all add: expr_ok_def)
  then have rd: "wf_array root" "updates_ok E \<alpha> ul" "expr_ok E \<alpha> i" "getWidth i = 32"
    "ConstArrayOpt E \<and> isConstantArray root \<longrightarrow> eval \<alpha> i < int (arr_size root)" by auto
  show ?thesis
    unfolding eval.simps
    using creates_exists [OF apint_laws.create_Select_ok [OF assms(1,2) ok(1-3) assms(6) refl assms(7) [symmetric]]]
      creates_exists [OF apint_laws.create_Read_ok [OF assms(1,2) rd]] by blast
qed

theorem create_select_read_sound_witness:
  "\<exists>e. create_Read (apint_env True) \<lparr>arr_address = 1, arr_name = ''a'', arr_size = 9, constantValues = []\<rparr>
      (UpdateNode (ConstantExpr (APInt 32 4)) (ConstantExpr (APInt 8 9)) NoUpdate) (ConstantExpr (APInt 32 4)) = Some e
    \<and> wf_expr e \<and> getWidth e = 8 \<and> eval (\<lambda>_ _. 0) e = 9"
  using create_select_read_sound [OF apint_env.apint_laws_axioms, of "\<lambda>_ _. 0" "ConstantExpr (APInt 1 0)"
      "ConstantExpr (APInt 8 1)" "ConstantExpr (APInt 8 2)"
      "\<lparr>arr_address = 1, arr_name = ''a'', arr_size = 9, constantValues = []\<rparr>"
      "UpdateNode (ConstantExpr (APInt 32 4)) (ConstantExpr (APInt 8 9)) NoUpdate" "ConstantExpr (APInt 32 4)" True]
  by (simp add: bytes_def wf_ap_def wf_array_def isConstantArray_def isSymbolicArray_def)

text \<open>
  constants wider than 64 bits. The simplifications test constants with \<^verbatim>\<open>isZero\<close>, \<^verbatim>\<open>isOne\<close> and
  \<^verbatim>\<open>isAllOnes\<close>, which read them as 64-bit numbers: adding, multiplying or masking an expression
  with a constant of more than 64 bits ends in a failed assertion.
\<close>

theorem wide_constant_aborts:
  assumes "64 < ap_width c" "getWidth r = ap_width c" "dyn_const r = None"
  shows "create_Add E (ConstantExpr c) r = None \<and> create_Mul E (ConstantExpr c) r = None
    \<and> create_Xor E (ConstantExpr c) r = None \<and> create_And E (ConstantExpr c) r = None
    \<and> create_Or E (ConstantExpr c) r = None"
proof -
  have "isZero E c = None" "isOne E c = None"
    using assms(1) by (simp_all add: isZero_def isOne_def getZExtValue_def)
  moreover have "CE_isAllOnes E c = None"
    using assms(1) by (cases "getZExtValue E (ap_width c) c") (simp_all add: CE_isAllOnes_def)
  ultimately show ?thesis
    using assms
    by (simp add: create_Add.simps create_const_l_def AddExpr_createPartialR.simps create_Mul_def create_Xor_def
        create_And_def create_Or_def BCREATE_R_def MulExpr_createPartialR_def XorExpr_createPartialR_def
        AndExpr_createPartialR_def OrExpr_createPartialR_def AndExpr_createPartial_def OrExpr_createPartial_def)
qed

theorem wide_constant_aborts_witness:
  "create_Add (apint_env True) (ConstantExpr (APInt 80 1)) (ZExtExpr (ConstantExpr (APInt 8 1)) 80) = None"
  using wide_constant_aborts [of "APInt 80 1" "ZExtExpr (ConstantExpr (APInt 8 1)) 80" "apint_env True"] by simp

end
