(* ===== verification/Evaluator.thy ===== *)
theory Evaluator
  imports Expr_Arith
begin

text \<open>
  Rewriting of expressions: the visitor of \<^verbatim>\<open>lib/Expr/ExprVisitor.cpp\<close> with its table of visited
  expressions, the evaluator of \<^verbatim>\<open>lib/Expr/ExprEvaluator.cpp\<close> on it, and the assignments of
  \<^verbatim>\<open>klee/util/Assignment.h\<close>.

  The evaluator is not recursive (it does not visit what it has rebuilt) and has no
  post-visitor. Its table is a partial function from expressions to results.
\<close>

subsection \<open>Kids and rebuilding\<close>

fun get_kids :: "expr \<Rightarrow> expr list" where
  "get_kids (ConstantExpr a) = []"
| "get_kids (NotOptimizedExpr e) = [e]"
| "get_kids (ReadExpr a us i) = [i]"
| "get_kids (SelectExpr c t f) = [c, t, f]"
| "get_kids (ConcatExpr l r) = [l, r]"
| "get_kids (ExtractExpr e off w) = [e]"
| "get_kids (ZExtExpr e w) = [e]"
| "get_kids (SExtExpr e w) = [e]"
| "get_kids (NotExpr e) = [e]"
| "get_kids (BinaryExpr k l r) = [l, r]"
| "get_kids (CmpExpr k l r) = [l, r]"

definition rebuild :: "expr_env \<Rightarrow> expr \<Rightarrow> expr list \<Rightarrow> expr may_abort" where
  "rebuild E e kids =
    (case e of
       ConstantExpr a \<Rightarrow> None
     | NotOptimizedExpr _ \<Rightarrow> Some (NotOptimizedExpr_create (kids ! 0))
     | ReadExpr a us _ \<Rightarrow> create_Read E a us (kids ! 0)
     | SelectExpr _ _ _ \<Rightarrow> create_Select E (kids ! 0) (kids ! 1) (kids ! 2)
     | ConcatExpr _ _ \<Rightarrow> create_Concat E (kids ! 0) (kids ! 1)
     | ExtractExpr _ off w \<Rightarrow> ExtractExpr_create E (kids ! 0) off w
     | ZExtExpr _ w \<Rightarrow> create_ZExt E (kids ! 0) w
     | SExtExpr _ w \<Rightarrow> create_SExt E (kids ! 0) w
     | NotExpr _ \<Rightarrow> Some (NotExpr_create E (kids ! 0))
     | BinaryExpr k _ _ \<Rightarrow> create_bin E k (kids ! 0) (kids ! 1)
     | CmpExpr k _ _ \<Rightarrow> create_cmp E k (kids ! 0) (kids ! 1))"

text \<open>The end of the \<^verbatim>\<open>DoChildren\<close> case of \<^verbatim>\<open>ExprVisitor::visitActual\<close>.\<close>

definition rebuild_changed :: "expr_env \<Rightarrow> expr \<Rightarrow> expr list \<Rightarrow> expr may_abort" where
  "rebuild_changed E e kids = (if kids \<noteq> get_kids e then rebuild E e kids else Some e)"

subsection \<open>The evaluator\<close>

type_synonym visited_ty = "expr \<rightharpoonup> expr"

record visitor =
  UseVisitorHash :: bool
  getInitialValue :: "array \<Rightarrow> nat \<Rightarrow> expr may_abort"

definition visited_insert :: "expr \<Rightarrow> expr \<Rightarrow> visited_ty \<Rightarrow> visited_ty" where
  "visited_insert e res vis = (if vis e = None then vis(e \<mapsto> res) else vis)"

fun isa_division :: "expr \<Rightarrow> bool" where
  "isa_division (BinaryExpr k l r) = (k = UDiv \<or> k = SDiv \<or> k = URem \<or> k = SRem)"
| "isa_division _ = False"

text \<open>\<^verbatim>\<open>protectedDivOperation\<close> after the two operands have been visited.\<close>

definition protectedDivOperation :: "expr_env \<Rightarrow> expr \<Rightarrow> expr list \<Rightarrow> expr may_abort" where
  "protectedDivOperation E e kids = do {
     zero \<leftarrow> (case dyn_const (kids ! 1) of Some ce \<Rightarrow> isZero E ce | None \<Rightarrow> Some False);
     let kids = (if zero then [kids ! 0, get_kids e ! 1] else kids);
     rebuild_changed E e kids }"

function visit :: "expr_env \<Rightarrow> visitor \<Rightarrow> visited_ty \<Rightarrow> expr \<Rightarrow> (expr \<times> visited_ty) may_abort"
  and visitActual :: "expr_env \<Rightarrow> visitor \<Rightarrow> visited_ty \<Rightarrow> expr \<Rightarrow> (expr \<times> visited_ty) may_abort"
  and visit_kids :: "expr_env \<Rightarrow> visitor \<Rightarrow> visited_ty \<Rightarrow> expr list \<Rightarrow> (expr list \<times> visited_ty) may_abort"
  and evalRead :: "expr_env \<Rightarrow> visitor \<Rightarrow> visited_ty \<Rightarrow> array \<Rightarrow> nat \<Rightarrow> update_node \<Rightarrow> (expr \<times> visited_ty) may_abort" where
  "visit E V vis e =
    (if \<not> UseVisitorHash V \<or> isConstant e then visitActual E V vis e
     else case vis e of
       Some res \<Rightarrow> Some (res, vis)
     | None \<Rightarrow> do {
         (res, vis) \<leftarrow> visitActual E V vis e;
         Some (res, visited_insert e res vis) })"
| "visitActual E V vis e =
    (case e of
       ConstantExpr a \<Rightarrow> Some (e, vis)
     | ReadExpr root us i \<Rightarrow> do {
         (v, vis) \<leftarrow> visit E V vis i;
         case dyn_const v of
           Some ce \<Rightarrow> do {
             z \<leftarrow> getZExtValue E 64 ce;
             evalRead E V vis root (unat z mod 2 ^ 32) us }
         | None \<Rightarrow> do {
             (kids, vis) \<leftarrow> visit_kids E V vis [i];
             r \<leftarrow> rebuild_changed E e kids;
             Some (r, vis) } }
     | _ \<Rightarrow>
       if list_all isConstant (get_kids e) then do {
         r \<leftarrow> rebuild E e (get_kids e);
         Some (r, vis) }
       else do {
         (kids, vis) \<leftarrow> visit_kids E V vis (get_kids e);
         r \<leftarrow> (if isa_division e then protectedDivOperation E e kids else rebuild_changed E e kids);
         Some (r, vis) })"
| "visit_kids E V vis [] = Some ([], vis)"
| "visit_kids E V vis (k # ks) = do {
     (k', vis) \<leftarrow> visit E V vis k;
     (ks', vis) \<leftarrow> visit_kids E V vis ks;
     Some (k' # ks', vis) }"
| "evalRead E V vis root index NoUpdate =
    (if isConstantArray root \<and> index < arr_size root then do {
       v \<leftarrow> nth_opt (constantValues root) index;
       Some (ConstantExpr v, vis) }
     else do {
       v \<leftarrow> getInitialValue V root index;
       Some (v, vis) })"
| "evalRead E V vis root index (UpdateNode ui uv n) = do {
     (ui', vis) \<leftarrow> visit E V vis ui;
     case dyn_const ui' of
       Some ce \<Rightarrow> do {
         z \<leftarrow> getZExtValue E 64 ce;
         if unat z = index then visit E V vis uv else evalRead E V vis root index n }
     | None \<Rightarrow> do {
         r \<leftarrow> create_Read E root (UpdateNode ui uv n) (ConstantExpr (ConstantExpr_alloc E (of_nat index) 32));
         Some (r, vis) } }"
  by pat_completeness auto
termination
proof (relation "measure (\<lambda>x. case x of
    Inl (Inl (E, V, vis, e)) \<Rightarrow> 10 * size e + 2
  | Inl (Inr (E, V, vis, e)) \<Rightarrow> 10 * size e + 1
  | Inr (Inl (E, V, vis, ks)) \<Rightarrow> (\<Sum>k\<leftarrow>ks. 10 * size k + 3)
  | Inr (Inr (E, V, vis, root, index, us)) \<Rightarrow> 10 * size us + 1)")
qed auto

declare visit.simps [simp del] visitActual.simps [simp del]

subsection \<open>Assignments\<close>

record assignment =
  allowFreeValues :: bool
  bindings :: "array \<rightharpoonup> uint8_t list"

definition Assignment_new :: "array list \<Rightarrow> uint8_t list list \<Rightarrow> bool \<Rightarrow> assignment" where
  "Assignment_new objects values free =
    \<lparr>allowFreeValues = free,
     bindings = foldl (\<lambda>m (os, arr). if m os = None then m(os \<mapsto> arr) else m) Map.empty (zip objects values)\<rparr>"

definition Assignment_add :: "array \<Rightarrow> uint8_t list \<Rightarrow> assignment \<Rightarrow> assignment" where
  "Assignment_add obj value a =
    (if bindings a obj = None then a\<lparr>bindings := (bindings a)(obj \<mapsto> value)\<rparr> else a)"

definition Assignment_clear :: "assignment \<Rightarrow> assignment" where
  "Assignment_clear a = a\<lparr>bindings := Map.empty\<rparr>"

definition evaluate_byte :: "expr_env \<Rightarrow> assignment \<Rightarrow> array \<Rightarrow> nat \<Rightarrow> expr may_abort" where
  "evaluate_byte E a arr index =
    (case bindings a arr of
       Some bs \<Rightarrow>
         if index < length bs then Some (ConstantExpr (ConstantExpr_alloc E (ucast (bs ! index)) 8))
         else if allowFreeValues a
         then create_Read E arr NoUpdate (ConstantExpr (ConstantExpr_alloc E (of_nat index) 32))
         else Some (ConstantExpr (ConstantExpr_alloc E 0 8))
     | None \<Rightarrow>
         if allowFreeValues a
         then create_Read E arr NoUpdate (ConstantExpr (ConstantExpr_alloc E (of_nat index) 32))
         else Some (ConstantExpr (ConstantExpr_alloc E 0 8)))"

definition AssignmentEvaluator :: "expr_env \<Rightarrow> bool \<Rightarrow> assignment \<Rightarrow> visitor" where
  "AssignmentEvaluator E hash a = \<lparr>UseVisitorHash = hash, getInitialValue = evaluate_byte E a\<rparr>"

definition evaluate :: "expr_env \<Rightarrow> bool \<Rightarrow> assignment \<Rightarrow> expr \<Rightarrow> expr may_abort" where
  "evaluate E hash a e = map_option fst (visit E (AssignmentEvaluator E hash a) Map.empty e)"

definition Expr_isTrue :: "expr_env \<Rightarrow> expr \<Rightarrow> bool may_abort" where
  "Expr_isTrue E e = do {
     assert_that (getWidth e = 1);
     case dyn_const e of Some ce \<Rightarrow> isTrue E ce | None \<Rightarrow> Some False }"

fun satisfies_loop :: "expr_env \<Rightarrow> visitor \<Rightarrow> visited_ty \<Rightarrow> expr list \<Rightarrow> bool may_abort" where
  "satisfies_loop E V vis [] = Some True"
| "satisfies_loop E V vis (e # es) = do {
     (r, vis) \<leftarrow> visit E V vis e;
     t \<leftarrow> Expr_isTrue E r;
     if t then satisfies_loop E V vis es else Some False }"

definition satisfies :: "expr_env \<Rightarrow> bool \<Rightarrow> assignment \<Rightarrow> expr list \<Rightarrow> bool may_abort" where
  "satisfies E hash a es = satisfies_loop E (AssignmentEvaluator E hash a) Map.empty es"

subsection \<open>Soundness\<close>

text \<open>
  A complete evaluation (the flag \<open>F\<close> below) has constants for all bytes. It turns every expression
  into a constant that has no \<^verbatim>\<open>NotOptimized\<close>, which the constructors leave alone.
\<close>

fun optimizable :: "expr \<Rightarrow> bool" and optimizable_updates :: "update_node \<Rightarrow> bool" where
  "optimizable (ConstantExpr a) = True"
| "optimizable (NotOptimizedExpr e) = False"
| "optimizable (ReadExpr a us i) = (optimizable i \<and> optimizable_updates us)"
| "optimizable (SelectExpr c t f) = (optimizable c \<and> optimizable t \<and> optimizable f)"
| "optimizable (ConcatExpr l r) = (optimizable l \<and> optimizable r)"
| "optimizable (ExtractExpr e off w) = optimizable e"
| "optimizable (ZExtExpr e w) = optimizable e"
| "optimizable (SExtExpr e w) = optimizable e"
| "optimizable (NotExpr e) = optimizable e"
| "optimizable (BinaryExpr k l r) = (optimizable l \<and> optimizable r)"
| "optimizable (CmpExpr k l r) = (optimizable l \<and> optimizable r)"
| "optimizable_updates NoUpdate = True"
| "optimizable_updates (UpdateNode x v n) = (optimizable x \<and> optimizable v \<and> optimizable_updates n)"

lemma isConstant_iff: "isConstant e \<longleftrightarrow> (\<exists>a. e = ConstantExpr a)"
  by (cases e) auto

lemma const_dyn [simp]: "isConstant e \<Longrightarrow> \<exists>a. dyn_const e = Some a"
  by (cases e) auto

lemma create_bin_const:
  "isConstant l \<Longrightarrow> isConstant r \<Longrightarrow> create_bin E k l r = Some x \<Longrightarrow> isConstant x"
  by (cases k) (auto simp: isConstant_iff create_And_def create_Or_def create_Xor_def create_Mul_def BCREATE_R_def
      create_UDiv_def create_SDiv_def create_URem_def create_SRem_def create_Shl_def create_LShr_def create_AShr_def
      BCREATE_def create_Add.simps create_Sub.simps create_const_l_def)

lemma create_cmp_const:
  "isConstant l \<Longrightarrow> isConstant r \<Longrightarrow> create_cmp E k l r = Some x \<Longrightarrow> isConstant x"
  by (cases k) (auto simp: isConstant_iff create_Eq_def create_Ne_def CMPCREATE_T_def CMPCREATE_def create_Ult_def
      create_Ule_def create_Slt_def create_Sle_def create_Ugt_def create_Uge_def create_Sgt_def create_Sge_def bind_eq_Some_conv)

lemma rebuild_const:
  assumes "list_all isConstant kids" "length kids = length (get_kids e)" "\<And>x. e \<noteq> NotOptimizedExpr x"
    "\<And>a us i. e \<noteq> ReadExpr a us i" "rebuild E e kids = Some x"
  shows "isConstant x"
proof (cases e)
  case (SelectExpr c t f)
  then show ?thesis
    using assms by (auto simp: rebuild_def isConstant_iff create_Select_def bind_eq_Some_conv length_Suc_conv
        numeral_2_eq_2 One_nat_def split: if_splits)
next
  case (ExtractExpr y off w)
  then show ?thesis
    using assms by (auto simp: rebuild_def isConstant_iff length_Suc_conv ExtractExpr_create.simps One_nat_def split: if_splits)
next
  case (ZExtExpr y w)
  then show ?thesis
    using assms by (auto simp: rebuild_def isConstant_iff length_Suc_conv create_ZExt_def ZExtExpr_widen_def
        ExtractExpr_create.simps One_nat_def split: if_splits)
next
  case (SExtExpr y w)
  then show ?thesis
    using assms by (auto simp: rebuild_def isConstant_iff length_Suc_conv create_SExt_def
        ExtractExpr_create.simps One_nat_def split: if_splits)
next
  case (NotExpr y)
  then show ?thesis
    using assms by (auto simp: rebuild_def isConstant_iff length_Suc_conv NotExpr_create_def One_nat_def)
next
  case (ConcatExpr l r)
  then show ?thesis
    using assms by (auto simp: rebuild_def isConstant_iff length_Suc_conv create_Concat_def One_nat_def)
next
  case (BinaryExpr k l r)
  then show ?thesis
    using assms create_bin_const [of "kids ! 0" "kids ! 1" E k x] by (auto simp: rebuild_def length_Suc_conv One_nat_def)
next
  case (CmpExpr k l r)
  then show ?thesis
    using assms create_cmp_const [of "kids ! 0" "kids ! 1" E k x] by (auto simp: rebuild_def length_Suc_conv One_nat_def)
qed (use assms in \<open>auto simp: rebuild_def\<close>)

text \<open>The evaluator works on expressions of at most 64 bits without divisions by zero.\<close>

fun evaluable :: "contents \<Rightarrow> expr \<Rightarrow> bool" and evaluable_updates :: "contents \<Rightarrow> update_node \<Rightarrow> bool" where
  "evaluable \<alpha> (ConstantExpr a) = (ap_width a \<le> 64)"
| "evaluable \<alpha> (NotOptimizedExpr e) = evaluable \<alpha> e"
| "evaluable \<alpha> (ReadExpr a us i) = (evaluable \<alpha> i \<and> evaluable_updates \<alpha> us)"
| "evaluable \<alpha> (SelectExpr c t f) = (evaluable \<alpha> c \<and> evaluable \<alpha> t \<and> evaluable \<alpha> f)"
| "evaluable \<alpha> (ConcatExpr l r) = (evaluable \<alpha> l \<and> evaluable \<alpha> r \<and> getWidth l + getWidth r \<le> 64)"
| "evaluable \<alpha> (ExtractExpr e off w) = (evaluable \<alpha> e \<and> w \<le> 64)"
| "evaluable \<alpha> (ZExtExpr e w) = (evaluable \<alpha> e \<and> w \<le> 64)"
| "evaluable \<alpha> (SExtExpr e w) = (evaluable \<alpha> e \<and> w \<le> 64)"
| "evaluable \<alpha> (NotExpr e) = evaluable \<alpha> e"
| "evaluable \<alpha> (BinaryExpr k l r) = (evaluable \<alpha> l \<and> evaluable \<alpha> r \<and> (is_div k \<longrightarrow> eval \<alpha> r \<noteq> 0))"
| "evaluable \<alpha> (CmpExpr k l r) = (evaluable \<alpha> l \<and> evaluable \<alpha> r)"
| "evaluable_updates \<alpha> NoUpdate = True"
| "evaluable_updates \<alpha> (UpdateNode x v n) = (evaluable \<alpha> x \<and> evaluable \<alpha> v \<and> evaluable_updates \<alpha> n)"

lemma evaluable_width: "evaluable \<alpha> e \<Longrightarrow> getWidth e \<le> 64"
  by (induction e rule: getWidth.induct) auto

definition fine :: "expr_env \<Rightarrow> contents \<Rightarrow> expr \<Rightarrow> bool" where
  "fine E \<alpha> e \<longleftrightarrow> expr_ok E \<alpha> e \<and> evaluable \<alpha> e"

definition same :: "bool \<Rightarrow> expr_env \<Rightarrow> contents \<Rightarrow> expr \<Rightarrow> expr \<Rightarrow> bool" where
  "same F E \<alpha> e r \<longleftrightarrow> expr_ok E \<alpha> r \<and> getWidth r = getWidth e \<and> eval \<alpha> r = eval \<alpha> e
    \<and> (F \<and> optimizable e \<longrightarrow> isConstant r)"

definition cache_ok :: "bool \<Rightarrow> expr_env \<Rightarrow> contents \<Rightarrow> visited_ty \<Rightarrow> bool" where
  "cache_ok F E \<alpha> vis \<longleftrightarrow> (\<forall>e r. vis e = Some r \<longrightarrow> fine E \<alpha> e \<longrightarrow> same F E \<alpha> e r)"

text \<open>What an evaluator promises about the bytes of the arrays it is asked for.\<close>

definition init_ok :: "bool \<Rightarrow> expr_env \<Rightarrow> contents \<Rightarrow> visitor \<Rightarrow> bool" where
  "init_ok F E \<alpha> V \<longleftrightarrow> (\<forall>arr i. wf_array arr \<longrightarrow> i < 2 ^ 32 \<longrightarrow> \<not> (isConstantArray arr \<and> (ConstArrayOpt E \<or> i < arr_size arr)) \<longrightarrow>
    creates E \<alpha> 8 (\<alpha> arr i) (getInitialValue V arr i)
      \<and> (F \<longrightarrow> (\<forall>v. getInitialValue V arr i = Some v \<longrightarrow> isConstant v)))"

lemma cache_ok_insert: "cache_ok F E \<alpha> vis \<Longrightarrow> fine E \<alpha> e \<longrightarrow> same F E \<alpha> e r \<Longrightarrow> cache_ok F E \<alpha> (visited_insert e r vis)"
  by (auto simp: cache_ok_def visited_insert_def)

lemma fine_kids: "fine E \<alpha> e \<Longrightarrow> list_all (fine E \<alpha>) (get_kids e)"
  by (cases e) (auto simp: fine_def)

lemma rebuild_creates:
  assumes "apint_laws E" "bytes \<alpha>" "fine E \<alpha> e" "\<not> isConstant e" "list_all2 (same F E \<alpha>) (get_kids e) kids"
  shows "creates E \<alpha> (getWidth e) (eval \<alpha> e) (rebuild E e kids)"
proof -
  note laws = apint_laws.create_bin_ok [OF assms(1,2)] apint_laws.create_cmp_ok [OF assms(1,2)]
    apint_laws.create_Read_ok [OF assms(1,2)] apint_laws.create_Select_ok [OF assms(1,2)]
    apint_laws.create_Concat_ok [OF assms(1,2)] apint_laws.ExtractExpr_create_creates [OF assms(1,2)]
    apint_laws.create_ZExt_ok [OF assms(1,2)] apint_laws.create_SExt_ok [OF assms(1,2)]
    apint_laws.NotExpr_create_ok [OF assms(1)]
  show ?thesis
  proof (cases e)
    case (ConstantExpr a)
    then show ?thesis using assms(4) by simp
  next
    case (NotOptimizedExpr x)
    then show ?thesis
      using assms(5) by (auto simp: rebuild_def NotOptimizedExpr_create_def same_def list_all2_Cons1)
  next
    case (ReadExpr a us i)
    then obtain z where "kids = [z]" "same F E \<alpha> i z" using assms(5) by (auto simp: list_all2_Cons1)
    then show ?thesis
      using ReadExpr assms(3) laws(3) [of a us z] by (simp add: rebuild_def same_def fine_def)
  next
    case (SelectExpr c t f)
    then show ?thesis
      using assms(3,5) laws(4) [of "kids ! 0" "kids ! 1" "kids ! 2" "getWidth e"]
      by (auto simp: rebuild_def same_def list_all2_Cons1 fine_def numeral_2_eq_2 One_nat_def)
  next
    case (ConcatExpr l r)
    then show ?thesis
      using assms(3,5) laws(5) [of "kids ! 0" "kids ! 1"]
      by (auto simp: rebuild_def same_def list_all2_Cons1 fine_def One_nat_def)
  next
    case (ExtractExpr x off w)
    then show ?thesis
      using assms(3,5) laws(6) [of "kids ! 0" w off] by (auto simp: rebuild_def same_def list_all2_Cons1 fine_def)
  next
    case (ZExtExpr x w)
    moreover have "eval \<alpha> x mod 2 ^ w = eval \<alpha> x" if "expr_ok E \<alpha> x" "getWidth x \<le> w"
      using that eval_bounds [OF assms(2) that(1)] less_pow2_mono [of "eval \<alpha> x" "getWidth x" w] by simp
    ultimately show ?thesis
      using assms(3,5) laws(7) [of "kids ! 0" w] by (auto simp: rebuild_def same_def list_all2_Cons1 fine_def)
  next
    case (SExtExpr x w)
    then show ?thesis
      using assms(3,5) laws(8) [of "kids ! 0" w] by (auto simp: rebuild_def same_def list_all2_Cons1 fine_def)
  next
    case (NotExpr x)
    then show ?thesis
      using assms(3,5) laws(9) [of \<alpha> "kids ! 0"] by (auto simp: rebuild_def same_def list_all2_Cons1 fine_def)
  next
    case (BinaryExpr k l r)
    then show ?thesis
      using assms(3,5) laws(1) [of "kids ! 0" "kids ! 1" "getWidth e" k] evaluable_width [of \<alpha> l]
      by (auto simp: rebuild_def same_def list_all2_Cons1 fine_def One_nat_def)
  next
    case (CmpExpr k l r)
    then show ?thesis
      using assms(3,5) laws(2) [of "kids ! 0" "kids ! 1" "getWidth l" k] evaluable_width [of \<alpha> l]
      by (auto simp: rebuild_def same_def list_all2_Cons1 fine_def One_nat_def)
  qed
qed

lemma kids_const:
  assumes "F" "optimizable e" "list_all2 (same F E \<alpha>) (get_kids e) kids"
  shows "list_all isConstant kids"
proof -
  have "list_all optimizable (get_kids e)" using assms(2) by (cases e) auto
  then show ?thesis
    using assms(1,3) by (auto simp: list_all2_conv_all_nth list_all_length same_def)
qed

lemma rebuild_ok:
  assumes "apint_laws E" "bytes \<alpha>" "fine E \<alpha> e" "\<not> isConstant e" "list_all2 (same F E \<alpha>) (get_kids e) kids"
    and "\<And>a us i. F \<Longrightarrow> optimizable e \<Longrightarrow> e \<noteq> ReadExpr a us i"
  shows "\<exists>e'. rebuild E e kids = Some e' \<and> same F E \<alpha> e e'"
proof -
  obtain x where x: "rebuild E e kids = Some x" "expr_ok E \<alpha> x" "getWidth x = getWidth e" "eval \<alpha> x = eval \<alpha> e"
    using rebuild_creates [OF assms(1-5)] by (auto simp: creates_def)
  moreover have "isConstant x" if "F" "optimizable e"
  proof (rule rebuild_const [OF kids_const [OF that assms(5)] _ _ assms(6) [OF that] x(1)])
    show "e \<noteq> NotOptimizedExpr y" for y using that(2) by auto
  qed (use list_all2_lengthD [OF assms(5)] in simp)
  ultimately show ?thesis by (simp add: same_def)
qed

lemma rebuild_changed_ok:
  assumes "apint_laws E" "bytes \<alpha>" "fine E \<alpha> e" "\<not> list_all isConstant (get_kids e)" "list_all2 (same F E \<alpha>) (get_kids e) kids"
    and "\<And>a us i. F \<Longrightarrow> optimizable e \<Longrightarrow> e \<noteq> ReadExpr a us i"
  shows "\<exists>e'. rebuild_changed E e kids = Some e' \<and> same F E \<alpha> e e'"
proof (cases "kids = get_kids e")
  case True
  then show ?thesis
    using assms(3,4) kids_const [OF _ _ assms(5)] by (auto simp: rebuild_changed_def same_def fine_def)
next
  case False
  have "\<not> isConstant e" using assms(4) by (cases e) auto
  from rebuild_ok [OF assms(1-3) this assms(5,6)] False show ?thesis by (simp add: rebuild_changed_def)
qed

lemma protectedDivOperation_ok:
  assumes "apint_laws E" "bytes \<alpha>" "fine E \<alpha> e" "\<not> list_all isConstant (get_kids e)" "isa_division e"
    "list_all2 (same F E \<alpha>) (get_kids e) kids"
  shows "\<exists>e'. protectedDivOperation E e kids = Some e' \<and> same F E \<alpha> e e'"
proof -
  obtain k l r where e: "e = BinaryExpr k l r" "is_div k" using assms(5) by (cases e) (auto simp: is_div_def)
  then obtain l' r' where kids: "kids = [l', r']" "same F E \<alpha> r r'"
    using assms(6) by (auto simp: list_all2_Cons1)
  have r: "eval \<alpha> r' \<noteq> 0" "wf_ap ce \<and> ap_width ce \<le> 64" if "r' = ConstantExpr ce" for ce
    using assms(3) kids(2) e that evaluable_width [of \<alpha> r] by (auto simp: same_def fine_def)
  have "(case dyn_const (kids ! 1) of Some ce \<Rightarrow> isZero E ce | None \<Rightarrow> Some False) = Some False"
    using r kids(1) apint_laws.isZero_eq [OF assms(1)]
    by (auto simp: dyn_const_Some One_nat_def split: option.split)
  then show ?thesis
    using rebuild_changed_ok [OF assms(1-4,6)] e by (simp add: protectedDivOperation_def)
qed

lemma getZExtValue_index:
  assumes "apint_laws E" "wf_ap ce" "ap_width ce = 32"
  shows "getZExtValue E 64 ce = Some (word_of_int (ap_val ce))"
    and "unat (word_of_int (ap_val ce) :: uint64_t) = nat (ap_val ce)" "nat (ap_val ce) < 2 ^ 32"
  using apint_laws.getZExtValue_eq [OF assms(1,2), of 64] assms(2,3) wf_ap_64 [OF assms(2)]
  by (auto simp: wf_ap_def unat_eq_nat_uint uint_word_of_int nat_less_iff)

lemma visit_ok:
  shows "apint_laws E \<Longrightarrow> bytes \<alpha> \<Longrightarrow> init_ok F E \<alpha> V \<Longrightarrow> cache_ok F E \<alpha> vis \<Longrightarrow> fine E \<alpha> e \<Longrightarrow>
      \<exists>r vis'. visit E V vis e = Some (r, vis') \<and> same F E \<alpha> e r \<and> cache_ok F E \<alpha> vis'"
    and "apint_laws E \<Longrightarrow> bytes \<alpha> \<Longrightarrow> init_ok F E \<alpha> V \<Longrightarrow> cache_ok F E \<alpha> vis \<Longrightarrow> fine E \<alpha> e \<Longrightarrow>
      \<exists>r vis'. visitActual E V vis e = Some (r, vis') \<and> same F E \<alpha> e r \<and> cache_ok F E \<alpha> vis'"
    and "apint_laws E \<Longrightarrow> bytes \<alpha> \<Longrightarrow> init_ok F E \<alpha> V \<Longrightarrow> cache_ok F E \<alpha> vis \<Longrightarrow> list_all (fine E \<alpha>) ks \<Longrightarrow>
      \<exists>rs vis'. visit_kids E V vis ks = Some (rs, vis') \<and> list_all2 (same F E \<alpha>) ks rs \<and> cache_ok F E \<alpha> vis'"
    and "apint_laws E \<Longrightarrow> bytes \<alpha> \<Longrightarrow> init_ok F E \<alpha> V \<Longrightarrow> cache_ok F E \<alpha> vis \<Longrightarrow> wf_array root \<Longrightarrow> index < 2 ^ 32 \<Longrightarrow>
      (ConstArrayOpt E \<and> isConstantArray root \<longrightarrow> index < arr_size root) \<Longrightarrow>
      updates_ok E \<alpha> us \<Longrightarrow> evaluable_updates \<alpha> us \<Longrightarrow>
      \<exists>r vis'. evalRead E V vis root index us = Some (r, vis') \<and> cache_ok F E \<alpha> vis' \<and> expr_ok E \<alpha> r \<and> getWidth r = 8
        \<and> eval \<alpha> r = eval_updates \<alpha> us (int index) (initial_value \<alpha> root (int index))
        \<and> (F \<and> optimizable_updates us \<longrightarrow> isConstant r)"
proof (induction E V vis e and E V vis e and E V vis ks and E V vis root index us
    rule: visit_visitActual_visit_kids_evalRead.induct)
  case (1 E V vis e)
  show ?case
  proof (cases "\<not> UseVisitorHash V \<or> isConstant e \<or> vis e = None")
    case True
    then obtain r vis' where "visitActual E V vis e = Some (r, vis')" "same F E \<alpha> e r" "cache_ok F E \<alpha> vis'"
      using 1 by (cases "\<not> UseVisitorHash V \<or> isConstant e") auto
    with True show ?thesis
      by (subst visit.simps) (auto intro: cache_ok_insert split: option.split)
  next
    case False
    then show ?thesis using 1(6,7) by (subst visit.simps) (auto simp: cache_ok_def)
  qed
next
  case (2 E V vis e)
  note H = 2(1-12) and P = 2(13-17)
  note unf = visitActual.simps [of E V vis e]
  have kids_ok: "\<exists>r vis'. (visit_kids E V vis1 (get_kids e) \<bind> (\<lambda>(kids, vis).
        f kids \<bind> (\<lambda>r. Some (r, vis)))) = Some (r, vis') \<and> same F E \<alpha> e r \<and> cache_ok F E \<alpha> vis'"
    if ih: "\<exists>rs vis'. visit_kids E V vis1 (get_kids e) = Some (rs, vis') \<and> list_all2 (same F E \<alpha>) (get_kids e) rs \<and> cache_ok F E \<alpha> vis'"
      and f: "\<And>kids. list_all2 (same F E \<alpha>) (get_kids e) kids \<Longrightarrow> \<exists>e'. f kids = Some e' \<and> same F E \<alpha> e e'" for vis1 f
    using ih f by force
  show ?case
  proof (cases "isConstant e")
    case True
    then show ?thesis using P(4,5) by (subst unf) (cases e; auto simp: same_def fine_def)
  next
    case nc: False
    show ?thesis
    proof (cases "\<exists>root us i. e = ReadExpr root us i")
      case True
      then obtain root us i where e: "e = ReadExpr root us i" by blast
      then have i: "fine E \<alpha> i" "getWidth i = 32" "wf_array root" "updates_ok E \<alpha> us" "evaluable_updates \<alpha> us"
        "ConstArrayOpt E \<and> isConstantArray root \<longrightarrow> eval \<alpha> i < int (arr_size root)"
        using P(5) by (auto simp: fine_def)
      obtain v vis1 where v: "visit E V vis i = Some (v, vis1)" "same F E \<alpha> i v" "cache_ok F E \<alpha> vis1"
        using H(2) [OF e P(1-4) i(1)] by blast
      show ?thesis
      proof (cases "dyn_const v")
        case (Some ce)
        then have ce: "wf_ap ce" "ap_width ce = 32" "ap_val ce = eval \<alpha> i"
          using v(2) i(2) by (auto simp: dyn_const_Some same_def)
        note z = getZExtValue_index [OF P(1) ce(1,2)]
        have ix: "unat (word_of_int (ap_val ce) :: uint64_t) mod 2 ^ 32 = nat (eval \<alpha> i)" "0 \<le> eval \<alpha> i"
          using z(2,3) ce by (simp_all add: wf_ap_def)
        have "nat (eval \<alpha> i) < arr_size root" if "ConstArrayOpt E \<and> isConstantArray root"
          using i(6) that ix(2) by (simp add: nat_less_iff)
        then obtain r vis2 where "evalRead E V vis1 root (nat (eval \<alpha> i)) us = Some (r, vis2)" "cache_ok F E \<alpha> vis2"
          "expr_ok E \<alpha> r" "getWidth r = 8"
          "eval \<alpha> r = eval_updates \<alpha> us (eval \<alpha> i) (initial_value \<alpha> root (eval \<alpha> i))"
          "F \<and> optimizable_updates us \<longrightarrow> isConstant r"
          using H(4) [OF e v(1) refl Some z(1) P(1-3) v(3) i(3) _ _ i(4,5)] z(3) ce(3) ix by auto
        then show ?thesis
          using v(1) Some z(1) ix(1) by (subst unf) (auto simp: e same_def)
      next
        case None
        have "\<exists>rs vis'. visit_kids E V vis1 (get_kids e) = Some (rs, vis') \<and> list_all2 (same F E \<alpha>) (get_kids e) rs \<and> cache_ok F E \<alpha> vis'"
          using H(3) [OF e v(1) refl None P(1-3) v(3)] i(1) e by simp
        moreover have nopt: "\<not> (F \<and> optimizable e)" using v(2) None e by (cases v) (auto simp: same_def)
        moreover have "\<not> isConstant i" using v None
          by (cases i) (auto simp: visit.simps [of E V vis] visitActual.simps [of E V vis])
        ultimately show ?thesis
          using v(1) None kids_ok [OF _ rebuild_changed_ok [OF P(1,2,5)], of vis1] by (subst unf) (auto simp: e)
      qed
    next
      case nr: False
      show ?thesis
      proof (cases "list_all isConstant (get_kids e)")
        case True
        then have "list_all2 (same F E \<alpha>) (get_kids e) (get_kids e)"
          using fine_kids [OF P(5)] by (auto simp: list_all2_same list_all_iff same_def fine_def)
        from rebuild_ok [OF P(1,2,5) nc this] nr show ?thesis
          using True nc nr P(4) by (subst unf) (cases e; auto)
      next
        case False
        have "\<exists>rs vis'. visit_kids E V vis (get_kids e) = Some (rs, vis') \<and> list_all2 (same F E \<alpha>) (get_kids e) rs \<and> cache_ok F E \<alpha> vis'"
          using H(1,5-) [OF _ False P(1-4) fine_kids [OF P(5)]] nc nr by (cases e) auto
        note ih = this
        have eq: "visitActual E V vis e = visit_kids E V vis (get_kids e) \<bind> (\<lambda>(kids, vis).
            (if isa_division e then protectedDivOperation E e kids else rebuild_changed E e kids) \<bind> (\<lambda>r. Some (r, vis)))"
          using False nc nr by (subst unf) (cases e; auto simp del: visit_kids.simps)
        show ?thesis
          unfolding eq
          by (rule kids_ok [OF ih]) (use nr rebuild_changed_ok [OF P(1,2,5) False] protectedDivOperation_ok [OF P(1,2,5) False] in auto)
      qed
    qed
  qed
next
  case (3 E V vis)
  then show ?case by simp
next
  case (4 E V vis k ks)
  then obtain k' vis1 where k: "visit E V vis k = Some (k', vis1)" "same F E \<alpha> k k'" "cache_ok F E \<alpha> vis1" by auto
  then obtain ks' vis2 where "visit_kids E V vis1 ks = Some (ks', vis2)" "list_all2 (same F E \<alpha>) ks ks'" "cache_ok F E \<alpha> vis2"
    using 4(2) [OF k(1) refl] 4(3-5,7) by auto
  with k show ?case by simp
next
  case (5 E V vis root index)
  show ?case
  proof (cases "isConstantArray root \<and> index < arr_size root")
    case True
    then have "constantValues root ! index \<in> set (constantValues root)" "index < length (constantValues root)"
      using 5(5) by (auto simp: wf_array_def)
    with True 5(4,5) show ?thesis by (auto simp: initial_value_def wf_array_def nth_opt_in)
  next
    case False
    then have "creates E \<alpha> 8 (\<alpha> root index) (getInitialValue V root index)"
      "F \<longrightarrow> (\<forall>v. getInitialValue V root index = Some v \<longrightarrow> isConstant v)"
      using 5 by (auto simp: init_ok_def)
    with False 5(4) show ?thesis by (auto simp: creates_def initial_value_def)
  qed
next
  case (6 E V vis root index ui uv n)
  have u: "fine E \<alpha> ui" "fine E \<alpha> uv" "getWidth ui = 32" "getWidth uv = 8" "updates_ok E \<alpha> n" "evaluable_updates \<alpha> n"
    using 6(11,12) by (auto simp: fine_def)
  obtain ui' vis1 where ui: "visit E V vis ui = Some (ui', vis1)" "same F E \<alpha> ui ui'" "cache_ok F E \<alpha> vis1"
    using 6(1) [OF 6(4-7) u(1)] by blast
  show ?case
  proof (cases "dyn_const ui'")
    case (Some ce)
    then have ce: "ui' = ConstantExpr ce" "wf_ap ce" "ap_width ce = 32" "ap_val ce = eval \<alpha> ui"
      using ui(2) u(3) by (auto simp: dyn_const_Some same_def)
    note z = getZExtValue_index [OF 6(4) ce(2,3)]
    have eq: "nat (ap_val ce) = index \<longleftrightarrow> eval \<alpha> ui = int index"
      using ce(2,4) by (auto simp: wf_ap_def)
    show ?thesis
      using 6(2) [OF ui(1) refl Some z(1)] 6(3) [OF ui(1) refl Some z(1)] ui Some z 6(4-10) u eq
      by (auto simp: same_def)
  next
    case None
    have ix: "ConstantExpr_alloc E (of_nat index) 32 = APInt 32 (int index)"
      using apint_laws.alloc_index [OF 6(4,9)] .
    have "creates E \<alpha> 8 (eval_updates \<alpha> (UpdateNode ui uv n) (int index) (initial_value \<alpha> root (int index)))
        (create_Read E root (UpdateNode ui uv n) (ConstantExpr (APInt 32 (int index))))"
      using apint_laws.create_Read_ok [OF 6(4,5,8,11), of "ConstantExpr (APInt 32 (int index))"] 6(9,10)
      by (auto simp: wf_ap_APInt)
    moreover have "\<not> (F \<and> optimizable ui)" using ui(2) None by (cases ui') (auto simp: same_def)
    ultimately show ?thesis using ui None ix by (auto simp: creates_def)
  qed
qed

subsection \<open>Complete evaluation\<close>

text \<open>The bytes an assignment stands for.\<close>

definition assigned :: "assignment \<Rightarrow> contents" where
  "assigned a arr i =
    (case bindings a arr of Some bs \<Rightarrow> if i < length bs then uint (bs ! i) else 0 | None \<Rightarrow> 0)"

lemma bytes_assigned: "bytes (assigned a)"
  using uint_lt2p [of "_ :: uint8_t"] by (auto simp: bytes_def assigned_def split: option.split)

lemma init_ok_assigned:
  assumes "apint_laws E" "\<not> allowFreeValues a"
  shows "init_ok True E (assigned a) (AssignmentEvaluator E hash a)"
proof -
  have "ConstantExpr_alloc E (ucast b) 8 = APInt 8 (uint b)" "ConstantExpr_alloc E 0 8 = APInt 8 0" for b :: uint8_t
    using uint_lt2p [of b] apint_laws.ap_new [OF assms(1), of 8]
    by (simp_all add: ConstantExpr_alloc_def uint_up_ucast is_up)
  then show ?thesis
    using assms(2) uint_lt2p [of "_ :: uint8_t"]
    by (auto simp: init_ok_def AssignmentEvaluator_def evaluate_byte_def assigned_def wf_ap_APInt split: option.split)
qed

lemma AssignmentEvaluator_visit:
  assumes "apint_laws E" "\<not> allowFreeValues a" "fine E (assigned a) e" "optimizable e" "cache_ok True E (assigned a) vis"
  shows "\<exists>vis'. visit E (AssignmentEvaluator E hash a) vis e =
      Some (ConstantExpr (APInt (getWidth e) (eval (assigned a) e)), vis') \<and> cache_ok True E (assigned a) vis'"
proof -
  obtain r vis' where r: "visit E (AssignmentEvaluator E hash a) vis e = Some (r, vis')" "same True E (assigned a) e r"
    "cache_ok True E (assigned a) vis'"
    using visit_ok(1) [OF assms(1) bytes_assigned init_ok_assigned [OF assms(1,2)] assms(5,3)] by blast
  then obtain c where "r = ConstantExpr c" using assms(4) by (auto simp: same_def isConstant_iff)
  with r show ?thesis by (cases c) (auto simp: same_def)
qed

text \<open>
  C2: evaluation. \<^verbatim>\<open>Assignment::evaluate\<close>, with or without the table of visited expressions, ends
  with the constant that is the value of the expression for the assigned bytes, unassigned bytes
  being zero. The expression has at most 64 bits everywhere, no division by zero under the
  assignment and no \<^verbatim>\<open>NotOptimized\<close>, the assignment has no free values, and with the option
  \<^verbatim>\<open>const-array-opt\<close> reads of constant arrays are in bounds.
\<close>

theorem evaluate_correct:
  assumes "apint_laws E" "\<not> allowFreeValues a" "wf_expr e" "ConstArrayOpt E \<longrightarrow> reads_ok (assigned a) e"
    "evaluable (assigned a) e" "optimizable e"
  shows "evaluate E hash a e = Some (ConstantExpr (APInt (getWidth e) (eval (assigned a) e)))"
  using AssignmentEvaluator_visit [OF assms(1,2), of e Map.empty hash] assms(3-)
  by (auto simp: evaluate_def fine_def expr_ok_def cache_ok_def)

definition example_array :: array where
  "example_array = \<lparr>arr_address = 1, arr_name = ''a'', arr_size = 2, constantValues = []\<rparr>"

theorem evaluate_correct_witness:
  "evaluate (apint_env True) True \<lparr>allowFreeValues = False, bindings = [example_array \<mapsto> [200, 100]]\<rparr>
      (BinaryExpr Add (ReadExpr example_array NoUpdate (ConstantExpr (APInt 32 0)))
        (ReadExpr example_array NoUpdate (ConstantExpr (APInt 32 1)))) = Some (ConstantExpr (APInt 8 44))"
  using evaluate_correct [OF apint_env.apint_laws_axioms, of "\<lparr>allowFreeValues = False, bindings = [example_array \<mapsto> [200, 100]]\<rparr>"
      "BinaryExpr Add (ReadExpr example_array NoUpdate (ConstantExpr (APInt 32 0)))
        (ReadExpr example_array NoUpdate (ConstantExpr (APInt 32 1)))" True True]
  by (simp add: wf_ap_def wf_array_def isConstantArray_def isSymbolicArray_def example_array_def is_div_def
      assigned_def initial_value_def sem_bin.simps One_nat_def)

lemma satisfies_loop_ok:
  assumes "apint_laws E" "\<not> allowFreeValues a"
  shows "cache_ok True E (assigned a) vis \<Longrightarrow> list_all (\<lambda>e. fine E (assigned a) e \<and> optimizable e \<and> getWidth e = 1) es \<Longrightarrow>
    satisfies_loop E (AssignmentEvaluator E hash a) vis es = Some (\<forall>e \<in> set es. eval (assigned a) e = 1)"
proof (induction es arbitrary: vis)
  case (Cons e es)
  then have e: "fine E (assigned a) e" "optimizable e" "getWidth e = 1" by auto
  obtain vis' where vis': "visit E (AssignmentEvaluator E hash a) vis e =
      Some (ConstantExpr (APInt 1 (eval (assigned a) e)), vis')" "cache_ok True E (assigned a) vis'"
    using AssignmentEvaluator_visit [OF assms e(1,2) Cons.prems(1), of hash] e(3) by auto
  moreover have "wf_ap (APInt 1 (eval (assigned a) e))"
    using eval_bounds [OF bytes_assigned, of E a e] e by (simp add: wf_ap_APInt fine_def)
  ultimately show ?case
    using Cons apint_laws.isTrue_eq [OF assms(1)] by (auto simp: Expr_isTrue_def)
qed simp

text \<open>
  \<^verbatim>\<open>Assignment::satisfies\<close> decides exactly whether all the given constraints are true for the
  assigned bytes, although it shares one table of visited expressions between them.
\<close>

theorem satisfies_correct:
  assumes "apint_laws E" "\<not> allowFreeValues a"
    "list_all (\<lambda>e. wf_expr e \<and> getWidth e = 1 \<and> (ConstArrayOpt E \<longrightarrow> reads_ok (assigned a) e)
      \<and> evaluable (assigned a) e \<and> optimizable e) es"
  shows "satisfies E hash a es = Some (\<forall>e \<in> set es. eval (assigned a) e = 1)"
  using satisfies_loop_ok [OF assms(1,2), of Map.empty es hash] assms(3)
  by (auto simp: satisfies_def fine_def expr_ok_def cache_ok_def list_all_iff)

theorem satisfies_correct_witness:
  "satisfies (apint_env True) True \<lparr>allowFreeValues = False, bindings = [example_array \<mapsto> [200, 100]]\<rparr>
      [CmpExpr Ult (ConstantExpr (APInt 8 7)) (ReadExpr example_array NoUpdate (ConstantExpr (APInt 32 1))),
       CmpExpr Slt (ConstantExpr (APInt 8 0)) (ReadExpr example_array NoUpdate (ConstantExpr (APInt 32 0)))] = Some False"
  using satisfies_correct [OF apint_env.apint_laws_axioms, of "\<lparr>allowFreeValues = False, bindings = [example_array \<mapsto> [200, 100]]\<rparr>" True
      "[CmpExpr Ult (ConstantExpr (APInt 8 7)) (ReadExpr example_array NoUpdate (ConstantExpr (APInt 32 1))),
       CmpExpr Slt (ConstantExpr (APInt 8 0)) (ReadExpr example_array NoUpdate (ConstantExpr (APInt 32 0)))]" True]
  by (simp add: wf_ap_def wf_array_def isConstantArray_def isSymbolicArray_def example_array_def
      assigned_def initial_value_def sgn_val_def One_nat_def)

text \<open>
  C18: partial evaluation. For every source of initial bytes that agrees with the contents of the
  arrays, visiting does not abort and keeps width and value of the expression. The expression has at
  most 64 bits everywhere, no divisor in it is zero for these contents and, with the option
  \<^verbatim>\<open>const-array-opt\<close>, its reads of constant arrays are in bounds.
\<close>

theorem visit_sound:
  assumes "apint_laws E" "bytes \<alpha>" "init_ok False E \<alpha> V" "wf_expr e" "ConstArrayOpt E \<longrightarrow> reads_ok \<alpha> e" "evaluable \<alpha> e"
  shows "\<exists>r vis. visit E V Map.empty e = Some (r, vis) \<and> wf_expr r \<and> getWidth r = getWidth e \<and> eval \<alpha> r = eval \<alpha> e"
proof -
  have "cache_ok False E \<alpha> Map.empty" "fine E \<alpha> e" using assms(4-) by (simp_all add: cache_ok_def fine_def expr_ok_def)
  from visit_ok(1) [OF assms(1-3) this] show ?thesis by (auto simp: same_def expr_ok_def)
qed

theorem visit_sound_witness:
  "\<exists>r vis. visit (apint_env False) \<lparr>UseVisitorHash = True,
        getInitialValue = (\<lambda>arr i. Some (ReadExpr arr NoUpdate (ConstantExpr (APInt 32 (int i)))))\<rparr> Map.empty
      (ReadExpr example_array NoUpdate (ConstantExpr (APInt 32 1))) = Some (r, vis) \<and> wf_expr r \<and> getWidth r = 8
      \<and> eval (\<lambda>_ i. int i mod 256) r = 1"
proof -
  let ?V = "\<lparr>UseVisitorHash = True, getInitialValue = (\<lambda>arr i. Some (ReadExpr arr NoUpdate (ConstantExpr (APInt 32 (int i)))))\<rparr>"
  have "init_ok False (apint_env False) (\<lambda>_ i. int i mod 256) ?V"
    by (auto simp: init_ok_def apint_env_def wf_ap_APInt initial_value_def)
  from visit_sound [OF apint_env.apint_laws_axioms _ this, of "ReadExpr example_array NoUpdate (ConstantExpr (APInt 32 1))"]
  show ?thesis
    by (simp add: bytes_def apint_env_def wf_ap_APInt wf_array_def isConstantArray_def isSymbolicArray_def
        example_array_def initial_value_def)
qed

end
