(* ===== verification/STP_AST.thy ===== *)
theory STP_AST
  imports Expr_Sem
begin

text \<open>
  The nodes of the STP solver (\<^verbatim>\<open>stp/src/AST\<close>), their type checker \<^verbatim>\<open>BVTypeCheck\<close>
  (\<^verbatim>\<open>ASTmisc.cpp\<close>) and the evaluation of a node whose children are constants,
  \<^verbatim>\<open>NonMemberBVConstEvaluator\<close> (\<^verbatim>\<open>simplifier/consteval.cpp\<close>), which fixes the meaning of each kind
  of node. A \<^verbatim>\<open>FatalError\<close> ends the program and is \<open>None\<close>.

  A bit vector constant of width \<open>w\<close> is a number below \<open>2 ^ w\<close>; the packed representation of
  \<^verbatim>\<open>extlib-constbv\<close> is not modelled, its operations act on these numbers.
\<close>

subsection \<open>Nodes\<close>

datatype Kind =
  UNDEFINED | SYMBOL | BVCONST | BVNEG | BVCONCAT | BVOR | BVAND | BVXOR | BVNAND | BVNOR | BVXNOR
| BVEXTRACT | BVLEFTSHIFT | BVRIGHTSHIFT | BVSRSHIFT | BVVARSHIFT | BVPLUS | BVSUB | BVUMINUS
| BVMULTINVERSE | BVMULT | BVDIV | BVMOD | SBVDIV | SBVREM | SBVMOD | BVSX | BVZX | ITE | BVGETBIT
| BVLT | BVLE | BVGT | BVGE | BVSLT | BVSLE | BVSGT | BVSGE | EQ | FALSE | TRUE | NOTF | ANDF | ORF
| NAND | NOR | XORF | IFF | IMPLIES | PARAMBOOL | READ | WRITE | ARRAY | BITVECTOR | BOOLEAN

datatype node =
  BVConst nat int
| Symbol string nat nat
| Interior Kind nat nat "node list"

datatype types = BOOLEAN_TYPE | BITVECTOR_TYPE | ARRAY_TYPE | UNKNOWN_TYPE

fun GetKind :: "node \<Rightarrow> Kind" where
  "GetKind (BVConst _ _) = BVCONST"
| "GetKind (Symbol _ _ _) = SYMBOL"
| "GetKind (Interior k _ _ _) = k"

fun GetChildren :: "node \<Rightarrow> node list" where
  "GetChildren (Interior _ _ _ cs) = cs"
| "GetChildren _ = []"

fun GetIndexWidth :: "node \<Rightarrow> nat" where
  "GetIndexWidth (BVConst _ _) = 0"
| "GetIndexWidth (Symbol _ iw _) = iw"
| "GetIndexWidth (Interior _ iw _ _) = iw"

fun GetValueWidth :: "node \<Rightarrow> nat" where
  "GetValueWidth (BVConst w _) = w"
| "GetValueWidth (Symbol _ _ vw) = vw"
| "GetValueWidth (Interior _ _ vw _) = vw"

definition GetType :: "node \<Rightarrow> types" where
  "GetType n =
    (if GetIndexWidth n = 0 \<and> GetValueWidth n = 0 then BOOLEAN_TYPE
     else if GetIndexWidth n = 0 \<and> GetValueWidth n > 0 then BITVECTOR_TYPE
     else if GetIndexWidth n > 0 \<and> GetValueWidth n > 0 then ARRAY_TYPE
     else UNKNOWN_TYPE)"

definition is_Term_kind :: "Kind \<Rightarrow> bool" where
  "is_Term_kind k \<longleftrightarrow> k \<in> {SYMBOL, BVCONST, BVNEG, BVCONCAT, BVOR, BVAND, BVXOR, BVNAND, BVNOR, BVXNOR, BVEXTRACT,
     BVLEFTSHIFT, BVRIGHTSHIFT, BVSRSHIFT, BVVARSHIFT, BVPLUS, BVSUB, BVUMINUS, BVMULTINVERSE, BVMULT, BVDIV,
     BVMOD, SBVDIV, SBVREM, SBVMOD, BVSX, BVZX, ITE, READ, WRITE}"

definition is_Form_kind :: "Kind \<Rightarrow> bool" where
  "is_Form_kind k \<longleftrightarrow> k \<in> {SYMBOL, ITE, BVGETBIT, BVLT, BVLE, BVGT, BVGE, BVSLT, BVSLE, BVSGT, BVSGE, EQ, FALSE, TRUE,
     NOTF, ANDF, ORF, NAND, NOR, XORF, IFF, IMPLIES, PARAMBOOL}"

subsection \<open>The type checker\<close>

definition checkChildrenAreBV :: "node list \<Rightarrow> bool" where
  "checkChildrenAreBV v = list_all (\<lambda>c. GetType c = BITVECTOR_TYPE) v"

text \<open>The operands of the bitwise and arithmetic terms.\<close>

definition check_arith :: "node \<Rightarrow> bool" where
  "check_arith n = (length (GetChildren n) \<ge> 2 \<and>
     list_all (\<lambda>c. GetValueWidth n = GetValueWidth c \<and> GetType c = BITVECTOR_TYPE) (GetChildren n))"

definition check_term :: "node \<Rightarrow> bool" where
  "check_term n =
    (case GetKind n of
       BVCONST \<Rightarrow> GetType n = BITVECTOR_TYPE
     | SYMBOL \<Rightarrow> True
     | ITE \<Rightarrow> (case GetChildren n of
         [a, b, c] \<Rightarrow> GetType a = BOOLEAN_TYPE \<and> GetType b = GetType c \<and> GetValueWidth b = GetValueWidth c
           \<and> GetIndexWidth b = GetIndexWidth c
       | _ \<Rightarrow> False)
     | READ \<Rightarrow> (case GetChildren n of
         [a, i] \<Rightarrow> GetIndexWidth a = GetValueWidth i \<and> GetType a = ARRAY_TYPE \<and> GetType i = BITVECTOR_TYPE
       | _ \<Rightarrow> False)
     | WRITE \<Rightarrow> (case GetChildren n of
         [a, i, v] \<Rightarrow> GetIndexWidth a = GetValueWidth i \<and> GetValueWidth a = GetValueWidth v \<and> GetType a = ARRAY_TYPE
           \<and> GetType i = BITVECTOR_TYPE \<and> GetType v = BITVECTOR_TYPE
       | _ \<Rightarrow> False)
     | BVSX \<Rightarrow> (case GetChildren n of [a, b] \<Rightarrow> GetValueWidth a \<le> GetValueWidth n | _ \<Rightarrow> False)
     | BVZX \<Rightarrow> (case GetChildren n of [a, b] \<Rightarrow> GetValueWidth a \<le> GetValueWidth n | _ \<Rightarrow> False)
     | BVCONCAT \<Rightarrow> checkChildrenAreBV (GetChildren n) \<and> (case GetChildren n of
         [a, b] \<Rightarrow> GetValueWidth n = GetValueWidth a + GetValueWidth b
       | _ \<Rightarrow> False)
     | BVUMINUS \<Rightarrow> checkChildrenAreBV (GetChildren n) \<and> length (GetChildren n) = 1
     | BVNEG \<Rightarrow> checkChildrenAreBV (GetChildren n) \<and> length (GetChildren n) = 1
     | BVEXTRACT \<Rightarrow> checkChildrenAreBV (GetChildren n) \<and> (case GetChildren n of
         [a, BVConst w1 hi, BVConst w2 low] \<Rightarrow>
           hi < 2 ^ 32 \<and> low < 2 ^ 32 \<and> int (GetValueWidth n) = (hi - low + 1) mod 2 ^ 32 \<and> hi < int (GetValueWidth a)
       | _ \<Rightarrow> False)
     | k \<Rightarrow>
         if k \<in> {BVDIV, BVMOD, BVSUB, SBVDIV, SBVREM, SBVMOD, BVLEFTSHIFT, BVRIGHTSHIFT, BVSRSHIFT, BVVARSHIFT}
         then length (GetChildren n) = 2 \<and> check_arith n
         else k \<in> {BVOR, BVAND, BVXOR, BVNOR, BVNAND, BVXNOR, BVPLUS, BVMULT} \<and> check_arith n)"

definition check_form :: "node \<Rightarrow> bool" where
  "check_form n =
    (case GetKind n of
       TRUE \<Rightarrow> True
     | FALSE \<Rightarrow> True
     | SYMBOL \<Rightarrow> True
     | EQ \<Rightarrow> (case GetChildren n of
         [a, b] \<Rightarrow> GetValueWidth a = GetValueWidth b \<and> GetIndexWidth a = GetIndexWidth b
       | _ \<Rightarrow> False)
     | PARAMBOOL \<Rightarrow> length (GetChildren n) = 2
     | NOTF \<Rightarrow> length (GetChildren n) = 1
     | IFF \<Rightarrow> length (GetChildren n) = 2
     | IMPLIES \<Rightarrow> length (GetChildren n) = 2
     | ITE \<Rightarrow> length (GetChildren n) = 3
     | k \<Rightarrow>
         if k \<in> {BVLT, BVLE, BVGT, BVGE, BVSLT, BVSLE, BVSGT, BVSGE}
         then (case GetChildren n of
             [a, b] \<Rightarrow> (GetType a = BITVECTOR_TYPE \<or> GetType b = BITVECTOR_TYPE)
               \<and> GetValueWidth a = GetValueWidth b \<and> GetIndexWidth a = GetIndexWidth b
           | _ \<Rightarrow> False)
         else k \<in> {ANDF, ORF, XORF, NAND, NOR} \<and> length (GetChildren n) \<ge> 2)"

definition BVTypeCheck :: "node \<Rightarrow> bool" where
  "BVTypeCheck n =
    (if is_Term_kind (GetKind n) then check_term n
     else is_Form_kind (GetKind n) \<and> GetType n = BOOLEAN_TYPE \<and> check_form n)"

subsection \<open>Bit vector numbers\<close>

definition BitVector_Negate :: "nat \<Rightarrow> int \<Rightarrow> int" where
  "BitVector_Negate w a = (- a) mod 2 ^ w"

definition BitVector_msb :: "nat \<Rightarrow> int \<Rightarrow> bool" where
  "BitVector_msb w a \<longleftrightarrow> 2 ^ (w - 1) \<le> a"

definition BitVector_Div_Pos :: "int \<Rightarrow> int \<Rightarrow> (int \<times> int) option" where
  "BitVector_Div_Pos a b = (if b = 0 then None else Some (a div b, a mod b))"

definition BitVector_Divide :: "nat \<Rightarrow> int \<Rightarrow> int \<Rightarrow> (int \<times> int) option" where
  "BitVector_Divide w x y =
    (if y = 0 then None
     else if x = 0 then Some (0, 0)
     else
       let sgn_x = BitVector_msb w x; sgn_y = BitVector_msb w y; sgn_q = (sgn_x \<noteq> sgn_y);
           a = (if sgn_x then BitVector_Negate w x else x);
           b = (if sgn_y then BitVector_Negate w y else y)
       in do {
         (q, r) \<leftarrow> BitVector_Div_Pos a b;
         Some (if sgn_q then BitVector_Negate w q else q, if sgn_x then BitVector_Negate w r else r) })"

definition BitVector_Lexicompare :: "int \<Rightarrow> int \<Rightarrow> int" where
  "BitVector_Lexicompare a b = (if a < b then - 1 else if a = b then 0 else 1)"

definition BitVector_Compare :: "nat \<Rightarrow> int \<Rightarrow> int \<Rightarrow> int" where
  "BitVector_Compare w a b =
    (if BitVector_msb w a \<noteq> BitVector_msb w b then (if BitVector_msb w a then - 1 else 1)
     else BitVector_Lexicompare a b)"

subsection \<open>The constant evaluator\<close>

datatype cval = CBool bool | CBV nat int | CArr "int \<Rightarrow> int"

definition bv_const :: "cval \<Rightarrow> int option" where
  "bv_const v = (case v of CBV _ a \<Rightarrow> Some a | _ \<Rightarrow> None)"

definition bool_const :: "cval \<Rightarrow> bool option" where
  "bool_const v = (case v of CBool b \<Rightarrow> Some b | _ \<Rightarrow> None)"

definition const_extend :: "bool \<Rightarrow> nat \<Rightarrow> cval list \<Rightarrow> cval option" where
  "const_extend sx w vs =
    (case vs of
       CBV t0_width a # _ \<Rightarrow>
         let topbit_sign = (sx \<and> BitVector_msb t0_width a)
         in Some (CBV w (if w = t0_width then a else (if topbit_sign then 2 ^ w - 2 ^ t0_width else 0) + a))
     | _ \<Rightarrow> None)"

definition const_shift :: "Kind \<Rightarrow> nat \<Rightarrow> cval list \<Rightarrow> cval option" where
  "const_shift k w vs =
    (case vs of
       [CBV _ a, CBV _ b] \<Rightarrow>
         let msb = BitVector_msb w a in
         if int w < b then Some (CBV w (if k = BVSRSHIFT \<and> msb then 2 ^ w - 1 else 0))
         else
           let shift = nat b;
               moved = (if k = BVLEFTSHIFT then a * 2 ^ shift mod 2 ^ w else a div 2 ^ shift)
           in Some (CBV w (if k = BVSRSHIFT \<and> msb then moved OR (2 ^ w - 2 ^ (w - shift)) else moved))
     | _ \<Rightarrow> None)"

definition const_nary :: "(int \<Rightarrow> int \<Rightarrow> int) \<Rightarrow> int \<Rightarrow> nat \<Rightarrow> cval list \<Rightarrow> cval option" where
  "const_nary f e w vs = do { as \<leftarrow> those (map bv_const vs); Some (CBV w (foldl (\<lambda>x a. f x a mod 2 ^ w) e as)) }"

definition const_sdiv :: "bool \<Rightarrow> Kind \<Rightarrow> nat \<Rightarrow> cval list \<Rightarrow> cval option" where
  "const_sdiv zero_returns_one k w vs =
    (case vs of
       [CBV _ a, CBV _ b] \<Rightarrow>
         if zero_returns_one \<and> b = 0
         then Some (CBV w (if k = SBVREM then a else if BitVector_msb w a then 2 ^ w - 1 else 1))
         else do { (q, r) \<leftarrow> BitVector_Divide w a b; Some (CBV w (if k = SBVDIV then q else r)) }
     | _ \<Rightarrow> None)"

definition const_smod :: "bool \<Rightarrow> nat \<Rightarrow> cval list \<Rightarrow> cval option" where
  "const_smod zero_returns_one w vs =
    (case vs of
       [CBV _ s, CBV _ t] \<Rightarrow>
         let isNegativeS = BitVector_msb w s; isNegativeT = BitVector_msb w t in
         if zero_returns_one \<and> t = 0 then Some (CBV w s)
         else if \<not> isNegativeS \<and> \<not> isNegativeT then do {
           (q, r) \<leftarrow> BitVector_Div_Pos s t;
           Some (CBV w r) }
         else if isNegativeS \<and> \<not> isNegativeT then do {
           (q, r) \<leftarrow> BitVector_Div_Pos (BitVector_Negate w s) t;
           Some (CBV w (let remb = BitVector_Negate w r in if remb = 0 then 0 else (remb + t) mod 2 ^ w)) }
         else if \<not> isNegativeS \<and> isNegativeT then do {
           (q, r) \<leftarrow> BitVector_Div_Pos s (BitVector_Negate w t);
           Some (CBV w (if r = 0 then 0 else (r + t) mod 2 ^ w)) }
         else do {
           (q, r) \<leftarrow> BitVector_Div_Pos (BitVector_Negate w s) (BitVector_Negate w t);
           Some (CBV w (BitVector_Negate w r)) }
     | _ \<Rightarrow> None)"

definition const_udiv :: "bool \<Rightarrow> Kind \<Rightarrow> nat \<Rightarrow> cval list \<Rightarrow> cval option" where
  "const_udiv zero_returns_one k w vs =
    (case vs of
       [CBV _ a, CBV _ b] \<Rightarrow>
         if zero_returns_one \<and> b = 0 then Some (CBV w (if k = BVMOD then a else 1 mod 2 ^ w))
         else do { (q, r) \<leftarrow> BitVector_Div_Pos a b; Some (CBV w (if k = BVDIV then q else r)) }
     | _ \<Rightarrow> None)"

definition const_compare :: "Kind \<Rightarrow> cval list \<Rightarrow> cval option" where
  "const_compare k vs =
    (case vs of
       [CBV w a, CBV _ b] \<Rightarrow>
         let ucomp = BitVector_Lexicompare a b; scomp = BitVector_Compare w a b in
         (case k of
            EQ \<Rightarrow> Some (CBool (a = b))
          | BVLT \<Rightarrow> Some (CBool (ucomp = - 1))
          | BVLE \<Rightarrow> Some (CBool (ucomp \<le> 0))
          | BVGT \<Rightarrow> Some (CBool (ucomp = 1))
          | BVGE \<Rightarrow> Some (CBool (ucomp \<ge> 0))
          | BVSLT \<Rightarrow> Some (CBool (scomp = - 1))
          | BVSLE \<Rightarrow> Some (CBool (scomp \<le> 0))
          | BVSGT \<Rightarrow> Some (CBool (scomp = 1))
          | BVSGE \<Rightarrow> Some (CBool (scomp \<ge> 0))
          | _ \<Rightarrow> None)
     | _ \<Rightarrow> None)"

definition const_bool :: "Kind \<Rightarrow> bool list \<Rightarrow> bool option" where
  "const_bool k bs =
    (case k of
       NOTF \<Rightarrow> (case bs of [b] \<Rightarrow> Some (\<not> b) | _ \<Rightarrow> None)
     | ORF \<Rightarrow> Some (list_ex id bs)
     | NOR \<Rightarrow> Some (\<not> list_ex id bs)
     | XORF \<Rightarrow> Some (foldl (\<noteq>) False bs)
     | ANDF \<Rightarrow> Some (list_all id bs)
     | NAND \<Rightarrow> Some (\<not> list_all id bs)
     | IFF \<Rightarrow> (case bs of [b, c] \<Rightarrow> Some (b = c) | _ \<Rightarrow> None)
     | IMPLIES \<Rightarrow> (case bs of [b, c] \<Rightarrow> Some (b \<longrightarrow> c) | _ \<Rightarrow> None)
     | _ \<Rightarrow> None)"

definition NonMemberBVConstEvaluator :: "bool \<Rightarrow> Kind \<Rightarrow> nat \<Rightarrow> cval list \<Rightarrow> cval option" where
  "NonMemberBVConstEvaluator zero_returns_one k w vs =
    (case k of
       BVNEG \<Rightarrow> (case vs of [CBV _ a] \<Rightarrow> Some (CBV w (2 ^ w - 1 - a)) | _ \<Rightarrow> None)
     | BVSX \<Rightarrow> const_extend True w vs
     | BVZX \<Rightarrow> const_extend False w vs
     | BVLEFTSHIFT \<Rightarrow> const_shift k w vs
     | BVRIGHTSHIFT \<Rightarrow> const_shift k w vs
     | BVSRSHIFT \<Rightarrow> const_shift k w vs
     | BVAND \<Rightarrow> const_nary (AND) (2 ^ w - 1) w vs
     | BVOR \<Rightarrow> const_nary (OR) 0 w vs
     | BVXOR \<Rightarrow> (case vs of [CBV _ a, CBV _ b] \<Rightarrow> Some (CBV w (a XOR b)) | _ \<Rightarrow> None)
     | BVSUB \<Rightarrow> (case vs of [CBV _ a, CBV _ b] \<Rightarrow> Some (CBV w ((a - b) mod 2 ^ w)) | _ \<Rightarrow> None)
     | BVUMINUS \<Rightarrow> (case vs of [CBV _ a] \<Rightarrow> Some (CBV w (BitVector_Negate w a)) | _ \<Rightarrow> None)
     | BVEXTRACT \<Rightarrow> (case vs of
         [CBV _ a, CBV _ hi, CBV _ low] \<Rightarrow>
           let len = nat (hi - low + 1) in Some (CBV len (a div 2 ^ nat low mod 2 ^ len))
       | _ \<Rightarrow> None)
     | BVCONCAT \<Rightarrow> (case vs of [CBV w0 a, CBV w1 b] \<Rightarrow> Some (CBV (w0 + w1) (a * 2 ^ w1 + b)) | _ \<Rightarrow> None)
     | BVMULT \<Rightarrow> const_nary (*) (1 mod 2 ^ w) w vs
     | BVPLUS \<Rightarrow> const_nary (+) 0 w vs
     | SBVDIV \<Rightarrow> const_sdiv zero_returns_one k w vs
     | SBVREM \<Rightarrow> const_sdiv zero_returns_one k w vs
     | SBVMOD \<Rightarrow> const_smod zero_returns_one w vs
     | BVDIV \<Rightarrow> const_udiv zero_returns_one k w vs
     | BVMOD \<Rightarrow> const_udiv zero_returns_one k w vs
     | ITE \<Rightarrow> (case vs of [CBool c, x, y] \<Rightarrow> Some (if c then x else y) | _ \<Rightarrow> None)
     | TRUE \<Rightarrow> Some (CBool True)
     | FALSE \<Rightarrow> Some (CBool False)
     | _ \<Rightarrow>
         if k \<in> {EQ, BVLT, BVLE, BVGT, BVGE, BVSLT, BVSLE, BVSGT, BVSGE} then const_compare k vs
         else do { bs \<leftarrow> those (map bool_const vs); b \<leftarrow> const_bool k bs; Some (CBool b) })"

text \<open>
  The value of a node, for given contents of the array variables: \<open>READ\<close> and \<open>WRITE\<close>, which the
  evaluator refuses, look up and update the contents of an array.
\<close>

fun node_eval :: "bool \<Rightarrow> (string \<Rightarrow> int \<Rightarrow> int) \<Rightarrow> node \<Rightarrow> cval option" where
  "node_eval z \<mu> (BVConst w v) = Some (CBV w v)"
| "node_eval z \<mu> (Symbol s iw vw) = Some (CArr (\<mu> s))"
| "node_eval z \<mu> (Interior k iw vw cs) = do {
    vs \<leftarrow> those (map (node_eval z \<mu>) cs);
    case (k, vs) of
      (READ, [CArr f, CBV _ i]) \<Rightarrow> Some (CBV vw (f i))
    | (WRITE, [CArr f, CBV _ i, CBV _ v]) \<Rightarrow> Some (CArr (f(i := v)))
    | _ \<Rightarrow> NonMemberBVConstEvaluator z k vw vs }"

end
