(* ===== verification/STP_Interface.thy ===== *)
theory STP_Interface
  imports STP_AST "HOL-Library.Multiset"
begin

text \<open>
  The functions of the C interface of STP (\<^verbatim>\<open>c_interface.cpp\<close>) that the expression builder calls,
  and the node factory that hashes nodes (\<^verbatim>\<open>HashingNodeFactory.cpp\<close>).

  Nodes are made by the factory in use, which may return another node of the same type and value
  in place of the requested one. It is an argument \<open>NF\<close> of every function; the locale
  \<open>node_factory\<close> states what the interface relies on, and the hashing factory is shown to have it.
\<close>

subsection \<open>Creation of nodes\<close>

type_synonym node_fact = "node \<Rightarrow> node"

definition CreateNode :: "node_fact \<Rightarrow> Kind \<Rightarrow> node list \<Rightarrow> node" where
  "CreateNode NF k cs = NF (Interior k 0 0 cs)"

definition CreateTerm :: "node_fact \<Rightarrow> Kind \<Rightarrow> nat \<Rightarrow> node list \<Rightarrow> node" where
  "CreateTerm NF k w cs = NF (Interior k 0 w cs)"

definition CreateArrayTerm :: "node_fact \<Rightarrow> Kind \<Rightarrow> nat \<Rightarrow> nat \<Rightarrow> node list \<Rightarrow> node" where
  "CreateArrayTerm NF k iw w cs = NF (Interior k iw w cs)"

definition CreateBVConst :: "nat \<Rightarrow> uint64_t \<Rightarrow> node may_abort" where
  "CreateBVConst w v = (if w > 64 \<or> w = 0 then None else Some (BVConst w (uint v mod 2 ^ w)))"

definition checked :: "node \<Rightarrow> node may_abort" where
  "checked n = do { assert_that (BVTypeCheck n); Some n }"

subsection \<open>Arrays and formulas\<close>

definition vc_readExpr :: "node_fact \<Rightarrow> node \<Rightarrow> node \<Rightarrow> node may_abort" where
  "vc_readExpr NF a i = do {
    assert_that (BVTypeCheck a); assert_that (BVTypeCheck i);
    checked (CreateTerm NF READ (GetValueWidth a) [a, i]) }"

definition vc_writeExpr :: "node_fact \<Rightarrow> node \<Rightarrow> node \<Rightarrow> node \<Rightarrow> node may_abort" where
  "vc_writeExpr NF a i v = do {
    assert_that (BVTypeCheck a); assert_that (BVTypeCheck i); assert_that (BVTypeCheck v);
    checked (CreateArrayTerm NF WRITE (GetIndexWidth a) (GetValueWidth a) [a, i, v]) }"

definition vc_eqExpr :: "node_fact \<Rightarrow> node \<Rightarrow> node \<Rightarrow> node may_abort" where
  "vc_eqExpr NF a b = do {
    assert_that (BVTypeCheck a); assert_that (BVTypeCheck b);
    Some (CreateNode NF EQ [a, b]) }"

definition vc_trueExpr :: "node_fact \<Rightarrow> node" where
  "vc_trueExpr NF = CreateNode NF TRUE []"

definition vc_falseExpr :: "node_fact \<Rightarrow> node" where
  "vc_falseExpr NF = CreateNode NF FALSE []"

definition vc_notExpr :: "node_fact \<Rightarrow> node \<Rightarrow> node may_abort" where
  "vc_notExpr NF a = checked (CreateNode NF NOTF [a])"

definition vc_andExpr :: "node_fact \<Rightarrow> node \<Rightarrow> node \<Rightarrow> node may_abort" where
  "vc_andExpr NF l r = checked (CreateNode NF ANDF [l, r])"

definition vc_orExpr :: "node_fact \<Rightarrow> node \<Rightarrow> node \<Rightarrow> node may_abort" where
  "vc_orExpr NF l r = checked (CreateNode NF ORF [l, r])"

definition vc_iteExpr :: "node_fact \<Rightarrow> node \<Rightarrow> node \<Rightarrow> node \<Rightarrow> node may_abort" where
  "vc_iteExpr NF c t e = do {
    assert_that (BVTypeCheck c); assert_that (BVTypeCheck t); assert_that (BVTypeCheck e);
    checked (if GetType t = BOOLEAN_TYPE then CreateNode NF ITE [c, t, e]
      else CreateArrayTerm NF ITE (GetIndexWidth t) (GetValueWidth t) [c, t, e]) }"

definition vc_iffExpr :: "node_fact \<Rightarrow> node \<Rightarrow> node \<Rightarrow> node may_abort" where
  "vc_iffExpr NF a b = do {
    assert_that (BVTypeCheck a); assert_that (BVTypeCheck b);
    checked (CreateNode NF IFF [a, b]) }"

subsection \<open>Bit vectors\<close>

definition vc_getBVLength :: "node \<Rightarrow> nat may_abort" where
  "vc_getBVLength n = (if GetType n \<noteq> BITVECTOR_TYPE then None else Some (GetValueWidth n))"

text \<open>The shift by \<open>64 - n_bits\<close> has no defined result for a width of 0 or beyond 64.\<close>

definition vc_bvConstExprFromInt :: "nat \<Rightarrow> uint32_t \<Rightarrow> node may_abort" where
  "vc_bvConstExprFromInt n_bits value = do {
    assert_that (0 < n_bits \<and> n_bits \<le> 64);
    let v = ucast value :: uint64_t; max_n_bits = drop_bit (64 - n_bits) 0xFFFFFFFFFFFFFFFF
    in if v > max_n_bits then None else CreateBVConst n_bits v }"

definition vc_bvConstExprFromLL :: "nat \<Rightarrow> uint64_t \<Rightarrow> node may_abort" where
  "vc_bvConstExprFromLL n_bits value = CreateBVConst n_bits value"

definition vc_bvConcatExpr :: "node_fact \<Rightarrow> node \<Rightarrow> node \<Rightarrow> node may_abort" where
  "vc_bvConcatExpr NF l r = do {
    assert_that (BVTypeCheck l); assert_that (BVTypeCheck r);
    checked (CreateTerm NF BVCONCAT (GetValueWidth l + GetValueWidth r) [l, r]) }"

definition createBinaryTerm :: "node_fact \<Rightarrow> nat \<Rightarrow> Kind \<Rightarrow> node \<Rightarrow> node \<Rightarrow> node may_abort" where
  "createBinaryTerm NF n_bits k l r = do {
    assert_that (BVTypeCheck l); assert_that (BVTypeCheck r);
    checked (CreateTerm NF k n_bits [l, r]) }"

definition vc_bvPlusExpr :: "node_fact \<Rightarrow> nat \<Rightarrow> node \<Rightarrow> node \<Rightarrow> node may_abort" where
  "vc_bvPlusExpr NF n_bits l r = createBinaryTerm NF n_bits BVPLUS l r"

definition vc_bvMinusExpr :: "node_fact \<Rightarrow> nat \<Rightarrow> node \<Rightarrow> node \<Rightarrow> node may_abort" where
  "vc_bvMinusExpr NF n_bits l r = createBinaryTerm NF n_bits BVSUB l r"

definition vc_bvMultExpr :: "node_fact \<Rightarrow> nat \<Rightarrow> node \<Rightarrow> node \<Rightarrow> node may_abort" where
  "vc_bvMultExpr NF n_bits l r = createBinaryTerm NF n_bits BVMULT l r"

definition vc_bvDivExpr :: "node_fact \<Rightarrow> nat \<Rightarrow> node \<Rightarrow> node \<Rightarrow> node may_abort" where
  "vc_bvDivExpr NF n_bits l r = createBinaryTerm NF n_bits BVDIV l r"

definition vc_bvModExpr :: "node_fact \<Rightarrow> nat \<Rightarrow> node \<Rightarrow> node \<Rightarrow> node may_abort" where
  "vc_bvModExpr NF n_bits l r = createBinaryTerm NF n_bits BVMOD l r"

definition vc_sbvDivExpr :: "node_fact \<Rightarrow> nat \<Rightarrow> node \<Rightarrow> node \<Rightarrow> node may_abort" where
  "vc_sbvDivExpr NF n_bits l r = createBinaryTerm NF n_bits SBVDIV l r"

definition vc_sbvModExpr :: "node_fact \<Rightarrow> nat \<Rightarrow> node \<Rightarrow> node \<Rightarrow> node may_abort" where
  "vc_sbvModExpr NF n_bits l r = createBinaryTerm NF n_bits SBVREM l r"

definition createBinaryNode :: "node_fact \<Rightarrow> Kind \<Rightarrow> node \<Rightarrow> node \<Rightarrow> node may_abort" where
  "createBinaryNode NF k l r = do {
    assert_that (BVTypeCheck l); assert_that (BVTypeCheck r);
    checked (CreateNode NF k [l, r]) }"

definition vc_bvLtExpr :: "node_fact \<Rightarrow> node \<Rightarrow> node \<Rightarrow> node may_abort" where
  "vc_bvLtExpr NF l r = createBinaryNode NF BVLT l r"

definition vc_bvLeExpr :: "node_fact \<Rightarrow> node \<Rightarrow> node \<Rightarrow> node may_abort" where
  "vc_bvLeExpr NF l r = createBinaryNode NF BVLE l r"

definition vc_sbvLtExpr :: "node_fact \<Rightarrow> node \<Rightarrow> node \<Rightarrow> node may_abort" where
  "vc_sbvLtExpr NF l r = createBinaryNode NF BVSLT l r"

definition vc_sbvLeExpr :: "node_fact \<Rightarrow> node \<Rightarrow> node \<Rightarrow> node may_abort" where
  "vc_sbvLeExpr NF l r = createBinaryNode NF BVSLE l r"

definition vc_bvUMinusExpr :: "node_fact \<Rightarrow> node \<Rightarrow> node may_abort" where
  "vc_bvUMinusExpr NF a = do {
    assert_that (BVTypeCheck a);
    checked (CreateTerm NF BVUMINUS (GetValueWidth a) [a]) }"

definition vc_bvAndExpr :: "node_fact \<Rightarrow> node \<Rightarrow> node \<Rightarrow> node may_abort" where
  "vc_bvAndExpr NF l r = createBinaryTerm NF (GetValueWidth l) BVAND l r"

definition vc_bvOrExpr :: "node_fact \<Rightarrow> node \<Rightarrow> node \<Rightarrow> node may_abort" where
  "vc_bvOrExpr NF l r = createBinaryTerm NF (GetValueWidth l) BVOR l r"

definition vc_bvXorExpr :: "node_fact \<Rightarrow> node \<Rightarrow> node \<Rightarrow> node may_abort" where
  "vc_bvXorExpr NF l r = createBinaryTerm NF (GetValueWidth l) BVXOR l r"

definition vc_bvNotExpr :: "node_fact \<Rightarrow> node \<Rightarrow> node may_abort" where
  "vc_bvNotExpr NF a = do {
    assert_that (BVTypeCheck a);
    checked (CreateTerm NF BVNEG (GetValueWidth a) [a]) }"

text \<open>A bound outside of the vector ends in the type checker's \<^verbatim>\<open>FatalError\<close>.\<close>

definition vc_bvExtract :: "node_fact \<Rightarrow> node \<Rightarrow> nat \<Rightarrow> nat \<Rightarrow> node may_abort" where
  "vc_bvExtract NF a hi_num low_num = do {
    assert_that (BVTypeCheck a);
    hi \<leftarrow> CreateBVConst 32 (of_nat hi_num);
    low \<leftarrow> CreateBVConst 32 (of_nat low_num);
    checked (CreateTerm NF BVEXTRACT (nat ((int hi_num - int low_num + 1) mod 2 ^ 32)) [a, hi, low]) }"

definition vc_bvSignExtend :: "node_fact \<Rightarrow> node \<Rightarrow> nat \<Rightarrow> node may_abort" where
  "vc_bvSignExtend NF a nbits = do {
    assert_that (BVTypeCheck a);
    if GetValueWidth a \<ge> nbits then do {
      hi \<leftarrow> CreateBVConst 32 (of_nat (nbits - 1));
      low \<leftarrow> CreateBVConst 32 0;
      checked (CreateTerm NF BVEXTRACT nbits [a, hi, low]) }
    else do {
      width \<leftarrow> CreateBVConst 32 (of_nat nbits);
      checked (CreateTerm NF BVSX nbits [a, width]) } }"

subsection \<open>What the builder relies on\<close>

text \<open>Well-typed nodes, with the widths the interface gives them.\<close>

definition node_sort :: "Kind \<Rightarrow> nat \<Rightarrow> nat \<Rightarrow> node list \<Rightarrow> bool" where
  "node_sort k iw vw cs \<longleftrightarrow>
    (if k = ITE then (case cs of [c, t, e] \<Rightarrow> iw = GetIndexWidth t \<and> vw = GetValueWidth t | _ \<Rightarrow> False)
     else if k = WRITE then iw = GetIndexWidth (hd cs) \<and> vw = GetValueWidth (hd cs)
     else iw = 0 \<and> (k \<in> {READ, BVNEG, BVUMINUS} \<longrightarrow> vw = GetValueWidth (hd cs))
       \<and> (k \<in> {BVSX, BVZX} \<longrightarrow> GetType (hd cs) = BITVECTOR_TYPE)
       \<and> (k \<in> {NOTF, ANDF, ORF, NAND, NOR, XORF, IFF, IMPLIES} \<longrightarrow> list_all (\<lambda>c. GetType c = BOOLEAN_TYPE) cs))"

fun node_wf :: "node \<Rightarrow> bool" where
  "node_wf (BVConst w v) \<longleftrightarrow> 0 < w \<and> 0 \<le> v \<and> v < 2 ^ w"
| "node_wf (Symbol s iw vw) \<longleftrightarrow> iw = 32 \<and> vw = 8"
| "node_wf (Interior k iw vw cs) \<longleftrightarrow> list_all node_wf cs \<and> BVTypeCheck (Interior k iw vw cs) \<and> node_sort k iw vw cs"

locale node_factory =
  fixes NF :: node_fact
  assumes nf_wf: "node_wf n \<Longrightarrow> node_wf (NF n)"
    and nf_iw: "node_wf n \<Longrightarrow> GetIndexWidth (NF n) = GetIndexWidth n"
    and nf_vw: "node_wf n \<Longrightarrow> GetValueWidth (NF n) = GetValueWidth n"
    and nf_eval: "node_wf n \<Longrightarrow> node_eval z \<mu> n = Some v \<Longrightarrow> node_eval z \<mu> (NF n) = Some v"

definition bv :: "bool \<Rightarrow> (string \<Rightarrow> int \<Rightarrow> int) \<Rightarrow> node \<Rightarrow> nat \<Rightarrow> int \<Rightarrow> bool" where
  "bv z \<mu> n w v \<longleftrightarrow> node_wf n \<and> GetIndexWidth n = 0 \<and> GetValueWidth n = w \<and> 0 < w \<and>
    node_eval z \<mu> n = Some (CBV w v) \<and> 0 \<le> v \<and> v < 2 ^ w"

definition fm :: "bool \<Rightarrow> (string \<Rightarrow> int \<Rightarrow> int) \<Rightarrow> node \<Rightarrow> bool \<Rightarrow> bool" where
  "fm z \<mu> n b \<longleftrightarrow> node_wf n \<and> GetIndexWidth n = 0 \<and> GetValueWidth n = 0 \<and> node_eval z \<mu> n = Some (CBool b)"

definition arr :: "bool \<Rightarrow> (string \<Rightarrow> int \<Rightarrow> int) \<Rightarrow> node \<Rightarrow> (int \<Rightarrow> int) \<Rightarrow> bool" where
  "arr z \<mu> n f \<longleftrightarrow> node_wf n \<and> GetIndexWidth n = 32 \<and> GetValueWidth n = 8 \<and> node_eval z \<mu> n = Some (CArr f) \<and>
    (\<forall>i. 0 \<le> f i \<and> f i < 256)"

lemma node_wf_check: "node_wf n \<Longrightarrow> BVTypeCheck n"
proof (cases n)
  case (Interior k iw vw cs)
  then show "node_wf n \<Longrightarrow> BVTypeCheck n" by (simp only: node_wf.simps)
qed (simp_all add: BVTypeCheck_def check_term_def is_Term_kind_def GetType_def)

lemma checked_wf: "node_wf n \<Longrightarrow> checked n = Some n"
  by (simp add: checked_def node_wf_check)

lemma bvD:
  assumes "bv z \<mu> n w v"
  shows "node_wf n" "GetIndexWidth n = 0" "GetValueWidth n = w" "0 < w" "node_eval z \<mu> n = Some (CBV w v)"
    "0 \<le> v" "v < 2 ^ w" "BVTypeCheck n" "GetType n = BITVECTOR_TYPE"
  using assms node_wf_check [of n] by (simp_all add: bv_def GetType_def)

lemma fmD:
  assumes "fm z \<mu> n b"
  shows "node_wf n" "GetIndexWidth n = 0" "GetValueWidth n = 0" "node_eval z \<mu> n = Some (CBool b)"
    "BVTypeCheck n" "GetType n = BOOLEAN_TYPE"
  using assms node_wf_check [of n] by (simp_all add: fm_def GetType_def)

lemma arrD:
  assumes "arr z \<mu> n f"
  shows "node_wf n" "GetIndexWidth n = 32" "GetValueWidth n = 8" "node_eval z \<mu> n = Some (CArr f)"
    "0 \<le> f i" "f i < 256" "BVTypeCheck n" "GetType n = ARRAY_TYPE"
  using assms node_wf_check [of n] by (simp_all add: arr_def GetType_def)

lemmas check_defs = BVTypeCheck_def check_term_def check_form_def check_arith_def checkChildrenAreBV_def
  is_Term_kind_def is_Form_kind_def node_sort_def

subsection \<open>Signed numbers\<close>

lemma BitVector_Compare_sem:
  assumes "0 < w" "0 \<le> a" "a < 2 ^ w" "0 \<le> b" "b < 2 ^ w"
  shows "BitVector_Compare w a b = (if sgn_val w a < sgn_val w b then - 1 else if sgn_val w a = sgn_val w b then 0 else 1)"
  using assms by (auto simp: BitVector_Compare_def BitVector_Lexicompare_def BitVector_msb_def sgn_val_def)

lemma udiv_bounds:
  fixes a b :: int
  assumes "0 \<le> a" "0 < b"
  shows "0 \<le> a div b" "a div b \<le> a" "0 \<le> a mod b" "a mod b \<le> a"
proof -
  have "a div b \<le> a div 1" by (rule zdiv_mono2) (use assms in auto)
  then show "a div b \<le> a" by simp
  show "0 \<le> a div b" "0 \<le> a mod b" using assms by (simp_all add: pos_imp_zdiv_nonneg_iff)
  show "a mod b \<le> a" using assms(1) by (rule zmod_le_nonneg_dividend)
qed

lemma sign_magnitude:
  assumes "0 < w" "0 \<le> x" "x < 2 ^ w"
  shows "(if BitVector_msb w x then BitVector_Negate w x else x) = \<bar>sgn_val w x\<bar>"
    and "BitVector_msb w x \<longleftrightarrow> sgn_val w x < 0" and "\<bar>sgn_val w x\<bar> < 2 ^ w"
proof -
  have W: "(2::int) ^ w = 2 * 2 ^ (w - 1)" using assms(1) by (cases w) simp_all
  have "(- x) mod 2 ^ w = 2 ^ w - x" if "0 < x"
  proof -
    have "(- x) mod 2 ^ w = (2 ^ w - x) mod 2 ^ w" by simp
    also have "\<dots> = 2 ^ w - x" using that assms(3) by (intro mod_pos_pos_trivial) auto
    finally show ?thesis .
  qed
  then show "(if BitVector_msb w x then BitVector_Negate w x else x) = \<bar>sgn_val w x\<bar>"
    "BitVector_msb w x \<longleftrightarrow> sgn_val w x < 0" "\<bar>sgn_val w x\<bar> < 2 ^ w"
    using assms W by (auto simp: BitVector_msb_def BitVector_Negate_def sgn_val_def)
qed

lemma BitVector_Divide_sem:
  assumes "0 < w" "0 \<le> a" "a < 2 ^ w" "0 \<le> b" "b < 2 ^ w" "b \<noteq> 0"
  shows "BitVector_Divide w a b =
    Some ((sgn_val w a sdiv sgn_val w b) mod 2 ^ w, (sgn_val w a smod sgn_val w b) mod 2 ^ w)"
proof -
  note abs = sign_magnitude [OF assms(1)]
  have nz: "sgn_val w b \<noteq> 0" "a \<noteq> 0 \<Longrightarrow> sgn_val w a \<noteq> 0" "sgn_val w 0 = 0" using assms by (auto simp: sgn_val_def)
  define A B where "A = \<bar>sgn_val w a\<bar>" and "B = \<bar>sgn_val w b\<bar>"
  have AB: "0 \<le> A" "A < 2 ^ w" "0 < B" using abs(3) [OF assms(2,3)] nz(1) by (auto simp: A_def B_def)
  have u: "(A div B) mod 2 ^ w = A div B" "(A mod B) mod 2 ^ w = A mod B"
    using udiv_bounds [OF AB(1,3)] AB(2) by (simp_all add: mod_pos_pos_trivial)
  have "BitVector_Divide w a b = (if a = 0 then Some (0, 0) else
      Some ((if (sgn_val w a < 0) \<noteq> (sgn_val w b < 0) then - (A div B) else A div B) mod 2 ^ w,
        (if sgn_val w a < 0 then - (A mod B) else A mod B) mod 2 ^ w))"
    unfolding BitVector_Divide_def Let_def abs(1) [OF assms(2,3)] abs(1) [OF assms(4,5)] A_def [symmetric] B_def [symmetric]
    unfolding abs(2) [OF assms(2,3)] abs(2) [OF assms(4,5)]
    using assms(6) AB(3) by (simp add: BitVector_Div_Pos_def BitVector_Negate_def u)
  moreover have "sgn_val w a sdiv sgn_val w b = (if (sgn_val w a < 0) \<noteq> (sgn_val w b < 0) then - (A div B) else A div B)"
    "sgn_val w a smod sgn_val w b = (if sgn_val w a < 0 then - (A mod B) else A mod B)" if "a \<noteq> 0"
    using nz(1) nz(2) [OF that]
    by (auto simp: signed_divide_int_def signed_modulo_int_def A_def [symmetric] B_def [symmetric] sgn_if)
  ultimately show ?thesis by (cases "a = 0") (simp_all add: nz(3))
qed

lemma CreateBVConst_small: "n < 2 ^ 32 \<Longrightarrow> CreateBVConst 32 (of_nat n) = Some (BVConst 32 (int n))"
  by (simp add: CreateBVConst_def unsigned_of_nat take_bit_nat_eq_self mod_pos_pos_trivial)

context node_factory
begin

lemma bv_made: "bv z \<mu> n w v \<Longrightarrow> bv z \<mu> (NF n) w v"
  by (auto simp: bv_def nf_wf nf_iw nf_vw nf_eval)

lemma fm_made: "fm z \<mu> n b \<Longrightarrow> fm z \<mu> (NF n) b"
  by (auto simp: fm_def nf_wf nf_iw nf_vw nf_eval)

lemma arr_made: "arr z \<mu> n f \<Longrightarrow> arr z \<mu> (NF n) f"
  by (auto simp: arr_def nf_wf nf_iw nf_vw nf_eval)

lemma bv_checked: "bv z \<mu> n w v \<Longrightarrow> \<exists>m. checked (NF n) = Some m \<and> bv z \<mu> m w v"
  using bv_made checked_wf bvD(1) by blast

lemma fm_checked: "fm z \<mu> n b \<Longrightarrow> \<exists>m. checked (NF n) = Some m \<and> fm z \<mu> m b"
  using fm_made checked_wf fmD(1) by blast

lemma arr_checked: "arr z \<mu> n f \<Longrightarrow> \<exists>m. checked (NF n) = Some m \<and> arr z \<mu> m f"
  using arr_made checked_wf arrD(1) by blast

lemma term_made:
  assumes "bv z \<mu> l w a" "bv z \<mu> r w b"
    and "k \<in> {BVPLUS, BVSUB, BVMULT, BVDIV, BVMOD, SBVDIV, SBVREM, BVAND, BVOR, BVXOR}"
    and "NonMemberBVConstEvaluator z k w [CBV w a, CBV w b] = Some (CBV w v)" "0 \<le> v" "v < 2 ^ w"
  shows "\<exists>n. createBinaryTerm NF w k l r = Some n \<and> bv z \<mu> n w v"
proof -
  note l = bvD [OF assms(1)] and r = bvD [OF assms(2)]
  have "node_wf (Interior k 0 w [l, r])" using assms(3) by (elim insertE emptyE) (simp_all add: l r check_defs)
  moreover have "node_eval z \<mu> (Interior k 0 w [l, r]) = Some (CBV w v)"
    using assms(3,4) by (elim insertE emptyE) (simp_all add: l r)
  ultimately have "bv z \<mu> (Interior k 0 w [l, r]) w v" using l assms(5,6) by (simp add: bv_def)
  from bv_checked [OF this] show ?thesis using l r by (simp add: createBinaryTerm_def CreateTerm_def)
qed

lemma form_made:
  assumes "bv z \<mu> l w a" "bv z \<mu> r w b"
    and "k \<in> {BVLT, BVLE, BVSLT, BVSLE}" and "const_compare k [CBV w a, CBV w b] = Some (CBool v)"
  shows "\<exists>n. createBinaryNode NF k l r = Some n \<and> fm z \<mu> n v"
proof -
  note l = bvD [OF assms(1)] and r = bvD [OF assms(2)]
  have "node_wf (Interior k 0 0 [l, r])" using assms(3) by (elim insertE emptyE) (simp_all add: l r check_defs GetType_def)
  moreover have "node_eval z \<mu> (Interior k 0 0 [l, r]) = Some (CBool v)"
    using assms(3,4) by (elim insertE emptyE) (simp_all add: l r NonMemberBVConstEvaluator_def)
  ultimately have "fm z \<mu> (Interior k 0 0 [l, r]) v" by (simp add: fm_def)
  from fm_checked [OF this] show ?thesis using l r by (simp add: createBinaryNode_def CreateNode_def)
qed

lemma vc_arith:
  assumes "bv z \<mu> l w a" "bv z \<mu> r w b"
  shows "\<exists>n. vc_bvPlusExpr NF w l r = Some n \<and> bv z \<mu> n w ((a + b) mod 2 ^ w)"
    and "\<exists>n. vc_bvMinusExpr NF w l r = Some n \<and> bv z \<mu> n w ((a - b) mod 2 ^ w)"
    and "\<exists>n. vc_bvMultExpr NF w l r = Some n \<and> bv z \<mu> n w ((a * b) mod 2 ^ w)"
  unfolding vc_bvPlusExpr_def vc_bvMinusExpr_def vc_bvMultExpr_def
  by (intro term_made [OF assms]; simp add: NonMemberBVConstEvaluator_def const_nary_def bv_const_def mod_simps)+

lemma vc_div:
  assumes "bv z \<mu> l w a" "bv z \<mu> r w b" "b \<noteq> 0"
  shows "\<exists>n. vc_bvDivExpr NF w l r = Some n \<and> bv z \<mu> n w (sem_bin UDiv w a b)"
    and "\<exists>n. vc_bvModExpr NF w l r = Some n \<and> bv z \<mu> n w (sem_bin URem w a b)"
    and "\<exists>n. vc_sbvDivExpr NF w l r = Some n \<and> bv z \<mu> n w (sem_bin SDiv w a b)"
    and "\<exists>n. vc_sbvModExpr NF w l r = Some n \<and> bv z \<mu> n w (sem_bin SRem w a b)"
  unfolding vc_bvDivExpr_def vc_bvModExpr_def vc_sbvDivExpr_def vc_sbvModExpr_def
proof -
  note ab = bvD(4,6,7) [OF assms(1)] bvD(6,7) [OF assms(2)]
  have b: "0 < b" using ab assms(3) by simp
  have u: "a div b mod 2 ^ w = a div b" "a mod b mod 2 ^ w = a mod b" "0 \<le> a div b" "a div b < 2 ^ w"
      "0 \<le> a mod b" "a mod b < 2 ^ w"
    using udiv_bounds [OF ab(2) b] ab(3) by (simp_all add: mod_pos_pos_trivial)
  show "\<exists>n. createBinaryTerm NF w BVDIV l r = Some n \<and> bv z \<mu> n w (sem_bin UDiv w a b)"
    by (intro term_made [OF assms(1,2)]) (simp_all add: NonMemberBVConstEvaluator_def const_udiv_def BitVector_Div_Pos_def assms(3) u sem_bin.simps)
  show "\<exists>n. createBinaryTerm NF w BVMOD l r = Some n \<and> bv z \<mu> n w (sem_bin URem w a b)"
    by (intro term_made [OF assms(1,2)]) (simp_all add: NonMemberBVConstEvaluator_def const_udiv_def BitVector_Div_Pos_def assms(3) u sem_bin.simps)
  show "\<exists>n. createBinaryTerm NF w SBVDIV l r = Some n \<and> bv z \<mu> n w (sem_bin SDiv w a b)"
    by (intro term_made [OF assms(1,2)]) (simp_all add: NonMemberBVConstEvaluator_def const_sdiv_def BitVector_Divide_sem ab assms(3) sem_bin.simps)
  show "\<exists>n. createBinaryTerm NF w SBVREM l r = Some n \<and> bv z \<mu> n w (sem_bin SRem w a b)"
    by (intro term_made [OF assms(1,2)]) (simp_all add: NonMemberBVConstEvaluator_def const_sdiv_def BitVector_Divide_sem ab assms(3) sem_bin.simps)
qed

lemma vc_bitwise:
  assumes "bv z \<mu> l w a" "bv z \<mu> r w b"
  shows "\<exists>n. vc_bvAndExpr NF l r = Some n \<and> bv z \<mu> n w (a AND b)"
    and "\<exists>n. vc_bvOrExpr NF l r = Some n \<and> bv z \<mu> n w (a OR b)"
    and "\<exists>n. vc_bvXorExpr NF l r = Some n \<and> bv z \<mu> n w (a XOR b)"
proof -
  note ab = bvD(4,6,7) [OF assms(1)] bvD(6,7) [OF assms(2)]
  have t: "take_bit w a = a" "take_bit w b = b" using ab by (simp_all add: take_bit_int_eq_self)
  have "take_bit w (a AND b) = a AND b" "take_bit w (a OR b) = a OR b" "take_bit w (a XOR b) = a XOR b" "mask w AND a = a"
    by (simp_all only: take_bit_and take_bit_or take_bit_xor t take_bit_eq_mask [symmetric] and.commute [of "mask w"])
  then have m: "(a AND b) mod 2 ^ w = a AND b" "(a OR b) mod 2 ^ w = a OR b" "(2 ^ w - 1) AND a = a" "a XOR b < 2 ^ w"
      "a AND b < 2 ^ w" "a OR b < 2 ^ w" "a mod 2 ^ w = a"
    using t by (simp_all add: take_bit_eq_mod mask_eq_exp_minus_1) (metis take_bit_eq_mod take_bit_int_less_exp)+
  show "\<exists>n. vc_bvAndExpr NF l r = Some n \<and> bv z \<mu> n w (a AND b)"
    unfolding vc_bvAndExpr_def bvD(3) [OF assms(1)]
    by (intro term_made [OF assms]) (simp_all add: NonMemberBVConstEvaluator_def const_nary_def bv_const_def m ab)
  show "\<exists>n. vc_bvOrExpr NF l r = Some n \<and> bv z \<mu> n w (a OR b)"
    unfolding vc_bvOrExpr_def bvD(3) [OF assms(1)]
    by (intro term_made [OF assms]) (simp_all add: NonMemberBVConstEvaluator_def const_nary_def bv_const_def m ab)
  show "\<exists>n. vc_bvXorExpr NF l r = Some n \<and> bv z \<mu> n w (a XOR b)"
    unfolding vc_bvXorExpr_def bvD(3) [OF assms(1)]
    by (intro term_made [OF assms]) (simp_all add: NonMemberBVConstEvaluator_def m ab)
qed

lemma vc_compare:
  assumes "bv z \<mu> l w a" "bv z \<mu> r w b"
  shows "\<exists>n. vc_bvLtExpr NF l r = Some n \<and> fm z \<mu> n (a < b)"
    and "\<exists>n. vc_bvLeExpr NF l r = Some n \<and> fm z \<mu> n (a \<le> b)"
    and "\<exists>n. vc_sbvLtExpr NF l r = Some n \<and> fm z \<mu> n (sgn_val w a < sgn_val w b)"
    and "\<exists>n. vc_sbvLeExpr NF l r = Some n \<and> fm z \<mu> n (sgn_val w a \<le> sgn_val w b)"
  unfolding vc_bvLtExpr_def vc_bvLeExpr_def vc_sbvLtExpr_def vc_sbvLeExpr_def
  by (intro form_made [OF assms]; use bvD(4,6,7) [OF assms(1)] bvD(6,7) [OF assms(2)] in
      \<open>simp add: const_compare_def BitVector_Lexicompare_def BitVector_Compare_sem\<close>)+

lemma vc_arrays:
  assumes "arr z \<mu> l f" "bv z \<mu> i 32 a"
  shows "\<exists>n. vc_readExpr NF l i = Some n \<and> bv z \<mu> n 8 (f a)"
    and "bv z \<mu> v 8 b \<Longrightarrow> \<exists>n. vc_writeExpr NF l i v = Some n \<and> arr z \<mu> n (f(a := b))"
proof -
  note l = arrD [OF assms(1)] and i = bvD [OF assms(2)]
  have "bv z \<mu> (Interior READ 0 8 [l, i]) 8 (f a)" using l i by (simp add: bv_def check_defs)
  from bv_checked [OF this] show "\<exists>n. vc_readExpr NF l i = Some n \<and> bv z \<mu> n 8 (f a)"
    using l i by (simp add: vc_readExpr_def CreateTerm_def)
  assume "bv z \<mu> v 8 b"
  note v = bvD [OF this]
  have "arr z \<mu> (Interior WRITE 32 8 [l, i, v]) (f(a := b))" using l i v by (simp add: arr_def check_defs)
  from arr_checked [OF this] show "\<exists>n. vc_writeExpr NF l i v = Some n \<and> arr z \<mu> n (f(a := b))"
    using l i v by (simp add: vc_writeExpr_def CreateArrayTerm_def)
qed

lemma vc_eqExpr:
  assumes "bv z \<mu> l w a" "bv z \<mu> r w b"
  shows "\<exists>n. vc_eqExpr NF l r = Some n \<and> fm z \<mu> n (a = b)"
proof -
  note l = bvD [OF assms(1)] and r = bvD [OF assms(2)]
  have "fm z \<mu> (Interior EQ 0 0 [l, r]) (a = b)"
    using l r by (simp add: fm_def check_defs GetType_def NonMemberBVConstEvaluator_def const_compare_def)
  from fm_made [OF this] show ?thesis using l r by (simp add: vc_eqExpr_def CreateNode_def)
qed

lemma vc_const_forms: "fm z \<mu> (vc_trueExpr NF) True" "fm z \<mu> (vc_falseExpr NF) False"
  unfolding vc_trueExpr_def vc_falseExpr_def CreateNode_def
  by (rule fm_made, simp add: fm_def check_defs GetType_def NonMemberBVConstEvaluator_def)+

lemma vc_notExpr:
  assumes "fm z \<mu> l a"
  shows "\<exists>n. vc_notExpr NF l = Some n \<and> fm z \<mu> n (\<not> a)"
proof -
  note l = fmD [OF assms]
  have "fm z \<mu> (Interior NOTF 0 0 [l]) (\<not> a)"
    using l by (simp add: fm_def check_defs GetType_def NonMemberBVConstEvaluator_def bool_const_def const_bool_def)
  from fm_checked [OF this] show ?thesis by (simp add: vc_notExpr_def CreateNode_def)
qed

lemma formula_made:
  assumes "fm z \<mu> l a" "fm z \<mu> r b" "k \<in> {ANDF, ORF, IFF}" "const_bool k [a, b] = Some c"
  shows "\<exists>n. checked (CreateNode NF k [l, r]) = Some n \<and> fm z \<mu> n c"
proof -
  note l = fmD [OF assms(1)] and r = fmD [OF assms(2)]
  have "node_wf (Interior k 0 0 [l, r])" using assms(3) by (elim insertE emptyE) (simp_all add: l r check_defs GetType_def)
  moreover have "node_eval z \<mu> (Interior k 0 0 [l, r]) = Some (CBool c)"
    using assms(3,4) by (elim insertE emptyE) (simp_all add: l r NonMemberBVConstEvaluator_def bool_const_def)
  ultimately have "fm z \<mu> (Interior k 0 0 [l, r]) c" by (simp add: fm_def)
  from fm_checked [OF this] show ?thesis by (simp add: CreateNode_def)
qed

lemma vc_formulas:
  assumes "fm z \<mu> l a" "fm z \<mu> r b"
  shows "\<exists>n. vc_andExpr NF l r = Some n \<and> fm z \<mu> n (a \<and> b)"
    and "\<exists>n. vc_orExpr NF l r = Some n \<and> fm z \<mu> n (a \<or> b)"
    and "\<exists>n. vc_iffExpr NF l r = Some n \<and> fm z \<mu> n (a = b)"
  using formula_made [OF assms, of ANDF] formula_made [OF assms, of ORF] formula_made [OF assms, of IFF]
    fmD(5) [OF assms(1)] fmD(5) [OF assms(2)]
  by (simp_all add: vc_andExpr_def vc_orExpr_def vc_iffExpr_def const_bool_def)

lemma vc_ite_fm:
  assumes "fm z \<mu> c b" "fm z \<mu> l x" "fm z \<mu> r y"
  shows "\<exists>n. vc_iteExpr NF c l r = Some n \<and> fm z \<mu> n (if b then x else y)"
proof -
  note c = fmD [OF assms(1)] and l = fmD [OF assms(2)] and r = fmD [OF assms(3)]
  have "fm z \<mu> (Interior ITE 0 0 [c, l, r]) (if b then x else y)"
    using c l r by (simp add: fm_def check_defs NonMemberBVConstEvaluator_def)
  from fm_checked [OF this] show ?thesis using c l r by (simp add: vc_iteExpr_def CreateNode_def)
qed

lemma vc_ite_bv:
  assumes "fm z \<mu> c b" "bv z \<mu> l w x" "bv z \<mu> r w y"
  shows "\<exists>n. vc_iteExpr NF c l r = Some n \<and> bv z \<mu> n w (if b then x else y)"
proof -
  note c = fmD [OF assms(1)] and l = bvD [OF assms(2)] and r = bvD [OF assms(3)]
  have "bv z \<mu> (Interior ITE 0 w [c, l, r]) w (if b then x else y)"
    using c l r by (simp add: bv_def check_defs NonMemberBVConstEvaluator_def)
  from bv_checked [OF this] show ?thesis using c l r by (simp add: vc_iteExpr_def CreateArrayTerm_def)
qed

lemma vc_bvConcatExpr:
  assumes "bv z \<mu> l v a" "bv z \<mu> r w b"
  shows "\<exists>n. vc_bvConcatExpr NF l r = Some n \<and> bv z \<mu> n (v + w) (a * 2 ^ w + b)"
proof -
  note l = bvD [OF assms(1)] and r = bvD [OF assms(2)]
  have "a * 2 ^ w + b < (a + 1) * 2 ^ w" using r by (simp add: distrib_right)
  also have "\<dots> \<le> 2 ^ v * 2 ^ w" using l by (intro mult_right_mono) auto
  finally have "bv z \<mu> (Interior BVCONCAT 0 (v + w) [l, r]) (v + w) (a * 2 ^ w + b)"
    using l r by (simp add: bv_def check_defs NonMemberBVConstEvaluator_def power_add)
  from bv_checked [OF this] show ?thesis using l r by (simp add: vc_bvConcatExpr_def CreateTerm_def)
qed

lemma vc_unary:
  assumes "bv z \<mu> l w a"
  shows "\<exists>n. vc_bvUMinusExpr NF l = Some n \<and> bv z \<mu> n w ((- a) mod 2 ^ w)"
    and "\<exists>n. vc_bvNotExpr NF l = Some n \<and> bv z \<mu> n w (2 ^ w - 1 - a)"
proof -
  note l = bvD [OF assms]
  have "bv z \<mu> (Interior BVUMINUS 0 w [l]) w ((- a) mod 2 ^ w)"
    using l by (simp add: bv_def check_defs NonMemberBVConstEvaluator_def BitVector_Negate_def)
  from bv_checked [OF this] show "\<exists>n. vc_bvUMinusExpr NF l = Some n \<and> bv z \<mu> n w ((- a) mod 2 ^ w)"
    using l by (simp add: vc_bvUMinusExpr_def CreateTerm_def)
  have "bv z \<mu> (Interior BVNEG 0 w [l]) w (2 ^ w - 1 - a)"
    using l by (simp add: bv_def check_defs NonMemberBVConstEvaluator_def)
  from bv_checked [OF this] show "\<exists>n. vc_bvNotExpr NF l = Some n \<and> bv z \<mu> n w (2 ^ w - 1 - a)"
    using l by (simp add: vc_bvNotExpr_def CreateTerm_def)
qed

lemma extract_made:
  assumes "bv z \<mu> l w a" "low \<le> hi" "hi < w" "w < 2 ^ 31"
  shows "\<exists>n. checked (CreateTerm NF BVEXTRACT (hi - low + 1) [l, BVConst 32 (int hi), BVConst 32 (int low)]) = Some n
    \<and> bv z \<mu> n (hi - low + 1) (a div 2 ^ low mod 2 ^ (hi - low + 1))"
proof -
  note l = bvD [OF assms(1)]
  have len: "nat (int hi - int low + 1) = hi - low + 1" "int (hi - low + 1) = (int hi - int low + 1) mod 2 ^ 32"
    using assms(2-4) by (simp_all add: mod_pos_pos_trivial)
  have "node_wf (Interior BVEXTRACT 0 (hi - low + 1) [l, BVConst 32 (int hi), BVConst 32 (int low)])"
    using l assms(2-4) len(2) by (simp add: check_defs GetType_def)
  moreover have "node_eval z \<mu> (Interior BVEXTRACT 0 (hi - low + 1) [l, BVConst 32 (int hi), BVConst 32 (int low)])
      = Some (CBV (hi - low + 1) (a div 2 ^ low mod 2 ^ (hi - low + 1)))"
    using l len(1) by (simp add: NonMemberBVConstEvaluator_def Let_def)
  ultimately have "bv z \<mu> (Interior BVEXTRACT 0 (hi - low + 1) [l, BVConst 32 (int hi), BVConst 32 (int low)])
      (hi - low + 1) (a div 2 ^ low mod 2 ^ (hi - low + 1))"
    by (simp add: bv_def)
  from bv_checked [OF this] show ?thesis by (simp add: CreateTerm_def)
qed

lemma vc_bvExtract:
  assumes "bv z \<mu> l w a" "low \<le> hi" "hi < w" "w < 2 ^ 31"
  shows "\<exists>n. vc_bvExtract NF l hi low = Some n \<and> bv z \<mu> n (hi - low + 1) (a div 2 ^ low mod 2 ^ (hi - low + 1))"
proof -
  have "nat ((int hi - int low + 1) mod 2 ^ 32) = hi - low + 1" using assms(2-4) by (simp add: mod_pos_pos_trivial)
  then show ?thesis
    using extract_made [OF assms] bvD(8) [OF assms(1)] assms(2-4) by (simp add: vc_bvExtract_def CreateBVConst_small)
qed

lemma vc_bvSignExtend:
  assumes "bv z \<mu> l v a" "v < w" "w < 2 ^ 31"
  shows "\<exists>n. vc_bvSignExtend NF l w = Some n \<and> bv z \<mu> n w (sgn_val v a mod 2 ^ w)"
proof -
  note l = bvD [OF assms(1)]
  have p: "(2::int) ^ v \<le> 2 ^ w" by (rule power_increasing) (use assms(2) in auto)
  have lo: "- (2 ^ v) \<le> sgn_val v a" using l by (simp add: sgn_val_def)
  have "sgn_val v a mod 2 ^ w = (if sgn_val v a < 0 then sgn_val v a + 2 ^ w else sgn_val v a)"
  proof (cases "sgn_val v a < 0")
    case True
    have "sgn_val v a mod 2 ^ w = (sgn_val v a + 2 ^ w) mod 2 ^ w" by simp
    also have "\<dots> = sgn_val v a + 2 ^ w" using True lo p by (intro mod_pos_pos_trivial) linarith+
    finally show ?thesis using True by simp
  next
    case False
    have "sgn_val v a \<le> a" by (simp add: sgn_val_def)
    then have "sgn_val v a < 2 ^ w" using l(7) p by linarith
    then show ?thesis using False by (simp add: mod_pos_pos_trivial)
  qed
  then have "(if BitVector_msb v a then 2 ^ w - 2 ^ v else 0) + a = sgn_val v a mod 2 ^ w"
    using l(6,7) by (simp add: BitVector_msb_def sgn_val_def split: if_splits)
  then have "node_eval z \<mu> (Interior BVSX 0 w [l, BVConst 32 (int w)]) = Some (CBV w (sgn_val v a mod 2 ^ w))"
    using l(5) assms(2) by (simp add: NonMemberBVConstEvaluator_def const_extend_def Let_def)
  moreover have "node_wf (Interior BVSX 0 w [l, BVConst 32 (int w)])"
    using l(1,3,9) assms(2,3) by (simp add: check_defs)
  ultimately have "bv z \<mu> (Interior BVSX 0 w [l, BVConst 32 (int w)]) w (sgn_val v a mod 2 ^ w)"
    using assms(2) by (simp add: bv_def)
  from bv_checked [OF this] show ?thesis
    using l assms(2,3) by (simp add: vc_bvSignExtend_def CreateTerm_def CreateBVConst_small)
qed

end

lemma vc_getBVLength: "bv z \<mu> l w a \<Longrightarrow> vc_getBVLength l = Some w"
  using bvD(3,9) by (simp add: vc_getBVLength_def)

lemma vc_consts:
  assumes "0 < w" "w \<le> 64"
  shows "uint v < 2 ^ w \<Longrightarrow> \<exists>n. vc_bvConstExprFromInt w v = Some n \<and> bv z \<mu> n w (uint v)"
    and "\<exists>n. vc_bvConstExprFromLL w x = Some n \<and> bv z \<mu> n w (uint x mod 2 ^ w)"
proof -
  show "\<exists>n. vc_bvConstExprFromLL w x = Some n \<and> bv z \<mu> n w (uint x mod 2 ^ w)"
    using assms by (simp add: vc_bvConstExprFromLL_def CreateBVConst_def bv_def)
  assume v: "uint v < 2 ^ w"
  have "uint (drop_bit (64 - w) 0xFFFFFFFFFFFFFFFF :: uint64_t) = 2 ^ w - 1"
  proof -
    have "uint (drop_bit (64 - w) (- 1) :: uint64_t) = mask w"
      by (rule bit_eqI) (use assms in \<open>auto simp: bit_uint_iff bit_drop_bit_eq bit_mask_iff\<close>)
    moreover have "(- 1 :: uint64_t) = 0xFFFFFFFFFFFFFFFF" by simp
    ultimately show ?thesis by (simp only: mask_eq_exp_minus_1)
  qed
  moreover have "uint (ucast v :: uint64_t) = uint v" by (simp add: uint_up_ucast is_up)
  ultimately have "\<not> drop_bit (64 - w) 0xFFFFFFFFFFFFFFFF < (ucast v :: uint64_t)"
    using v by (simp add: word_less_def)
  then show "\<exists>n. vc_bvConstExprFromInt w v = Some n \<and> bv z \<mu> n w (uint v)"
    using assms v by (simp add: vc_bvConstExprFromInt_def CreateBVConst_def bv_def uint_up_ucast is_up)
qed

subsection \<open>The hashing node factory\<close>

text \<open>
  The factory orders the children of commutative nodes by their node numbers, which depend on the
  order in which the nodes of the run were first made; \<open>GetNodeNum\<close> gives these numbers.
\<close>

definition isCommutative :: "Kind \<Rightarrow> bool" where
  "isCommutative k \<longleftrightarrow> k \<in> {BVOR, BVAND, BVXOR, BVNAND, BVNOR, BVXNOR, BVPLUS, BVMULT, EQ, ANDF, ORF, NAND, NOR, XORF,
     IFF, BVNEG, NOTF, BVUMINUS}"

definition arithless :: "(node \<Rightarrow> nat) \<Rightarrow> node \<Rightarrow> node \<Rightarrow> bool" where
  "arithless GetNodeNum n1 n2 =
    (let k1 = GetKind n1; k2 = GetKind n2 in
     if n1 = n2 then False
     else if k1 = BVCONST \<and> k2 \<noteq> BVCONST then True
     else if k1 \<noteq> BVCONST \<and> k2 = BVCONST then False
     else if k1 = SYMBOL \<and> k2 \<noteq> SYMBOL then True
     else if k1 \<noteq> SYMBOL \<and> k2 = SYMBOL then False
     else GetNodeNum n1 < GetNodeNum n2)"

fun arith_insert :: "(node \<Rightarrow> nat) \<Rightarrow> node \<Rightarrow> node list \<Rightarrow> node list" where
  "arith_insert num n [] = [n]"
| "arith_insert num n (m # ms) = (if arithless num m n then m # arith_insert num n ms else n # m # ms)"

definition SortByArith :: "(node \<Rightarrow> nat) \<Rightarrow> node list \<Rightarrow> node list" where
  "SortByArith num cs = foldr (arith_insert num) cs []"

definition HashingNodeFactory :: "(node \<Rightarrow> nat) \<Rightarrow> node_fact" where
  "HashingNodeFactory num n =
    (case n of
       Interior k iw vw cs \<Rightarrow>
         if k = NOTF \<and> GetKind (hd cs) = NOTF then hd (GetChildren (hd cs))
         else Interior k iw vw (if isCommutative k \<and> k \<noteq> ANDF then SortByArith num cs else cs)
     | _ \<Rightarrow> n)"

lemma mset_arith_insert [simp]: "mset (arith_insert num n ms) = add_mset n (mset ms)"
  by (induction ms) auto

lemma mset_SortByArith [simp]: "mset (SortByArith num cs) = mset cs"
  unfolding SortByArith_def by (induction cs) auto

lemma SortByArith_single [simp]: "SortByArith num [c] = [c]"
  by (simp add: SortByArith_def)

lemma list_all_SortByArith [simp]: "list_all P (SortByArith num cs) = list_all P cs"
  using mset_SortByArith [of num cs] by (metis list.pred_set set_mset_mset)

lemma length_SortByArith [simp]: "length (SortByArith num cs) = length cs"
  by (metis mset_SortByArith size_mset)

lemma foldl_mset:
  assumes "\<And>x a b. f (f x a) b = f (f x b) a" "mset xs = mset ys"
  shows "foldl f e xs = foldl f e ys"
proof -
  have "fold (\<lambda>a x. f x a) xs = fold (\<lambda>a x. f x a) ys"
    by (rule fold_multiset_equiv) (use assms in \<open>auto simp: fun_eq_iff\<close>)
  then show ?thesis by (simp add: foldl_conv_fold)
qed

lemma those_map_iff: "those (map g xs) = Some ys \<longleftrightarrow> map g xs = map Some ys"
  by (induction xs arbitrary: ys) (auto split: option.splits simp: Cons_eq_map_conv)

lemma those_mset:
  assumes "mset vs' = mset vs" "those (map g vs) = Some as"
  obtains as' where "those (map g vs') = Some as'" "mset as' = mset as"
proof
  have m: "map g vs = map Some as" using assms(2) unfolding those_map_iff .
  from arg_cong [OF this, of "map the"] have "map (the \<circ> g) vs = as" by (simp add: comp_def)
  then show "mset (map (the \<circ> g) vs') = mset as" using assms(1) by (metis mset_map)
  have "\<exists>y. g x = Some y" if "x \<in> set vs" for x
    using that m by (metis (no_types, lifting) in_set_conv_nth length_map nth_map)
  then show "those (map g vs') = Some (map (the \<circ> g) vs')"
    unfolding those_map_iff using mset_eq_setD [OF assms(1)] by (force simp: map_eq_conv)
qed

lemma const_nary_mset:
  assumes "\<And>x a b. f (f x a mod 2 ^ w) b mod 2 ^ w = f (f x b mod 2 ^ w) a mod 2 ^ w" "mset vs' = mset vs"
    "const_nary f e w vs = Some v"
  shows "const_nary f e w vs' = Some v"
proof -
  obtain as where as: "those (map bv_const vs) = Some as" "v = CBV w (foldl (\<lambda>x a. f x a mod 2 ^ w) e as)"
    using assms(3) by (auto simp: const_nary_def split: bind_splits)
  obtain as' where "those (map bv_const vs') = Some as'" "mset as' = mset as" by (rule those_mset [OF assms(2) as(1)])
  then show ?thesis using foldl_mset [where f = "\<lambda>x a. f x a mod 2 ^ w", of as' as e] assms(1) by (simp add: const_nary_def as(2))
qed

lemma const_bool_mset:
  assumes "k \<in> {ORF, NOR, XORF, NAND}" "mset bs' = mset bs"
  shows "const_bool k bs' = const_bool k bs"
proof -
  have "set bs' = set bs" using assms(2) by (rule mset_eq_setD)
  then have "list_ex id bs' = list_ex id bs" "list_all id bs' = list_all id bs" by (auto simp: list_ex_iff list_all_iff)
  moreover have "foldl (\<noteq>) False bs' = foldl (\<noteq>) False bs" by (rule foldl_mset) (use assms(2) in auto)
  ultimately show ?thesis using assms(1) by (auto simp: const_bool_def)
qed

lemma mset_pair: "mset vs' = mset [a, b] \<Longrightarrow> vs' = [a, b] \<or> vs' = [b, a]"
proof -
  assume m: "mset vs' = mset [a, b]"
  then have "length vs' = 2" by (metis length_Cons list.size(3) mset_eq_length numeral_2_eq_2)
  then obtain x y where vs': "vs' = [x, y]" by (auto simp: numeral_2_eq_2 length_Suc_conv)
  have "x \<in> {a, b}" using mset_eq_setD [OF m] by (auto simp: vs')
  then show ?thesis
    using m by (elim insertE emptyE) (simp_all add: vs' add_mset_commute [of b a])
qed

lemma those_map_length: "those (map g xs) = Some ys \<Longrightarrow> length xs = length ys"
  unfolding those_map_iff by (drule arg_cong [where f = length]) simp

lemma const_compare_length: "const_compare k vs = Some v \<Longrightarrow> length vs = 2"
  by (auto simp: const_compare_def split: list.splits cval.splits)

lemma const_eval_commutative:
  assumes "isCommutative k" "k \<noteq> ANDF" "mset vs' = mset vs" "NonMemberBVConstEvaluator z k w vs = Some v"
  shows "NonMemberBVConstEvaluator z k w vs' = Some v"
proof -
  consider "k \<in> {BVOR, BVAND, BVPLUS, BVMULT}" | "k \<in> {ORF, NOR, XORF, NAND, BVNAND, BVNOR, BVXNOR}"
    | "k \<in> {EQ, BVXOR, IFF}" | "k \<in> {BVNEG, NOTF, BVUMINUS}"
    using assms(1,2) by (auto simp: isCommutative_def)
  then show ?thesis
  proof cases
    case 1
    have c: "((x AND a) mod 2 ^ w AND b) mod 2 ^ w = ((x AND b) mod 2 ^ w AND a) mod 2 ^ w"
      "((x OR a) mod 2 ^ w OR b) mod 2 ^ w = ((x OR b) mod 2 ^ w OR a) mod 2 ^ w"
      "((x + a) mod 2 ^ w + b) mod 2 ^ w = ((x + b) mod 2 ^ w + a) mod 2 ^ w"
      "((x * a) mod 2 ^ w * b) mod 2 ^ w = ((x * b) mod 2 ^ w * a) mod 2 ^ w" for x a b :: int
      by (simp_all add: take_bit_eq_mod [symmetric] ac_simps) (simp_all add: take_bit_eq_mod mod_simps ac_simps)
    show ?thesis
      using 1 assms(4) const_nary_mset [where f = "(AND)", OF c(1) assms(3)] const_nary_mset [where f = "(OR)", OF c(2) assms(3)]
        const_nary_mset [where f = "(+)", OF c(3) assms(3)] const_nary_mset [where f = "(*)", OF c(4) assms(3)]
      by (elim insertE emptyE) (simp_all add: NonMemberBVConstEvaluator_def)
  next
    case 2
    then have e: "NonMemberBVConstEvaluator z k w xs = do { bs \<leftarrow> those (map bool_const xs); b \<leftarrow> const_bool k bs; Some (CBool b) }"
      for xs by (elim insertE emptyE) (simp_all add: NonMemberBVConstEvaluator_def)
    obtain bs b where bs: "those (map bool_const vs) = Some bs" "const_bool k bs = Some b" "v = CBool b"
      using assms(4) unfolding e by (auto split: bind_splits)
    then have k: "k \<in> {ORF, NOR, XORF, NAND}" using 2 by (auto simp: const_bool_def)
    obtain bs' where "those (map bool_const vs') = Some bs'" "mset bs' = mset bs" by (rule those_mset [OF assms(3) bs(1)])
    then show ?thesis unfolding e using const_bool_mset [OF k \<open>mset bs' = mset bs\<close>] bs by simp
  next
    case 3
    then have "length vs = 2" using assms(4) const_compare_length [of k vs v]
      by (elim insertE emptyE) (auto simp: NonMemberBVConstEvaluator_def const_bool_def dest!: those_map_length
          split: list.splits cval.splits bind_splits)
    then obtain x y where "vs = [x, y]" by (auto simp: numeral_2_eq_2 length_Suc_conv)
    then have "vs' = [x, y] \<or> vs' = [y, x]" using mset_pair [of vs' x y] assms(3) by simp
    then show ?thesis using 3 assms(4) \<open>vs = [x, y]\<close>
      by (elim insertE emptyE disjE; cases x; cases y)
        (auto simp: NonMemberBVConstEvaluator_def const_compare_def const_bool_def bool_const_def xor.commute)
  next
    case 4
    then have "length vs = 1" using assms(4)
      by (elim insertE emptyE) (auto simp: NonMemberBVConstEvaluator_def const_bool_def dest!: those_map_length
          split: list.splits cval.splits bind_splits)
    then obtain x where "vs = [x]" by (auto simp: length_Suc_conv)
    then show ?thesis using assms(3,4) by simp
  qed
qed

lemma boolean_widths: "GetType n = BOOLEAN_TYPE \<longleftrightarrow> GetIndexWidth n = 0 \<and> GetValueWidth n = 0"
  by (simp add: GetType_def)

lemma sorted_wf:
  assumes "node_wf (Interior k iw vw cs)" "isCommutative k"
  shows "node_wf (Interior k iw vw (SortByArith num cs))"
proof -
  have w: "list_all node_wf cs" "BVTypeCheck (Interior k iw vw cs)" "node_sort k iw vw cs" using assms(1) by simp_all
  consider "k \<in> {BVOR, BVAND, BVXOR, BVNAND, BVNOR, BVXNOR, BVPLUS, BVMULT, ANDF, ORF, NAND, NOR, XORF, IFF}" | "k = EQ"
    | "k \<in> {BVNEG, NOTF, BVUMINUS}"
    using assms(2) by (auto simp: isCommutative_def)
  then show ?thesis
  proof cases
    case 1
    then show ?thesis using w by (elim insertE emptyE) (simp_all add: check_defs boolean_widths)
  next
    case 2
    then obtain x y where cs: "cs = [x, y]" using w(2) by (auto simp: check_defs split: list.splits)
    then have "SortByArith num cs = [x, y] \<or> SortByArith num cs = [y, x]" using mset_pair [of "SortByArith num cs"] by simp
    then show ?thesis using w by (elim disjE) (simp_all add: 2 cs check_defs boolean_widths)
  next
    case 3
    then obtain x where "cs = [x]" using w(2) by (elim insertE emptyE) (auto simp: check_defs length_Suc_conv)
    then show ?thesis using assms(1) by simp
  qed
qed

lemma sorted_eval:
  assumes "isCommutative k" "k \<noteq> ANDF" "node_eval z \<mu> (Interior k iw vw cs) = Some v"
  shows "node_eval z \<mu> (Interior k iw vw (SortByArith num cs)) = Some v"
proof -
  have "k \<noteq> READ" "k \<noteq> WRITE" using assms(1) by (auto simp: isCommutative_def)
  then have e: "node_eval z \<mu> (Interior k iw vw xs) = those (map (node_eval z \<mu>) xs) \<bind> NonMemberBVConstEvaluator z k vw" for xs
    by (cases k) simp_all
  obtain vs where vs: "those (map (node_eval z \<mu>) cs) = Some vs" "NonMemberBVConstEvaluator z k vw vs = Some v"
    using assms(3) unfolding e by (auto split: bind_splits)
  obtain vs' where "those (map (node_eval z \<mu>) (SortByArith num cs)) = Some vs'" "mset vs' = mset vs"
    by (rule those_mset [OF mset_SortByArith vs(1)])
  then show ?thesis unfolding e using const_eval_commutative [OF assms(1,2) _ vs(2)] by simp
qed

lemma double_negation:
  assumes "node_wf (Interior NOTF iw vw [Interior NOTF iw' vw' [c]])"
  shows "node_wf c" "GetIndexWidth c = iw" "GetValueWidth c = vw"
    "node_eval z \<mu> (Interior NOTF iw vw [Interior NOTF iw' vw' [c]]) = Some v \<Longrightarrow> node_eval z \<mu> c = Some v"
proof -
  show "node_wf c" "GetIndexWidth c = iw" "GetValueWidth c = vw"
    using assms by (simp_all add: check_defs boolean_widths)
  assume "node_eval z \<mu> (Interior NOTF iw vw [Interior NOTF iw' vw' [c]]) = Some v"
  then show "node_eval z \<mu> c = Some v"
    by (cases "node_eval z \<mu> c") (auto simp: NonMemberBVConstEvaluator_def bool_const_def const_bool_def split: cval.splits)
qed

lemma hashing_wf:
  assumes "node_wf n"
  shows "node_wf (HashingNodeFactory num n) \<and> GetIndexWidth (HashingNodeFactory num n) = GetIndexWidth n
    \<and> GetValueWidth (HashingNodeFactory num n) = GetValueWidth n
    \<and> (node_eval z \<mu> n = Some v \<longrightarrow> node_eval z \<mu> (HashingNodeFactory num n) = Some v)"
proof (cases n)
  case (Interior k iw vw cs)
  show ?thesis
  proof (cases "k = NOTF \<and> GetKind (hd cs) = NOTF")
    case True
    then obtain d where cs: "cs = [d]" using assms by (auto simp: Interior check_defs length_Suc_conv)
    moreover from True have "GetKind d = NOTF" by (simp add: cs)
    then obtain iw' vw' cs' where d: "d = Interior NOTF iw' vw' cs'" by (cases d) auto
    then obtain c where "cs' = [c]" using assms by (auto simp: Interior cs True check_defs length_Suc_conv)
    ultimately have n: "n = Interior NOTF iw vw [Interior NOTF iw' vw' [c]]" using Interior True d by simp
    have "HashingNodeFactory num n = c" by (simp add: n HashingNodeFactory_def)
    then show ?thesis using double_negation(1-3) [OF assms [unfolded n]] double_negation(4) [OF assms [unfolded n], of z \<mu> v]
      unfolding n by (simp del: node_wf.simps node_eval.simps)
  next
    case False
    then have h: "HashingNodeFactory num n = Interior k iw vw (if isCommutative k \<and> k \<noteq> ANDF then SortByArith num cs else cs)"
      unfolding Interior HashingNodeFactory_def by auto
    show ?thesis
    proof (cases "isCommutative k \<and> k \<noteq> ANDF")
      case True
      then show ?thesis using sorted_wf [OF assms [unfolded Interior], of num] sorted_eval [of k z \<mu> iw vw cs v num]
        unfolding h unfolding Interior by (simp del: node_wf.simps node_eval.simps)
    next
      case False
      then show ?thesis using assms unfolding h unfolding Interior by (simp only: if_False) simp
    qed
  qed
qed (use assms in \<open>simp_all add: HashingNodeFactory_def\<close>)

interpretation hashing: node_factory "HashingNodeFactory num"
  using hashing_wf by unfold_locales blast+

subsection \<open>Properties\<close>

lemma smod_sem:
  assumes "0 < w" "0 \<le> a" "a < 2 ^ w" "0 \<le> b" "b < 2 ^ w" "b \<noteq> 0"
  shows "const_smod z w [CBV w a, CBV w b] = Some (CBV w ((sgn_val w a mod sgn_val w b) mod 2 ^ w))"
proof -
  define A B where "A = \<bar>sgn_val w a\<bar>" and "B = \<bar>sgn_val w b\<bar>"
  note na = sign_magnitude [OF assms(1-3)] and nb = sign_magnitude [OF assms(1,4,5)]
  have AB: "0 \<le> A" "A < 2 ^ w" "0 < B" "B < 2 ^ w" using na(3) nb(3) assms by (auto simp: A_def B_def sgn_val_def)
  have r: "0 \<le> A mod B" "A mod B < B" "A mod B < 2 ^ w"
    using AB pos_mod_bound [of B A] pos_mod_sign [of B A] by linarith+
  have neg: "(- (A mod B)) mod 2 ^ w = (if A mod B = 0 then 0 else 2 ^ w - A mod B)"
    using r by (simp add: zmod_zminus1_eq_if mod_pos_pos_trivial)
  have ra: "sgn_val w a < 0 \<Longrightarrow> BitVector_Negate w a = A" "\<not> sgn_val w a < 0 \<Longrightarrow> a = A"
    and rb: "sgn_val w b < 0 \<Longrightarrow> BitVector_Negate w b = B" "\<not> sgn_val w b < 0 \<Longrightarrow> b = B"
    using na nb by (auto simp: A_def B_def)
  have b: "b = (if sgn_val w b < 0 then 2 ^ w - B else B)" using assms(4,5) by (auto simp: B_def sgn_val_def)
  note defs = const_smod_def BitVector_Div_Pos_def na(2) nb(2) Let_def
  consider (nn) "sgn_val w a < 0" "sgn_val w b < 0" | (np) "sgn_val w a < 0" "\<not> sgn_val w b < 0"
    | (pn) "\<not> sgn_val w a < 0" "sgn_val w b < 0" | (pp) "\<not> sgn_val w a < 0" "\<not> sgn_val w b < 0" by blast
  then show ?thesis
  proof cases
    case nn
    have "sgn_val w a mod sgn_val w b = - (A mod B)" using nn by (simp add: A_def B_def)
    then show ?thesis using nn AB(3) assms(6) by (simp add: defs ra(1) rb(1)) (simp add: BitVector_Negate_def)
  next
    case np
    have B: "b = B" using rb(2) np by simp
    have "sgn_val w a mod sgn_val w b = (if A mod B = 0 then 0 else B - A mod B)"
      using np zmod_zminus1_eq_if [of A B] AB(3) by (simp add: A_def B_def)
    moreover have "(2 ^ w - A mod B + B) mod 2 ^ w = (B - A mod B) mod 2 ^ w"
      using mod_add_self1 [of "2 ^ w" "B - A mod B"] by (simp add: algebra_simps)
    moreover have "const_smod z w [CBV w a, CBV w b] =
        Some (CBV w (let remb = BitVector_Negate w (A mod b) in if remb = 0 then 0 else (remb + b) mod 2 ^ w))"
      using np assms(6) by (simp add: defs ra(1))
    ultimately show ?thesis using r by (auto simp: B BitVector_Negate_def neg Let_def)
  next
    case pn
    have A: "a = A" using ra(2) pn by simp
    have "sgn_val w a mod sgn_val w b = (if A mod B = 0 then 0 else A mod B - B)"
      using pn zmod_zminus2_eq_if [of A B] AB(3) by (simp add: A_def B_def)
    moreover have "(A mod B + (2 ^ w - B)) mod 2 ^ w = (A mod B - B) mod 2 ^ w"
      using mod_add_self1 [of "2 ^ w" "A mod B - B"] by (simp add: algebra_simps)
    moreover have "const_smod z w [CBV w a, CBV w b] = Some (CBV w (if a mod B = 0 then 0 else (a mod B + b) mod 2 ^ w))"
      using pn AB(3) assms(6) by (simp add: defs rb(1))
    ultimately show ?thesis using b pn by (simp add: A)
  next
    case pp
    have "sgn_val w a = a" "sgn_val w b = b" using pp ra(2) rb(2) by (auto simp: A_def B_def)
    moreover have "const_smod z w [CBV w a, CBV w b] = Some (CBV w (a mod b))" using pp assms(6) by (simp add: defs)
    moreover have "a mod b mod 2 ^ w = a mod b" using r ra(2) rb(2) pp by (simp add: mod_pos_pos_trivial)
    ultimately show ?thesis by simp
  qed
qed

text \<open>
  signed division in the solver. On constants of width \<open>w\<close> the evaluator computes, for a divisor
  that is not zero, the quotient and the remainder of the two's complement numbers rounded
  towards zero and the modulus rounded towards negative infinity, whatever the option for
  divisions by zero.
\<close>

theorem stp_signed_division:
  assumes "0 < w" "0 \<le> a \<and> a < 2 ^ w" "0 \<le> b \<and> b < 2 ^ w" "b \<noteq> 0"
  shows "NonMemberBVConstEvaluator z SBVDIV w [CBV w a, CBV w b] = Some (CBV w ((sgn_val w a sdiv sgn_val w b) mod 2 ^ w))
    \<and> NonMemberBVConstEvaluator z SBVREM w [CBV w a, CBV w b] = Some (CBV w ((sgn_val w a smod sgn_val w b) mod 2 ^ w))
    \<and> NonMemberBVConstEvaluator z SBVMOD w [CBV w a, CBV w b] = Some (CBV w ((sgn_val w a mod sgn_val w b) mod 2 ^ w))"
  using assms BitVector_Divide_sem [of w a b] smod_sem [of w a b]
  by (simp add: NonMemberBVConstEvaluator_def const_sdiv_def)

theorem stp_signed_division_witness:
  "NonMemberBVConstEvaluator False SBVMOD 8 [CBV 8 246, CBV 8 3] = Some (CBV 8 2)
    \<and> NonMemberBVConstEvaluator False SBVREM 8 [CBV 8 246, CBV 8 3] = Some (CBV 8 255)"
  using stp_signed_division [of 8 246 3 False] by (simp add: sgn_val_def signed_modulo_int_def)

text \<open>
  C17: the hashing node factory. For every numbering of the nodes, the node that the factory
  returns for a well-typed request is well typed, has the widths of the request and its value for
  all contents of the arrays.
\<close>

theorem hashing_factory_correct:
  assumes "node_wf n"
  shows "node_wf (HashingNodeFactory num n) \<and> GetType (HashingNodeFactory num n) = GetType n
    \<and> GetValueWidth (HashingNodeFactory num n) = GetValueWidth n
    \<and> (node_eval z \<mu> n = Some v \<longrightarrow> node_eval z \<mu> (HashingNodeFactory num n) = Some v)"
  using assms hashing.nf_wf hashing.nf_iw hashing.nf_vw hashing.nf_eval by (simp add: GetType_def)

theorem hashing_factory_correct_witness:
  "node_eval False (\<lambda>s i. 0) (HashingNodeFactory (\<lambda>n. 0) (Interior BVPLUS 0 8 [BVConst 8 1, BVConst 8 255])) = Some (CBV 8 0)"
proof -
  have "node_wf (Interior BVPLUS 0 8 [BVConst 8 1, BVConst 8 255])" by (simp add: check_defs GetType_def)
  moreover have "node_eval False (\<lambda>s i. 0) (Interior BVPLUS 0 8 [BVConst 8 1, BVConst 8 255]) = Some (CBV 8 0)"
    by (simp add: NonMemberBVConstEvaluator_def const_nary_def bv_const_def)
  ultimately show ?thesis using hashing_factory_correct by blast
qed

end
