(* ===== verification/ConstantDivision.thy ===== *)
theory ConstantDivision
  imports Bits
begin

text \<open>
  Multiplication and division by constants, \<^verbatim>\<open>lib/Solver/ConstantDivision.cpp\<close>: the constants with
  which a product is computed from shifts, sums and differences, and those with which a 32-bit
  division is computed from a product and shifts.

  The code shifts a 32-bit number by 32 for divisors above \<open>2 ^ 31\<close>, which the language leaves
  undefined. The argument \<open>undef_shl\<close> of the model is what the compiled code computes there; the
  shifted number is 0 in that case, and the results only need that it stays 0.
\<close>

subsection \<open>Bit counting\<close>

definition ones :: "uint32_t \<Rightarrow> uint32_t" where
  "ones x =
    (let x = x - (drop_bit 1 x AND 0x55555555);
         x = (drop_bit 2 x AND 0x33333333) + (x AND 0x33333333);
         x = (drop_bit 4 x + x) AND 0x0f0f0f0f;
         x = x + drop_bit 8 x;
         x = x + drop_bit 16 x
     in x AND 0x0000003f)"

definition smear :: "uint32_t \<Rightarrow> uint32_t" where
  "smear x =
    (let x = x OR drop_bit 1 x;
         x = x OR drop_bit 2 x;
         x = x OR drop_bit 4 x;
         x = x OR drop_bit 8 x
     in x OR drop_bit 16 x)"

definition ldz :: "uint32_t \<Rightarrow> uint32_t" where
  "ldz x = 32 - ones (smear x)"

definition LOG2_CEIL :: "uint32_t \<Rightarrow> uint32_t" where
  "LOG2_CEIL x = 32 - ldz (x - 1)"

definition shl32 :: "(uint32_t \<Rightarrow> int \<Rightarrow> uint32_t) \<Rightarrow> uint32_t \<Rightarrow> int \<Rightarrow> uint32_t" where
  "shl32 undef_shl x n = (if 0 \<le> n \<and> n < 32 then push_bit (nat n) x else undef_shl x n)"

definition shl_keeps_zero :: "(uint32_t \<Rightarrow> int \<Rightarrow> uint32_t) \<Rightarrow> bool" where
  "shl_keeps_zero undef_shl \<longleftrightarrow> (\<forall>n. undef_shl 0 n = 0)"

definition exp_base_2 :: "(uint32_t \<Rightarrow> int \<Rightarrow> uint32_t) \<Rightarrow> int \<Rightarrow> uint32_t" where
  "exp_base_2 undef_shl n =
    (let x = NOT (word_of_int n) AND word_of_int (n - 32); x = drop_bit 31 x in shl32 undef_shl x n)"

subsection \<open>Multiplication\<close>

text \<open>One iteration of the loop, on the variables \<open>x\<close>, \<open>add\<close> and \<open>sub\<close>.\<close>

definition mult_step :: "uint64_t \<times> uint64_t \<times> uint64_t \<Rightarrow> uint64_t \<times> uint64_t \<times> uint64_t" where
  "mult_step = (\<lambda>(x, add, sub).
    let low = indexOfRightmostBit x;
        lowbit = push_bit low 1;
        p = x + lowbit;
        q = isolateRightmostBit p;
        high = (if q \<noteq> 0 then indexOfSingleBit q else 64);
        (add, sub) =
          (if high = low + 1 then (add OR lowbit, sub)
           else
             let (add, sub) =
               (if low \<noteq> 0 \<and> add AND drop_bit 1 lowbit \<noteq> 0
                then (add XOR drop_bit 1 lowbit, sub XOR drop_bit 1 lowbit)
                else (add, sub OR lowbit))
             in (if high \<noteq> 64 then add OR push_bit high 1 else add, sub))
    in (p XOR q, add, sub))"

subsection \<open>Division\<close>

definition TWO_TO_THE_32 :: uint64_t where
  "TWO_TO_THE_32 = push_bit 32 1"

text \<open>A divisor of 0 divides by zero.\<close>

definition ComputeUDivConstants32 ::
  "(uint32_t \<Rightarrow> int \<Rightarrow> uint32_t) \<Rightarrow> uint32_t \<Rightarrow> (uint32_t \<times> uint32_t \<times> uint32_t) may_abort" where
  "ComputeUDivConstants32 undef_shl d =
    (let l = sint (LOG2_CEIL d);
         mid = exp_base_2 undef_shl l - d
     in if d = 0 then None
        else Some (ucast (TWO_TO_THE_32 * ucast mid div ucast d + 1),
                   word_of_int (min l 1), word_of_int (max (l - 1) 0)))"

definition ComputeSDivConstants32 ::
  "(uint32_t \<Rightarrow> int \<Rightarrow> uint32_t) \<Rightarrow> uint32_t \<Rightarrow> (uint32_t \<times> uint32_t \<times> uint32_t) may_abort" where
  "ComputeSDivConstants32 undef_shl d =
    (let abs_d = word_of_int \<bar>sint d\<bar> :: uint64_t;
         l = sint (max 1 (LOG2_CEIL (ucast abs_d)));
         l = (if abs_d = push_bit 31 1 then 31 else l);
         mid = exp_base_2 undef_shl (l - 1)
     in if abs_d = 0 then None
        else let m = TWO_TO_THE_32 * ucast mid div abs_d + 1
          in Some (ucast (m - TWO_TO_THE_32), signed_drop_bit 31 d, word_of_int (l - 1)))"

subsection \<open>Runs of ones\<close>

lemma pow2_odd_factor: "0 < (n::nat) \<Longrightarrow> \<exists>i m. n = 2 ^ i * (2 * m + 1)"
proof (induction n rule: less_induct)
  case (less n)
  show ?case
  proof (cases "even n")
    case True
    then obtain k where k: "n = 2 * k" by blast
    then obtain i m where "k = 2 ^ i * (2 * m + 1)" using less by fastforce
    then have "n = 2 ^ Suc i * (2 * m + 1)" using k by simp
    then show ?thesis by blast
  next
    case False
    then obtain m where "n = 2 * m + 1" by (rule oddE)
    then have "n = 2 ^ 0 * (2 * m + 1)" by simp
    then show ?thesis by blast
  qed
qed

lemma bit_unat: "bit (x :: 'a::len word) i \<longleftrightarrow> odd (unat x div 2 ^ i)"
proof -
  have "bit (unat x) i = bit x i" by (simp add: bit_unsigned_iff)
  then show ?thesis by (simp add: bit_iff_odd)
qed

lemma word_lowest_bit:
  assumes "unat (x :: 'a::len word) = 2 ^ i * (2 * m + 1)"
  shows "bit x i" "\<forall>j<i. \<not> bit x j"
proof -
  show "bit x i" using assms by (simp add: bit_unat)
  show "\<forall>j<i. \<not> bit x j"
  proof (intro allI impI)
    fix j assume "j < i"
    then have "(2::nat) ^ i = 2 ^ j * (2 * 2 ^ (i - j - 1))"
      by (simp flip: power_Suc power_add)
    then have "unat x div 2 ^ j = 2 * (2 ^ (i - j - 1) * (2 * m + 1))"
      using assms by (simp add: mult.assoc)
    then show "\<not> bit x j" by (simp add: bit_unat)
  qed
qed

text \<open>The lowest run of ones of \<open>x\<close>: from bit \<open>low\<close> up to and without bit \<open>low + k\<close>.\<close>

lemma run_of_ones:
  assumes "(x :: uint64_t) \<noteq> 0"
  obtains low k y where "0 < k" "low + k \<le> 64" "unat x + 2 ^ low = 2 ^ (low + k) * (2 * y + 1)"
    "unat x = 2 ^ low * (2 * (2 ^ (k - 1) * (2 * y + 1) - 1) + 1)" "low + k = 64 \<longrightarrow> y = 0"
proof -
  have "0 < unat x" using assms by (simp add: unat_gt_0)
  then obtain low m where m: "unat x = 2 ^ low * (2 * m + 1)" using pow2_odd_factor by blast
  obtain k' y where y: "m + 1 = 2 ^ k' * (2 * y + 1)" using pow2_odd_factor [of "m + 1"] by auto
  define k where "k = k' + 1"
  have k: "2 * m + 2 = 2 ^ k * (2 * y + 1)" using y by (simp add: k_def)
  have sum: "unat x + 2 ^ low = 2 ^ (low + k) * (2 * y + 1)"
  proof -
    have "unat x + 2 ^ low = 2 ^ low * (2 * m + 2)" using m by (simp add: algebra_simps)
    then show ?thesis unfolding k by (simp add: power_add algebra_simps)
  qed
  have lt: "unat x < 2 ^ 64" using unsigned_less [of x] by simp
  have low: "low < 64"
  proof (rule ccontr)
    assume "\<not> low < 64"
    then have "(2::nat) ^ 64 \<le> 2 ^ low" by (intro power_increasing) auto
    also have "\<dots> \<le> unat x" using m by simp
    finally show False using lt by simp
  qed
  have less: "2 ^ (low + k) * (2 * y + 1) < 2 ^ 64 + 2 ^ low" using sum lt by linarith
  have le: "low + k \<le> 64"
  proof (rule ccontr)
    assume "\<not> low + k \<le> 64"
    then have "(2::nat) ^ 65 \<le> 2 ^ (low + k)" by (intro power_increasing) auto
    also have "\<dots> \<le> 2 ^ (low + k) * (2 * y + 1)" by simp
    finally have "(2::nat) ^ 65 < 2 ^ 64 + 2 ^ low" using less by linarith
    moreover have "(2::nat) ^ low \<le> 2 ^ 63" using low by (intro power_increasing) auto
    ultimately show False by simp
  qed
  have y0: "low + k = 64 \<longrightarrow> y = 0"
  proof
    assume e: "low + k = 64"
    have "(2::nat) ^ low \<le> 2 ^ 63" using low by (intro power_increasing) auto
    then have "2 ^ 64 * (2 * y + 1) < 2 ^ 64 + (2::nat) ^ 64" using less e by simp
    then show "y = 0" by simp
  qed
  have "m = 2 ^ (k - 1) * (2 * y + 1) - 1" using y by (simp add: k_def)
  then show ?thesis using that [of k low y] le sum y0 m by (simp add: k_def)
qed

lemma plus_or: "(a :: 'a::len word) AND b = 0 \<Longrightarrow> a OR b = a + b"
  using word_plus_and_or [of a b] by simp

lemma xor_diff: "a AND b = b \<Longrightarrow> a XOR b = a - (b :: 'a::len word)"
proof -
  assume b: "a AND b = b"
  have bits: "bit b n \<Longrightarrow> bit a n" for n using arg_cong [OF b, of "\<lambda>w. bit w n"] by (simp add: bit_simps)
  have "(a XOR b) AND b = 0" "(a XOR b) OR b = a"
    by (rule bit_word_eqI; use bits in \<open>auto simp: bit_simps\<close>)+
  then
  have "(a XOR b) + b = a" using plus_or [of "a XOR b" b] by simp
  then show ?thesis by (simp add: algebra_simps)
qed

lemma xor_plus: "(a :: 'a::len word) AND b = 0 \<Longrightarrow> a XOR b = a + b"
proof -
  assume b: "a AND b = 0"
  have "\<not> (bit a n \<and> bit b n)" for n using arg_cong [OF b, of "\<lambda>w. bit w n"] by (simp add: bit_simps)
  then have "a XOR b = a OR b" by (intro bit_word_eqI) (auto simp: bit_simps)
  then show ?thesis using plus_or [OF b] by simp
qed

lemma bits_below: "unat (a :: 'a::len word) < 2 ^ L \<Longrightarrow> bit a i \<Longrightarrow> i < L"
  unfolding unat_less_pow2_iff by (metis bit_take_bit_iff)

lemma bits_below_iff: "unat (a :: 'a::len word) < 2 ^ L \<longleftrightarrow> (\<forall>i. bit a i \<longrightarrow> i < L)"
  unfolding unat_less_pow2_iff by (metis bit_eqI bit_take_bit_iff)

text \<open>What the step does with the lowest run of ones.\<close>

lemma mult_step_run:
  fixes x add sub :: uint64_t
  assumes "0 < k" "low + k \<le> 64" "unat x + 2 ^ low = 2 ^ (low + k) * (2 * y + 1)"
    "unat x = 2 ^ low * (2 * (2 ^ (k - 1) * (2 * y + 1) - 1) + 1)" "low + k = 64 \<longrightarrow> y = 0"
  defines "lowbit \<equiv> push_bit low (1 :: uint64_t)" and "x' \<equiv> fst (mult_step (x, add, sub))"
  shows "indexOfRightmostBit x = low" "bit x low"
    and "low + k < 64 \<Longrightarrow> isolateRightmostBit (x + lowbit) = push_bit (low + k) 1 \<and>
      indexOfSingleBit (isolateRightmostBit (x + lowbit)) = low + k"
    and "low + k = 64 \<Longrightarrow> isolateRightmostBit (x + lowbit) = 0"
    and "unat x' = 2 ^ (low + k + 1) * y"
    and "low + k < 64 \<Longrightarrow> x' = x + lowbit - push_bit (low + k) 1" "low + k = 64 \<Longrightarrow> x' = x + lowbit"
proof -
  have low: "low < 64" using assms(1,2) by simp
  have bx: "bit x low" "\<forall>j<low. \<not> bit x j" using word_lowest_bit [OF assms(4)] by auto
  show ix: "indexOfRightmostBit x = low" "bit x low" using indexOfRightmostBit_eq [OF bx] bx by auto
  have lb: "unat lowbit = 2 ^ low" unfolding lowbit_def by (rule single_bit_word_unat) (use low in simp)
  have p: "unat (x + lowbit) = (2 ^ (low + k) * (2 * y + 1)) mod 2 ^ 64"
    using assms(3) by (simp add: unat_word_ariths lb)
  have x'_eq: "x' = (x + lowbit) XOR isolateRightmostBit (x + lowbit)"
    by (simp add: x'_def mult_step_def ix Let_def lowbit_def split_def)
  show full: "isolateRightmostBit (x + lowbit) = 0" if "low + k = 64"
  proof -
    have "unat (x + lowbit) = 0" using p that by simp
    then have "x + lowbit = 0" by (simp add: unat_eq_0)
    then show ?thesis by (simp add: isolateRightmostBit_def)
  qed
  have small: "unat (x + lowbit) = 2 ^ (low + k) * (2 * y + 1)" if "low + k < 64"
  proof -
    have "2 ^ (low + k) * (2 * y + 1) < 2 ^ 64"
    proof (rule ccontr)
      assume n: "\<not> ?thesis"
      have "unat x < 2 ^ 64" using unsigned_less [of x] by simp
      then have "2 ^ (low + k) * (2 * y + 1) < 2 ^ 64 + 2 ^ low" using assms(3) by linarith
      moreover have e: "(2::nat) ^ 64 = 2 ^ (low + k) * 2 ^ (64 - (low + k))"
        using assms(2) by (simp flip: power_add)
      moreover have "(2::nat) ^ low \<le> 2 ^ (low + k)" by simp
      ultimately have "2 ^ (low + k) * (2 * y + 1) < 2 ^ (low + k) * 2 ^ (64 - (low + k)) + 2 ^ (low + k)"
        by linarith
      then have "2 ^ (low + k) * (2 * y + 1) < 2 ^ (low + k) * (2 ^ (64 - (low + k)) + 1)"
        by (simp only: distrib_left mult_1_right)
      then have "2 * y + 1 < 2 ^ (64 - (low + k)) + 1" by simp
      moreover have "(2::nat) ^ (low + k) * 2 ^ (64 - (low + k)) \<le> 2 ^ (low + k) * (2 * y + 1)"
        using n e by linarith
      then have "(2::nat) ^ (64 - (low + k)) \<le> 2 * y + 1" by (rule mult_left_le_imp_le) simp
      ultimately have "2 * y + 1 = 2 ^ (64 - (low + k))" by simp
      moreover have "even ((2::nat) ^ (64 - (low + k)))" using that by simp
      ultimately show False by (metis even_plus_one_iff dvd_triv_left)
    qed
    then show ?thesis using p by simp
  qed
  show iso: "isolateRightmostBit (x + lowbit) = push_bit (low + k) 1 \<and>
      indexOfSingleBit (isolateRightmostBit (x + lowbit)) = low + k" if "low + k < 64"
    using isolateRightmostBit_eq [OF word_lowest_bit [OF small [OF that]]] indexOfSingleBit_push_bit [OF that] by simp
  show x1: "x' = x + lowbit - push_bit (low + k) 1" if "low + k < 64"
  proof -
    have "(x + lowbit) AND push_bit (low + k) 1 = push_bit (low + k) 1"
      using word_lowest_bit(1) [OF small [OF that]] by (intro bit_word_eqI) (auto simp: bit_simps)
    then show ?thesis using iso [OF that] xor_diff x'_eq by metis
  qed
  show x2: "x' = x + lowbit" if "low + k = 64" using x'_eq full [OF that] by simp
  show "unat x' = 2 ^ (low + k + 1) * y"
  proof (cases "low + k < 64")
    case True
    have q: "unat (push_bit (low + k) 1 :: uint64_t) = 2 ^ (low + k)"
      by (rule single_bit_word_unat) (use True in simp)
    have "unat x' = unat (x + lowbit) - unat (push_bit (low + k) 1 :: uint64_t)"
      unfolding x1 [OF True] using small [OF True] q by (intro unat_sub) (simp add: word_le_nat_alt)
    then show ?thesis using small [OF True] q by simp
  next
    case False
    then have "low + k = 64" using assms(2) by simp
    moreover have "unat (x + lowbit) = 0" using p calculation by simp
    ultimately show ?thesis using x2 assms(5) by simp
  qed
qed

text \<open>
  The loop ends because the part of \<open>x\<close> that is left gets smaller: the run of ones is removed.
\<close>

lemma mult_step_decreases:
  assumes "x \<noteq> 0"
  shows "unat (fst (mult_step (x, add, sub))) < unat x"
  using run_of_ones [OF assms]
proof cases
  case (1 low k y)
  have "unat (fst (mult_step (x, add, sub))) + 2 ^ (low + k) = unat x + 2 ^ low"
    using mult_step_run(5) [OF 1, of add sub] 1(3) by (simp add: algebra_simps)
  moreover have "(2::nat) ^ low < 2 ^ (low + k)" using 1(1) by simp
  ultimately show ?thesis by linarith
qed

function mult_loop :: "uint64_t \<times> uint64_t \<times> uint64_t \<Rightarrow> uint64_t \<times> uint64_t" where
  "mult_loop (x, add, sub) = (if x = 0 then (add, sub) else mult_loop (mult_step (x, add, sub)))"
  by pat_completeness auto
termination by (relation "measure (\<lambda>(x, add, sub). unat x)")
    (use mult_step_decreases in \<open>auto simp: split_def\<close>)

declare mult_loop.simps [simp del]

definition ComputeMultConstants64 :: "uint64_t \<Rightarrow> (uint64_t \<times> uint64_t) may_abort" where
  "ComputeMultConstants64 multiplicand =
    (let (add, sub) = mult_loop (multiplicand, 0, 0) in
     do { assert_that (multiplicand = add - sub); Some (add, sub) })"

text \<open>The invariant of the loop: all bits of \<open>add\<close> and \<open>sub\<close> are below those of \<open>x\<close>, and they are disjoint.\<close>

definition mult_inv :: "uint64_t \<Rightarrow> uint64_t \<times> uint64_t \<times> uint64_t \<Rightarrow> bool" where
  "mult_inv m = (\<lambda>(x, add, sub). add - sub + x = m \<and> add AND sub = 0 \<and>
    (\<exists>L \<le> 64. 2 ^ L dvd unat x \<and> unat add < 2 ^ L \<and> unat sub < 2 ^ L))"

lemma even_below_dvd:
  assumes "2 ^ L dvd (n::nat)" "i < L"
  shows "even (n div 2 ^ i)"
proof -
  obtain z where "n = 2 ^ L * z" using assms(1) by blast
  moreover have "(2::nat) ^ L = 2 ^ i * (2 * 2 ^ (L - i - 1))"
    using assms(2) by (simp flip: power_Suc power_add)
  ultimately have "n div 2 ^ i = 2 * (2 ^ (L - i - 1) * z)" by (simp add: mult.assoc)
  then show ?thesis by simp
qed

text \<open>The step with the bounds of the run made explicit; a bit at position 64 is 0.\<close>

lemma mult_step_eq:
  fixes x add sub :: uint64_t
  assumes "0 < k" "low + k \<le> 64" "unat x + 2 ^ low = 2 ^ (low + k) * (2 * y + 1)"
    "unat x = 2 ^ low * (2 * (2 ^ (k - 1) * (2 * y + 1) - 1) + 1)" "low + k = 64 \<longrightarrow> y = 0"
  defines "lb \<equiv> push_bit low (1 :: uint64_t)" and "hb \<equiv> push_bit (low + k) (1 :: uint64_t)"
  shows "mult_step (x, add, sub) = (x + lb - hb,
    if k = 1 then (add OR lb, sub)
    else if low \<noteq> 0 \<and> add AND drop_bit 1 lb \<noteq> 0 then ((add XOR drop_bit 1 lb) OR hb, sub XOR drop_bit 1 lb)
    else (add OR hb, sub OR lb))"
proof -
  note run = mult_step_run(1-4) [OF assms(1-5)] mult_step_run(6,7) [OF assms(1-5), of add sub]
  have hb64: "hb = 0" if "low + k = 64" using that by (simp add: hb_def push_bit_eq_mult)
  have q: "isolateRightmostBit (x + lb) = hb" "(if hb \<noteq> 0 then indexOfSingleBit hb else 64) = low + k"
  proof -
    show q: "isolateRightmostBit (x + lb) = hb"
      using run(3,4) assms(2) hb64 unfolding lb_def hb_def by (cases "low + k < 64") auto
    have "hb \<noteq> 0" if "low + k < 64"
    proof
      assume "hb = 0"
      moreover have "unat hb = 2 ^ (low + k)" unfolding hb_def by (rule single_bit_word_unat) (use that in simp)
      ultimately show False by simp
    qed
    then show "(if hb \<noteq> 0 then indexOfSingleBit hb else 64) = low + k"
      using run(3) q hb64 assms(2) by (cases "low + k < 64") (auto simp: lb_def)
  qed
  have x': "(x + lb) XOR hb = x + lb - hb"
    using run(5,6) hb64 assms(2) q(1) by (cases "low + k < 64")
      (auto simp: mult_step_def run(1) Let_def split_def lb_def hb_def)
  have k: "low + k = low + 1 \<longleftrightarrow> k = 1" by auto
  have top: "(if low + k \<noteq> 64 then a OR push_bit (low + k) 1 else a) = a OR hb" for a
    using hb64 unfolding hb_def [symmetric] by auto
  show ?thesis
    unfolding mult_step_def Let_def prod.case run(1) lb_def [symmetric] q x' top k
    by (cases "k = 1"; cases "low \<noteq> 0 \<and> add AND drop_bit 1 lb \<noteq> 0") (simp_all only: if_True if_False prod.case simp_thms)
qed

lemma mult_inv_step:
  assumes inv: "mult_inv m (x, add, sub)" and "x \<noteq> 0"
  shows "mult_inv m (mult_step (x, add, sub))"
  using run_of_ones [OF assms(2)]
proof cases
  case (1 low k y)
  define lb hb half where "lb = push_bit low (1 :: uint64_t)" and "hb = push_bit (low + k) (1 :: uint64_t)"
    and "half = drop_bit 1 lb"
  note step_eq = mult_step_eq [OF 1, of add sub, folded lb_def hb_def, folded half_def]
  obtain L where L: "2 ^ L dvd unat x" "unat add < 2 ^ L" "unat sub < 2 ^ L"
    and sum: "add - sub + x = m" and disj: "add AND sub = 0" using inv by (auto simp: mult_inv_def)
  have "L \<le> low"
    using even_below_dvd [OF L(1), of low] mult_step_run(2) [OF 1] by (fastforce simp: bit_unat)
  then have below: "bit add i \<Longrightarrow> i < low" "bit sub i \<Longrightarrow> i < low" for i
    using L(2,3) by (meson bits_below order_less_le_trans)+
  have disj_bits: "\<not> (bit add i \<and> bit sub i)" for i
    using arg_cong [OF disj, of "\<lambda>w. bit w i"] by (simp add: bit_simps)
  obtain x' add' sub' where step: "mult_step (x, add, sub) = (x', add', sub')" by (cases "mult_step (x, add, sub)")
  have x': "x' = x + lb - hb" and "unat x' = 2 ^ (low + k + 1) * y"
    using step_eq mult_step_run(5) [OF 1, of add sub] step by auto
  define L' where "L' = min (low + k + 1) 64"
  have dvd: "2 ^ L' dvd unat x'"
  proof (cases "low + k = 64")
    case False
    then show ?thesis using \<open>unat x' = _\<close> 1(2) by (simp add: L'_def min_def)
  qed (use \<open>unat x' = _\<close> 1(5) in simp)
  have lb: "bit lb i \<longleftrightarrow> i = low" for i using 1(1,2) by (auto simp: lb_def bit_simps)
  have hb: "bit hb i \<longleftrightarrow> i = low + k \<and> i < 64" for i by (auto simp: hb_def bit_simps)
  have below': "bit add i \<Longrightarrow> i < L'" "bit sub i \<Longrightarrow> i < L'" "low < L'" "low - 1 < L'" "low + k < 64 \<Longrightarrow> low + k < L'" for i
    using below [of i] 1(1,2) by (auto simp: L'_def)
  have nb: "\<not> bit add low" "\<not> bit sub low" "\<not> bit add (low + k)" "\<not> bit sub (low + k)" using below by fastforce+
  have "add' - sub' + x' = m \<and> add' AND sub' = 0 \<and> (\<forall>i. bit add' i \<or> bit sub' i \<longrightarrow> i < L')"
  proof -
    consider (one) "k = 1" | (opt) "k \<noteq> 1" "low \<noteq> 0" "add AND half \<noteq> 0" | (run) "k \<noteq> 1" "\<not> (low \<noteq> 0 \<and> add AND half \<noteq> 0)" by blast
    then show ?thesis
    proof cases
      case one
      then have eq: "add' = add OR lb" "sub' = sub" using step_eq step by auto
      have "add AND lb = 0" using below(1) by (intro bit_word_eqI) (auto simp: bit_and_iff lb)
      then have "add' = add + lb" using eq plus_or by metis
      moreover have "hb = lb + lb" using one by (simp add: lb_def hb_def)
      ultimately have "add' - sub' + x' = m" using sum x' eq(2) by (simp add: algebra_simps)
      then show ?thesis
        using disj_bits nb below' eq by (auto intro!: bit_word_eqI simp: bit_and_iff bit_or_iff lb)
    next
      case opt
      then have eq: "add' = (add XOR half) OR hb" "sub' = sub XOR half" using step_eq step by auto
      have half: "bit half i \<longleftrightarrow> i = low - 1" for i using opt(2) 1(1,2) by (auto simp: half_def lb_def bit_simps)
      have "bit add (low - 1)"
      proof (rule ccontr)
        assume "\<not> ?thesis"
        then have "add AND half = 0" by (intro bit_word_eqI) (auto simp: bit_and_iff half)
        then show False using opt(3) by simp
      qed
      then have "add AND half = half" "sub AND half = 0" "(add XOR half) AND hb = 0"
        using nb disj_bits 1(1) by (auto intro!: bit_word_eqI simp: bit_and_iff bit_xor_iff half hb)
      then have "add' = add - half + hb" "sub' = sub + half"
        using eq xor_diff [of add half] plus_or [of "add XOR half" hb] xor_plus [of sub half] by simp_all
      moreover have "lb = half + half"
      proof -
        have "half = push_bit (low - 1) 1" by (rule bit_word_eqI) (use half opt(2) 1 in \<open>auto simp: bit_simps\<close>)
        moreover have "lb = push_bit (Suc (low - 1)) 1" using opt(2) by (simp add: lb_def)
        ultimately show ?thesis by simp
      qed
      ultimately have "add' - sub' + x' = add - sub + x" using x' by (simp only:) simp
      then have "add' - sub' + x' = m" using sum by simp
      then show ?thesis
        using disj_bits nb below' eq \<open>bit add (low - 1)\<close> 1(1)
        by (auto intro!: bit_word_eqI simp: bit_and_iff bit_or_iff bit_xor_iff half hb)
    next
      case run
      then have eq: "add' = add OR hb" "sub' = sub OR lb" using step_eq step by auto
      have "add AND hb = 0" "sub AND lb = 0"
        using nb by (auto intro!: bit_word_eqI simp: bit_and_iff lb hb)
      then have "add' = add + hb" "sub' = sub + lb" using eq plus_or by metis+
      then have "add' - sub' + x' = m" using sum x' by (simp add: algebra_simps)
      then show ?thesis
        using disj_bits nb below' eq 1(1) by (auto intro!: bit_word_eqI simp: bit_and_iff bit_or_iff lb hb)
    qed
  qed
  then have "mult_inv m (x', add', sub')"
    using dvd by (auto simp: mult_inv_def bits_below_iff L'_def intro!: exI [of _ L'])
  then show ?thesis using step by simp
qed

lemma mult_loop_inv:
  assumes "mult_inv m s"
  shows "mult_inv m (0, mult_loop s)"
  using assms
proof (induction s rule: mult_loop.induct)
  case (1 x add sub)
  show ?case
  proof (cases "x = 0")
    case False
    then show ?thesis
      using 1 mult_inv_step [OF 1(2) False] by (simp add: mult_loop.simps [of x])
  qed (use 1 in \<open>simp add: mult_loop.simps [of 0]\<close>)
qed

lemma ComputeMultConstants64_ok:
  "\<exists>add sub. ComputeMultConstants64 m = Some (add, sub) \<and> m = add - sub \<and> add AND sub = 0"
proof -
  have "mult_inv m (0, mult_loop (m, 0, 0))"
    by (rule mult_loop_inv) (auto simp: mult_inv_def intro!: exI [of _ 0])
  then show ?thesis by (auto simp: ComputeMultConstants64_def mult_inv_def split: prod.split)
qed

subsection \<open>The logarithm\<close>

lemma smear_step:
  assumes "\<And>n. bit (y :: uint32_t) n \<longleftrightarrow> (\<exists>j<t. bit x (n + j))"
  shows "bit (y OR drop_bit t y) n \<longleftrightarrow> (\<exists>j<2 * t. bit (x :: uint32_t) (n + j))"
proof -
  have "bit (y OR drop_bit t y) n \<longleftrightarrow> (\<exists>j<t. bit x (n + j)) \<or> (\<exists>j<t. bit x (t + n + j))"
    by (simp add: bit_or_iff bit_drop_bit_eq assms)
  also have "\<dots> \<longleftrightarrow> (\<exists>j<2 * t. bit x (n + j))"
  proof
    assume "\<exists>j<2 * t. bit x (n + j)"
    then obtain j where j: "j < 2 * t" "bit x (n + j)" by blast
    show "(\<exists>j<t. bit x (n + j)) \<or> (\<exists>j<t. bit x (t + n + j))"
    proof (cases "j < t")
      case False
      then have "j - t < t" "bit x (t + n + (j - t))" using j by (auto simp: algebra_simps)
      then show ?thesis by blast
    qed (use j in blast)
  next
    assume "(\<exists>j<t. bit x (n + j)) \<or> (\<exists>j<t. bit x (t + n + j))"
    then show "\<exists>j<2 * t. bit x (n + j)"
    proof
      assume "\<exists>j<t. bit x (t + n + j)"
      then obtain j where "j < t" "bit x (n + (t + j))" by (auto simp: algebra_simps)
      then show ?thesis by (intro exI [of _ "t + j"]) auto
    qed force
  qed
  finally show ?thesis .
qed

lemma bit_smear: "bit (smear x) n \<longleftrightarrow> (\<exists>j<32. bit x (n + j))"
proof -
  have 0: "bit x n \<longleftrightarrow> (\<exists>j<1. bit x (n + j))" for n by auto
  note 1 = smear_step [OF 0, simplified]
  note 2 = smear_step [OF 1, simplified]
  note 3 = smear_step [OF 2, simplified]
  note 4 = smear_step [OF 3, simplified]
  show ?thesis using smear_step [OF 4, of n] by (simp add: smear_def Let_def)
qed

lemma smear_mask:
  assumes "unat x < 2 ^ l" "l \<le> 32" "l = 0 \<or> 2 ^ (l - 1) \<le> unat x"
  shows "smear x = (mask l :: uint32_t)"
proof (rule bit_word_eqI)
  fix n assume n: "n < LENGTH(32)"
  have "bit x (l - 1)" if "l \<noteq> 0"
  proof -
    have "unat x div 2 ^ (l - 1) = 1"
      using that assms by (cases l) (auto intro!: div_nat_eqI)
    then show ?thesis by (simp add: bit_unat)
  qed
  then have "n < l \<Longrightarrow> \<exists>j<32. bit x (n + j)"
    using assms(2) by (intro exI [of _ "l - 1 - n"]) auto
  moreover have "bit x (n + j) \<Longrightarrow> n < l" for j using bits_below [OF assms(1), of "n + j"] by simp
  ultimately show "bit (smear x) n = bit (mask l :: uint32_t) n"
    using n by (auto simp: bit_smear bit_mask_iff)
qed

lemma ones_mask:
  assumes "l \<le> 32"
  shows "ones (mask l) = of_nat l"
proof -
  have "list_all (\<lambda>l. ones (mask l) = of_nat l) [0..<33]"
    by (simp add: upt_rec ones_def mask_eq_exp_minus_1)
  then show ?thesis using assms by (auto simp: list_all_iff)
qed

lemma bit_length:
  "\<exists>l. n < 2 ^ l \<and> (l = 0 \<or> 2 ^ (l - 1) \<le> (n::nat))"
proof (cases "n = 0")
  case False
  then show ?thesis
    using ex_power_ivl1 [of 2 n] by (auto intro: exI [of _ "Suc _"])
qed (auto intro: exI [of _ 0])

lemma LOG2_CEIL_ok:
  assumes "d \<noteq> 0"
  obtains l where "LOG2_CEIL d = of_nat l" "l \<le> 32" "unat d \<le> 2 ^ l" "l = 0 \<or> 2 ^ (l - 1) < unat d"
proof -
  obtain l where l: "unat (d - 1) < 2 ^ l" "l = 0 \<or> 2 ^ (l - 1) \<le> unat (d - 1)" using bit_length by blast
  have d: "unat d = unat (d - 1) + 1" using assms unat_minus_one [OF assms] by (simp add: unat_gt_0 Suc_leI)
  have "l \<le> 32"
  proof (rule ccontr)
    assume "\<not> l \<le> 32"
    then have "(2::nat) ^ 32 \<le> 2 ^ (l - 1)" by (intro power_increasing) auto
    moreover have "unat (d - 1) < 2 ^ 32" using unsigned_less [of "d - 1"] by simp
    ultimately show False using l(2) \<open>\<not> l \<le> 32\<close> by simp
  qed
  then have "LOG2_CEIL d = of_nat l"
    using smear_mask [OF l(1)] l(2) ones_mask by (simp add: LOG2_CEIL_def ldz_def)
  then show ?thesis using that [of l] l d \<open>l \<le> 32\<close> by auto
qed

subsection \<open>Division by multiplication\<close>

text \<open>
  A multiplier \<open>M\<close> with \<open>M * d\<close> slightly above a power of two divides by \<open>d\<close>.
\<close>

lemma magic_div:
  fixes M d n e K :: nat
  assumes "0 < d" "M * d = K + e" "e * n < K"
  shows "M * n div K = n div d"
proof (rule div_nat_eqI)
  let ?q = "n div d"
  have n: "?q * d \<le> n" "n < (?q + 1) * d"
    using dividend_less_div_times [OF assms(1), of n] by (simp_all add: algebra_simps)
  have "K * ?q * d \<le> K * n" using n(1) by (simp add: mult.assoc)
  also have "\<dots> \<le> (K + e) * n" by simp
  also have "\<dots> = M * n * d" unfolding assms(2) [symmetric] by (simp add: ac_simps)
  finally show "K * ?q \<le> M * n" using assms(1) by simp
  have "M * n * d = K * n + e * n" using assms(2) by (metis distrib_right mult.assoc mult.commute)
  also have "\<dots> < K * n + K" using assms(3) by simp
  also have "\<dots> = K * (n + 1)" by simp
  also have "\<dots> \<le> K * ((?q + 1) * d)" using n(2) by (intro mult_left_mono) auto
  also have "\<dots> = K * Suc ?q * d" by (simp add: algebra_simps)
  finally show "M * n < K * Suc ?q" by (rule mult_less_cancel2 [THEN iffD1, THEN conjunct2])
qed

lemma udiv_magic:
  fixes n d N l :: nat
  assumes d: "0 < d" "d \<le> 2 ^ l" "l = 0 \<or> 2 ^ (l - 1) < d" and n: "n < 2 ^ N"
  defines "m' \<equiv> 2 ^ N * (2 ^ l - d) div d + 1" and "t1 \<equiv> (2 ^ N * (2 ^ l - d) div d + 1) * n div 2 ^ N"
  shows "m' \<le> 2 ^ N" "t1 \<le> n" "(t1 + (n - t1) div 2 ^ min l 1) div 2 ^ (l - 1) = n div d"
proof -
  have "2 ^ l - d < d" using d by (cases l) auto
  then have "2 ^ N * (2 ^ l - d) < 2 ^ N * d" by simp
  then show m': "m' \<le> 2 ^ N" using d(1) by (simp add: m'_def Suc_le_eq less_mult_imp_div_less)
  have "m' * n div 2 ^ N \<le> 2 ^ N * n div 2 ^ N" using m' by (intro div_le_mono) simp
  then show t1: "t1 \<le> n" by (simp add: t1_def m'_def)
  let ?r = "2 ^ N * (2 ^ l - d) mod d"
  have "2 ^ N * (2 ^ l - d) div d * d + ?r = 2 ^ N * (2 ^ l - d)" by (rule div_mult_mod_eq)
  then have "m' * d + ?r = 2 ^ N * (2 ^ l - d) + d"
    unfolding m'_def add_mult_distrib by linarith
  moreover have "2 ^ N * (2 ^ l - d) + 2 ^ N * d = 2 ^ N * (2::nat) ^ l"
    using d(2) by (simp flip: distrib_left)
  moreover have r: "?r < d" using d(1) by simp
  ultimately have Md: "(m' + 2 ^ N) * d = 2 ^ N * 2 ^ l + (d - ?r)"
    by (simp add: add_mult_distrib)
  have "(d - ?r) * n \<le> 2 ^ l * n" using d(2) by (intro mult_right_mono) auto
  also have "\<dots> < 2 ^ l * 2 ^ N" using n by simp
  finally have "(d - ?r) * n < 2 ^ N * 2 ^ l" by (simp add: mult.commute)
  from magic_div [OF d(1) Md this] have "(m' + 2 ^ N) * n div (2 ^ N * 2 ^ l) = n div d" .
  moreover have "(m' + 2 ^ N) * n div (2 ^ N * 2 ^ l) = (t1 + n) div 2 ^ l"
  proof -
    have "(m' * n + 2 ^ N * n) div 2 ^ N = t1 + n" unfolding t1_def m'_def [symmetric] by simp
    then show ?thesis unfolding div_mult2_eq add_mult_distrib by (simp only:)
  qed
  ultimately have q: "(t1 + n) div 2 ^ l = n div d" by simp
  show "(t1 + (n - t1) div 2 ^ min l 1) div 2 ^ (l - 1) = n div d"
  proof (cases l)
    case 0
    then have "d = 1" using d by simp
    with 0 show ?thesis using t1 by simp
  next
    case (Suc k)
    have "t1 + (n - t1) div 2 = (t1 + n) div 2" using t1 by linarith
    then show ?thesis using q Suc by (simp add: div_mult2_eq)
  qed
qed

lemma exp_base_2_ok:
  assumes "shl_keeps_zero undef_shl" "l \<le> 32"
  shows "exp_base_2 undef_shl (int l) = push_bit l 1"
proof -
  have "list_all (\<lambda>l. drop_bit 31 (NOT (word_of_int (int l)) AND word_of_int (int l - 32)) = (1 :: uint32_t)) [0..<32]"
    by (simp add: upt_rec)
  then have "drop_bit 31 (NOT (word_of_int (int l)) AND word_of_int (int l - 32)) = (1 :: uint32_t)" if "l < 32"
    using that by (simp add: list_all_iff)
  moreover have "push_bit 32 1 = (0 :: uint32_t)" by simp
  ultimately show ?thesis
    using assms by (cases "l < 32") (auto simp: exp_base_2_def shl32_def Let_def le_less shl_keeps_zero_def)
qed

lemma sint_of_nat_small: "l \<le> 32 \<Longrightarrow> sint (of_nat l :: uint32_t) = int l"
  by (simp add: sint_uint signed_take_bit_int_eq_self unsigned_of_nat take_bit_nat_eq_self)

lemma unat_ucast_up: "unat (ucast (x :: uint32_t) :: uint64_t) = unat x"
  by (simp only: unat_eq_nat_uint uint_up_ucast is_up) (simp add: uint_up_ucast is_up)

lemma unat_uminus: "d \<noteq> 0 \<Longrightarrow> unat (- d :: uint32_t) = 2 ^ 32 - unat d"
proof -
  assume "d \<noteq> 0"
  then have d: "0 < uint d" "uint d < 2 ^ 32" using uint_bounded [of d] by (simp_all add: less_le unsigned_eq_0_iff)
  have "uint (- d) = (2 ^ 32 - uint d) mod 2 ^ 32" by (simp add: uint_word_ariths)
  also have "\<dots> = 2 ^ 32 - uint d" using d by (intro mod_pos_pos_trivial) auto
  finally show ?thesis by (simp only: unat_eq_nat_uint) (use d in \<open>simp add: nat_diff_distrib\<close>)
qed

lemma unat_TWO_TO_THE_32: "unat TWO_TO_THE_32 = 2 ^ 32"
  unfolding TWO_TO_THE_32_def by (rule single_bit_word_unat) simp

lemma UDivConstants_ok:
  assumes "shl_keeps_zero undef_shl" "d \<noteq> 0"
  obtains l mprime sh1 sh2 where "ComputeUDivConstants32 undef_shl d = Some (mprime, sh1, sh2)"
    "unat mprime = 2 ^ 32 * (2 ^ l - unat d) div unat d + 1" "unat sh1 = min l 1" "unat sh2 = l - 1"
    "unat d \<le> 2 ^ l" "l = 0 \<or> 2 ^ (l - 1) < unat d" "l \<le> 32"
proof -
  obtain l where l: "LOG2_CEIL d = of_nat l" "l \<le> 32" "unat d \<le> 2 ^ l" "l = 0 \<or> 2 ^ (l - 1) < unat d"
    using LOG2_CEIL_ok [OF assms(2)] by blast
  define mid where "mid = exp_base_2 undef_shl (int l) - d"
  have d: "0 < unat d" "unat d < 2 ^ 32" using assms(2) unsigned_less [of d] by (simp_all add: unat_gt_0)
  have mid: "unat mid = 2 ^ l - unat d"
  proof (cases "l = 32")
    case True
    then have "mid = - d" using exp_base_2_ok [OF assms(1) l(2)] by (simp add: mid_def)
    then show ?thesis using True assms(2) by (simp add: unat_uminus)
  next
    case False
    have "unat (push_bit l 1 :: uint32_t) = 2 ^ l" by (rule single_bit_word_unat) (use False l(2) in simp)
    then show ?thesis using exp_base_2_ok [OF assms(1) l(2)] l(3) by (simp add: mid_def unat_sub word_le_nat_alt)
  qed
  let ?m = "2 ^ 32 * (2 ^ l - unat d) div unat d + 1"
  have "2 ^ 32 * (2 ^ l - unat d) < (2 ^ 32 - 1) * unat d"
  proof (cases l)
    case 0
    then show ?thesis using d(1) l(3) by simp
  next
    case (Suc k)
    then have "2 ^ l + 2 \<le> 2 * unat d" using l(4) by simp
    then have "2 ^ l - unat d + 2 \<le> unat d" using l(3) by linarith
    then have "2 ^ 32 * (2 ^ l - unat d + 2) \<le> 2 ^ 32 * unat d" by (rule mult_left_mono) simp
    then show ?thesis using d by simp
  qed
  then have m: "?m < 2 ^ 32" using less_mult_imp_div_less [of _ "2 ^ 32 - 1" "unat d"] by simp
  have "unat (TWO_TO_THE_32 * ucast mid :: uint64_t) = 2 ^ 32 * (2 ^ l - unat d)"
  proof -
    have "unat mid < 2 ^ 32" using unsigned_less [of mid] by simp
    then show ?thesis by (simp add: unat_word_ariths unat_TWO_TO_THE_32 unat_ucast_up mid)
  qed
  then have "unat (TWO_TO_THE_32 * ucast mid div ucast d + 1 :: uint64_t) = ?m"
    using m by (simp add: unat_word_ariths unat_div unat_ucast_up)
  then have mp: "unat (ucast (TWO_TO_THE_32 * ucast mid div ucast d + 1 :: uint64_t) :: uint32_t) = ?m"
    using m by (simp add: unsigned_ucast_eq take_bit_nat_eq_self)
  have sh: "unat (word_of_int (min (int l) 1) :: uint32_t) = min l 1" "unat (word_of_int (max (int l - 1) 0) :: uint32_t) = l - 1"
    using l(2) by (auto simp: unat_eq_nat_uint uint_word_of_int min_def max_def)
  have "ComputeUDivConstants32 undef_shl d = Some (ucast (TWO_TO_THE_32 * ucast mid div ucast d + 1),
      word_of_int (min (int l) 1), word_of_int (max (int l - 1) 0))"
    using assms(2) l(1,2) by (simp add: ComputeUDivConstants32_def sint_of_nat_small mid_def Let_def)
  then show ?thesis using that mp sh l(2-4) by blast
qed


lemma sdiv_magic:
  fixes D K :: nat and m n :: int
  assumes D: "0 < D" and m: "m * int D = int K + e" "0 < e" and n: "e * \<bar>n\<bar> \<le> int K" "0 \<le> n \<longrightarrow> e * \<bar>n\<bar> < int K"
  shows "m * n div int K + (if n < 0 then 1 else 0) = n sdiv int D"
proof -
  let ?k = "\<bar>n\<bar>" and ?q = "\<bar>n\<bar> div int D"
  have q: "?q * int D \<le> ?k" "?k + 1 \<le> (?q + 1) * int D"
    using D pos_mod_bound [of "int D" ?k] pos_mod_sign [of "int D" ?k] div_mult_mod_eq [of ?k "int D"]
    unfolding distrib_right by linarith+
  have mk: "m * ?k * int D = int K * ?k + e * ?k"
    using m(1) by (metis distrib_right mult.assoc mult.commute)
  have lo: "int K * ?q * int D \<le> int K * ?k" using q(1) by (simp add: mult.assoc mult_left_mono)
  have hi: "int K * ?k + int K \<le> int K * (?q + 1) * int D"
    using mult_left_mono [OF q(2), of "int K"] by (simp add: algebra_simps)
  have cancel: "x * int D < y * int D \<longleftrightarrow> x < y" "x * int D \<le> y * int D \<longleftrightarrow> x \<le> y" for x y :: int
    using D by simp_all
  show ?thesis
  proof (cases "0 \<le> n")
    case True
    have "int K * ?q * int D \<le> m * ?k * int D" "m * ?k * int D < int K * (?q + 1) * int D"
      using mk lo hi n(2) True m(2) mult_nonneg_nonneg [of e ?k] by linarith+
    then have "m * ?k div int K = ?q"
      unfolding cancel by (intro int_div_pos_eq [where r = "m * ?k - int K * ?q"]) (auto simp: algebra_simps)
    then show ?thesis using True D by (cases "n = 0") (simp_all add: signed_divide_int_def)
  next
    case False
    have "0 < e * ?k" using m(2) False by (intro mult_pos_pos) auto
    then have "int K * ?q * int D < m * ?k * int D" "m * ?k * int D \<le> int K * (?q + 1) * int D"
      using mk lo hi n(1) by linarith+
    then have "m * n div int K = - (?q + 1)"
      unfolding cancel using False by (intro int_div_pos_eq [where r = "int K * (?q + 1) - m * ?k"]) (auto simp: algebra_simps)
    then show ?thesis using False by (simp add: signed_divide_int_def sgn_if)
  qed
qed

lemma LOG2_CEIL_1: "LOG2_CEIL 1 = 0"
  by (simp add: LOG2_CEIL_def ldz_def smear_def ones_def)

lemma low_word: "ucast (of_nat m - TWO_TO_THE_32) = (word_of_int (int m - 2 ^ 32) :: uint32_t)"
proof -
  have e: "(of_nat m - TWO_TO_THE_32 :: uint64_t) = word_of_int (int m - 2 ^ 32)" by (simp add: TWO_TO_THE_32_def)
  show ?thesis unfolding e by (rule bit_word_eqI) (simp only: bit_ucast_iff bit_word_of_int_iff, simp)
qed

lemma SDivConstants_ok:
  assumes "shl_keeps_zero undef_shl" "d \<noteq> 0"
  obtains l mprime shpost D m where "ComputeSDivConstants32 undef_shl d = Some (mprime, signed_drop_bit 31 d, shpost)"
    "D = nat \<bar>sint d\<bar>" "0 < D" "m = 2 ^ (31 + l) div D + 1" "sint mprime = int m - 2 ^ 32" "unat shpost = l - 1"
    "1 \<le> l" "l \<le> 31" "D \<le> 2 ^ l" "D = 1 \<and> l = 1 \<or> 2 ^ (l - 1) < D"
proof -
  define D where "D = nat \<bar>sint d\<bar>"
  have d: "sint d \<noteq> 0" "- (2 ^ 31) \<le> sint d" "sint d < 2 ^ 31"
    using assms(2) sint_ge [of d] sint_lt [of d] by (simp_all add: signed_eq_0_iff)
  have D: "0 < D" "D \<le> 2 ^ 31" "int D = \<bar>sint d\<bar>" using d by (auto simp: D_def)
  define abs_d where "abs_d = (word_of_int \<bar>sint d\<bar> :: uint64_t)"
  have ad: "unat abs_d = D" "unat (ucast abs_d :: uint32_t) = D" "(ucast abs_d :: uint32_t) \<noteq> 0" "abs_d \<noteq> 0"
      "abs_d = push_bit 31 1 \<longleftrightarrow> D = 2 ^ 31"
  proof -
    show u: "unat abs_d = D" using D by (simp add: abs_d_def D_def unat_eq_nat_uint uint_word_of_int)
    show "unat (ucast abs_d :: uint32_t) = D" using D(2) by (simp add: unsigned_ucast_eq u take_bit_nat_eq_self)
    then show "(ucast abs_d :: uint32_t) \<noteq> 0" using D(1) by auto
    show "abs_d \<noteq> 0" using u D(1) by auto
    have "unat (push_bit 31 1 :: uint64_t) = 2 ^ 31" by (rule single_bit_word_unat) simp
    then show "abs_d = push_bit 31 1 \<longleftrightarrow> D = 2 ^ 31" unfolding word_unat_eq_iff u by (simp only:)
  qed
  obtain k where k: "LOG2_CEIL (ucast abs_d) = of_nat k" "k \<le> 32" "D \<le> 2 ^ k" "k = 0 \<or> 2 ^ (k - 1) < D"
    using LOG2_CEIL_ok [OF ad(3)] unfolding ad(2) by blast
  define l where "l = max 1 k"
  have "k \<noteq> 32" using k(4) D(2) by auto
  then have l: "1 \<le> l" "l \<le> 31" "D \<le> 2 ^ l" "D = 1 \<and> l = 1 \<or> 2 ^ (l - 1) < D"
    using k(2-4) D(1) by (cases k; simp add: l_def)+
  have l31: "l = 31" if "D = 2 ^ 31"
    using l(2,3) that power_increasing_iff [of "2 :: nat" 31 l] by simp
  have l': "sint (max 1 (LOG2_CEIL (ucast abs_d))) = int l"
  proof -
    have "max 1 (LOG2_CEIL (ucast abs_d)) = of_nat l"
      using k(2) by (auto simp: k(1) l_def max_def word_le_nat_alt unsigned_of_nat take_bit_nat_eq_self)
    then show ?thesis using l(2) by (simp add: sint_of_nat_small)
  qed
  define p where "p = (push_bit (l - 1) 1 :: uint32_t)"
  have mid: "exp_base_2 undef_shl (int l - 1) = p"
    using exp_base_2_ok [OF assms(1), of "l - 1"] l(1,2) by (simp add: of_nat_diff p_def)
  have p: "unat p = 2 ^ (l - 1)" unfolding p_def by (rule single_bit_word_unat) (use l(2) in simp)
  have lp: "(2::nat) ^ (l - 1) \<le> 2 ^ 30" by (rule power_increasing) (use l(2) in auto)
  have lm: "2 ^ 32 * (2::nat) ^ (l - 1) = 2 ^ (31 + l)" using l(1) by (cases l) (simp_all add: power_add)
  define m where "m = 2 ^ (31 + l) div D + 1"
  have m: "2 ^ 31 < m" "m \<le> 2 ^ 32 + 1"
  proof -
    have "2 ^ 31 * D div D \<le> 2 ^ 31 * 2 ^ l div D" using l(3) by (intro div_le_mono) simp
    then show "2 ^ 31 < m" using D(1) by (simp add: m_def power_add)
    have "2 ^ (31 + l) \<le> 2 ^ 32 * D" unfolding lm [symmetric] using l(4) by auto
    then have "2 ^ (31 + l) div D \<le> 2 ^ 32 * D div D" by (rule div_le_mono)
    then have "2 ^ (31 + l) div D \<le> 2 ^ 32" using D(1) by simp
    then show "m \<le> 2 ^ 32 + 1" by (simp add: m_def)
  qed
  have um: "unat (TWO_TO_THE_32 * ucast p div abs_d + 1) = m"
  proof -
    have "unat (TWO_TO_THE_32 * ucast p) = 2 ^ (31 + l)"
      using lp by (simp add: unat_word_ariths unat_TWO_TO_THE_32 unat_ucast_up p lm [symmetric])
    then show ?thesis using m by (simp add: unat_word_ariths unat_div ad(1) m_def)
  qed
  have sm: "sint (ucast (TWO_TO_THE_32 * ucast p div abs_d + 1 - TWO_TO_THE_32) :: uint32_t) = int m - 2 ^ 32"
  proof -
    have "TWO_TO_THE_32 * ucast p div abs_d + 1 = of_nat m" using um by (metis of_nat_unat ucast_id)
    then have e: "ucast (TWO_TO_THE_32 * ucast p div abs_d + 1 - TWO_TO_THE_32) = (word_of_int (int m - 2 ^ 32) :: uint32_t)"
      by (simp only: low_word)
    have "(int m - 2 ^ 32 + 2 ^ 31) mod 2 ^ 32 = int m - 2 ^ 32 + 2 ^ 31"
      by (rule mod_pos_pos_trivial) (use m in auto)
    then show ?thesis unfolding e int_word_sint by simp
  qed
  have e: "(if abs_d = push_bit 31 1 then 31 else int l) = int l" unfolding ad(5) using l31 by auto
  have "ComputeSDivConstants32 undef_shl d = Some (ucast (TWO_TO_THE_32 * ucast p div abs_d + 1 - TWO_TO_THE_32),
      signed_drop_bit 31 d, word_of_int (int l - 1))"
    unfolding ComputeSDivConstants32_def Let_def abs_d_def [symmetric] l' e mid
    by (rule if_not_P [OF ad(4)])
  moreover have "unat (word_of_int (int l - 1) :: uint32_t) = l - 1"
  proof -
    have "(word_of_int (int l - 1) :: uint32_t) = of_nat (l - 1)" using l(1) by (simp add: of_nat_diff)
    moreover have "l - 1 < 2 ^ 32" using l(2) by simp
    ultimately show ?thesis by (simp only: unsigned_of_nat) (simp add: take_bit_nat_eq_self)
  qed
  ultimately show thesis using that [OF _ D_def D(1) m_def sm _ l] by (simp only:)
qed

lemma high_word: "ucast (drop_bit 32 (scast a * scast b :: uint64_t)) = (word_of_int (sint a * sint b div 2 ^ 32) :: uint32_t)"
  for a b :: uint32_t
proof (rule bit_word_eqI)
  fix i assume "i < LENGTH(32)"
  have "(scast a * scast b :: uint64_t) = word_of_int (sint a * sint b)" by simp
  then have "bit (scast a * scast b :: uint64_t) (32 + i) = bit (sint a * sint b) (32 + i)"
    using \<open>i < LENGTH(32)\<close> by (simp only: bit_word_of_int_iff) simp
  then show "bit (ucast (drop_bit 32 (scast a * scast b :: uint64_t)) :: uint32_t) i
      = bit (word_of_int (sint a * sint b div 2 ^ 32) :: uint32_t) i"
    using \<open>i < LENGTH(32)\<close> unfolding drop_bit_eq_div [symmetric]
    by (simp add: bit_ucast_iff bit_drop_bit_eq bit_word_of_int_iff)
qed

lemma signed_shift_word_of_int:
  assumes "- (2 ^ 31) \<le> x \<and> x < 2 ^ 31 \<or> k = 0"
  shows "signed_drop_bit k (word_of_int x :: uint32_t) = word_of_int (x div 2 ^ k)"
proof (cases "k = 0")
  case False
  then have "sint (word_of_int x :: uint32_t) = x" using assms by (simp add: int_word_sint mod_pos_pos_trivial)
  then have "sint (signed_drop_bit k (word_of_int x :: uint32_t)) = x div 2 ^ k"
    by (simp add: sint_signed_drop_bit_eq drop_bit_eq_div)
  from arg_cong [OF this, of "word_of_int :: int \<Rightarrow> uint32_t"] show ?thesis by simp
qed simp

lemma unat_less_32: "unat (a :: uint32_t) < 2 ^ 32"
  using unsigned_less [of a] by simp

lemma mult_by_bits: "x * n = (\<Sum>i \<in> {i. i < 64 \<and> bit x i}. push_bit i n)" for x n :: uint64_t
proof -
  have "word_of_int (take_bit k (uint x)) * n = (\<Sum>i \<in> {i. i < k \<and> bit (uint x) i}. push_bit i n)" for k
  proof (induction k)
    case (Suc k)
    have "{i. i < Suc k \<and> bit (uint x) i} = (if bit (uint x) k then insert k {i. i < k \<and> bit (uint x) i}
        else {i. i < k \<and> bit (uint x) i})"
      by (auto simp: less_Suc_eq)
    then show ?case unfolding take_bit_Suc_from_most of_int_add distrib_right Suc.IH
      by (cases "bit (uint x) k") (simp_all add: push_bit_eq_mult mult.commute)
  qed simp
  note s = this [of 64]
  have "take_bit 64 (uint x) = uint x" using uint_bounded [of x] by (simp add: take_bit_int_eq_self)
  moreover have "bit (uint x) i = bit x i" for i by (auto simp: bit_uint_iff dest: bit_imp_le_length)
  ultimately show ?thesis using s by simp
qed

lemma unat_drop_bit: "unat (drop_bit k w) = unat w div 2 ^ k" for w :: "'a::len word"
  unfolding unat_drop_bit_eq by (rule drop_bit_eq_div)

lemma udiv_high_word: "unat (ucast (drop_bit 32 (ucast a * ucast b :: uint64_t)) :: uint32_t) = unat a * unat b div 2 ^ 32"
  for a b :: uint32_t
proof -
  have "unat a * unat b \<le> (2 ^ 32 - 1) * (2 ^ 32 - 1)"
    using unat_less_32 [of a] unat_less_32 [of b] by (intro mult_mono) auto
  then have "unat (ucast a * ucast b :: uint64_t) = unat a * unat b" "unat a * unat b div 2 ^ 32 < 2 ^ 32"
    by (simp_all add: unat_word_ariths unat_ucast_up)
  then show ?thesis by (simp add: unsigned_ucast_eq unat_drop_bit take_bit_nat_eq_self)
qed

lemma sign_word: "signed_drop_bit 31 n = (if sint n < 0 then - 1 else 0 :: uint32_t)"
  by (rule bit_word_eqI) (auto simp: bit_signed_drop_bit_iff bit_last_iff [symmetric] Suc_le_eq less_Suc_eq)

lemma sdiv_m_le: "m = 2 ^ (31 + l) div D + 1 \<Longrightarrow> 1 \<le> l \<Longrightarrow> D = 1 \<and> l = 1 \<or> 2 ^ (l - 1) < D \<Longrightarrow> m \<le> 2 ^ 32 \<or> l = 1"
  for D m l :: nat
proof -
  assume m: "m = 2 ^ (31 + l) div D + 1" and l: "1 \<le> l" "D = 1 \<and> l = 1 \<or> 2 ^ (l - 1) < D"
  have "m \<le> 2 ^ 32" if "l \<noteq> 1"
  proof -
    have "2 ^ (31 + l) = 2 ^ 32 * (2::nat) ^ (l - 1)" using l(1) by (cases l) (simp_all add: power_add)
    also have "\<dots> < 2 ^ 32 * D" using l(2) that by simp
    finally have "2 ^ (31 + l) div D < 2 ^ 32" by (rule less_mult_imp_div_less)
    then show ?thesis unfolding m by simp
  qed
  then show ?thesis by blast
qed

lemma sdiv_q0_range:
  assumes "m \<le> 2 ^ 32" "- (2 ^ 31) \<le> (n::int)" "n < 2 ^ 31"
  shows "- (2 ^ 31) \<le> int m * n div 2 ^ 32 \<and> int m * n div 2 ^ 32 < 2 ^ 31"
proof (cases "0 \<le> n")
  case True
  then have "0 \<le> int m * n" "int m * n \<le> 2 ^ 32 * n" using assms(1) by (auto intro: mult_right_mono)
  then have "0 \<le> int m * n div 2 ^ 32 \<and> int m * n div 2 ^ 32 \<le> 2 ^ 32 * n div 2 ^ 32"
    by (auto intro: zdiv_mono1 simp: pos_imp_zdiv_nonneg_iff)
  then show ?thesis using assms(3) by simp
next
  case False
  then have "int m * n \<le> 0" "2 ^ 32 * n \<le> int m * n" using assms(1) by (auto intro: mult_right_mono_neg mult_nonneg_nonpos)
  then have "int m * n div 2 ^ 32 \<le> 0 \<and> 2 ^ 32 * n div 2 ^ 32 \<le> int m * n div 2 ^ 32"
    using zdiv_mono1 [of "int m * n" 0 "2 ^ 32"] by (auto intro: zdiv_mono1)
  then show ?thesis using assms(2) by simp
qed

lemma sdiv_q0_div:
  assumes D: "0 < D" and l: "1 \<le> l" "D \<le> 2 ^ l" and m: "m = 2 ^ (31 + l) div D + 1"
    and n: "- (2 ^ 31) \<le> (n::int)" "n < 2 ^ 31"
  shows "int m * n div 2 ^ 32 div 2 ^ (l - 1) + (if n < 0 then 1 else 0) = n sdiv int D"
proof -
  define K where "K = (2::nat) ^ (31 + l)"
  define e where "e = D - K mod D"
  have e: "0 < e" "e \<le> 2 ^ l" using D l(2) by (auto simp: e_def)
  have "m * D = K div D * D + D" by (simp add: m K_def)
  also have "\<dots> = K + e" using D div_mult_mod_eq [of K D] mod_less_divisor [OF D, of K] unfolding e_def by linarith
  finally have "m * D = K + e" .
  then have mD: "int m * int D = int K + int e" by (simp flip: of_nat_mult of_nat_add)
  have K: "int K = 2 ^ l * 2 ^ 31" "2 ^ 32 * 2 ^ (l - 1) = int K"
    using l(1) by (simp add: K_def power_add, cases l) (simp_all add: K_def power_add)
  have "int e * \<bar>n\<bar> \<le> 2 ^ l * \<bar>n\<bar>" using e(2) by (intro mult_right_mono) (simp_all flip: of_nat_le_iff)
  moreover have "2 ^ l * \<bar>n\<bar> \<le> int K" "0 \<le> n \<longrightarrow> 2 ^ l * \<bar>n\<bar> < int K" unfolding K(1) using n by auto
  ultimately have "int e * \<bar>n\<bar> \<le> int K" "0 \<le> n \<longrightarrow> int e * \<bar>n\<bar> < int K" by linarith+
  from sdiv_magic [OF D mD _ this] e(1) have "int m * n div int K + (if n < 0 then 1 else 0) = n sdiv int D" by simp
  moreover have "x div 2 ^ 32 div 2 ^ (l - 1) = x div int K" for x
    unfolding K(2) [symmetric] by (rule zdiv_zmult2_eq [symmetric]) simp
  ultimately show ?thesis by (simp only:)
qed

text \<open>
  C30: multiplication constants. \<^verbatim>\<open>ComputeMultConstants64\<close> ends for every multiplicand \<open>x\<close>, its
  assertion holds, and it yields disjoint masks \<open>add\<close> and \<open>sub\<close> with \<open>x = add - sub\<close>, so that a
  product is the sum of the shifts by the bits of \<open>add\<close> less those by the bits of \<open>sub\<close>.
\<close>

theorem mult_constants_correct:
  "\<exists>add sub. ComputeMultConstants64 x = Some (add, sub) \<and> x = add - sub \<and> add AND sub = 0
    \<and> (\<forall>n. x * n = (\<Sum>i \<in> {i. i < 64 \<and> bit add i}. push_bit i n) - (\<Sum>i \<in> {i. i < 64 \<and> bit sub i}. push_bit i n))"
  unfolding mult_by_bits [symmetric] left_diff_distrib [symmetric] using ComputeMultConstants64_ok [of x] by auto

lemma UDiv_quotient:
  assumes "shl_keeps_zero undef_shl" "d \<noteq> 0"
  shows "case ComputeUDivConstants32 undef_shl d of None \<Rightarrow> False
    | Some (mprime, sh1, sh2) \<Rightarrow>
        let t1 = ucast (drop_bit 32 (ucast mprime * ucast n :: uint64_t)) :: uint32_t
        in drop_bit (unat sh2) (drop_bit (unat sh1) (n - t1) + t1) = n div d"
proof -
  obtain l mprime sh1 sh2 where c: "ComputeUDivConstants32 undef_shl d = Some (mprime, sh1, sh2)"
    "unat mprime = 2 ^ 32 * (2 ^ l - unat d) div unat d + 1" "unat sh1 = min l 1" "unat sh2 = l - 1"
    and l: "unat d \<le> 2 ^ l" "l = 0 \<or> 2 ^ (l - 1) < unat d"
    by (rule UDivConstants_ok [OF assms])
  define t1 where "t1 = (ucast (drop_bit 32 (ucast mprime * ucast n :: uint64_t)) :: uint32_t)"
  have t1: "unat t1 = (2 ^ 32 * (2 ^ l - unat d) div unat d + 1) * unat n div 2 ^ 32"
    by (simp only: t1_def udiv_high_word c(2))
  have d: "0 < unat d" "unat n < 2 ^ 32" using assms(2) unsigned_less [of n] by (simp_all add: unat_gt_0)
  note q = udiv_magic(2,3) [OF d(1) l d(2), folded t1]
  have nt: "unat (n - t1) = unat n - unat t1" using q(1) by (simp add: unat_sub word_le_nat_alt)
  have "(unat n - unat t1) div 2 ^ min l 1 \<le> unat n - unat t1" by (rule div_le_dividend)
  then have "(unat n - unat t1) div 2 ^ min l 1 + unat t1 < 2 ^ 32" using q(1) d(2) by linarith
  then have "unat (drop_bit (min l 1) (n - t1) + t1) = unat t1 + (unat n - unat t1) div 2 ^ min l 1"
    by (simp add: unat_word_ariths unat_drop_bit nt)
  then have "unat (drop_bit (l - 1) (drop_bit (min l 1) (n - t1) + t1)) = unat (n div d)"
    using q(2) by (simp add: unat_drop_bit unat_div)
  then show ?thesis unfolding c by (simp add: Let_def t1_def [symmetric] c word_unat_eq_iff)
qed

text \<open>
  C31: unsigned division constants. For every divisor \<open>d \<noteq> 0\<close> the constants of
  \<^verbatim>\<open>ComputeUDivConstants32\<close> compute the quotient of every \<open>n\<close> with the high half \<open>t1\<close> of one
  64-bit product and two shifts.
\<close>

theorem udiv_constants_correct:
  assumes "shl_keeps_zero undef_shl" "d \<noteq> 0"
  shows "case ComputeUDivConstants32 undef_shl d of None \<Rightarrow> False
    | Some (mprime, sh1, sh2) \<Rightarrow>
        let t1 = ucast (drop_bit 32 (ucast mprime * ucast n :: uint64_t)) :: uint32_t
        in drop_bit (unat sh2) (drop_bit (unat sh1) (n - t1) + t1) = n div d"
  by (rule UDiv_quotient [OF assms])

theorem udiv_constants_correct_witness:
  "case ComputeUDivConstants32 (\<lambda>x n. x) 0x80000001 of None \<Rightarrow> False
    | Some (mprime, sh1, sh2) \<Rightarrow>
        let t1 = ucast (drop_bit 32 (ucast mprime * ucast (0xFFFFFFFF :: uint32_t) :: uint64_t)) :: uint32_t
        in drop_bit (unat sh2) (drop_bit (unat sh1) (0xFFFFFFFF - t1) + t1) = 0xFFFFFFFF div 0x80000001"
  by (rule udiv_constants_correct) (simp_all add: shl_keeps_zero_def)

lemma SDiv_quotient:
  assumes "shl_keeps_zero undef_shl" "d \<noteq> 0"
  shows "case ComputeSDivConstants32 undef_shl d of None \<Rightarrow> False
    | Some (mprime, dsign, shpost) \<Rightarrow>
        let q0 = n + ucast (drop_bit 32 (scast mprime * scast n :: uint64_t)) :: uint32_t;
            q = signed_drop_bit (unat shpost) q0 - signed_drop_bit 31 n
        in (q XOR dsign) - dsign = word_of_int (sint n sdiv sint d)"
proof -
  obtain l mprime shpost D m where c: "ComputeSDivConstants32 undef_shl d = Some (mprime, signed_drop_bit 31 d, shpost)"
    and D: "D = nat \<bar>sint d\<bar>" "0 < D" and m: "m = 2 ^ (31 + l) div D + 1"
    and mp: "sint mprime = int m - 2 ^ 32" and sh: "unat shpost = l - 1"
    and l: "1 \<le> l" "l \<le> 31" "D \<le> 2 ^ l" "D = 1 \<and> l = 1 \<or> 2 ^ (l - 1) < D"
    by (rule SDivConstants_ok [OF assms])
  have n: "- (2 ^ 31) \<le> sint n" "sint n < 2 ^ 31" using sint_ge [of n] sint_lt [of n] by simp_all
  define q0 where "q0 = int m * sint n div 2 ^ 32"
  have "sint n + (int m - 2 ^ 32) * sint n div 2 ^ 32 = q0" by (simp add: q0_def left_diff_distrib)
  moreover have "n + word_of_int x = word_of_int (sint n + x)" for x by simp
  ultimately have q0: "n + ucast (drop_bit 32 (scast mprime * scast n :: uint64_t)) = word_of_int q0"
    unfolding high_word mp by (simp only:)
  have r: "- (2 ^ 31) \<le> q0 \<and> q0 < 2 ^ 31 \<or> l - 1 = 0"
    using sdiv_q0_range [OF _ n, of m] sdiv_m_le [OF m l(1,4)] unfolding q0_def by auto
  have "q0 div 2 ^ (l - 1) + (if sint n < 0 then 1 else 0) = sint n sdiv int D"
    using sdiv_q0_div [OF D(2) l(1,3) m n] unfolding q0_def .
  then have q: "word_of_int (q0 div 2 ^ (l - 1)) - signed_drop_bit 31 n = (word_of_int (sint n sdiv int D) :: uint32_t)"
    unfolding sign_word by (cases "sint n < 0") (simp_all flip: \<open>_ = sint n sdiv int D\<close>)
  have "(x XOR signed_drop_bit 31 d) - signed_drop_bit 31 d = (if sint d < 0 then - x else x)" for x
    unfolding sign_word by (simp add: not_eq_complement)
  moreover have "sint n sdiv sint d = (if sint d < 0 then - (sint n sdiv int D) else sint n sdiv int D)"
    using D by (auto simp: signed_divide_int_def sgn_if)
  ultimately have "(word_of_int (sint n sdiv int D) XOR signed_drop_bit 31 d) - signed_drop_bit 31 d
      = word_of_int (sint n sdiv sint d)" by simp
  then  show ?thesis unfolding c
    by (simp only: Let_def q0 sh prod.case option.case signed_shift_word_of_int [OF r] q)
qed

text \<open>
  C32: signed division constants. For every divisor \<open>d \<noteq> 0\<close> the constants of
  \<^verbatim>\<open>ComputeSDivConstants32\<close> compute the quotient of every \<open>n\<close> rounded towards zero, which wraps for
  \<open>- (2 ^ 31)\<close> divided by \<open>- 1\<close>: \<open>q\<close> is the quotient by \<open>\<bar>d\<bar>\<close>, and \<open>dsign\<close> restores the sign.
\<close>

theorem sdiv_constants_correct:
  assumes "shl_keeps_zero undef_shl" "d \<noteq> 0"
  shows "case ComputeSDivConstants32 undef_shl d of None \<Rightarrow> False
    | Some (mprime, dsign, shpost) \<Rightarrow>
        let q0 = n + ucast (drop_bit 32 (scast mprime * scast n :: uint64_t)) :: uint32_t;
            q = signed_drop_bit (unat shpost) q0 - signed_drop_bit 31 n
        in (q XOR dsign) - dsign = word_of_int (sint n sdiv sint d)"
  by (rule SDiv_quotient [OF assms])

theorem sdiv_constants_correct_witness:
  "case ComputeSDivConstants32 (\<lambda>x n. x) (- 7) of None \<Rightarrow> False
    | Some (mprime, dsign, shpost) \<Rightarrow>
        let q0 = (- 2147483648) + ucast (drop_bit 32 (scast mprime * scast (- 2147483648 :: uint32_t) :: uint64_t)) :: uint32_t;
            q = signed_drop_bit (unat shpost) q0 - signed_drop_bit 31 (- 2147483648)
        in (q XOR dsign) - dsign = word_of_int (sint (- 2147483648 :: uint32_t) sdiv sint (- 7 :: uint32_t))"
  by (rule sdiv_constants_correct) (simp_all add: shl_keeps_zero_def)

end
