(* ===== verification/STPBuilder.thy ===== *)
theory STPBuilder
  imports STP_Interface ConstantDivision
begin

text \<open>
  The translation of expressions to nodes of the STP solver, \<^verbatim>\<open>lib/Solver/STPBuilder.cpp\<close>.

  An expression of width 1 becomes a formula and a wider one a bit vector. The state of the builder
  is the table of the translated expressions and the nodes that are stored in the arrays and update
  nodes. The order of calls inside one argument list, which the language leaves open, is from left
  to right.
\<close>

subsection \<open>State\<close>

text \<open>
  The node factory, the options, and three pieces of code that are not part of the sources: the
  operations of \<^verbatim>\<open>llvm::APInt\<close>, the rendering of a pointer by \<^verbatim>\<open>snprintf\<close> and the result of a shift
  out of range.
\<close>

record stp_cfg =
  NFac :: node_fact
  optimizeDivides :: bool
  UseConstructHash :: bool
  apenv :: expr_env
  ap_getLimitedValue :: "apint \<Rightarrow> uint64_t"
  fmt_ptr :: "nat \<Rightarrow> string"
  undef_shift :: "uint32_t \<Rightarrow> int \<Rightarrow> uint32_t"

record stp_builder =
  constructed :: "expr \<Rightarrow> (node \<times> nat) option"
  stpInitialArray :: "array \<Rightarrow> node option"
  stpArray :: "array \<times> update_node \<Rightarrow> node option"

type_synonym 'a build = "stp_builder \<Rightarrow> ('a \<times> stp_builder) option"

definition getShiftBits :: "nat \<Rightarrow> nat" where
  "getShiftBits amount = (if amount = 64 then 6 else 5)"

subsection \<open>Constants and shifts\<close>

definition buildArray :: "string \<Rightarrow> nat \<Rightarrow> nat \<Rightarrow> node" where
  "buildArray name indexWidth valueWidth = Symbol name indexWidth valueWidth"

definition buildVar :: "string \<Rightarrow> nat \<Rightarrow> node" where
  "buildVar name width = (if width = 1 then Symbol name 0 0 else Symbol name 0 width)"

definition getTempVar :: "nat \<Rightarrow> node may_abort" where
  "getTempVar w =
    (if w = 8 then Some (buildVar ''__tmpInt8'' 8)
     else if w = 16 then Some (buildVar ''__tmpInt16'' 16)
     else if w = 32 then Some (buildVar ''__tmpInt32'' 32)
     else if w = 64 then Some (buildVar ''__tmpInt64'' 64)
     else None)"

definition bvConst32 :: "nat \<Rightarrow> uint32_t \<Rightarrow> node may_abort" where
  "bvConst32 width value = vc_bvConstExprFromInt width value"

definition bvConst64 :: "nat \<Rightarrow> uint64_t \<Rightarrow> node may_abort" where
  "bvConst64 width value = vc_bvConstExprFromLL width value"

definition bvOne :: "nat \<Rightarrow> node may_abort" where
  "bvOne width = bvConst32 width 1"

definition bvZero :: "nat \<Rightarrow> node may_abort" where
  "bvZero width = bvConst32 width 0"

definition bvMinusOne :: "nat \<Rightarrow> node may_abort" where
  "bvMinusOne width = bvConst64 width (- 1)"

definition bvExtract :: "stp_cfg \<Rightarrow> node \<Rightarrow> nat \<Rightarrow> nat \<Rightarrow> node may_abort" where
  "bvExtract B expr hi lo = vc_bvExtract (NFac B) expr hi lo"

definition eqExpr :: "stp_cfg \<Rightarrow> node \<Rightarrow> node \<Rightarrow> node may_abort" where
  "eqExpr B a b = vc_eqExpr (NFac B) a b"

definition bvBoolExtract :: "stp_cfg \<Rightarrow> node \<Rightarrow> nat \<Rightarrow> node may_abort" where
  "bvBoolExtract B expr i = do {
    x \<leftarrow> bvExtract B expr i i;
    one \<leftarrow> bvOne 1;
    vc_eqExpr (NFac B) x one }"

definition bvRightShift :: "stp_cfg \<Rightarrow> node \<Rightarrow> nat \<Rightarrow> nat \<Rightarrow> node may_abort" where
  "bvRightShift B expr amount shiftBits = do {
    width \<leftarrow> vc_getBVLength expr;
    let shift = amount mod 2 ^ shiftBits in
    if shift = 0 then Some expr
    else if shift \<ge> width then bvZero width
    else do {
      zs \<leftarrow> bvZero shift;
      x \<leftarrow> bvExtract B expr (width - 1) shift;
      vc_bvConcatExpr (NFac B) zs x } }"

definition bvLeftShift :: "stp_cfg \<Rightarrow> node \<Rightarrow> nat \<Rightarrow> nat \<Rightarrow> node may_abort" where
  "bvLeftShift B expr amount shiftBits = do {
    width \<leftarrow> vc_getBVLength expr;
    let shift = amount mod 2 ^ shiftBits in
    if shift = 0 then Some expr
    else if shift \<ge> width then bvZero width
    else do {
      x \<leftarrow> bvExtract B expr (width - shift - 1) 0;
      zs \<leftarrow> bvZero shift;
      vc_bvConcatExpr (NFac B) x zs } }"

text \<open>The loops that select one of the shifts by a constant; \<open>i\<close> is one more than the index of the source.\<close>

fun var_shift_loop :: "stp_cfg \<Rightarrow> (nat \<Rightarrow> node may_abort) \<Rightarrow> node \<Rightarrow> nat \<Rightarrow> nat \<Rightarrow> node \<Rightarrow> node may_abort" where
  "var_shift_loop B shf shift shiftBits 0 res = Some res"
| "var_shift_loop B shf shift shiftBits (Suc i) res = do {
    c \<leftarrow> bvConst32 shiftBits (of_nat i);
    eq \<leftarrow> eqExpr B shift c;
    x \<leftarrow> shf i;
    res' \<leftarrow> vc_iteExpr (NFac B) eq x res;
    var_shift_loop B shf shift shiftBits i res' }"

definition bvVarLeftShift :: "stp_cfg \<Rightarrow> node \<Rightarrow> node \<Rightarrow> nat \<Rightarrow> node may_abort" where
  "bvVarLeftShift B expr amount width = do {
    res \<leftarrow> bvZero width;
    let shiftBits = getShiftBits width in do {
      shift \<leftarrow> vc_bvExtract (NFac B) amount (shiftBits - 1) 0;
      var_shift_loop B (\<lambda>i. bvLeftShift B expr i shiftBits) shift shiftBits width res } }"

definition bvVarRightShift :: "stp_cfg \<Rightarrow> node \<Rightarrow> node \<Rightarrow> nat \<Rightarrow> node may_abort" where
  "bvVarRightShift B expr amount width = do {
    res \<leftarrow> bvZero width;
    let shiftBits = getShiftBits width in do {
      shift \<leftarrow> vc_bvExtract (NFac B) amount (shiftBits - 1) 0;
      var_shift_loop B (\<lambda>i. bvRightShift B expr i shiftBits) shift shiftBits width res } }"

definition constructAShrByConstant :: "stp_cfg \<Rightarrow> node \<Rightarrow> nat \<Rightarrow> node \<Rightarrow> nat \<Rightarrow> node may_abort" where
  "constructAShrByConstant B expr amount isSigned shiftBits = do {
    width \<leftarrow> vc_getBVLength expr;
    let shift = amount mod 2 ^ shiftBits in
    if shift = 0 then Some expr
    else if shift \<ge> width - 1 then do {
      m \<leftarrow> bvMinusOne width;
      zs \<leftarrow> bvZero width;
      vc_iteExpr (NFac B) isSigned m zs }
    else do {
      m \<leftarrow> bvMinusOne shift;
      x \<leftarrow> bvExtract B expr (width - 1) shift;
      t \<leftarrow> vc_bvConcatExpr (NFac B) m x;
      f \<leftarrow> bvRightShift B expr shift shiftBits;
      vc_iteExpr (NFac B) isSigned t f } }"

definition bvVarArithRightShift :: "stp_cfg \<Rightarrow> node \<Rightarrow> node \<Rightarrow> nat \<Rightarrow> node may_abort" where
  "bvVarArithRightShift B expr amount width = (let shiftBits = getShiftBits width in do {
    shift \<leftarrow> vc_bvExtract (NFac B) amount (shiftBits - 1) 0;
    signedBool \<leftarrow> bvBoolExtract B expr (width - 1);
    res \<leftarrow> constructAShrByConstant B expr (width - 1) signedBool shiftBits;
    var_shift_loop B (\<lambda>i. constructAShrByConstant B expr i signedBool shiftBits) shift shiftBits (width - 1) res })"

subsection \<open>Multiplication and division by constants\<close>

fun mul_loop :: "stp_cfg \<Rightarrow> node \<Rightarrow> nat \<Rightarrow> nat \<Rightarrow> uint64_t \<Rightarrow> uint64_t \<Rightarrow> nat \<Rightarrow> node option \<Rightarrow> node option may_abort" where
  "mul_loop B expr width shiftBits add sub 0 res = Some res"
| "mul_loop B expr width shiftBits add sub (Suc j) res =
    (if bit add j \<or> bit sub j then do {
       assert_that (\<not> (bit add j \<and> bit sub j));
       oper \<leftarrow> bvLeftShift B expr j shiftBits;
       res' \<leftarrow>
         (if bit add j then
            (case res of Some r \<Rightarrow> vc_bvPlusExpr (NFac B) width r oper | None \<Rightarrow> Some oper)
          else
            (case res of Some r \<Rightarrow> vc_bvMinusExpr (NFac B) width r oper | None \<Rightarrow> vc_bvUMinusExpr (NFac B) oper));
       mul_loop B expr width shiftBits add sub j (Some res') }
     else mul_loop B expr width shiftBits add sub j res)"

definition constructMulByConstant :: "stp_cfg \<Rightarrow> node \<Rightarrow> nat \<Rightarrow> uint64_t \<Rightarrow> node may_abort" where
  "constructMulByConstant B expr width x = do {
    (add, sub) \<leftarrow> ComputeMultConstants64 x;
    res \<leftarrow> mul_loop B expr width (getShiftBits width) (truncateToNBits add width) (truncateToNBits sub width) 64 None;
    (case res of Some r \<Rightarrow> Some r | None \<Rightarrow> bvZero width) }"

definition constructUDivByConstant :: "stp_cfg \<Rightarrow> node \<Rightarrow> nat \<Rightarrow> uint64_t \<Rightarrow> node may_abort" where
  "constructUDivByConstant B expr_n width d = do {
    assert_that (width = 32);
    (mprime, sh1, sh2) \<leftarrow> ComputeUDivConstants32 (undef_shift B) (ucast d);
    expr_sh1 \<leftarrow> bvConst32 32 sh1;
    expr_sh2 \<leftarrow> bvConst32 32 sh2;
    z32 \<leftarrow> bvZero 32;
    expr_n_64 \<leftarrow> vc_bvConcatExpr (NFac B) z32 expr_n;
    t1_64bits \<leftarrow> constructMulByConstant B expr_n_64 64 (ucast mprime);
    t1 \<leftarrow> vc_bvExtract (NFac B) t1_64bits 63 32;
    n_minus_t1 \<leftarrow> vc_bvMinusExpr (NFac B) width expr_n t1;
    shift_sh1 \<leftarrow> bvVarRightShift B n_minus_t1 expr_sh1 32;
    plus_t1 \<leftarrow> vc_bvPlusExpr (NFac B) width shift_sh1 t1;
    bvVarRightShift B plus_t1 expr_sh2 32 }"

definition constructSDivByConstant :: "stp_cfg \<Rightarrow> node \<Rightarrow> nat \<Rightarrow> uint64_t \<Rightarrow> node may_abort" where
  "constructSDivByConstant B expr_n width d = do {
    assert_that (width = 32);
    (mprime, dsign, shpost) \<leftarrow> ComputeSDivConstants32 (undef_shift B) (ucast d);
    expr_dsign \<leftarrow> bvConst32 32 dsign;
    expr_shpost \<leftarrow> bvConst32 32 shpost;
    expr_n_64 \<leftarrow> vc_bvSignExtend (NFac B) expr_n 64;
    mult_64 \<leftarrow> constructMulByConstant B expr_n_64 64 (scast mprime);
    mulsh \<leftarrow> vc_bvExtract (NFac B) mult_64 63 32;
    n_plus_mulsh \<leftarrow> vc_bvPlusExpr (NFac B) width expr_n mulsh;
    extend_npm \<leftarrow> vc_bvSignExtend (NFac B) n_plus_mulsh 64;
    shift_npm \<leftarrow> bvVarRightShift B extend_npm expr_shpost 64;
    shift_shpost \<leftarrow> vc_bvExtract (NFac B) shift_npm 31 0;
    is_signed \<leftarrow> bvBoolExtract B expr_n 31;
    neg_one \<leftarrow> bvMinusOne 32;
    z32 \<leftarrow> bvZero 32;
    xsign_of_n \<leftarrow> vc_iteExpr (NFac B) is_signed neg_one z32;
    q0 \<leftarrow> vc_bvMinusExpr (NFac B) width shift_shpost xsign_of_n;
    q0_xor_dsign \<leftarrow> vc_bvXorExpr (NFac B) q0 expr_dsign;
    vc_bvMinusExpr (NFac B) width q0_xor_dsign expr_dsign }"

subsection \<open>Expressions\<close>

text \<open>\<^verbatim>\<open>case Expr::Constant\<close>; the loop joins the upper 64-bit parts of a wide constant.\<close>

fun const_parts :: "stp_cfg \<Rightarrow> nat \<Rightarrow> apint \<Rightarrow> node \<Rightarrow> node may_abort" where
  "const_parts B 0 Tmp Res = Some Res"
| "const_parts B (Suc i) Tmp Res = do {
    Tmp' \<leftarrow> CE_bin (apenv B) LShr Tmp (ConstantExpr_alloc (apenv B) 64 (ap_width Tmp));
    v \<leftarrow> getZExtValue (apenv B) 64 (CE_Extract (apenv B) Tmp' 0 64);
    c \<leftarrow> bvConst64 (min 64 (ap_width Tmp')) v;
    Res' \<leftarrow> vc_bvConcatExpr (NFac B) c Res;
    const_parts B i Tmp' Res' }"

definition constructConstant :: "stp_cfg \<Rightarrow> apint \<Rightarrow> node may_abort" where
  "constructConstant B CE =
    (if ap_width CE = 1 then do {
       t \<leftarrow> isTrue (apenv B) CE;
       Some (if t then vc_trueExpr (NFac B) else vc_falseExpr (NFac B)) }
     else if ap_width CE \<le> 32 then do {
       v \<leftarrow> getZExtValue (apenv B) 32 CE;
       bvConst32 (ap_width CE) (ucast v) }
     else if ap_width CE \<le> 64 then do {
       v \<leftarrow> getZExtValue (apenv B) 64 CE;
       bvConst64 (ap_width CE) v }
     else do {
       v \<leftarrow> getZExtValue (apenv B) 64 (CE_Extract (apenv B) CE 0 64);
       Res \<leftarrow> bvConst64 64 v;
       const_parts B (ap_width CE div 64 - 1) CE Res })"

text \<open>The name is cut to the size of the buffer, 256 bytes with the terminating zero.\<close>

definition symbol_name :: "stp_cfg \<Rightarrow> array \<Rightarrow> string" where
  "symbol_name B root = take 255 (arr_name root @ ''_'' @ fmt_ptr B (arr_address root))"

fun const_writes :: "stp_cfg \<Rightarrow> array \<Rightarrow> nat list \<Rightarrow> node \<Rightarrow> node may_abort" where
  "const_writes B root [] prev = Some prev"
| "const_writes B root (i # is) prev = do {
    idx \<leftarrow> constructConstant B (ConstantExpr_alloc (apenv B) (of_nat i) 32);
    c \<leftarrow> nth_opt (constantValues root) i;
    v \<leftarrow> constructConstant B c;
    n \<leftarrow> vc_writeExpr (NFac B) prev idx v;
    const_writes B root is n }"

definition getInitialArray :: "stp_cfg \<Rightarrow> array \<Rightarrow> node build" where
  "getInitialArray B root st =
    (case stpInitialArray st root of
       Some n \<Rightarrow> Some (n, st)
     | None \<Rightarrow> do {
         let sym = buildArray (symbol_name B root) 32 8 in do {
         n \<leftarrow> (if isConstantArray root then const_writes B root [0..<arr_size root] sym else Some sym);
         Some (n, st\<lparr>stpInitialArray := (stpInitialArray st)(root \<mapsto> n)\<rparr>) } })"

definition getInitialRead :: "stp_cfg \<Rightarrow> array \<Rightarrow> uint32_t \<Rightarrow> node build" where
  "getInitialRead B root index st = do {
    (a, st) \<leftarrow> getInitialArray B root st;
    i \<leftarrow> bvConst32 32 index;
    n \<leftarrow> vc_readExpr (NFac B) a i;
    Some (n, st) }"

text \<open>\<^verbatim>\<open>construct\<close>, for an expression and its translation \<^verbatim>\<open>constructActual\<close>.\<close>

definition construct_with :: "stp_cfg \<Rightarrow> expr \<Rightarrow> (node \<times> nat) build \<Rightarrow> (node \<times> nat) build" where
  "construct_with B e actual st =
    (if \<not> UseConstructHash B \<or> isConstant e then actual st
     else
       (case constructed st e of
          Some r \<Rightarrow> Some (r, st)
        | None \<Rightarrow> do {
            (r, st) \<leftarrow> actual st;
            Some (r, st\<lparr>constructed := (constructed st)(e \<mapsto> r)\<rparr>) }))"

text \<open>
  The cases of the binary kinds, for the constructions \<open>cl\<close> and \<open>cr\<close> of the operands \<open>l\<close> and \<open>r\<close>.
\<close>

definition construct_plain ::
  "(nat \<Rightarrow> node \<Rightarrow> node \<Rightarrow> node may_abort) \<Rightarrow> (node \<times> nat) build \<Rightarrow> (node \<times> nat) build \<Rightarrow> (node \<times> nat) build" where
  "construct_plain vc cl cr st = do {
    ((left, w), st) \<leftarrow> cl st;
    ((right, w), st) \<leftarrow> cr st;
    assert_that (w \<noteq> 1);
    n \<leftarrow> vc w left right;
    Some ((n, w), st) }"

definition construct_Mul :: "stp_cfg \<Rightarrow> expr \<Rightarrow> (node \<times> nat) build \<Rightarrow> (node \<times> nat) build \<Rightarrow> (node \<times> nat) build" where
  "construct_Mul B l cl cr st = do {
    ((right, w), st) \<leftarrow> cr st;
    assert_that (w \<noteq> 1);
    (case dyn_const l of
       Some CE \<Rightarrow>
         if ap_width CE \<le> 64 then do {
           v \<leftarrow> getZExtValue (apenv B) 64 CE;
           n \<leftarrow> constructMulByConstant B right w v;
           Some ((n, w), st) }
         else do {
           ((left, w), st) \<leftarrow> cl st;
           n \<leftarrow> vc_bvMultExpr (NFac B) w left right;
           Some ((n, w), st) }
     | None \<Rightarrow> do {
         ((left, w), st) \<leftarrow> cl st;
         n \<leftarrow> vc_bvMultExpr (NFac B) w left right;
         Some ((n, w), st) }) }"

definition construct_UDiv :: "stp_cfg \<Rightarrow> expr \<Rightarrow> (node \<times> nat) build \<Rightarrow> (node \<times> nat) build \<Rightarrow> (node \<times> nat) build" where
  "construct_UDiv B r cl cr st = do {
    ((left, w), st) \<leftarrow> cl st;
    assert_that (w \<noteq> 1);
    let general = do {
      ((right, w), st) \<leftarrow> cr st;
      n \<leftarrow> vc_bvDivExpr (NFac B) w left right;
      Some ((n, w), st) } in
    (case dyn_const r of
       Some CE \<Rightarrow>
         if ap_width CE \<le> 64 then do {
           divisor \<leftarrow> getZExtValue (apenv B) 64 CE;
           if isPowerOfTwo divisor then do {
             n \<leftarrow> bvRightShift B left (indexOfSingleBit divisor) (getShiftBits w);
             Some ((n, w), st) }
           else if optimizeDivides B \<and> w = 32 then do {
             n \<leftarrow> constructUDivByConstant B left w (ucast (ucast divisor :: uint32_t));
             Some ((n, w), st) }
           else general }
         else general
     | None \<Rightarrow> general) }"

definition construct_SDiv :: "stp_cfg \<Rightarrow> expr \<Rightarrow> (node \<times> nat) build \<Rightarrow> (node \<times> nat) build \<Rightarrow> (node \<times> nat) build" where
  "construct_SDiv B r cl cr st = do {
    ((left, w), st) \<leftarrow> cl st;
    assert_that (w \<noteq> 1);
    let general = do {
      ((right, w), st) \<leftarrow> cr st;
      n \<leftarrow> vc_sbvDivExpr (NFac B) w left right;
      Some ((n, w), st) } in
    (case dyn_const r of
       Some CE \<Rightarrow>
         if optimizeDivides B \<and> w = 32 then do {
           d \<leftarrow> getZExtValue (apenv B) 32 CE;
           n \<leftarrow> constructSDivByConstant B left w d;
           Some ((n, w), st) }
         else general
     | None \<Rightarrow> general) }"

definition construct_URem :: "stp_cfg \<Rightarrow> expr \<Rightarrow> (node \<times> nat) build \<Rightarrow> (node \<times> nat) build \<Rightarrow> (node \<times> nat) build" where
  "construct_URem B r cl cr st = do {
    ((left, w), st) \<leftarrow> cl st;
    assert_that (w \<noteq> 1);
    let general = do {
      ((right, w), st) \<leftarrow> cr st;
      n \<leftarrow> vc_bvModExpr (NFac B) w left right;
      Some ((n, w), st) } in
    (case dyn_const r of
       Some CE \<Rightarrow>
         if ap_width CE \<le> 64 then do {
           divisor \<leftarrow> getZExtValue (apenv B) 64 CE;
           if isPowerOfTwo divisor then
             let bits = indexOfSingleBit divisor in
             if bits = 0 then do { n \<leftarrow> bvZero w; Some ((n, w), st) }
             else do {
               zs \<leftarrow> bvZero (w - bits);
               x \<leftarrow> bvExtract B left (bits - 1) 0;
               n \<leftarrow> vc_bvConcatExpr (NFac B) zs x;
               Some ((n, w), st) }
           else if optimizeDivides B \<and> w = 32 then do {
             quotient \<leftarrow> constructUDivByConstant B left w (ucast (ucast divisor :: uint32_t));
             quot_times_divisor \<leftarrow> constructMulByConstant B quotient w divisor;
             rem \<leftarrow> vc_bvMinusExpr (NFac B) w left quot_times_divisor;
             Some ((rem, w), st) }
           else general }
         else general
     | None \<Rightarrow> general) }"

definition construct_logic :: "(node \<Rightarrow> node \<Rightarrow> node may_abort) \<Rightarrow> (node \<Rightarrow> node \<Rightarrow> node may_abort) \<Rightarrow>
    (node \<times> nat) build \<Rightarrow> (node \<times> nat) build \<Rightarrow> (node \<times> nat) build" where
  "construct_logic form term cl cr st = do {
    ((left, w), st) \<leftarrow> cl st;
    ((right, w), st) \<leftarrow> cr st;
    n \<leftarrow> (if w = 1 then form left right else term left right);
    Some ((n, w), st) }"

definition construct_shift :: "stp_cfg \<Rightarrow> (node \<Rightarrow> nat \<Rightarrow> nat \<Rightarrow> node may_abort) \<Rightarrow>
    (node \<Rightarrow> node \<Rightarrow> nat \<Rightarrow> node may_abort) \<Rightarrow> expr \<Rightarrow> (node \<times> nat) build \<Rightarrow> (node \<times> nat) build \<Rightarrow> (node \<times> nat) build" where
  "construct_shift B by_const by_var r cl cr st = do {
    ((left, w), st) \<leftarrow> cl st;
    assert_that (w \<noteq> 1);
    (case dyn_const r of
       Some CE \<Rightarrow> do {
         n \<leftarrow> by_const left (unat (ucast (ap_getLimitedValue B CE) :: uint32_t)) w;
         Some ((n, w), st) }
     | None \<Rightarrow> do {
         ((amount, _), st) \<leftarrow> cr st;
         n \<leftarrow> by_var left amount w;
         Some ((n, w), st) }) }"

definition construct_Eq :: "stp_cfg \<Rightarrow> expr \<Rightarrow> (node \<times> nat) build \<Rightarrow> (node \<times> nat) build \<Rightarrow> (node \<times> nat) build" where
  "construct_Eq B l cl cr st = do {
    ((left, w), st) \<leftarrow> cl st;
    ((right, w), st) \<leftarrow> cr st;
    if w = 1 then
      (case dyn_const l of
         Some CE \<Rightarrow> do {
           t \<leftarrow> isTrue (apenv B) CE;
           n \<leftarrow> (if t then Some right else vc_notExpr (NFac B) right);
           Some ((n, w), st) }
       | None \<Rightarrow> do {
           n \<leftarrow> vc_iffExpr (NFac B) left right;
           Some ((n, w), st) })
    else do {
      n \<leftarrow> vc_eqExpr (NFac B) left right;
      Some ((n, 1), st) } }"

definition construct_cmp :: "(node \<Rightarrow> node \<Rightarrow> node may_abort) \<Rightarrow> (node \<times> nat) build \<Rightarrow> (node \<times> nat) build \<Rightarrow> (node \<times> nat) build" where
  "construct_cmp vc cl cr st = do {
    ((left, w), st) \<leftarrow> cl st;
    ((right, w), st) \<leftarrow> cr st;
    assert_that (w \<noteq> 1);
    n \<leftarrow> vc left right;
    Some ((n, 1), st) }"

definition construct_bin :: "stp_cfg \<Rightarrow> bkind \<Rightarrow> expr \<Rightarrow> expr \<Rightarrow> (node \<times> nat) build \<Rightarrow> (node \<times> nat) build \<Rightarrow> (node \<times> nat) build" where
  "construct_bin B k l r cl cr =
    (case k of
       Add \<Rightarrow> construct_plain (vc_bvPlusExpr (NFac B)) cl cr
     | Sub \<Rightarrow> construct_plain (vc_bvMinusExpr (NFac B)) cl cr
     | Mul \<Rightarrow> construct_Mul B l cl cr
     | UDiv \<Rightarrow> construct_UDiv B r cl cr
     | SDiv \<Rightarrow> construct_SDiv B r cl cr
     | URem \<Rightarrow> construct_URem B r cl cr
     | SRem \<Rightarrow> construct_plain (vc_sbvModExpr (NFac B)) cl cr
     | And \<Rightarrow> construct_logic (vc_andExpr (NFac B)) (vc_bvAndExpr (NFac B)) cl cr
     | Or \<Rightarrow> construct_logic (vc_orExpr (NFac B)) (vc_bvOrExpr (NFac B)) cl cr
     | Xor \<Rightarrow> construct_logic
         (\<lambda>left right. do { n \<leftarrow> vc_notExpr (NFac B) right; vc_iteExpr (NFac B) left n right })
         (vc_bvXorExpr (NFac B)) cl cr
     | Shl \<Rightarrow> construct_shift B (\<lambda>left n w. bvLeftShift B left n (getShiftBits w)) (bvVarLeftShift B) r cl cr
     | LShr \<Rightarrow> construct_shift B (\<lambda>left n w. bvRightShift B left n (getShiftBits w)) (bvVarRightShift B) r cl cr
     | AShr \<Rightarrow> construct_shift B
         (\<lambda>left n w. do { s \<leftarrow> bvBoolExtract B left (w - 1); constructAShrByConstant B left n s (getShiftBits w) })
         (bvVarArithRightShift B) r cl cr)"

definition construct_compare :: "stp_cfg \<Rightarrow> ckind \<Rightarrow> expr \<Rightarrow> (node \<times> nat) build \<Rightarrow> (node \<times> nat) build \<Rightarrow> (node \<times> nat) build" where
  "construct_compare B k l cl cr =
    (case k of
       Eq \<Rightarrow> construct_Eq B l cl cr
     | Ult \<Rightarrow> construct_cmp (vc_bvLtExpr (NFac B)) cl cr
     | Ule \<Rightarrow> construct_cmp (vc_bvLeExpr (NFac B)) cl cr
     | Slt \<Rightarrow> construct_cmp (vc_sbvLtExpr (NFac B)) cl cr
     | Sle \<Rightarrow> construct_cmp (vc_sbvLeExpr (NFac B)) cl cr
     | _ \<Rightarrow> (\<lambda>st. None))"

fun constructActual :: "stp_cfg \<Rightarrow> expr \<Rightarrow> (node \<times> nat) build"
  and getArrayForUpdate :: "stp_cfg \<Rightarrow> array \<Rightarrow> update_node \<Rightarrow> node build" where
  "constructActual B (ConstantExpr CE) = (\<lambda>st. do {
    n \<leftarrow> constructConstant B CE;
    Some ((n, ap_width CE), st) })"
| "constructActual B (NotOptimizedExpr src) = construct_with B src (constructActual B src)"
| "constructActual B (ReadExpr root head index) = (\<lambda>st. do {
    (a, st) \<leftarrow> getArrayForUpdate B root head st;
    ((i, _), st) \<leftarrow> construct_with B index (constructActual B index) st;
    n \<leftarrow> vc_readExpr (NFac B) a i;
    Some ((n, 8), st) })"
| "constructActual B (SelectExpr c t f) = (\<lambda>st. do {
    ((cond, _), st) \<leftarrow> construct_with B c (constructActual B c) st;
    ((tExpr, _), st) \<leftarrow> construct_with B t (constructActual B t) st;
    ((fExpr, w), st) \<leftarrow> construct_with B f (constructActual B f) st;
    n \<leftarrow> vc_iteExpr (NFac B) cond tExpr fExpr;
    Some ((n, w), st) })"
| "constructActual B (ConcatExpr l r) = (\<lambda>st. do {
    ((res, _), st) \<leftarrow> construct_with B r (constructActual B r) st;
    ((left, _), st) \<leftarrow> construct_with B l (constructActual B l) st;
    n \<leftarrow> vc_bvConcatExpr (NFac B) left res;
    Some ((n, getWidth (ConcatExpr l r)), st) })"
| "constructActual B (ExtractExpr e offset w) = (\<lambda>st. do {
    ((src, _), st) \<leftarrow> construct_with B e (constructActual B e) st;
    n \<leftarrow> (if w = 1 then bvBoolExtract B src 0 else vc_bvExtract (NFac B) src (offset + w - 1) offset);
    Some ((n, w), st) })"
| "constructActual B (ZExtExpr e w) = (\<lambda>st. do {
    ((src, srcWidth), st) \<leftarrow> construct_with B e (constructActual B e) st;
    n \<leftarrow> (if srcWidth = 1 then do {
        one \<leftarrow> bvOne w;
        zero \<leftarrow> bvZero w;
        vc_iteExpr (NFac B) src one zero }
      else do {
        zero \<leftarrow> bvZero (w - srcWidth);
        vc_bvConcatExpr (NFac B) zero src });
    Some ((n, w), st) })"
| "constructActual B (SExtExpr e w) = (\<lambda>st. do {
    ((src, srcWidth), st) \<leftarrow> construct_with B e (constructActual B e) st;
    n \<leftarrow> (if srcWidth = 1 then do {
        m \<leftarrow> bvMinusOne w;
        zero \<leftarrow> bvZero w;
        vc_iteExpr (NFac B) src m zero }
      else vc_bvSignExtend (NFac B) src w);
    Some ((n, w), st) })"
| "constructActual B (NotExpr e) = (\<lambda>st. do {
    ((x, w), st) \<leftarrow> construct_with B e (constructActual B e) st;
    n \<leftarrow> (if w = 1 then vc_notExpr (NFac B) x else vc_bvNotExpr (NFac B) x);
    Some ((n, w), st) })"
| "constructActual B (BinaryExpr k l r) =
    construct_bin B k l r (construct_with B l (constructActual B l)) (construct_with B r (constructActual B r))"
| "constructActual B (CmpExpr k l r) =
    construct_compare B k l (construct_with B l (constructActual B l)) (construct_with B r (constructActual B r))"
| "getArrayForUpdate B root NoUpdate = getInitialArray B root"
| "getArrayForUpdate B root (UpdateNode ui uv next) = (\<lambda>st.
    case stpArray st (root, UpdateNode ui uv next) of
      Some n \<Rightarrow> Some (n, st)
    | None \<Rightarrow> do {
        (a, st) \<leftarrow> getArrayForUpdate B root next st;
        ((i, _), st) \<leftarrow> construct_with B ui (constructActual B ui) st;
        ((v, _), st) \<leftarrow> construct_with B uv (constructActual B uv) st;
        n \<leftarrow> vc_writeExpr (NFac B) a i v;
        Some (n, st\<lparr>stpArray := (stpArray st)((root, UpdateNode ui uv next) \<mapsto> n)\<rparr>) })"

definition construct_cached :: "stp_cfg \<Rightarrow> expr \<Rightarrow> (node \<times> nat) build" where
  "construct_cached B e = construct_with B e (constructActual B e)"

definition construct :: "stp_cfg \<Rightarrow> expr \<Rightarrow> node build" where
  "construct B e st = do {
    ((res, _), st) \<leftarrow> construct_cached B e st;
    Some (res, st\<lparr>constructed := Map.empty\<rparr>) }"

subsection \<open>Expressions the builder can translate\<close>

text \<open>The contents of the arrays that an assignment to the array variables of the solver describes.\<close>

definition stp_contents :: "stp_cfg \<Rightarrow> (string \<Rightarrow> int \<Rightarrow> int) \<Rightarrow> contents" where
  "stp_contents B \<mu> a i = \<mu> (symbol_name B a) (int i)"

definition byte_vals :: "(string \<Rightarrow> int \<Rightarrow> int) \<Rightarrow> bool" where
  "byte_vals \<mu> \<longleftrightarrow> (\<forall>s i. 0 \<le> \<mu> s i \<and> \<mu> s i < 256)"

definition std_width :: "nat \<Rightarrow> bool" where
  "std_width w \<longleftrightarrow> w \<le> 32 \<or> w = 64"

text \<open>
  The conditions under which the translation is correct: the canonical forms that the assertions of
  the builder name, widths for which the shifts by constants are exact, divisors that are not zero,
  and shift amounts that are in the range that the solver looks at.
\<close>

definition bin_ok :: "contents \<Rightarrow> bkind \<Rightarrow> expr \<Rightarrow> expr \<Rightarrow> bool" where
  "bin_ok \<alpha> k l r \<longleftrightarrow>
    (let w = getWidth l in
     (k \<in> {And, Or, Xor} \<or> w \<noteq> 1) \<and>
     (is_div k \<longrightarrow> eval \<alpha> r \<noteq> 0) \<and>
     (k = Mul \<and> isConstant l \<and> w \<le> 64 \<longrightarrow> std_width w) \<and>
     (k = UDiv \<and> isConstant r \<and> w \<le> 64 \<longrightarrow> std_width w) \<and>
     (k \<in> {Shl, LShr, AShr} \<longrightarrow>
        std_width w \<and> eval \<alpha> r < 2 ^ getShiftBits w \<and> (isConstant r \<or> getShiftBits w \<le> w)))"

fun buildable :: "contents \<Rightarrow> expr \<Rightarrow> bool" and buildable_updates :: "contents \<Rightarrow> update_node \<Rightarrow> bool" where
  "buildable \<alpha> (ConstantExpr a) = (ap_width a \<le> 64 \<or> 64 dvd ap_width a)"
| "buildable \<alpha> (NotOptimizedExpr e) = buildable \<alpha> e"
| "buildable \<alpha> (ReadExpr a us i) = (buildable_updates \<alpha> us \<and> buildable \<alpha> i)"
| "buildable \<alpha> (SelectExpr c t f) = (buildable \<alpha> c \<and> buildable \<alpha> t \<and> buildable \<alpha> f)"
| "buildable \<alpha> (ConcatExpr l r) = (buildable \<alpha> l \<and> buildable \<alpha> r \<and> getWidth l \<noteq> 1 \<and> getWidth r \<noteq> 1)"
| "buildable \<alpha> (ExtractExpr e offset w) =
    (buildable \<alpha> e \<and> getWidth e \<noteq> 1 \<and> getWidth e < 2 ^ 31 \<and> (w = 1 \<longrightarrow> offset = 0))"
| "buildable \<alpha> (ZExtExpr e w) = 
    (buildable \<alpha> e \<and> getWidth e < w \<and> w - getWidth e \<le> 64 \<and> (getWidth e = 1 \<longrightarrow> w \<le> 64))"
| "buildable \<alpha> (SExtExpr e w) = (buildable \<alpha> e \<and> getWidth e < w \<and> w < 2 ^ 31 \<and> (getWidth e = 1 \<longrightarrow> w \<le> 64))"
| "buildable \<alpha> (NotExpr e) = buildable \<alpha> e"
| "buildable \<alpha> (BinaryExpr k l r) = (buildable \<alpha> l \<and> buildable \<alpha> r \<and> bin_ok \<alpha> k l r)"
| "buildable \<alpha> (CmpExpr k l r) =
    (buildable \<alpha> l \<and> buildable \<alpha> r \<and> (k = Eq \<or> k \<in> {Ult, Ule, Slt, Sle} \<and> getWidth l \<noteq> 1))"
| "buildable_updates \<alpha> NoUpdate = True"
| "buildable_updates \<alpha> (UpdateNode i v n) = (buildable \<alpha> i \<and> buildable \<alpha> v \<and> buildable_updates \<alpha> n)"

end
