(* ===== verification/STPBuilder_Arith.thy ===== *)
theory STPBuilder_Arith
  imports STPBuilder
begin

text \<open>
  The arithmetic of \<^verbatim>\<open>STPBuilder\<close>: shifts by constants and by variable amounts, multiplication and
  division by constants. Each lemma says that the node has the value of the operation of the
  expression language, for every assignment to the array variables.
\<close>

declare One_nat_def [simp del]

subsection \<open>Constants and shifts\<close>

lemma getShiftBits_cases: "getShiftBits w \<le> 6" "0 < getShiftBits w" "(2::nat) ^ getShiftBits w \<le> 64" "std_width w \<Longrightarrow> w \<le> 2 ^ getShiftBits w"
  by (auto simp: getShiftBits_def std_width_def)

lemma bv_consts:
  assumes "0 < w" "w \<le> 64"
  shows "\<exists>n. bvZero w = Some n \<and> bv z \<mu> n w 0"
    and "\<exists>n. bvOne w = Some n \<and> bv z \<mu> n w 1"
    and "\<exists>n. bvMinusOne w = Some n \<and> bv z \<mu> n w (2 ^ w - 1)"
    and "uint v < 2 ^ w \<Longrightarrow> \<exists>n. bvConst32 w v = Some n \<and> bv z \<mu> n w (uint v)"
    and "\<exists>n. bvConst64 w x = Some n \<and> bv z \<mu> n w (uint x mod 2 ^ w)"
proof -
  show "\<exists>n. bvZero w = Some n \<and> bv z \<mu> n w 0" "\<exists>n. bvOne w = Some n \<and> bv z \<mu> n w 1"
    using vc_consts(1) [OF assms, of 0] vc_consts(1) [OF assms, of 1] assms(1)
    by (simp_all add: bvZero_def bvOne_def bvConst32_def)
  have "uint (- 1 :: uint64_t) mod 2 ^ w = 2 ^ w - 1"
  proof -
    have "take_bit w (mask 64 :: int) = mask w"
      by (rule bit_eqI) (use assms(2) in \<open>auto simp: bit_take_bit_iff bit_mask_iff\<close>)
    then show ?thesis by (simp add: unsigned_minus_1_eq_mask take_bit_eq_mod mask_eq_exp_minus_1)
  qed
  then show "\<exists>n. bvMinusOne w = Some n \<and> bv z \<mu> n w (2 ^ w - 1)"
    using vc_consts(2) [OF assms, of "- 1"] by (simp add: bvMinusOne_def bvConst64_def)
  show "uint v < 2 ^ w \<Longrightarrow> \<exists>n. bvConst32 w v = Some n \<and> bv z \<mu> n w (uint v)"
    "\<exists>n. bvConst64 w x = Some n \<and> bv z \<mu> n w (uint x mod 2 ^ w)"
    using vc_consts [OF assms] by (simp_all add: bvConst32_def bvConst64_def)
qed

lemma div_pow_less:
  assumes "a < 2 ^ w" "s \<le> w"
  shows "a div 2 ^ s < (2::int) ^ (w - s)"
proof (rule ccontr)
  assume "\<not> a div 2 ^ s < 2 ^ (w - s)"
  then have "2 ^ (w - s) * 2 ^ s \<le> a div 2 ^ s * 2 ^ s" by (intro mult_right_mono) auto
  also have "\<dots> \<le> a" using pos_mod_sign [of "2 ^ s" a, OF zero_less_power] div_mult_mod_eq [of a "2 ^ s"] by linarith
  finally show False using assms by (simp flip: power_add)
qed

text \<open>The partial sum: no node stands for 0.\<close>

definition partial :: "bool \<Rightarrow> (string \<Rightarrow> int \<Rightarrow> int) \<Rightarrow> nat \<Rightarrow> node option \<Rightarrow> int \<Rightarrow> bool" where
  "partial z \<mu> w res v \<longleftrightarrow> (case res of None \<Rightarrow> v mod 2 ^ w = 0 | Some r \<Rightarrow> bv z \<mu> r w (v mod 2 ^ w))"

subsection \<open>Words\<close>

lemma uint_drop_bit: "uint (drop_bit k w) = uint w div 2 ^ k" for w :: "'a::len word"
proof -
  have "take_bit LENGTH('a) (uint w) = uint w" using uint_bounded [of w] by (simp add: take_bit_int_eq_self)
  then show ?thesis unfolding unsigned_drop_bit_eq by (simp only: drop_bit_eq_div)
qed

lemma high_half: "uint (x :: uint64_t) div 2 ^ 32 mod 2 ^ 32 = uint (ucast (drop_bit 32 x) :: uint32_t)"
proof -
  have "uint (ucast (drop_bit 32 x) :: uint32_t) = uint (drop_bit 32 x) mod 2 ^ 32"
    by (simp only: unsigned_ucast_eq) (simp add: take_bit_eq_mod)
  then show ?thesis by (simp only: uint_drop_bit)
qed

lemma sgn_val_uint: "sgn_val 32 (uint (n :: uint32_t)) = sint n"
proof -
  have b: "0 \<le> uint n" "uint n < 2 ^ 32" using uint_bounded [of n] by simp_all
  have "sint n = (uint n + 2 ^ 31) mod 2 ^ 32 - 2 ^ 31" using int_word_sint [of "uint n", where 'a = 32] by simp
  moreover have "(uint n + 2 ^ 31) mod 2 ^ 32 = (if uint n < 2 ^ 31 then uint n + 2 ^ 31 else uint n - 2 ^ 31)"
  proof (cases "uint n < 2 ^ 31")
    case False
    have "(uint n + 2 ^ 31) mod 2 ^ 32 = (uint n - 2 ^ 31) mod 2 ^ 32"
      using mod_add_self2 [of "uint n - 2 ^ 31" "2 ^ 32"] by (simp add: add.commute)
    then show ?thesis using False b by (simp add: mod_pos_pos_trivial)
  qed (use b in \<open>simp add: mod_pos_pos_trivial\<close>)
  ultimately show ?thesis by (simp add: sgn_val_def)
qed

lemma uint_scast_64: "uint (scast (n :: uint32_t) :: uint64_t) = sgn_val 32 (uint n) mod 2 ^ 64"
  unfolding sgn_val_uint by (simp only: scast_eq uint_word_of_int) simp

lemma uint_minus_1_32: "uint (- 1 :: uint32_t) = 2 ^ 32 - 1"
  by (simp add: unsigned_minus_1_eq_mask mask_eq_exp_minus_1)

lemma shr_word:
  assumes "w = LENGTH('a)" "unat (s :: uint32_t) < w"
  shows "sem_bin LShr w (uint x) (uint s) = uint (drop_bit (unat s) (x :: 'a::len word))"
proof -
  have "nat (uint s) = unat s" "uint s < int w" unfolding uint_nat using assms(2) by (simp_all only: nat_int of_nat_less_iff)
  moreover have "uint x div 2 ^ unat s mod 2 ^ w = uint x div 2 ^ unat s"
  proof (rule mod_pos_pos_trivial)
    have p: "(0::int) < 2 ^ unat s" by simp
    show "0 \<le> uint x div 2 ^ unat s" using udiv_bounds(1) [of "uint x", OF _ p] by simp
    show "uint x div 2 ^ unat s < 2 ^ w" using le_less_trans [OF udiv_bounds(2) [OF uint_ge_0 p] uint_bounded [of x]] unfolding assms(1) .
  qed
  ultimately show ?thesis by (simp add: sem_bin.simps uint_drop_bit)
qed

lemma low_half_shift:
  assumes "k \<le> 30"
  shows "uint (drop_bit k (scast q :: uint64_t)) mod 2 ^ 32 = uint (signed_drop_bit k (q :: uint32_t))"
proof -
  have "ucast (drop_bit k (scast q :: uint64_t)) = signed_drop_bit k q"
  proof (rule bit_word_eqI)
    fix i assume "i < LENGTH(32)"
    moreover have "k + i = 31" if "31 \<le> k + i" "\<not> 32 - k \<le> i" using that by linarith
    ultimately show "bit (ucast (drop_bit k (scast q :: uint64_t)) :: uint32_t) i = bit (signed_drop_bit k q) i"
      using assms by (auto simp: bit_ucast_iff bit_drop_bit_eq bit_signed_iff bit_signed_drop_bit_iff min_def)
  qed
  moreover have "uint (ucast x :: uint32_t) = uint x mod 2 ^ 32" for x :: uint64_t
    by (simp only: unsigned_ucast_eq) (simp add: take_bit_eq_mod)
  ultimately show ?thesis by metis
qed

locale stp_laws = node_factory "NFac B" + apint_laws "apenv B" for B :: stp_cfg +
  assumes limited: "wf_ap a \<Longrightarrow> ap_val a < 2 ^ 64 \<Longrightarrow> ap_getLimitedValue B a = word_of_int (ap_val a)"
    and shift_zero: "shl_keeps_zero (undef_shift B)"
begin

lemma bvExtract_ok:
  assumes "bv z \<mu> e w a" "lo \<le> hi" "hi < w" "w < 2 ^ 31"
  obtains n where "bvExtract B e hi lo = Some n" "bv z \<mu> n (hi - lo + 1) (a div 2 ^ lo mod 2 ^ (hi - lo + 1))"
  using vc_bvExtract [OF assms] by (auto simp: bvExtract_def)

lemma bvBoolExtract_ok:
  assumes "bv z \<mu> e w a" "i < w" "w < 2 ^ 31"
  shows "\<exists>n. bvBoolExtract B e i = Some n \<and> fm z \<mu> n (a div 2 ^ i mod 2 = 1)"
proof -
  obtain x where x: "bvExtract B e i i = Some x" "bv z \<mu> x 1 (a div 2 ^ i mod 2)"
    using bvExtract_ok [OF assms(1) order_refl assms(2,3)] by auto
  obtain o1 where o1: "bvOne 1 = Some o1" "bv z \<mu> o1 1 1" using bv_consts(2) [of 1 z \<mu>] by auto
  show ?thesis using vc_eqExpr [OF x(2) o1(2)] by (simp add: bvBoolExtract_def x(1) o1(1))
qed

lemma sign_bit:
  assumes "0 < w" "0 \<le> a" "a < 2 ^ w"
  shows "a div 2 ^ (w - 1) mod 2 = 1 \<longleftrightarrow> sgn_val w a < 0"
proof -
  have W: "(2::int) ^ w = 2 * 2 ^ (w - 1)" using assms(1) by (cases w) simp_all
  have "a div 2 ^ (w - 1) = (if a < 2 ^ (w - 1) then 0 else 1)"
    using assms W by (auto intro!: int_div_pos_eq [where r = "a - 2 ^ (w - 1)"])
  then show ?thesis using assms by (auto simp: sgn_val_def)
qed

lemma bvRightShift_ok:
  assumes "bv z \<mu> e w a" "w < 2 ^ 31" "sb \<le> 6" "k mod 2 ^ sb = s"
  shows "\<exists>n. bvRightShift B e k sb = Some n \<and> bv z \<mu> n w (a div 2 ^ s)"
proof -
  note e = bvD [OF assms(1)]
  have "s < 2 ^ sb" using assms(4) by auto
  also have "(2::nat) ^ sb \<le> 2 ^ 6" using assms(3) by (intro power_increasing) auto
  finally have s: "s < 64" by simp
  note len = vc_getBVLength [OF assms(1)]
  consider "s = 0" | "0 < s" "w \<le> s" | "0 < s" "s < w" by linarith
  then show ?thesis
  proof cases
    case 1
    then show ?thesis using assms(1) by (simp add: bvRightShift_def len assms(4))
  next
    case 2
    have "a < 2 ^ s" using e(7) power_increasing [of w s "2::int"] 2 by linarith
    then have "a div 2 ^ s = 0" using e(6) by simp
    then show ?thesis using 2 s bv_consts(1) [of w z \<mu>] e(4) by (simp add: bvRightShift_def len assms(4))
  next
    case 3
    obtain zs where zs: "bvZero s = Some zs" "bv z \<mu> zs s 0" using bv_consts(1) [of s z \<mu>] 3 s by auto
    obtain x where x: "bvExtract B e (w - 1) s = Some x" "bv z \<mu> x (w - s) (a div 2 ^ s mod 2 ^ (w - s))"
      by (rule bvExtract_ok [OF assms(1), of s "w - 1"]) (use 3 assms(2) in auto)
    have "a div 2 ^ s < 2 ^ (w - s)" using e(7) 3 by (intro div_pow_less) auto
    then have "a div 2 ^ s mod 2 ^ (w - s) = a div 2 ^ s" using e(6) by (simp add: mod_pos_pos_trivial pos_imp_zdiv_nonneg_iff)
    then show ?thesis using vc_bvConcatExpr [OF zs(2) x(2)] 3 by (simp add: bvRightShift_def len assms(4) zs(1) x(1))
  qed
qed

lemma bvLeftShift_ok:
  assumes "bv z \<mu> e w a" "w < 2 ^ 31" "sb \<le> 6" "k mod 2 ^ sb = s"
  shows "\<exists>n. bvLeftShift B e k sb = Some n \<and> bv z \<mu> n w (a * 2 ^ s mod 2 ^ w)"
proof -
  note e = bvD [OF assms(1)]
  have "s < 2 ^ sb" using assms(4) by auto
  also have "(2::nat) ^ sb \<le> 2 ^ 6" using assms(3) by (intro power_increasing) auto
  finally have s: "s < 64" by simp
  note len = vc_getBVLength [OF assms(1)]
  consider "s = 0" | "0 < s" "w \<le> s" | "0 < s" "s < w" by linarith
  then show ?thesis
  proof cases
    case 1
    then show ?thesis using assms(1) e by (simp add: bvLeftShift_def len assms(4) mod_pos_pos_trivial)
  next
    case 2
    then have "a * 2 ^ s mod 2 ^ w = 0" by (simp add: le_imp_power_dvd)
    then show ?thesis using 2 s bv_consts(1) [of w z \<mu>] e(4) by (simp add: bvLeftShift_def len assms(4))
  next
    case 3
    obtain zs where zs: "bvZero s = Some zs" "bv z \<mu> zs s 0" using bv_consts(1) [of s z \<mu>] 3 s by auto
    obtain x where x: "bvExtract B e (w - s - 1) 0 = Some x" "bv z \<mu> x (w - s) (a mod 2 ^ (w - s))"
      using bvExtract_ok [OF assms(1), of 0 "w - s - 1"] 3 assms(2) by auto
    have "(2::int) ^ s * 2 ^ (w - s) = 2 ^ w" using 3 by (simp flip: power_add)
    then have "a mod 2 ^ (w - s) * 2 ^ s = a * 2 ^ s mod 2 ^ w"
      using mult_mod_right [of "2 ^ s" a "2 ^ (w - s)"] by (simp only: mult.commute)
    then show ?thesis using vc_bvConcatExpr [OF x(2) zs(2)] 3 by (simp add: bvLeftShift_def len assms(4) zs(1) x(1) del: diff_diff_left)
  qed
qed

lemma sgn_val_div_big:
  assumes "0 < w" "0 \<le> a" "a < 2 ^ w" "w - 1 \<le> s"
  shows "sgn_val w a div 2 ^ s = (if sgn_val w a < 0 then - 1 else 0)"
proof -
  have W: "(2::int) ^ w = 2 * 2 ^ (w - 1)" using assms(1) by (cases w) simp_all
  have p: "(2::int) ^ (w - 1) \<le> 2 ^ s" by (rule power_increasing) (use assms(4) in auto)
  have b: "- (2 ^ s) \<le> sgn_val w a" "sgn_val w a < 2 ^ s" using assms(2,3) W p unfolding sgn_val_def by (auto simp del: power_increasing_iff)
  show ?thesis
  proof (cases "sgn_val w a < 0")
    case True
    then have "sgn_val w a div 2 ^ s = - 1" using b by (intro int_div_pos_eq [where r = "sgn_val w a + 2 ^ s"]) auto
    then show ?thesis using True by simp
  qed (use b in simp)
qed

lemma sgn_val_div:
  assumes "0 < w" "0 \<le> a" "a < 2 ^ w" "s \<le> w"
  shows "sgn_val w a div 2 ^ s mod 2 ^ w = (if sgn_val w a < 0 then (2 ^ s - 1) * 2 ^ (w - s) + a div 2 ^ s else a div 2 ^ s)"
proof -
  have W: "(2::int) ^ w = 2 ^ (w - s) * 2 ^ s" using assms(4) by (simp flip: power_add)
  have d: "0 \<le> a div 2 ^ s" "a div 2 ^ s < 2 ^ (w - s)" using assms div_pow_less [OF assms(3,4)] by (simp_all add: pos_imp_zdiv_nonneg_iff)
  have le: "(2::int) ^ (w - s) \<le> 2 ^ w" by (rule power_increasing) auto
  have neg: "(a - 2 ^ w) div 2 ^ s = a div 2 ^ s - 2 ^ (w - s)" unfolding W using div_mult_self1 [of "2 ^ s" a "- (2 ^ (w - s))"] by simp
  show ?thesis
  proof (cases "a < 2 ^ (w - 1)")
    case True
    have "a div 2 ^ s < 2 ^ w" using d le by linarith
    then show ?thesis using True assms d by (simp add: sgn_val_def mod_pos_pos_trivial)
  next
    case False
    have "(a div 2 ^ s - 2 ^ (w - s)) mod 2 ^ w = (a div 2 ^ s - 2 ^ (w - s) + 2 ^ w) mod 2 ^ w" by simp
    also have "\<dots> = a div 2 ^ s - 2 ^ (w - s) + 2 ^ w" using d le by (intro mod_pos_pos_trivial) linarith+
    also have "\<dots> = (2 ^ s - 1) * 2 ^ (w - s) + a div 2 ^ s" unfolding W by (simp add: algebra_simps)
    finally have "sgn_val w a div 2 ^ s mod 2 ^ w = (2 ^ s - 1) * 2 ^ (w - s) + a div 2 ^ s"
      using False by (simp only: sgn_val_def if_False neg)
    moreover have "sgn_val w a < 0" using False assms(3) by (simp add: sgn_val_def)
    ultimately show ?thesis by simp
  qed
qed

lemma constructAShrByConstant_ok:
  assumes "bv z \<mu> e w a" "2 \<le> w" "w \<le> 64" "sb \<le> 6" "k mod 2 ^ sb = s" "fm z \<mu> sg (sgn_val w a < 0)"
  shows "\<exists>n. constructAShrByConstant B e k sg sb = Some n \<and> bv z \<mu> n w (sgn_val w a div 2 ^ s mod 2 ^ w)"
proof -
  note e = bvD [OF assms(1)] and len = vc_getBVLength [OF assms(1)]
  consider "s = 0" | "0 < s" "w - 1 \<le> s" | "0 < s" "s < w - 1" by linarith
  then show ?thesis
  proof cases
    case 1
    have "sgn_val w a mod 2 ^ w = a" using e by (auto simp: sgn_val_def mod_pos_pos_trivial)
    then show ?thesis using assms(1) 1 by (simp add: constructAShrByConstant_def len assms(5))
  next
    case 2
    obtain m where m: "bvMinusOne w = Some m" "bv z \<mu> m w (2 ^ w - 1)" using bv_consts(3) [of w z \<mu>] assms(2,3) by auto
    obtain zs where zs: "bvZero w = Some zs" "bv z \<mu> zs w 0" using bv_consts(1) [of w z \<mu>] assms(2,3) by auto
    have "sgn_val w a div 2 ^ s mod 2 ^ w = (if sgn_val w a < 0 then 2 ^ w - 1 else 0)"
      using sgn_val_div_big [OF e(4,6,7) 2(2)] by (simp add: zmod_minus1)
    then show ?thesis using vc_ite_bv [OF assms(6) m(2) zs(2)] 2 by (simp add: constructAShrByConstant_def len assms(5) m(1) zs(1))
  next
    case 3
    have s: "s \<le> 64" using 3 assms(3) by simp
    obtain m where m: "bvMinusOne s = Some m" "bv z \<mu> m s (2 ^ s - 1)" using bv_consts(3) [of s z \<mu>] 3 s by auto
    obtain x where x: "bvExtract B e (w - 1) s = Some x" "bv z \<mu> x (w - s) (a div 2 ^ s mod 2 ^ (w - s))"
      by (rule bvExtract_ok [OF assms(1), of s "w - 1"]) (use 3 assms(2,3) in auto)
    have l: "a div 2 ^ s mod 2 ^ (w - s) = a div 2 ^ s"
      using div_pow_less [OF e(7), of s] 3 e(6) by (simp add: mod_pos_pos_trivial pos_imp_zdiv_nonneg_iff)
    obtain t where t: "vc_bvConcatExpr (NFac B) m x = Some t" "bv z \<mu> t w ((2 ^ s - 1) * 2 ^ (w - s) + a div 2 ^ s)"
      using vc_bvConcatExpr [OF m(2) x(2)] 3 l by auto
    obtain f where f: "bvRightShift B e s sb = Some f" "bv z \<mu> f w (a div 2 ^ s)"
      using bvRightShift_ok [OF assms(1) _ assms(4), of s s] assms(3,5) by auto
    have "(if sgn_val w a < 0 then (2 ^ s - 1) * 2 ^ (w - s) + a div 2 ^ s else a div 2 ^ s) = sgn_val w a div 2 ^ s mod 2 ^ w"
      using sgn_val_div [OF e(4,6,7), of s] 3 by simp
    then show ?thesis using vc_ite_bv [OF assms(6) t(2) f(2)] 3
      by (simp add: constructAShrByConstant_def len assms(5) m(1) x(1) t(1) f(1))
  qed
qed

lemma var_shift_loop_ok:
  assumes "bv z \<mu> sh sb v" "sb \<le> 6" "0 < sb" "n \<le> 2 ^ sb"
    and "\<And>i. i < n \<Longrightarrow> \<exists>m. shf i = Some m \<and> bv z \<mu> m w (g i)"
    and "bv z \<mu> res w x"
  shows "\<exists>m. var_shift_loop B shf sh sb n res = Some m \<and> bv z \<mu> m w (if v < int n then g (nat v) else x)"
  using assms(4-6)
proof (induction n arbitrary: res x)
  case 0
  then show ?case using bvD(6) [OF assms(1)] by auto
next
  case (Suc i)
  have "(2::nat) ^ sb \<le> 2 ^ 6" using assms(2) by (intro power_increasing) auto
  then have i: "i < 2 ^ sb" "i < 64" using Suc.prems(1) by auto
  have iu: "uint (of_nat i :: uint32_t) = int i"
    using i(2) by (simp add: unsigned_of_nat take_bit_nat_eq_self)
  obtain c where c: "bvConst32 sb (of_nat i) = Some c" "bv z \<mu> c sb (int i)"
    using bv_consts(4) [of sb "of_nat i" z \<mu>] assms(2,3) i iu by auto
  obtain q where q: "eqExpr B sh c = Some q" "fm z \<mu> q (v = int i)"
    using vc_eqExpr [OF assms(1) c(2)] by (auto simp: eqExpr_def)
  obtain y where y: "shf i = Some y" "bv z \<mu> y w (g i)" using Suc.prems(2) [of i] by auto
  obtain r where r: "vc_iteExpr (NFac B) q y res = Some r" "bv z \<mu> r w (if v = int i then g i else x)"
    using vc_ite_bv [OF q(2) y(2) Suc.prems(3)] by auto
  have "\<exists>m. var_shift_loop B shf sh sb i r = Some m \<and>
      bv z \<mu> m w (if v < int i then g (nat v) else if v = int i then g i else x)"
    using Suc.IH [OF _ Suc.prems(2) r(2)] Suc.prems(1) by simp
  moreover have "(if v < int i then g (nat v) else if v = int i then g i else x) = (if v < int (Suc i) then g (nat v) else x)"
    by (cases "v = int i") auto
  ultimately show ?case by (simp add: c(1) q(1) y(1) r(1))
qed

lemma var_shift_amount:
  assumes "bv z \<mu> am v b" "getShiftBits w \<le> v" "v < 2 ^ 31"
  shows "\<exists>n. vc_bvExtract (NFac B) am (getShiftBits w - 1) 0 = Some n \<and> bv z \<mu> n (getShiftBits w) (b mod 2 ^ getShiftBits w)"
  using vc_bvExtract [OF assms(1), of 0 "getShiftBits w - 1"] assms(2,3) getShiftBits_cases(2) [of w]
  by (simp add: Suc_le_eq) 

lemma std_width_64: "std_width w \<Longrightarrow> w \<le> 64"
  by (auto simp: std_width_def)

lemma bvVarLeftShift_ok:
  assumes "bv z \<mu> e w a" "bv z \<mu> am v b" "std_width w" "getShiftBits w \<le> v" "v < 2 ^ 31" "b < 2 ^ getShiftBits w"
  shows "\<exists>n. bvVarLeftShift B e am w = Some n \<and> bv z \<mu> n w (sem_bin Shl w a b)"
proof -
  note e = bvD [OF assms(1)] and w = std_width_64 [OF assms(3)] and sb = getShiftBits_cases [of w]
  obtain sh where sh: "vc_bvExtract (NFac B) am (getShiftBits w - 1) 0 = Some sh" "bv z \<mu> sh (getShiftBits w) b"
    using var_shift_amount [OF assms(2,4,5)] bvD(6) [OF assms(2)] assms(6) by (auto simp: mod_pos_pos_trivial)
  obtain res where res: "bvZero w = Some res" "bv z \<mu> res w 0" using bv_consts(1) [OF e(4) w] by blast
  have "\<exists>m. bvLeftShift B e i (getShiftBits w) = Some m \<and> bv z \<mu> m w (a * 2 ^ i mod 2 ^ w)" if "i < w" for i
    using that w sb assms(3) by (intro bvLeftShift_ok [OF assms(1)]) auto
  from var_shift_loop_ok [where shf = "\<lambda>i. bvLeftShift B e i (getShiftBits w)", OF sh(2) sb(1,2) sb(4) [OF assms(3)] this res(2)]
  show ?thesis by (simp add: bvVarLeftShift_def res(1) sh(1) Let_def sem_bin.simps)
qed

lemma bvVarRightShift_ok:
  assumes "bv z \<mu> e w a" "bv z \<mu> am v b" "std_width w" "getShiftBits w \<le> v" "v < 2 ^ 31" "b < 2 ^ getShiftBits w"
  shows "\<exists>n. bvVarRightShift B e am w = Some n \<and> bv z \<mu> n w (sem_bin LShr w a b)"
proof -
  note e = bvD [OF assms(1)] and w = std_width_64 [OF assms(3)] and sb = getShiftBits_cases [of w]
  obtain sh where sh: "vc_bvExtract (NFac B) am (getShiftBits w - 1) 0 = Some sh" "bv z \<mu> sh (getShiftBits w) b"
    using var_shift_amount [OF assms(2,4,5)] bvD(6) [OF assms(2)] assms(6) by (auto simp: mod_pos_pos_trivial)
  obtain res where res: "bvZero w = Some res" "bv z \<mu> res w 0" using bv_consts(1) [OF e(4) w] by blast
  have "\<exists>m. bvRightShift B e i (getShiftBits w) = Some m \<and> bv z \<mu> m w (a div 2 ^ i)" if "i < w" for i
    using that w sb assms(3) by (intro bvRightShift_ok [OF assms(1)]) auto
  note loop = var_shift_loop_ok [where shf = "\<lambda>i. bvRightShift B e i (getShiftBits w)", OF sh(2) sb(1,2) sb(4) [OF assms(3)] this res(2)]
  have "a div 2 ^ nat b mod 2 ^ w = a div 2 ^ nat b"
    using e(6,7) udiv_bounds [OF e(6), of "2 ^ nat b"] by (simp add: mod_pos_pos_trivial)
  then show ?thesis using loop
    by (cases "b < int w") (simp_all add: bvVarRightShift_def res(1) sh(1) Let_def sem_bin.simps)
qed

lemma bvVarArithRightShift_ok:
  assumes "bv z \<mu> e w a" "bv z \<mu> am v b" "std_width w" "2 \<le> w" "getShiftBits w \<le> v" "v < 2 ^ 31" "b < 2 ^ getShiftBits w"
  shows "\<exists>n. bvVarArithRightShift B e am w = Some n \<and> bv z \<mu> n w (sem_bin AShr w a b)"
proof -
  note e = bvD [OF assms(1)] and w = std_width_64 [OF assms(3)] and sb = getShiftBits_cases [of w]
  obtain sh where sh: "vc_bvExtract (NFac B) am (getShiftBits w - 1) 0 = Some sh" "bv z \<mu> sh (getShiftBits w) b"
    using var_shift_amount [OF assms(2,5,6)] bvD(6) [OF assms(2)] assms(7) by (auto simp: mod_pos_pos_trivial)
  obtain sg where sg: "bvBoolExtract B e (w - 1) = Some sg" "fm z \<mu> sg (sgn_val w a < 0)"
    using bvBoolExtract_ok [OF assms(1), of "w - 1"] sign_bit [OF e(4,6,7)] e(4) w by auto
  have by_const: "\<exists>m. constructAShrByConstant B e i sg (getShiftBits w) = Some m \<and> bv z \<mu> m w (sgn_val w a div 2 ^ i mod 2 ^ w)"
    if "i < w" for i
    using that w sb assms(3,4) sg(2) by (intro constructAShrByConstant_ok [OF assms(1)]) auto
  obtain res where res: "constructAShrByConstant B e (w - 1) sg (getShiftBits w) = Some res"
      "bv z \<mu> res w (sgn_val w a div 2 ^ (w - 1) mod 2 ^ w)"
    using by_const [of "w - 1"] e(4) by auto
  have "w - 1 \<le> 2 ^ getShiftBits w" using sb(4) [OF assms(3)] by simp
  moreover have "\<exists>m. constructAShrByConstant B e i sg (getShiftBits w) = Some m \<and> bv z \<mu> m w (sgn_val w a div 2 ^ i mod 2 ^ w)"
    if "i < w - 1" for i using by_const [of i] that by simp
  ultimately have "\<exists>m. bvVarArithRightShift B e am w = Some m \<and>
      bv z \<mu> m w ((if b < int (w - 1) then sgn_val w a div 2 ^ nat b else sgn_val w a div 2 ^ (w - 1)) mod 2 ^ w)"
    using var_shift_loop_ok [OF sh(2) sb(1,2) _ _ res(2), where g = "\<lambda>i. sgn_val w a div 2 ^ i mod 2 ^ w"
        and shf = "\<lambda>i. constructAShrByConstant B e i sg (getShiftBits w)" and n = "w - 1"]
    by (simp add: bvVarArithRightShift_def sh(1) sg(1) res(1) Let_def if_distrib [of "\<lambda>x. x mod 2 ^ w"])
  moreover have "(if b < int (w - 1) then sgn_val w a div 2 ^ nat b else sgn_val w a div 2 ^ (w - 1)) mod 2 ^ w = sem_bin AShr w a b"
    using sgn_val_div_big [OF e(4,6,7), of "w - 1"] sgn_val_div_big [OF e(4,6,7), of "nat b"] e(4)
    by (auto simp: sem_bin.simps nat_less_iff)
  ultimately show ?thesis by simp
qed

lemma mul_loop_ok:
  assumes e: "bv z \<mu> e w a" and w: "std_width w" and dis: "\<And>i. \<not> (bit add i \<and> bit sub i)"
    and lt: "\<And>i. bit add i \<or> bit sub i \<Longrightarrow> i < w"
    and "partial z \<mu> w res v"
  shows "\<exists>res'. mul_loop B e w (getShiftBits w) add sub j res = Some res' \<and>
    partial z \<mu> w res' (v + a * (take_bit j (uint add) - take_bit j (uint sub)))"
  using assms(5)
proof (induction j arbitrary: res v)
  case 0
  then show ?case by simp
next
  case (Suc j)
  note T = take_bit_Suc_from_most [of j "uint add"] take_bit_Suc_from_most [of j "uint sub"] bit_uint_iff
  show ?case
  proof (cases "bit add j \<or> bit sub j")
    case False
    then have "take_bit (Suc j) (uint add) = take_bit j (uint add)" "take_bit (Suc j) (uint sub) = take_bit j (uint sub)"
      by (simp_all add: T)
    then show ?thesis using Suc.IH [OF Suc.prems] False by simp
  next
    case True
    have "j < w" using lt True .
    then have "j mod 2 ^ getShiftBits w = j" using getShiftBits_cases(4) [OF w] by simp
    then obtain oper where oper: "bvLeftShift B e j (getShiftBits w) = Some oper" "bv z \<mu> oper w (a * 2 ^ j mod 2 ^ w)"
      using bvLeftShift_ok [OF e _ getShiftBits_cases(1), of j w] std_width_64 [OF w] by auto
    define d where "d = (if bit add j then 1 else - 1 :: int)"
    have j: "j < 64" using True by (auto dest: bit_imp_le_length)
    have t: "take_bit (Suc j) (uint add) - take_bit (Suc j) (uint sub)
        = take_bit j (uint add) - take_bit j (uint sub) + d * 2 ^ j"
      using True dis [of j] j by (auto simp: T d_def)
    obtain res' where res': "(if bit add j then
            (case res of Some r \<Rightarrow> vc_bvPlusExpr (NFac B) w r oper | None \<Rightarrow> Some oper)
          else
            (case res of Some r \<Rightarrow> vc_bvMinusExpr (NFac B) w r oper | None \<Rightarrow> vc_bvUMinusExpr (NFac B) oper)) = Some res'"
        "bv z \<mu> res' w ((v + a * d * 2 ^ j) mod 2 ^ w)"
    proof (cases res)
      case None
      then have "v mod 2 ^ w = 0" using Suc.prems by (simp add: partial_def)
      then have "(v + x) mod 2 ^ w = x mod 2 ^ w" for x using mod_add_left_eq [of v "2 ^ w" x] by simp
      note this [of "- (a * 2 ^ j)"] this [of "a * 2 ^ j"]
      then show ?thesis using that None oper(2) vc_unary(1) [OF oper(2)]
        by (cases "bit add j") (auto simp: d_def mod_simps)
    next
      case (Some r)
      then have r: "bv z \<mu> r w (v mod 2 ^ w)" using Suc.prems by (simp add: partial_def)
      obtain p where p: "vc_bvPlusExpr (NFac B) w r oper = Some p" "bv z \<mu> p w ((v + a * 2 ^ j) mod 2 ^ w)"
        using vc_arith(1) [OF r oper(2)] by (auto simp: mod_simps)
      obtain m where m: "vc_bvMinusExpr (NFac B) w r oper = Some m" "bv z \<mu> m w ((v - a * 2 ^ j) mod 2 ^ w)"
        using vc_arith(2) [OF r oper(2)] by (auto simp: mod_simps)
      show ?thesis by (rule that [of "if bit add j then p else m"]) (simp_all add: Some p m d_def)
    qed
    then have p: "partial z \<mu> w (Some res') (v + a * d * 2 ^ j)" by (simp add: partial_def)
    have "v + a * d * 2 ^ j + a * (take_bit j (uint add) - take_bit j (uint sub))
        = v + a * (take_bit (Suc j) (uint add) - take_bit (Suc j) (uint sub))"
      unfolding t by (simp add: algebra_simps)
    then show ?thesis using Suc.IH [OF p] True dis [of j] oper(1) res'(1) by (simp only: mul_loop.simps) simp
  qed
qed

lemma constructMulByConstant_ok:
  assumes "bv z \<mu> e w a" "std_width w"
  shows "\<exists>n. constructMulByConstant B e w x = Some n \<and> bv z \<mu> n w (a * uint x mod 2 ^ w)"
proof -
  note e = bvD [OF assms(1)] and w = std_width_64 [OF assms(2)]
  obtain add sub where c: "ComputeMultConstants64 x = Some (add, sub)" "x = add - sub" "add AND sub = 0"
    using ComputeMultConstants64_ok [of x] by auto
  have tb: "truncateToNBits y w = take_bit w y" for y
    using w by (rule truncateToNBits_take_bit)
  have "\<not> (bit add i \<and> bit sub i)" for i using c(3) by (metis bit_and_iff bit_0_eq bot_apply bot_bool_def)
  then have "\<exists>res. mul_loop B e w (getShiftBits w) (take_bit w add) (take_bit w sub) 64 None = Some res \<and>
    partial z \<mu> w res (0 + a * (take_bit 64 (uint (take_bit w add)) - take_bit 64 (uint (take_bit w sub))))"
    by (intro mul_loop_ok [OF assms]) (auto simp: bit_take_bit_iff partial_def)
  then obtain res where res: "mul_loop B e w (getShiftBits w) (take_bit w add) (take_bit w sub) 64 None = Some res"
      "partial z \<mu> w res (a * (take_bit 64 (uint (take_bit w add)) - take_bit 64 (uint (take_bit w sub))))" by auto
  have v: "a * (take_bit 64 (uint (take_bit w add)) - take_bit 64 (uint (take_bit w sub))) mod 2 ^ w = a * uint x mod 2 ^ w"
  proof -
    have "(2::int) ^ w dvd 2 ^ 64" by (rule le_imp_power_dvd) (rule w)
    then have x: "uint x mod 2 ^ w = (uint add - uint sub) mod 2 ^ w"
      by (simp add: c(2) uint_word_ariths mod_mod_cancel)
    have "take_bit 64 (uint (take_bit w y)) = uint y mod 2 ^ w" for y :: uint64_t
      using w by (simp add: unsigned_take_bit_eq take_bit_eq_mod [symmetric] min_def)
    then show ?thesis by (metis (no_types, lifting) x mod_diff_eq mod_mult_right_eq)
  qed
  show ?thesis
  proof (cases res)
    case None
    then show ?thesis using res v bv_consts(1) [OF e(4) w, of z \<mu>] by (simp add: constructMulByConstant_def c(1) tb partial_def)
  next
    case (Some r)
    then show ?thesis using res v by (simp add: constructMulByConstant_def c(1) tb partial_def)
  qed
qed

lemma var_shift_word:
  assumes "bv z \<mu> e w (uint (x :: 'a::len word))" "bv z \<mu> am 32 (uint (s :: uint32_t))" "unat s < w" "std_width w" "w = LENGTH('a)"
  shows "\<exists>n. bvVarRightShift B e am w = Some n \<and> bv z \<mu> n w (uint (drop_bit (unat s) x))"
proof -
  have "unat s < 2 ^ getShiftBits w" using assms(3) getShiftBits_cases(4) [OF assms(4)] by (rule less_le_trans)
  then have "int (unat s) < int (2 ^ getShiftBits w)" by (simp only: of_nat_less_iff)
  then have "uint s < 2 ^ getShiftBits w" by (simp only: uint_nat of_nat_power of_nat_numeral)
  then show ?thesis
    using bvVarRightShift_ok [OF assms(1,2,4)] getShiftBits_cases(1) [of w] 
    unfolding shr_word [OF assms(5,3), symmetric] by simp
qed

lemma std_widths: "std_width 32" "std_width 64"
  by (simp_all add: std_width_def)

lemma constructUDivByConstant_ok:
  assumes "bv z \<mu> e 32 a" "uint (ucast d :: uint32_t) = b" "b \<noteq> 0"
  shows "\<exists>n. constructUDivByConstant B e 32 d = Some n \<and> bv z \<mu> n 32 (a div b)"
proof -
  define n :: uint32_t where "n = word_of_int a"
  have a: "a = uint n" using bvD(6,7) [OF assms(1)] by (simp add: n_def uint_word_of_int mod_pos_pos_trivial)
  have d: "(ucast d :: uint32_t) \<noteq> 0" using assms(2,3) by auto
  obtain l mprime sh1 sh2 where c: "ComputeUDivConstants32 (undef_shift B) (ucast d) = Some (mprime, sh1, sh2)"
    and sh: "unat sh1 = min l 1" "unat sh2 = l - 1" "l \<le> 32"
    by (rule UDivConstants_ok [OF shift_zero d])
  define t1 where "t1 = (ucast (drop_bit 32 (ucast mprime * ucast n :: uint64_t)) :: uint32_t)"
  have q: "drop_bit (unat sh2) (drop_bit (unat sh1) (n - t1) + t1) = n div ucast d"
    using UDiv_quotient [OF shift_zero d, of n] by (simp add: c t1_def Let_def)
  have lt: "unat sh1 < 32" "unat sh2 < 32" using sh by simp_all
  obtain s1 where s1: "bvConst32 32 sh1 = Some s1" "bv z \<mu> s1 32 (uint sh1)"
    using bv_consts(4) [of 32 sh1 z \<mu>] uint_bounded [of sh1] by auto
  obtain s2 where s2: "bvConst32 32 sh2 = Some s2" "bv z \<mu> s2 32 (uint sh2)"
    using bv_consts(4) [of 32 sh2 z \<mu>] uint_bounded [of sh2] by auto
  obtain z32 where z32: "bvZero 32 = Some z32" "bv z \<mu> z32 32 0" using bv_consts(1) [of 32 z \<mu>] by auto
  obtain e64 where e64: "vc_bvConcatExpr (NFac B) z32 e = Some e64" "bv z \<mu> e64 64 a"
    using vc_bvConcatExpr [OF z32(2) assms(1)] by auto
  obtain m64 where m64: "constructMulByConstant B e64 64 (ucast mprime) = Some m64"
      "bv z \<mu> m64 64 (uint (ucast mprime * ucast n :: uint64_t))"
    using constructMulByConstant_ok [OF e64(2), of "ucast mprime"]
    by (auto simp: std_width_def a uint_word_ariths uint_up_ucast is_up mult.commute)
  obtain t where t: "vc_bvExtract (NFac B) m64 63 32 = Some t" "bv z \<mu> t 32 (uint t1)"
    using vc_bvExtract [OF m64(2), of 32 63] high_half [of "ucast mprime * ucast n"] by (auto simp: t1_def)
  obtain d1 where d1: "vc_bvMinusExpr (NFac B) 32 e t = Some d1" "bv z \<mu> d1 32 (uint (n - t1))"
    using vc_arith(2) [OF assms(1) t(2)] by (auto simp: a uint_word_ariths)
  obtain x1 where x1: "bvVarRightShift B d1 s1 32 = Some x1" "bv z \<mu> x1 32 (uint (drop_bit (unat sh1) (n - t1)))"
    using var_shift_word [OF d1(2) s1(2) lt(1) std_widths(1)] by auto
  obtain p where p: "vc_bvPlusExpr (NFac B) 32 x1 t = Some p" "bv z \<mu> p 32 (uint (drop_bit (unat sh1) (n - t1) + t1))"
    using vc_arith(1) [OF x1(2) t(2)] by (auto simp: uint_word_ariths)
  have "\<exists>r. bvVarRightShift B p s2 32 = Some r \<and> bv z \<mu> r 32 (uint (n div ucast d))"
    using var_shift_word [OF p(2) s2(2) lt(2) std_widths(1)] by (simp add: q)
  moreover have "uint (n div ucast d) = a div b" using assms(2) by (simp add: a uint_div)
  ultimately show ?thesis
    by (simp add: constructUDivByConstant_def c s1(1) s2(1) z32(1) e64(1) m64(1) t(1) d1(1) x1(1) p(1))
qed

lemma constructSDivByConstant_ok:
  assumes "bv z \<mu> e 32 a" "uint (ucast d :: uint32_t) = b" "b \<noteq> 0"
  shows "\<exists>n. constructSDivByConstant B e 32 d = Some n \<and> bv z \<mu> n 32 (sem_bin SDiv 32 a b)"
proof -
  define n :: uint32_t where "n = word_of_int a"
  have a: "a = uint n" using bvD(6,7) [OF assms(1)] by (simp add: n_def uint_word_of_int mod_pos_pos_trivial)
  have d: "(ucast d :: uint32_t) \<noteq> 0" using assms(2,3) by auto
  obtain l mprime shpost D m where c: "ComputeSDivConstants32 (undef_shift B) (ucast d) = Some (mprime, signed_drop_bit 31 (ucast d), shpost)"
    and sh: "unat shpost = l - 1" "l \<le> 31"
    by (rule SDivConstants_ok [OF shift_zero d])
  have lt: "unat shpost < 64" using sh by simp
  define ds where "ds = signed_drop_bit 31 (ucast d :: uint32_t)"
  define q0 where "q0 = n + ucast (drop_bit 32 (scast mprime * scast n :: uint64_t))"
  define q where "q = signed_drop_bit (unat shpost) q0 - signed_drop_bit 31 n"
  have r: "(q XOR ds) - ds = word_of_int (sint n sdiv sint (ucast d :: uint32_t))"
    using SDiv_quotient [OF shift_zero d, of n] by (simp add: c q0_def q_def ds_def Let_def)
  have r': "uint ((q XOR ds) - ds) = sem_bin SDiv 32 a b"
    unfolding r sem_bin.simps by (simp add: uint_word_of_int a assms(2) [symmetric] sgn_val_uint)
  obtain s1 where s1: "bvConst32 32 ds = Some s1" "bv z \<mu> s1 32 (uint ds)"
    using bv_consts(4) [of 32 ds z \<mu>] uint_bounded [of ds] by auto
  obtain s2 where s2: "bvConst32 32 shpost = Some s2" "bv z \<mu> s2 32 (uint shpost)"
    using bv_consts(4) [of 32 shpost z \<mu>] uint_bounded [of shpost] by auto
  obtain e64 where e64: "vc_bvSignExtend (NFac B) e 64 = Some e64" "bv z \<mu> e64 64 (uint (scast n :: uint64_t))"
    using vc_bvSignExtend [OF assms(1), of 64] by (auto simp: a uint_scast_64)
  obtain m64 where m64: "constructMulByConstant B e64 64 (scast mprime) = Some m64"
      "bv z \<mu> m64 64 (uint (scast mprime * scast n :: uint64_t))"
    using constructMulByConstant_ok [OF e64(2), of "scast mprime"] by (auto simp: std_width_def uint_word_ariths mult.commute)
  obtain t where t: "vc_bvExtract (NFac B) m64 63 32 = Some t"
      "bv z \<mu> t 32 (uint (ucast (drop_bit 32 (scast mprime * scast n :: uint64_t)) :: uint32_t))"
    using vc_bvExtract [OF m64(2), of 32 63] high_half [of "scast mprime * scast n"] by auto
  obtain p where p: "vc_bvPlusExpr (NFac B) 32 e t = Some p" "bv z \<mu> p 32 (uint q0)"
    using vc_arith(1) [OF assms(1) t(2)] by (auto simp: a q0_def uint_word_ariths)
  obtain p64 where p64: "vc_bvSignExtend (NFac B) p 64 = Some p64" "bv z \<mu> p64 64 (uint (scast q0 :: uint64_t))"
    using vc_bvSignExtend [OF p(2), of 64] by (auto simp: uint_scast_64)
  obtain x where x: "bvVarRightShift B p64 s2 64 = Some x" "bv z \<mu> x 64 (uint (drop_bit (unat shpost) (scast q0 :: uint64_t)))"
    using var_shift_word [OF p64(2) s2(2) lt std_widths(2)] by auto
  obtain y where y: "vc_bvExtract (NFac B) x 31 0 = Some y" "bv z \<mu> y 32 (uint (signed_drop_bit (unat shpost) q0))"
    using vc_bvExtract [OF x(2), of 0 31] low_half_shift [of "unat shpost" q0] sh by auto
  obtain sg where sg: "bvBoolExtract B e 31 = Some sg" "fm z \<mu> sg (sint n < 0)"
    using bvBoolExtract_ok [OF assms(1), of 31] sign_bit [of 32 a] bvD(6,7) [OF assms(1)] by (auto simp: a sgn_val_uint)
  obtain m1 where m1: "bvMinusOne 32 = Some m1" "bv z \<mu> m1 32 (2 ^ 32 - 1)" using bv_consts(3) [of 32 z \<mu>] by auto
  obtain z32 where z32: "bvZero 32 = Some z32" "bv z \<mu> z32 32 0" using bv_consts(1) [of 32 z \<mu>] by auto
  obtain xs where xs: "vc_iteExpr (NFac B) sg m1 z32 = Some xs" "bv z \<mu> xs 32 (uint (signed_drop_bit 31 n))"
    using vc_ite_bv [OF sg(2) m1(2) z32(2)] by (cases "sint n < 0") (auto simp: sign_word uint_minus_1_32)
  obtain qn where qn: "vc_bvMinusExpr (NFac B) 32 y xs = Some qn" "bv z \<mu> qn 32 (uint q)"
    using vc_arith(2) [OF y(2) xs(2)] by (auto simp: q_def uint_word_ariths)
  obtain xr where xr: "vc_bvXorExpr (NFac B) qn s1 = Some xr" "bv z \<mu> xr 32 (uint (q XOR ds))"
    using vc_bitwise(3) [OF qn(2) s1(2)] by (auto simp: unsigned_xor_eq)
  have "\<exists>r. vc_bvMinusExpr (NFac B) 32 xr s1 = Some r \<and> bv z \<mu> r 32 (sem_bin SDiv 32 a b)"
    using vc_arith(2) [OF xr(2) s1(2)] r' by (auto simp: uint_word_ariths)
  then show ?thesis
    by (simp add: constructSDivByConstant_def c ds_def [symmetric] s1(1) s2(1) e64(1) m64(1) t(1) p(1) p64(1) x(1) y(1) sg(1) m1(1)
        z32(1) xs(1) qn(1) xr(1))
qed

end

end
