(* ===== verification/STPBuilder_Correct.thy ===== *)
theory STPBuilder_Correct
  imports STPBuilder_Arith
begin

text \<open>
  The correctness of the translation: for every assignment to the array variables of the solver, the
  node that \<^verbatim>\<open>STPBuilder::construct\<close> returns has the value of the expression for the contents that
  the assignment describes.
\<close>

declare One_nat_def [simp del]

subsection \<open>What the builder promises\<close>

text \<open>A node stands for a value of width 1 as a formula and for a value of another width as a bit vector.\<close>

definition den :: "bool \<Rightarrow> (string \<Rightarrow> int \<Rightarrow> int) \<Rightarrow> nat \<Rightarrow> int \<Rightarrow> node \<Rightarrow> bool" where
  "den z \<mu> w v t \<longleftrightarrow> (if w = 1 then fm z \<mu> t (v = 1) else bv z \<mu> t w v)"

definition arr_den :: "stp_cfg \<Rightarrow> bool \<Rightarrow> (string \<Rightarrow> int \<Rightarrow> int) \<Rightarrow> array \<Rightarrow> update_node \<Rightarrow> node \<Rightarrow> bool" where
  "arr_den B z \<mu> a us t \<longleftrightarrow> (\<exists>f. arr z \<mu> t f \<and>
    (\<forall>i\<ge>0. f i = eval_updates (stp_contents B \<mu>) us i (initial_value (stp_contents B \<mu>) a i)))"

text \<open>Every stored node stands for the expression, the array or the update list it is stored for.\<close>

definition stored_ok :: "stp_cfg \<Rightarrow> bool \<Rightarrow> (string \<Rightarrow> int \<Rightarrow> int) \<Rightarrow> stp_builder \<Rightarrow> bool" where
  "stored_ok B z \<mu> st \<longleftrightarrow>
    (\<forall>e t w. constructed st e = Some (t, w) \<longrightarrow> wf_expr e \<longrightarrow> buildable (stp_contents B \<mu>) e \<longrightarrow>
      w = getWidth e \<and> den z \<mu> w (eval (stp_contents B \<mu>) e) t) \<and>
    (\<forall>a t. stpInitialArray st a = Some t \<longrightarrow> wf_array a \<longrightarrow> arr_den B z \<mu> a NoUpdate t) \<and>
    (\<forall>a us t. stpArray st (a, us) = Some t \<longrightarrow> wf_array a \<longrightarrow> wf_updates us \<longrightarrow>
      buildable_updates (stp_contents B \<mu>) us \<longrightarrow> arr_den B z \<mu> a us t)"

definition makes :: "stp_cfg \<Rightarrow> bool \<Rightarrow> (string \<Rightarrow> int \<Rightarrow> int) \<Rightarrow> nat \<Rightarrow> int \<Rightarrow> (node \<times> nat) build \<Rightarrow> bool" where
  "makes B z \<mu> w v c \<longleftrightarrow> (\<forall>st. stored_ok B z \<mu> st \<longrightarrow>
    (\<exists>t st'. c st = Some ((t, w), st') \<and> stored_ok B z \<mu> st' \<and> den z \<mu> w v t))"

definition makes_array :: "stp_cfg \<Rightarrow> bool \<Rightarrow> (string \<Rightarrow> int \<Rightarrow> int) \<Rightarrow> array \<Rightarrow> update_node \<Rightarrow> node build \<Rightarrow> bool" where
  "makes_array B z \<mu> a us c \<longleftrightarrow> (\<forall>st. stored_ok B z \<mu> st \<longrightarrow>
    (\<exists>t st'. c st = Some (t, st') \<and> stored_ok B z \<mu> st' \<and> arr_den B z \<mu> a us t))"

lemma makesE:
  assumes "makes B z \<mu> w v c" "stored_ok B z \<mu> st"
  obtains t st' where "c st = Some ((t, w), st')" "stored_ok B z \<mu> st'" "den z \<mu> w v t"
  using assms unfolding makes_def by blast

lemma makes_arrayE:
  assumes "makes_array B z \<mu> a us c" "stored_ok B z \<mu> st"
  obtains t st' where "c st = Some (t, st')" "stored_ok B z \<mu> st'" "arr_den B z \<mu> a us t"
  using assms unfolding makes_array_def by blast

lemma den_bv: "w \<noteq> 1 \<Longrightarrow> den z \<mu> w v t = bv z \<mu> t w v"
  by (simp add: den_def)

lemma den_fm: "den z \<mu> 1 v t = fm z \<mu> t (v = 1)"
  by (simp add: den_def)

text \<open>A translation in two steps: the operands, then the node made of theirs.\<close>

lemma makes_bind1:
  assumes "makes B z \<mu> w a c" "\<And>t. den z \<mu> w a t \<Longrightarrow> \<exists>n. f w t = Some n \<and> den z \<mu> (g w) x n"
  shows "makes B z \<mu> (g w) x (\<lambda>st. do { ((t, u), st) \<leftarrow> c st; n \<leftarrow> f u t; Some ((n, g u), st) })"
  unfolding makes_def
proof (intro allI impI)
  fix st assume st: "stored_ok B z \<mu> st"
  obtain t st' where t: "c st = Some ((t, w), st')" "stored_ok B z \<mu> st'" "den z \<mu> w a t" by (rule makesE [OF assms(1) st])
  obtain n where "f w t = Some n" "den z \<mu> (g w) x n" using assms(2) [OF t(3)] by blast
  then show "\<exists>n st'. (do { ((t, u), st) \<leftarrow> c st; n \<leftarrow> f u t; Some ((n, g u), st) }) = Some ((n, g w), st') \<and>
      stored_ok B z \<mu> st' \<and> den z \<mu> (g w) x n" using t(1,2) by simp
qed

lemma makes_bind2:
  assumes "makes B z \<mu> w a c" "makes B z \<mu> u b d"
    "\<And>t s. den z \<mu> w a t \<Longrightarrow> den z \<mu> u b s \<Longrightarrow> \<exists>n. f t s = Some n \<and> den z \<mu> v x n"
  shows "makes B z \<mu> v x (\<lambda>st. do { ((t, _), st) \<leftarrow> c st; ((s, _), st) \<leftarrow> d st; n \<leftarrow> f t s; Some ((n, v), st) })"
  unfolding makes_def
proof (intro allI impI)
  fix st assume st: "stored_ok B z \<mu> st"
  obtain t st1 where t: "c st = Some ((t, w), st1)" "stored_ok B z \<mu> st1" "den z \<mu> w a t" by (rule makesE [OF assms(1) st])
  obtain s st2 where s: "d st1 = Some ((s, u), st2)" "stored_ok B z \<mu> st2" "den z \<mu> u b s" by (rule makesE [OF assms(2) t(2)])
  obtain n where "f t s = Some n" "den z \<mu> v x n" using assms(3) [OF t(3) s(3)] by blast
  then show "\<exists>n st'. (do { ((t, _), st) \<leftarrow> c st; ((s, _), st) \<leftarrow> d st; n \<leftarrow> f t s; Some ((n, v), st) }) = Some ((n, v), st') \<and>
      stored_ok B z \<mu> st' \<and> den z \<mu> v x n" using t(1) s(1,2) by simp
qed

text \<open>What is known of an operand that is a constant.\<close>

definition const_of :: "expr \<Rightarrow> nat \<Rightarrow> int \<Rightarrow> bool" where
  "const_of e w v \<longleftrightarrow> (\<forall>CE. dyn_const e = Some CE \<longrightarrow> wf_ap CE \<and> ap_width CE = w \<and> ap_val CE = v)"

lemma power_of_two_word:
  assumes "isPowerOfTwo x"
  obtains k where "k < 64" "indexOfSingleBit x = k" "uint x = 2 ^ k"
proof -
  have x: "x \<noteq> 0" "x AND (x - 1) = 0" using assms by (auto simp: isPowerOfTwo_def split: if_splits)
  obtain k where k: "k < 64" "bit x k" "\<forall>j<k. \<not> bit x j" by (rule ex_rightmost_bit [OF x(1)]) auto
  have "x - 1 = NOT (- x)" by (simp add: not_eq_complement)
  then have "x AND NOT (- x) = 0" using x(2) by simp
  moreover have "x = (x AND - x) OR (x AND NOT (- x))" by (rule bit_word_eqI) (auto simp: bit_simps)
  ultimately have "x = push_bit k 1" using isolateRightmostBit_eq [OF k(2,3)] by (simp add: isolateRightmostBit_def)
  moreover from this have "uint x = 2 ^ k" using k(1) power_strict_increasing [of k 64 "2::int"]
    by (simp only: unsigned_push_bit_eq unsigned_1) (simp add: push_bit_eq_mult take_bit_eq_mod mod_pos_pos_trivial)
  ultimately show ?thesis using that [OF k(1)] indexOfSingleBit_push_bit [OF k(1)] by simp
qed

context stp_laws
begin

subsection \<open>Constants and arrays\<close>

text \<open>What a node stands for: a formula for an expression of width 1, a bit vector for a wider one.\<close>

lemma zext_const:
  assumes "wf_ap a" "ap_width a \<le> k" "k \<le> 64"
  shows "getZExtValue (apenv B) k a = Some (word_of_int (ap_val a))" "uint (word_of_int (ap_val a) :: uint64_t) = ap_val a"
proof -
  have "(2::int) ^ ap_width a \<le> 2 ^ 64" by (rule power_increasing) (use assms in auto)
  then have v: "ap_val a < 2 ^ 64" "0 \<le> ap_val a" using assms(1) by (auto simp: wf_ap_def)
  then show "getZExtValue (apenv B) k a = Some (word_of_int (ap_val a))"
    using assms(1,2) by (simp add: getZExtValue_def ap_getZExtValue)
  show "uint (word_of_int (ap_val a) :: uint64_t) = ap_val a" using v by (simp add: uint_word_of_int mod_pos_pos_trivial)
qed

lemma const_parts_ok:
  assumes "wf_ap Tmp" "64 * Suc n \<le> ap_width Tmp" "bv z \<mu> Res v r"
  shows "\<exists>m. const_parts B n Tmp Res = Some m \<and>
    bv z \<mu> m (64 * n + v) (ap_val Tmp div 2 ^ 64 mod 2 ^ (64 * n) * 2 ^ v + r)"
  using assms
proof (induction n arbitrary: Tmp Res v r)
  case (Suc n)
  define T where "T = ap_val Tmp div 2 ^ 64"
  define W where "W = ap_width Tmp"
  have W: "64 < W" using Suc.prems(2) by (simp add: W_def)
  have T: "0 \<le> T" "T < 2 ^ W" using Suc.prems(1) udiv_bounds [of "ap_val Tmp" "2 ^ 64"] by (auto simp: T_def W_def wf_ap_def)
  have a: "ConstantExpr_alloc (apenv B) 64 W = APInt W 64"
    using W power_strict_increasing [of 64 W "2::int"] by (simp add: ConstantExpr_alloc_def ap_new mod_pos_pos_trivial)
  have wfT: "wf_ap (APInt W T)" using T W by (simp add: wf_ap_def)
  have "T mod 2 ^ W = T" using T by (simp add: mod_pos_pos_trivial)
  then have tm: "ap_val Tmp div 18446744073709551616 mod 2 ^ W = T" by (simp add: T_def)
  have lshr: "CE_bin (apenv B) LShr Tmp (APInt W 64) = Some (APInt W T)"
    using Suc.prems(1) W T a power_strict_increasing [of 64 W "2::int"]
    by (simp add: CE_bin_def ap_bin wf_ap_def is_div_def W_def [symmetric] tm)
  have ext: "CE_Extract (apenv B) (APInt W T) 0 64 = APInt 64 (T mod 2 ^ 64)" using wfT W by (simp add: CE_Extract_eq)
  have wfe: "wf_ap (APInt 64 (T mod 2 ^ 64))" by (simp add: wf_ap_def)
  note z = zext_const [OF wfe, of 64, simplified]
  obtain c where c: "bvConst64 64 (word_of_int (T mod 2 ^ 64)) = Some c" "bv z \<mu> c 64 (T mod 2 ^ 64)"
    using bv_consts(5) [of 64 "word_of_int (T mod 2 ^ 64)"] z(2) by auto
  obtain R where R: "vc_bvConcatExpr (NFac B) c Res = Some R" "bv z \<mu> R (64 + v) (T mod 2 ^ 64 * 2 ^ v + r)"
    using vc_bvConcatExpr [OF c(2) Suc.prems(3)] by blast
  have split: "T mod 2 ^ (64 * Suc n) = 2 ^ 64 * (T div 2 ^ 64 mod 2 ^ (64 * n)) + T mod 2 ^ 64"
    using zmod_zmult2_eq [of "2 ^ (64 * n)" T "2 ^ 64"] by (simp add: power_add mult.commute)
  have sum: "64 * Suc n + v = 64 * n + (64 + v)" by simp
  have val: "T mod 2 ^ (64 * Suc n) * 2 ^ v + r =
      T div 2 ^ 64 mod 2 ^ (64 * n) * 2 ^ (64 + v) + (T mod 2 ^ 64 * 2 ^ v + r)"
    unfolding split by (simp only: power_add) (simp only: algebra_simps)
  have "\<exists>m. const_parts B n (APInt W T) R = Some m \<and>
      bv z \<mu> m (64 * n + (64 + v)) (T div 2 ^ 64 mod 2 ^ (64 * n) * 2 ^ (64 + v) + (T mod 2 ^ 64 * 2 ^ v + r))"
    using Suc.IH [OF wfT _ R(2)] Suc.prems(2) by (simp add: W_def)
  then show ?case unfolding T_def [symmetric] sum val by (simp add: W_def [symmetric] a lshr ext z(1) c(1) [simplified] R(1) W less_imp_le)
qed simp

lemma constructConstant_ok:
  assumes "wf_ap a" "ap_width a \<le> 64 \<or> 64 dvd ap_width a"
  shows "\<exists>n. constructConstant B a = Some n \<and>
    (if ap_width a = 1 then fm z \<mu> n (ap_val a = 1) else bv z \<mu> n (ap_width a) (ap_val a))"
proof -
  have w: "0 < ap_width a" "0 \<le> ap_val a" "ap_val a < 2 ^ ap_width a" using assms(1) by (auto simp: wf_ap_def)
  consider "ap_width a = 1" | "1 < ap_width a" "ap_width a \<le> 32" | "32 < ap_width a" "ap_width a \<le> 64" | "64 < ap_width a"
    using w(1) by linarith
  then show ?thesis
  proof cases
    case 1
    then show ?thesis
      using vc_const_forms by (auto simp: constructConstant_def isTrue_eq assms(1))
  next
    case 2
    have "(2::int) ^ ap_width a \<le> 2 ^ 32" by (rule power_increasing) (use 2 in auto)
    then have "ap_val a < 2 ^ 32" using w by linarith
    then have u: "uint (ucast (word_of_int (ap_val a) :: uint64_t) :: uint32_t) = ap_val a"
      using w zext_const(2) [OF assms(1), of 64] 2 by (simp add: unsigned_ucast_eq take_bit_int_eq_self)
    show ?thesis
      using bv_consts(4) [OF w(1), of "ucast (word_of_int (ap_val a) :: uint64_t)" z \<mu>] u w 2 zext_const(1) [OF assms(1) 2(2)]
      by (simp add: constructConstant_def)
  next
    case 3
    show ?thesis
      using bv_consts(5) [OF w(1) 3(2), of "word_of_int (ap_val a)" z \<mu>] zext_const [OF assms(1) 3(2)] w 3
      by (simp add: constructConstant_def mod_pos_pos_trivial)
  next
    case 4
    then obtain k where k: "ap_width a = 64 * Suc k" using assms(2) by (metis dvdE linorder_not_less mult_0_right not0_implies_Suc w(1) less_irrefl)
    have ext: "CE_Extract (apenv B) a 0 64 = APInt 64 (ap_val a mod 2 ^ 64)" using assms(1) 4 by (simp add: CE_Extract_eq)
    have wfe: "wf_ap (APInt 64 (ap_val a mod 2 ^ 64))" by (simp add: wf_ap_def)
    note z = zext_const [OF wfe, of 64, simplified]
    obtain c where c: "bvConst64 64 (word_of_int (ap_val a mod 2 ^ 64)) = Some c" "bv z \<mu> c 64 (ap_val a mod 2 ^ 64)"
      using bv_consts(5) [of 64 "word_of_int (ap_val a mod 2 ^ 64)"] z(2) by auto
    have "ap_val a div 2 ^ 64 < 2 ^ (64 * k)" using div_pow_less [of "ap_val a" "ap_width a" 64] w k by simp
    then have "ap_val a div 2 ^ 64 mod 2 ^ (64 * k) = ap_val a div 2 ^ 64"
      using w udiv_bounds(1) [of "ap_val a" "2 ^ 64"] by (simp add: mod_pos_pos_trivial)
    moreover have "ap_val a div 2 ^ 64 * 2 ^ 64 + ap_val a mod 2 ^ 64 = ap_val a" by (rule div_mult_mod_eq)
    moreover have "ap_width a div 64 - 1 = k" "64 * k + 64 = ap_width a" using k by simp_all
    moreover have "64 * Suc k \<le> ap_width a" using k by simp
    ultimately have "\<exists>m. const_parts B (ap_width a div 64 - 1) a c = Some m \<and> bv z \<mu> m (ap_width a) (ap_val a)"
      using const_parts_ok [OF assms(1) _ c(2), of k] by (simp only:)
    then show ?thesis using 4 by (simp add: constructConstant_def ext z(1) c(1) [simplified])
  qed
qed

lemma construct_plain_ok:
  assumes "makes B z \<mu> w a cl" "makes B z \<mu> w b cr" "w \<noteq> 1"
    "\<And>l r. bv z \<mu> l w a \<Longrightarrow> bv z \<mu> r w b \<Longrightarrow> \<exists>n. vc w l r = Some n \<and> bv z \<mu> n w x"
  shows "makes B z \<mu> w x (construct_plain vc cl cr)"
  unfolding makes_def
proof (intro allI impI)
  fix st assume st: "stored_ok B z \<mu> st"
  obtain l st1 where l: "cl st = Some ((l, w), st1)" "stored_ok B z \<mu> st1" "den z \<mu> w a l" by (rule makesE [OF assms(1) st])
  obtain r st2 where r: "cr st1 = Some ((r, w), st2)" "stored_ok B z \<mu> st2" "den z \<mu> w b r" by (rule makesE [OF assms(2) l(2)])
  show "\<exists>t st'. construct_plain vc cl cr st = Some ((t, w), st') \<and> stored_ok B z \<mu> st' \<and> den z \<mu> w x t"
    using assms(4) [of l r] l r assms(3) by (auto simp: construct_plain_def den_bv)
qed

lemma construct_logic_ok:
  assumes "makes B z \<mu> w a cl" "makes B z \<mu> w b cr"
    "\<And>l r. w = 1 \<Longrightarrow> fm z \<mu> l (a = 1) \<Longrightarrow> fm z \<mu> r (b = 1) \<Longrightarrow> \<exists>n. form l r = Some n \<and> fm z \<mu> n (x = 1)"
    "\<And>l r. w \<noteq> 1 \<Longrightarrow> bv z \<mu> l w a \<Longrightarrow> bv z \<mu> r w b \<Longrightarrow> \<exists>n. term l r = Some n \<and> bv z \<mu> n w x"
  shows "makes B z \<mu> w x (construct_logic form term cl cr)"
  unfolding makes_def
proof (intro allI impI)
  fix st assume st: "stored_ok B z \<mu> st"
  obtain l st1 where l: "cl st = Some ((l, w), st1)" "stored_ok B z \<mu> st1" "den z \<mu> w a l" by (rule makesE [OF assms(1) st])
  obtain r st2 where r: "cr st1 = Some ((r, w), st2)" "stored_ok B z \<mu> st2" "den z \<mu> w b r" by (rule makesE [OF assms(2) l(2)])
  show "\<exists>t st'. construct_logic form term cl cr st = Some ((t, w), st') \<and> stored_ok B z \<mu> st' \<and> den z \<mu> w x t"
    using assms(3,4) [of l r] l r by (cases "w = 1") (auto simp: construct_logic_def den_def)
qed

lemma construct_cmp_ok:
  assumes "makes B z \<mu> w a cl" "makes B z \<mu> w b cr" "w \<noteq> 1"
    "\<And>l r. bv z \<mu> l w a \<Longrightarrow> bv z \<mu> r w b \<Longrightarrow> \<exists>n. vc l r = Some n \<and> fm z \<mu> n x"
  shows "makes B z \<mu> 1 (of_bool x) (construct_cmp vc cl cr)"
  unfolding makes_def
proof (intro allI impI)
  fix st assume st: "stored_ok B z \<mu> st"
  obtain l st1 where l: "cl st = Some ((l, w), st1)" "stored_ok B z \<mu> st1" "den z \<mu> w a l" by (rule makesE [OF assms(1) st])
  obtain r st2 where r: "cr st1 = Some ((r, w), st2)" "stored_ok B z \<mu> st2" "den z \<mu> w b r" by (rule makesE [OF assms(2) l(2)])
  show "\<exists>t st'. construct_cmp vc cl cr st = Some ((t, 1), st') \<and> stored_ok B z \<mu> st' \<and> den z \<mu> 1 (of_bool x) t"
    using assms(4) [of l r] l r assms(3) by (auto simp: construct_cmp_def den_bv den_fm)
qed

lemma const_ofD:
  assumes "const_of e w v" "dyn_const e = Some CE" "w \<le> k" "k \<le> 64"
  shows "getZExtValue (apenv B) k CE = Some (word_of_int v)" "uint (word_of_int v :: uint64_t) = v" "ap_width CE = w"
    "uint (ucast (ucast (word_of_int v :: uint64_t) :: uint32_t) :: uint64_t) = v mod 2 ^ 32"
proof -
  have CE: "wf_ap CE" "ap_width CE = w" "ap_val CE = v" using assms(1,2) by (auto simp: const_of_def)
  show u: "getZExtValue (apenv B) k CE = Some (word_of_int v)" "uint (word_of_int v :: uint64_t) = v" "ap_width CE = w"
    using zext_const [OF CE(1), of k] CE assms(3,4) by simp_all
  have "uint (ucast (ucast (word_of_int v :: uint64_t) :: uint32_t) :: uint64_t) = take_bit 32 (uint (word_of_int v :: uint64_t))"
    by (simp only: unsigned_ucast_eq) (simp add: min_def unsigned_take_bit_eq)
  then show "uint (ucast (ucast (word_of_int v :: uint64_t) :: uint32_t) :: uint64_t) = v mod 2 ^ 32"
    unfolding u(2) by (simp only: take_bit_eq_mod)
qed

lemma construct_Mul_ok:
  assumes "makes B z \<mu> w a cl" "makes B z \<mu> w b cr" "w \<noteq> 1" "const_of l w a"
    "isConstant l \<Longrightarrow> w \<le> 64 \<Longrightarrow> std_width w"
  shows "makes B z \<mu> w (sem_bin Mul w a b) (construct_Mul B l cl cr)"
  unfolding makes_def
proof (intro allI impI)
  fix st assume st: "stored_ok B z \<mu> st"
  obtain r st1 where r: "cr st = Some ((r, w), st1)" "stored_ok B z \<mu> st1" "den z \<mu> w b r" by (rule makesE [OF assms(2) st])
  obtain t st2 where t: "cl st1 = Some ((t, w), st2)" "stored_ok B z \<mu> st2" "den z \<mu> w a t" by (rule makesE [OF assms(1) r(2)])
  have bv: "bv z \<mu> r w b" "bv z \<mu> t w a" using r(3) t(3) assms(3) by (simp_all add: den_bv)
  have general: "\<exists>n. vc_bvMultExpr (NFac B) w t r = Some n \<and> bv z \<mu> n w (sem_bin Mul w a b)"
    using vc_arith(3) [OF bv(2,1)] by simp
  show "\<exists>t st'. construct_Mul B l cl cr st = Some ((t, w), st') \<and> stored_ok B z \<mu> st' \<and> den z \<mu> w (sem_bin Mul w a b) t"
  proof (cases "\<exists>CE. dyn_const l = Some CE \<and> ap_width CE \<le> 64")
    case True
    then obtain CE where CE: "dyn_const l = Some CE" "ap_width CE \<le> 64" by blast
    have w: "ap_width CE = w" using assms(4) CE(1) by (simp add: const_of_def)
    have "isConstant l" using CE(1) by (cases l) simp_all
    then have "std_width w" using assms(5) w CE(2) by simp
    then show ?thesis
      using constructMulByConstant_ok [OF bv(1), of "word_of_int a"] const_ofD(1,2) [OF assms(4) CE(1), of 64] CE w r assms(3)
      by (auto simp: construct_Mul_def den_bv mult.commute)
  next
    case False
    then show ?thesis using general r t assms(3) by (auto simp: construct_Mul_def den_bv split: option.split)
  qed
qed

lemma construct_UDiv_ok:
  assumes "makes B z \<mu> w a cl" "makes B z \<mu> w b cr" "w \<noteq> 1" "const_of r w b" "b \<noteq> 0"
    "isConstant r \<Longrightarrow> w \<le> 64 \<Longrightarrow> std_width w"
  shows "makes B z \<mu> w (sem_bin UDiv w a b) (construct_UDiv B r cl cr)"
  unfolding makes_def
proof (intro allI impI)
  fix st assume st: "stored_ok B z \<mu> st"
  obtain l st1 where l: "cl st = Some ((l, w), st1)" "stored_ok B z \<mu> st1" "den z \<mu> w a l" by (rule makesE [OF assms(1) st])
  obtain t st2 where t: "cr st1 = Some ((t, w), st2)" "stored_ok B z \<mu> st2" "den z \<mu> w b t" by (rule makesE [OF assms(2) l(2)])
  have bv: "bv z \<mu> l w a" "bv z \<mu> t w b" using l(3) t(3) assms(3) by (simp_all add: den_bv)
  note a = bvD(4,6,7) [OF bv(1)] and b = bvD(6,7) [OF bv(2)]
  have "0 < b" using b assms(5) by simp
  then have val: "sem_bin UDiv w a b = a div b" using udiv_bounds(1,2) [of a b] a by (simp add: mod_pos_pos_trivial)
  show "\<exists>t st'. construct_UDiv B r cl cr st = Some ((t, w), st') \<and> stored_ok B z \<mu> st' \<and> den z \<mu> w (sem_bin UDiv w a b) t"
  proof (cases "\<exists>CE. dyn_const r = Some CE \<and> ap_width CE \<le> 64")
    case True
    then obtain CE where CE: "dyn_const r = Some CE" "ap_width CE \<le> 64" by blast
    have "ap_width CE = w" using assms(4) CE(1) by (simp add: const_of_def)
    then have w: "w \<le> 64" "ap_width CE = w" using CE(2) by simp_all
    have "isConstant r" using CE(1) by (cases r) simp_all
    then have std: "std_width w" using assms(6) w by simp
    note d = const_ofD [OF assms(4) CE(1) w(1) order_refl]
    have pow: "\<exists>n. bvRightShift B l (indexOfSingleBit (word_of_int b)) (getShiftBits w) = Some n \<and> bv z \<mu> n w (a div b)"
      if p: "isPowerOfTwo (word_of_int b)"
    proof -
      obtain k where k: "k < 64" "indexOfSingleBit (word_of_int b) = k" "b = 2 ^ k" using power_of_two_word [OF p] unfolding d(2) by metis
      then have "k < w" using b(2) by (simp add: power_strict_increasing_iff)
      then have "k mod 2 ^ getShiftBits w = k" using getShiftBits_cases(4) [OF std] by simp
      then show ?thesis using bvRightShift_ok [OF bv(1)] getShiftBits_cases(1) [of w] w k by simp
    qed
    have c32: "\<exists>n. constructUDivByConstant B l w (ucast (ucast (word_of_int b :: uint64_t) :: uint32_t)) = Some n \<and> bv z \<mu> n w (a div b)"
      if w32: "w = 32"
    proof -
      let ?d = "ucast (word_of_int b :: uint64_t) :: uint32_t"
      have "(ucast (ucast ?d :: uint64_t) :: uint32_t) = ?d" by (rule bit_word_eqI) (simp add: bit_simps)
      moreover have "uint ?d = b" using b w32 d(2) by (simp add: unsigned_ucast_eq take_bit_int_eq_self)
      ultimately show ?thesis using constructUDivByConstant_ok [of z \<mu> l a "ucast ?d" b] bv(1) assms(5) w32 by simp
    qed
    show ?thesis
      using pow [folded val] c32 [folded val] vc_div(1) [OF bv assms(5)] l t CE w d(1) assms(3)
      by (cases "isPowerOfTwo (word_of_int b)"; cases "optimizeDivides B \<and> w = 32")
        (auto simp: construct_UDiv_def den_bv Let_def simp del: sem_bin.simps)
  next
    case False
    then show ?thesis using vc_div(1) [OF bv assms(5)] l t assms(3)
      by (auto simp: construct_UDiv_def den_bv Let_def simp del: sem_bin.simps split: option.split)
  qed
qed

lemma construct_SDiv_ok:
  assumes "makes B z \<mu> w a cl" "makes B z \<mu> w b cr" "w \<noteq> 1" "const_of r w b" "b \<noteq> 0"
  shows "makes B z \<mu> w (sem_bin SDiv w a b) (construct_SDiv B r cl cr)"
  unfolding makes_def
proof (intro allI impI)
  fix st assume st: "stored_ok B z \<mu> st"
  obtain l st1 where l: "cl st = Some ((l, w), st1)" "stored_ok B z \<mu> st1" "den z \<mu> w a l" by (rule makesE [OF assms(1) st])
  obtain t st2 where t: "cr st1 = Some ((t, w), st2)" "stored_ok B z \<mu> st2" "den z \<mu> w b t" by (rule makesE [OF assms(2) l(2)])
  have bv: "bv z \<mu> l w a" "bv z \<mu> t w b" using l(3) t(3) assms(3) by (simp_all add: den_bv)
  note b = bvD(6,7) [OF bv(2)]
  show "\<exists>t st'. construct_SDiv B r cl cr st = Some ((t, w), st') \<and> stored_ok B z \<mu> st' \<and> den z \<mu> w (sem_bin SDiv w a b) t"
  proof (cases "\<exists>CE. dyn_const r = Some CE \<and> optimizeDivides B \<and> w = 32")
    case True
    then obtain CE where CE: "dyn_const r = Some CE" "optimizeDivides B" "w = 32" by blast
    note d = const_ofD [OF assms(4) CE(1), of 32]
    have "uint (ucast (word_of_int b :: uint64_t) :: uint32_t) = b" using b CE(3) d(2) by (simp add: unsigned_ucast_eq take_bit_int_eq_self)
    then have "\<exists>n. constructSDivByConstant B l w (word_of_int b) = Some n \<and> bv z \<mu> n w (sem_bin SDiv w a b)"
      using constructSDivByConstant_ok [of z \<mu> l a "word_of_int b" b] bv(1) assms(5) CE(3) by (simp del: sem_bin.simps)
    then show ?thesis using l CE d(1) by (auto simp: construct_SDiv_def den_bv Let_def simp del: sem_bin.simps)
  next
    case False
    then show ?thesis using vc_div(3) [OF bv assms(5)] l t assms(3)
      by (auto simp: construct_SDiv_def den_bv Let_def simp del: sem_bin.simps split: option.split)
  qed
qed

lemma construct_URem_ok:
  assumes "makes B z \<mu> w a cl" "makes B z \<mu> w b cr" "w \<noteq> 1" "const_of r w b" "b \<noteq> 0"
  shows "makes B z \<mu> w (sem_bin URem w a b) (construct_URem B r cl cr)"
  unfolding makes_def
proof (intro allI impI)
  fix st assume st: "stored_ok B z \<mu> st"
  obtain l st1 where l: "cl st = Some ((l, w), st1)" "stored_ok B z \<mu> st1" "den z \<mu> w a l" by (rule makesE [OF assms(1) st])
  obtain t st2 where t: "cr st1 = Some ((t, w), st2)" "stored_ok B z \<mu> st2" "den z \<mu> w b t" by (rule makesE [OF assms(2) l(2)])
  have bv: "bv z \<mu> l w a" "bv z \<mu> t w b" using l(3) t(3) assms(3) by (simp_all add: den_bv)
  note a = bvD(4,6,7) [OF bv(1)] and b = bvD(6,7) [OF bv(2)]
  have b0: "0 < b" using b assms(5) by simp
  then have val: "sem_bin URem w a b = a mod b" using udiv_bounds [of a b] a by (simp add: mod_pos_pos_trivial)
  show "\<exists>t st'. construct_URem B r cl cr st = Some ((t, w), st') \<and> stored_ok B z \<mu> st' \<and> den z \<mu> w (sem_bin URem w a b) t"
  proof (cases "\<exists>CE. dyn_const r = Some CE \<and> ap_width CE \<le> 64")
    case True
    then obtain CE where CE: "dyn_const r = Some CE" "ap_width CE \<le> 64" by blast
    have "ap_width CE = w" using assms(4) CE(1) by (simp add: const_of_def)
    then have w: "w \<le> 64" "ap_width CE = w" using CE(2) by simp_all
    note d = const_ofD [OF assms(4) CE(1) w(1) order_refl]
    consider "isPowerOfTwo (word_of_int b)" | "\<not> isPowerOfTwo (word_of_int b)" "optimizeDivides B \<and> w = 32"
      | "\<not> isPowerOfTwo (word_of_int b)" "\<not> (optimizeDivides B \<and> w = 32)" by blast
    then show ?thesis
    proof cases
      case 1
      obtain k where k: "k < 64" "indexOfSingleBit (word_of_int b) = k" "b = 2 ^ k" using power_of_two_word [OF 1] unfolding d(2) by metis
      then have "k < w" using b(2) by (simp add: power_strict_increasing_iff)
      show ?thesis
      proof (cases "k = 0")
        case True
        then have v0: "sem_bin URem w a b = 0" using k(3) val by simp
        obtain n where "bvZero w = Some n" "bv z \<mu> n w 0" using bv_consts(1) [OF a(1) w(1)] by blast
        then show ?thesis using l CE w d(1) assms(3) 1 k(2) True by (simp add: construct_URem_def den_bv v0 Let_def del: sem_bin.simps)
      next
        case False
        have lo: "0 < w - k" "w - k \<le> 64" "k - 1 < w" "k - 1 + 1 = k" using \<open>k < w\<close> w(1) False by auto
        obtain zs where zs: "bvZero (w - k) = Some zs" "bv z \<mu> zs (w - k) 0" using bv_consts(1) [OF lo(1,2)] by blast
        obtain x where x: "bvExtract B l (k - 1) 0 = Some x" "bv z \<mu> x k (a mod 2 ^ k)"
          using vc_bvExtract [OF bv(1) _ lo(3), of 0] w(1) lo(4) by (auto simp: bvExtract_def)
        obtain n where n: "vc_bvConcatExpr (NFac B) zs x = Some n" "bv z \<mu> n w (sem_bin URem w a b)"
          using vc_bvConcatExpr [OF zs(2) x(2)] \<open>k < w\<close> val k(3) by (auto simp del: sem_bin.simps)
        then show ?thesis using l CE w d(1) assms(3) 1 k(2) False zs(1) x(1)
          by (simp add: construct_URem_def den_bv Let_def del: sem_bin.simps)
      qed
    next
      case 2
      let ?d = "ucast (word_of_int b :: uint64_t) :: uint32_t"
      have "(ucast (ucast ?d :: uint64_t) :: uint32_t) = ?d" by (rule bit_word_eqI) (simp add: bit_simps)
      moreover have "uint ?d = b" using b 2 d(2) by (simp add: unsigned_ucast_eq take_bit_int_eq_self)
      ultimately obtain q where q: "constructUDivByConstant B l w (ucast ?d) = Some q" "bv z \<mu> q w (a div b)"
        using constructUDivByConstant_ok [of z \<mu> l a "ucast ?d" b] bv(1) assms(5) 2 by auto
      obtain m where m: "constructMulByConstant B q w (word_of_int b) = Some m" "bv z \<mu> m w (a div b * b mod 2 ^ w)"
        using constructMulByConstant_ok [OF q(2), of "word_of_int b"] d(2) 2 std_widths by auto
      have "(a - a div b * b mod 2 ^ w) mod 2 ^ w = (a - a div b * b) mod 2 ^ w" by (simp add: mod_simps)
      also have "\<dots> = sem_bin URem w a b" by (simp add: minus_div_mult_eq_mod)
      finally show ?thesis
        using vc_arith(2) [OF bv(1) m(2)] q(1) m(1) l CE w d(1) assms(3) 2
        by (auto simp: construct_URem_def den_bv Let_def simp del: sem_bin.simps)
    next
      case 3
      then show ?thesis using vc_div(2) [OF bv assms(5)] l t CE w d(1) assms(3)
        by (auto simp: construct_URem_def den_bv Let_def simp del: sem_bin.simps)
    qed
  next
    case False
    then show ?thesis using vc_div(2) [OF bv assms(5)] l t assms(3)
      by (auto simp: construct_URem_def den_bv Let_def simp del: sem_bin.simps split: option.split)
  qed
qed

lemma construct_shift_ok:
  assumes "makes B z \<mu> w a cl" "makes B z \<mu> w b cr" "w \<noteq> 1" "const_of r w b" "b < 2 ^ getShiftBits w" "0 \<le> b"
    "\<And>l k. bv z \<mu> l w a \<Longrightarrow> int k = b \<Longrightarrow> \<exists>n. by_const l k w = Some n \<and> bv z \<mu> n w x"
    "\<And>l m. dyn_const r = None \<Longrightarrow> bv z \<mu> l w a \<Longrightarrow> bv z \<mu> m w b \<Longrightarrow> \<exists>n. by_var l m w = Some n \<and> bv z \<mu> n w x"
  shows "makes B z \<mu> w x (construct_shift B by_const by_var r cl cr)"
  unfolding makes_def
proof (intro allI impI)
  fix st assume st: "stored_ok B z \<mu> st"
  obtain l st1 where l: "cl st = Some ((l, w), st1)" "stored_ok B z \<mu> st1" "den z \<mu> w a l" by (rule makesE [OF assms(1) st])
  obtain t st2 where t: "cr st1 = Some ((t, w), st2)" "stored_ok B z \<mu> st2" "den z \<mu> w b t" by (rule makesE [OF assms(2) l(2)])
  have bv: "bv z \<mu> l w a" "bv z \<mu> t w b" using l(3) t(3) assms(3) by (simp_all add: den_bv)
  show "\<exists>t st'. construct_shift B by_const by_var r cl cr st = Some ((t, w), st') \<and> stored_ok B z \<mu> st' \<and> den z \<mu> w x t"
  proof (cases "dyn_const r")
    case (Some CE)
    have CE: "wf_ap CE" "ap_val CE = b" using assms(4) Some by (simp_all add: const_of_def)
    have "(2::int) ^ getShiftBits w \<le> 2 ^ 6" using getShiftBits_cases(1) by (intro power_increasing) auto
    then have b: "b < 64" using assms(5) by simp
    then have "uint (ucast (word_of_int b :: uint64_t) :: uint32_t) = b"
      using assms(6) by (simp add: unsigned_ucast_eq take_bit_int_eq_self uint_word_of_int mod_pos_pos_trivial)
    then have "int (unat (ucast (ap_getLimitedValue B CE) :: uint32_t)) = b"
      using limited [OF CE(1)] CE(2) b by (simp only: uint_nat [symmetric]) simp
    from assms(7) [OF bv(1) this] show ?thesis using l Some assms(3) by (auto simp: construct_shift_def den_bv)
  next
    case None
    from assms(8) [OF None bv] show ?thesis using l t None assms(3) by (auto simp: construct_shift_def den_bv)
  qed
qed

lemma construct_Eq_ok:
  assumes "makes B z \<mu> w a cl" "makes B z \<mu> w b cr" "const_of l w a" "w = 1 \<Longrightarrow> a \<in> {0, 1} \<and> b \<in> {0, 1}"
  shows "makes B z \<mu> 1 (of_bool (a = b)) (construct_Eq B l cl cr)"
  unfolding makes_def
proof (intro allI impI)
  fix st assume st: "stored_ok B z \<mu> st"
  obtain t st1 where t: "cl st = Some ((t, w), st1)" "stored_ok B z \<mu> st1" "den z \<mu> w a t" by (rule makesE [OF assms(1) st])
  obtain r st2 where r: "cr st1 = Some ((r, w), st2)" "stored_ok B z \<mu> st2" "den z \<mu> w b r" by (rule makesE [OF assms(2) t(2)])
  show "\<exists>t st'. construct_Eq B l cl cr st = Some ((t, 1), st') \<and> stored_ok B z \<mu> st' \<and> den z \<mu> 1 (of_bool (a = b)) t"
  proof (cases "w = 1")
    case True
    have ab: "fm z \<mu> t (a = 1)" "fm z \<mu> r (b = 1)" "a \<in> {0, 1}" "b \<in> {0, 1}" using t r assms(4) True by (simp_all add: den_fm)
    show ?thesis
    proof (cases "dyn_const l")
      case None
      have "((a = 1) = (b = 1)) = (a = b)" using ab(3,4) by auto
      then show ?thesis using vc_formulas(3) [OF ab(1,2)] t r True None by (auto simp: construct_Eq_def den_fm)
    next
      case (Some CE)
      have CE: "wf_ap CE" "ap_width CE = 1" "ap_val CE = a" using assms(3) Some True by (simp_all add: const_of_def)
      have t1: "isTrue (apenv B) CE = Some (a = 1)" using isTrue_eq [OF CE(1,2)] CE(3) by simp
      have e1: "(b = 1) = (a = b)" if "a = 1" using that by auto
      have e0: "(\<not> b = 1) = (a = b)" if "a \<noteq> 1" using that ab(3,4) by auto
      have "\<exists>n. (if a = 1 then Some r else vc_notExpr (NFac B) r) = Some n \<and> fm z \<mu> n (a = b)"
        using vc_notExpr [OF ab(2)] ab(2) e1 e0 by (cases "a = 1") (simp_all only: if_True if_False option.inject simp_thms ex_simps)
      then show ?thesis using t(1) r(1,2) True Some t1 by (auto simp: construct_Eq_def den_fm)
    qed
  next
    case False
    then show ?thesis using vc_eqExpr [of z \<mu> t w a r b] t r by (auto simp: construct_Eq_def den_fm den_bv)
  qed
qed

lemma shift_consts:
  assumes "bv z \<mu> l w a" "std_width w" "2 \<le> w" "int k = b" "b < 2 ^ getShiftBits w"
  shows "\<exists>n. bvLeftShift B l k (getShiftBits w) = Some n \<and> bv z \<mu> n w (sem_bin Shl w a b)"
    and "\<exists>n. bvRightShift B l k (getShiftBits w) = Some n \<and> bv z \<mu> n w (sem_bin LShr w a b)"
    and "\<exists>n. (do { s \<leftarrow> bvBoolExtract B l (w - 1); constructAShrByConstant B l k s (getShiftBits w) }) = Some n \<and>
      bv z \<mu> n w (sem_bin AShr w a b)"
proof -
  note l = bvD(4,6,7) [OF assms(1)] and w = std_width_64 [OF assms(2)] and sb = getShiftBits_cases(1) [of w]
  have "int k < int (2 ^ getShiftBits w)" using assms(4,5) by simp
  then have k: "k mod 2 ^ getShiftBits w = k" "nat b = k" "b < int w \<longleftrightarrow> k < w" using assms(4) by (auto simp del: of_nat_power)
  have big: "w \<le> k \<Longrightarrow> a * 2 ^ k mod 2 ^ w = 0" "w \<le> k \<Longrightarrow> a div 2 ^ k = 0" 
  proof -
    assume wk: "w \<le> k"
    then have "(2::int) ^ w dvd 2 ^ k" by (rule le_imp_power_dvd)
    then show "a * 2 ^ k mod 2 ^ w = 0" by (simp add: mod_eq_0_iff_dvd)
    have "(2::int) ^ w \<le> 2 ^ k" using wk by (intro power_increasing) auto
    then show "a div 2 ^ k = 0" using l by (intro div_pos_pos_trivial) linarith+
  qed
  have small: "a div 2 ^ k mod 2 ^ w = a div 2 ^ k" using udiv_bounds(1,2) [of a "2 ^ k"] l by (simp add: mod_pos_pos_trivial)
  show "\<exists>n. bvLeftShift B l k (getShiftBits w) = Some n \<and> bv z \<mu> n w (sem_bin Shl w a b)"
    using bvLeftShift_ok [OF assms(1) _ sb k(1)] w big(1) k(2,3) by (cases "k < w") simp_all
  show "\<exists>n. bvRightShift B l k (getShiftBits w) = Some n \<and> bv z \<mu> n w (sem_bin LShr w a b)"
    using bvRightShift_ok [OF assms(1) _ sb k(1)] w big(2) k(2,3) small by (cases "k < w") simp_all
  obtain sg where sg: "bvBoolExtract B l (w - 1) = Some sg" "fm z \<mu> sg (sgn_val w a < 0)"
    using bvBoolExtract_ok [OF assms(1), of "w - 1"] sign_bit [OF l] l(1) w by auto
  have "sem_bin AShr w a b = sgn_val w a div 2 ^ k mod 2 ^ w"
    using sgn_val_div_big [OF l, of k] k(2,3) by (cases "k < w") simp_all
  then show "\<exists>n. (do { s \<leftarrow> bvBoolExtract B l (w - 1); constructAShrByConstant B l k s (getShiftBits w) }) = Some n \<and>
      bv z \<mu> n w (sem_bin AShr w a b)"
    using constructAShrByConstant_ok [OF assms(1,3) w sb k(1) sg(2)] sg(1) by simp
qed

lemma const_writes_ok:
  assumes "wf_array a" "isConstantArray a" "\<forall>i \<in> set is. i < arr_size a" "arr z \<mu> prev f"
  shows "\<exists>m g. const_writes B a is prev = Some m \<and> arr z \<mu> m g \<and>
    (\<forall>i\<ge>0. g i = (if nat i \<in> set is then ap_val (constantValues a ! nat i) else f i))"
  using assms(3,4)
proof (induction "is" arbitrary: prev f)
  case (Cons i "is")
  have i: "i < arr_size a" "i < 2 ^ 32" using Cons.prems(1) assms(1) by (auto simp: wf_array_def)
  have c: "i < length (constantValues a)" "wf_ap (constantValues a ! i)" "ap_width (constantValues a ! i) = 8"
    using assms(1,2) i by (auto simp: wf_array_def)
  have al: "ConstantExpr_alloc (apenv B) (of_nat i) 32 = APInt 32 (int i)"
    using i(2) by (simp add: ConstantExpr_alloc_def ap_new unsigned_of_nat take_bit_nat_eq_self mod_pos_pos_trivial)
  have wfi: "wf_ap (APInt 32 (int i))" using i(2) by (simp add: wf_ap_def)
  obtain n where n: "constructConstant B (APInt 32 (int i)) = Some n" "bv z \<mu> n 32 (int i)"
    using constructConstant_ok [OF wfi, of z \<mu>] by auto
  obtain v where v: "constructConstant B (constantValues a ! i) = Some v" "bv z \<mu> v 8 (ap_val (constantValues a ! i))"
    using constructConstant_ok [OF c(2), of z \<mu>] c(3) by auto
  obtain m where m: "vc_writeExpr (NFac B) prev n v = Some m" "arr z \<mu> m (f(int i := ap_val (constantValues a ! i)))"
    using vc_arrays(2) [OF Cons.prems(2) n(2) v(2)] by blast
  obtain m' g where g: "const_writes B a is m = Some m'" "arr z \<mu> m' g"
    "\<forall>j\<ge>0. g j = (if nat j \<in> set is then ap_val (constantValues a ! nat j) else (f(int i := ap_val (constantValues a ! i))) j)"
    using Cons.IH [OF _ m(2)] Cons.prems(1) by auto
  have "const_writes B a (i # is) prev = Some m'" using al n(1) v(1) m(1) g(1) c(1) by (simp add: nth_opt_in)
  moreover have "\<forall>j\<ge>0. g j = (if nat j \<in> set (i # is) then ap_val (constantValues a ! nat j) else f j)" using g(3) by auto
  ultimately show ?case using g(2) by blast
qed auto

lemma getInitialArray_ok:
  assumes "byte_vals \<mu>" "wf_array a"
  shows "makes_array B z \<mu> a NoUpdate (getInitialArray B a)"
  unfolding makes_array_def
proof (intro allI impI)
  fix st assume st: "stored_ok B z \<mu> st"
  show "\<exists>t st'. getInitialArray B a st = Some (t, st') \<and> stored_ok B z \<mu> st' \<and> arr_den B z \<mu> a NoUpdate t"
  proof (cases "stpInitialArray st a")
    case (Some n)
    then show ?thesis using st assms(2) by (simp add: getInitialArray_def stored_ok_def)
  next
    case None
    let ?s = "buildArray (symbol_name B a) 32 8"
    have s: "arr z \<mu> ?s (\<mu> (symbol_name B a))" using assms(1) by (simp add: arr_def buildArray_def byte_vals_def)
    obtain n where n: "(if isConstantArray a then const_writes B a [0..<arr_size a] ?s else Some ?s) = Some n" "arr_den B z \<mu> a NoUpdate n"
    proof (cases "isConstantArray a")
      case True
      obtain m g where g: "const_writes B a [0..<arr_size a] ?s = Some m" "arr z \<mu> m g"
        "\<forall>i\<ge>0. g i = (if nat i \<in> set [0..<arr_size a] then ap_val (constantValues a ! nat i) else \<mu> (symbol_name B a) i)"
        using const_writes_ok [OF assms(2) True _ s, of "[0..<arr_size a]"] by auto
      have "\<forall>i\<ge>0. g i = eval_updates (stp_contents B \<mu>) NoUpdate i (initial_value (stp_contents B \<mu>) a i)"
        using g(3) True by (simp add: initial_value_def stp_contents_def)
      then show ?thesis using that [of m] True g(1,2) by (auto simp: arr_den_def)
    next
      case False
      then show ?thesis using s that by (auto simp: arr_den_def initial_value_def stp_contents_def)
    qed
    then show ?thesis using st None by (auto simp: getInitialArray_def stored_ok_def)
  qed
qed

lemma construct_with_ok:
  assumes "wf_expr e" "buildable (stp_contents B \<mu>) e" "makes B z \<mu> (getWidth e) (eval (stp_contents B \<mu>) e) c"
  shows "makes B z \<mu> (getWidth e) (eval (stp_contents B \<mu>) e) (construct_with B e c)"
  unfolding makes_def
proof (intro allI impI)
  fix st assume st: "stored_ok B z \<mu> st"
  obtain t st' where t: "c st = Some ((t, getWidth e), st')" "stored_ok B z \<mu> st'" "den z \<mu> (getWidth e) (eval (stp_contents B \<mu>) e) t"
    by (rule makesE [OF assms(3) st])
  show "\<exists>t st'. construct_with B e c st = Some ((t, getWidth e), st') \<and> stored_ok B z \<mu> st' \<and>
      den z \<mu> (getWidth e) (eval (stp_contents B \<mu>) e) t"
  proof (cases "constructed st e")
    case None
    have "stored_ok B z \<mu> (st'\<lparr>constructed := (constructed st')(e \<mapsto> (t, getWidth e))\<rparr>)"
      using t(2,3) by (auto simp: stored_ok_def)
    then show ?thesis using None t by (simp add: construct_with_def)
  next
    case (Some r)
    then have "snd r = getWidth e" "den z \<mu> (getWidth e) (eval (stp_contents B \<mu>) e) (fst r)"
      using st assms(1,2) by (cases r; simp add: stored_ok_def)+
    then show ?thesis using Some st t by (cases r) (simp add: construct_with_def)
  qed
qed

lemma bit_range: "0 \<le> a \<and> a < 2 ^ 1 \<longleftrightarrow> a = 0 \<or> a = (1::int)"
  by auto

lemma bit_forms:
  assumes "a = 0 \<or> a = (1::int)" "b = 0 \<or> b = (1::int)"
  shows "sem_bin And 1 a b = 1 \<longleftrightarrow> a = 1 \<and> b = 1" "sem_bin Or 1 a b = 1 \<longleftrightarrow> a = 1 \<or> b = 1"
    "sem_bin Xor 1 a b = 1 \<longleftrightarrow> (if a = 1 then \<not> b = 1 else b = 1)"
  using assms by auto

lemma logic_terms:
  assumes "bv z \<mu> l w a" "bv z \<mu> r w b"
  shows "\<exists>n. vc_bvAndExpr (NFac B) l r = Some n \<and> bv z \<mu> n w (sem_bin And w a b)"
    and "\<exists>n. vc_bvOrExpr (NFac B) l r = Some n \<and> bv z \<mu> n w (sem_bin Or w a b)"
    and "\<exists>n. vc_bvXorExpr (NFac B) l r = Some n \<and> bv z \<mu> n w (sem_bin Xor w a b)"
proof -
  have m: "x mod 2 ^ w = x" if "bv z \<mu> n w x" for n x using bvD(6,7) [OF that] by (simp add: mod_pos_pos_trivial)
  show "\<exists>n. vc_bvAndExpr (NFac B) l r = Some n \<and> bv z \<mu> n w (sem_bin And w a b)"
    "\<exists>n. vc_bvOrExpr (NFac B) l r = Some n \<and> bv z \<mu> n w (sem_bin Or w a b)"
    "\<exists>n. vc_bvXorExpr (NFac B) l r = Some n \<and> bv z \<mu> n w (sem_bin Xor w a b)"
    using vc_bitwise [OF assms] by (auto simp: m)
qed

lemma logic_forms:
  assumes "fm z \<mu> l (a = 1)" "fm z \<mu> r (b = 1)" "a = 0 \<or> a = 1" "b = 0 \<or> b = 1"
  shows "\<exists>n. vc_andExpr (NFac B) l r = Some n \<and> fm z \<mu> n (sem_bin And 1 a b = 1)"
    and "\<exists>n. vc_orExpr (NFac B) l r = Some n \<and> fm z \<mu> n (sem_bin Or 1 a b = 1)"
    and "\<exists>n. (do { n \<leftarrow> vc_notExpr (NFac B) r; vc_iteExpr (NFac B) l n r }) = Some n \<and> fm z \<mu> n (sem_bin Xor 1 a b = 1)"
proof -
  note b = bit_forms [OF assms(3,4)]
  show "\<exists>n. vc_andExpr (NFac B) l r = Some n \<and> fm z \<mu> n (sem_bin And 1 a b = 1)"
    "\<exists>n. vc_orExpr (NFac B) l r = Some n \<and> fm z \<mu> n (sem_bin Or 1 a b = 1)"
    unfolding b using vc_formulas(1,2) [OF assms(1,2)] by simp_all
  obtain n where n: "vc_notExpr (NFac B) r = Some n" "fm z \<mu> n (\<not> b = 1)" using vc_notExpr [OF assms(2)] by blast
  show "\<exists>n. (do { n \<leftarrow> vc_notExpr (NFac B) r; vc_iteExpr (NFac B) l n r }) = Some n \<and> fm z \<mu> n (sem_bin Xor 1 a b = 1)"
    unfolding b using vc_ite_fm [OF assms(1) n(2) assms(2)] n(1) by simp
qed

lemma construct_bin_ok:
  assumes l: "makes B z \<mu> w a cl" and r: "makes B z \<mu> w b cr"
    and c: "const_of l w a" "const_of r w b" "isConstant r \<longleftrightarrow> dyn_const r \<noteq> None"
    and range: "0 \<le> a" "a < 2 ^ w" "0 \<le> b" "b < 2 ^ w" "0 < w"
    and ok: "bin_ok \<alpha> k l r" "getWidth l = w" "eval \<alpha> r = b"
  shows "makes B z \<mu> w (sem_bin k w a b) (construct_bin B k l r cl cr)"
proof -
  have div: "is_div k \<Longrightarrow> b \<noteq> 0" and one: "k \<notin> {And, Or, Xor} \<Longrightarrow> w \<noteq> 1"
    and shift: "k \<in> {Shl, LShr, AShr} \<Longrightarrow> std_width w \<and> b < 2 ^ getShiftBits w \<and> (isConstant r \<or> getShiftBits w \<le> w)"
    using ok by (auto simp: bin_ok_def Let_def)
  have bits: "a = 0 \<or> a = 1" "b = 0 \<or> b = 1" if "w = 1" using range that by (simp_all flip: bit_range)
  have sh: "w \<noteq> 1" "2 \<le> w" "std_width w" "b < 2 ^ getShiftBits w" "dyn_const r = None \<Longrightarrow> getShiftBits w \<le> w" "w < 2 ^ 31"
    if "k \<in> {Shl, LShr, AShr}"
    using that one shift range c(3) std_width_64 [of w] by auto
  show ?thesis
  proof (cases k)
    case Add
    then show ?thesis using construct_plain_ok [OF l r] one vc_arith(1) by (simp add: construct_bin_def)
  next
    case Sub
    then show ?thesis using construct_plain_ok [OF l r] one vc_arith(2) by (simp add: construct_bin_def)
  next
    case Mul
    then show ?thesis using construct_Mul_ok [OF l r _ c(1)] one ok by (simp add: construct_bin_def bin_ok_def)
  next
    case UDiv
    then show ?thesis using construct_UDiv_ok [OF l r _ c(2)] one div ok by (simp add: construct_bin_def bin_ok_def is_div_def)
  next
    case SDiv
    then show ?thesis using construct_SDiv_ok [OF l r _ c(2)] one div by (simp add: construct_bin_def is_div_def)
  next
    case URem
    then show ?thesis using construct_URem_ok [OF l r _ c(2)] one div by (simp add: construct_bin_def is_div_def)
  next
    case SRem
    then have "w \<noteq> 1" "b \<noteq> 0" using one div by (simp_all add: is_div_def)
    with SRem show ?thesis unfolding construct_bin_def
      by (simp only: bkind.case) (intro construct_plain_ok [OF l r]; simp del: sem_bin.simps add: vc_div(4))
  next
    case And
    show ?thesis unfolding And construct_bin_def bkind.case
      by (rule construct_logic_ok [OF l r]) (use logic_forms(1) bits in fastforce, rule logic_terms(1))
  next
    case Or
    show ?thesis unfolding Or construct_bin_def bkind.case
      by (rule construct_logic_ok [OF l r]) (use logic_forms(2) bits in fastforce, rule logic_terms(2))
  next
    case Xor
    show ?thesis unfolding Xor construct_bin_def bkind.case
      by (rule construct_logic_ok [OF l r]) (use logic_forms(3) bits in fastforce, rule logic_terms(3))
  next
    case Shl
    then have k: "k \<in> {Shl, LShr, AShr}" by simp
    note s = sh [OF k]
    show ?thesis unfolding Shl construct_bin_def bkind.case
      by (rule construct_shift_ok [OF l r s(1) c(2) s(4) range(3)])
        (use s in \<open>simp_all add: shift_consts(1) bvVarLeftShift_ok del: sem_bin.simps\<close>)
  next
    case LShr
    then have k: "k \<in> {Shl, LShr, AShr}" by simp
    note s = sh [OF k]
    show ?thesis unfolding LShr construct_bin_def bkind.case
      by (rule construct_shift_ok [OF l r s(1) c(2) s(4) range(3)])
        (use s in \<open>simp_all add: shift_consts(2) bvVarRightShift_ok del: sem_bin.simps\<close>)
  next
    case AShr
    then have k: "k \<in> {Shl, LShr, AShr}" by simp
    note s = sh [OF k]
    show ?thesis unfolding AShr construct_bin_def bkind.case
      by (rule construct_shift_ok [OF l r s(1) c(2) s(4) range(3)])
        (use s in \<open>simp_all add: shift_consts(3) bvVarArithRightShift_ok del: sem_bin.simps\<close>)
  qed
qed

lemma construct_compare_ok:
  assumes l: "makes B z \<mu> w a cl" and r: "makes B z \<mu> w b cr" and c: "const_of l w a"
    and range: "0 \<le> a" "a < 2 ^ w" "0 \<le> b" "b < 2 ^ w"
    and ok: "k = Eq \<or> k \<in> {Ult, Ule, Slt, Sle} \<and> w \<noteq> 1"
  shows "makes B z \<mu> 1 (of_bool (sem_cmp k w a b)) (construct_compare B k l cl cr)"
proof -
  have bits: "w = 1 \<Longrightarrow> a \<in> {0, 1} \<and> b \<in> {0, 1}" using range by (auto simp flip: bit_range)
  from ok consider "k = Eq" | "k = Ult" "w \<noteq> 1" | "k = Ule" "w \<noteq> 1" | "k = Slt" "w \<noteq> 1" | "k = Sle" "w \<noteq> 1" by blast
  then show ?thesis
  proof cases
    case 1
    then show ?thesis using construct_Eq_ok [OF l r c bits] by (simp add: construct_compare_def)
  next
    case 2
    show ?thesis unfolding 2(1) construct_compare_def ckind.case sem_cmp.simps
      by (rule construct_cmp_ok [OF l r 2(2) vc_compare(1)])
  next
    case 3
    show ?thesis unfolding 3(1) construct_compare_def ckind.case sem_cmp.simps
      by (rule construct_cmp_ok [OF l r 3(2) vc_compare(2)])
  next
    case 4
    show ?thesis unfolding 4(1) construct_compare_def ckind.case sem_cmp.simps
      by (rule construct_cmp_ok [OF l r 4(2) vc_compare(3)])
  next
    case 5
    show ?thesis unfolding 5(1) construct_compare_def ckind.case sem_cmp.simps
      by (rule construct_cmp_ok [OF l r 5(2) vc_compare(4)])
  qed
qed

text \<open>The conversions between widths and the other operations on one value.\<close>

lemma den_cases:
  assumes "den z \<mu> u a t" "0 \<le> a" "a < 2 ^ u"
  shows "u = 1 \<Longrightarrow> a = 0 \<or> a = 1" "u = 1 \<Longrightarrow> fm z \<mu> t (a = 1)" "u \<noteq> 1 \<Longrightarrow> bv z \<mu> t u a"
  using assms by (auto simp: den_def simp flip: bit_range)

lemma zext_node:
  assumes "den z \<mu> u a t" "0 \<le> a" "a < 2 ^ u" "0 < u" "u < w" "w - u \<le> 64" "u = 1 \<Longrightarrow> w \<le> 64"
  shows "\<exists>n. (if u = 1 then do { one \<leftarrow> bvOne w; zero \<leftarrow> bvZero w; vc_iteExpr (NFac B) t one zero }
      else do { zero \<leftarrow> bvZero (w - u); vc_bvConcatExpr (NFac B) zero t }) = Some n \<and> den z \<mu> w a n"
proof (cases "u = 1")
  case True
  note t = den_cases(1,2) [OF assms(1-3) True]
  obtain o1 z0 where o: "bvOne w = Some o1" "bv z \<mu> o1 w 1" "bvZero w = Some z0" "bv z \<mu> z0 w 0"
    using bv_consts(1,2) [of w z \<mu>] assms(5,7) True by auto
  have "(if a = 1 then 1 else 0) = a" using t(1) by auto
  then show ?thesis using vc_ite_bv [OF t(2) o(2,4)] o(1,3) True assms(4,5) by (auto simp: den_bv)
next
  case False
  obtain z0 where o: "bvZero (w - u) = Some z0" "bv z \<mu> z0 (w - u) 0" using bv_consts(1) [of "w - u" z \<mu>] assms(5,6) by auto
  then show ?thesis using vc_bvConcatExpr [OF o(2) den_cases(3) [OF assms(1-3) False]] False assms(4,5) by (auto simp: den_bv)
qed

lemma sext_node:
  assumes "den z \<mu> u a t" "0 \<le> a" "a < 2 ^ u" "0 < u" "u < w" "w < 2 ^ 31" "u = 1 \<Longrightarrow> w \<le> 64"
  shows "\<exists>n. (if u = 1 then do { m \<leftarrow> bvMinusOne w; zero \<leftarrow> bvZero w; vc_iteExpr (NFac B) t m zero }
      else vc_bvSignExtend (NFac B) t w) = Some n \<and> den z \<mu> w (sgn_val u a mod 2 ^ w) n"
proof (cases "u = 1")
  case True
  note t = den_cases(1,2) [OF assms(1-3) True]
  obtain o1 z0 where o: "bvMinusOne w = Some o1" "bv z \<mu> o1 w (2 ^ w - 1)" "bvZero w = Some z0" "bv z \<mu> z0 w 0"
    using bv_consts(1,3) [of w z \<mu>] assms(5,7) True by auto
  have "(if a = 1 then 2 ^ w - 1 else 0) = sgn_val u a mod 2 ^ w"
    using t(1) True assms(5) zmod_minus1 [of "2 ^ w"] by (auto simp: sgn_val_def)
  then show ?thesis using vc_ite_bv [OF t(2) o(2,4)] o(1,3) True assms(4,5) by (auto simp: den_bv)
next
  case False
  then show ?thesis using vc_bvSignExtend [OF den_cases(3) [OF assms(1-3)] assms(5,6)] assms(4,5) by (auto simp: den_bv)
qed

lemma not_node:
  assumes "den z \<mu> u a t" "0 \<le> a" "a < 2 ^ u"
  shows "\<exists>n. (if u = 1 then vc_notExpr (NFac B) t else vc_bvNotExpr (NFac B) t) = Some n \<and> den z \<mu> u (2 ^ u - 1 - a) n"
proof (cases "u = 1")
  case True
  note t = den_cases(1,2) [OF assms True]
  have "(\<not> a = 1) = (2 ^ u - 1 - a = 1)" using t(1) True by auto
  then show ?thesis using vc_notExpr [OF t(2)] True by (auto simp: den_fm)
next
  case False
  then show ?thesis using vc_unary(2) [OF den_cases(3) [OF assms]] by (auto simp: den_bv)
qed

lemma extract_node:
  assumes "den z \<mu> u a t" "0 \<le> a" "a < 2 ^ u" "u \<noteq> 1" "u < 2 ^ 31" "0 < w" "off + w \<le> u" "w = 1 \<Longrightarrow> off = 0"
  shows "\<exists>n. (if w = 1 then bvBoolExtract B t 0 else vc_bvExtract (NFac B) t (off + w - 1) off) = Some n \<and>
    den z \<mu> w (a div 2 ^ off mod 2 ^ w) n"
proof (cases "w = 1")
  case True
  then show ?thesis using bvBoolExtract_ok [OF den_cases(3) [OF assms(1-4)], of 0] assms(5-8) by (auto simp: den_fm)
next
  case False
  have "off + w - 1 - off + 1 = w" "off \<le> off + w - 1" "off + w - 1 < u" using assms(6,7) by auto
  then show ?thesis
    using vc_bvExtract [OF den_cases(3) [OF assms(1-4)], of off "off + w - 1"] assms(5) False by (auto simp: den_bv)
qed

lemma ite_node:
  assumes "den z \<mu> 1 c b" "den z \<mu> w x t" "den z \<mu> w y f"
  shows "\<exists>n. vc_iteExpr (NFac B) b t f = Some n \<and> den z \<mu> w (if c = 1 then x else y) n"
proof (cases "w = 1")
  case True
  then show ?thesis using vc_ite_fm [of z \<mu> b "c = 1" t "x = 1" f "y = 1"] assms by (cases "c = 1") (auto simp: den_fm)
next
  case False
  then show ?thesis using vc_ite_bv [of z \<mu> b "c = 1" t w x f y] assms by (auto simp: den_fm den_bv)
qed

subsection \<open>All expressions\<close>

lemma updates_step:
  assumes "makes_array B z \<mu> a us (getArrayForUpdate B a us)"
    "makes B z \<mu> 32 (eval (stp_contents B \<mu>) x) cx" "makes B z \<mu> 8 (eval (stp_contents B \<mu>) v) cv"
    "stored_ok B z \<mu> st"
  shows "\<exists>t st' i st1 w st2 n. getArrayForUpdate B a us st = Some (t, st') \<and> cx st' = Some ((i, 32), st1) \<and>
    cv st1 = Some ((w, 8), st2) \<and> stored_ok B z \<mu> st2 \<and> vc_writeExpr (NFac B) t i w = Some n \<and>
    arr_den B z \<mu> a (UpdateNode x v us) n"
proof -
  obtain t st' where t: "getArrayForUpdate B a us st = Some (t, st')" "stored_ok B z \<mu> st'" "arr_den B z \<mu> a us t"
    by (rule makes_arrayE [OF assms(1,4)])
  obtain i st1 where i: "cx st' = Some ((i, 32), st1)" "stored_ok B z \<mu> st1" "den z \<mu> 32 (eval (stp_contents B \<mu>) x) i"
    by (rule makesE [OF assms(2) t(2)])
  obtain w st2 where w: "cv st1 = Some ((w, 8), st2)" "stored_ok B z \<mu> st2" "den z \<mu> 8 (eval (stp_contents B \<mu>) v) w"
    by (rule makesE [OF assms(3) i(2)])
  obtain f where f: "arr z \<mu> t f" "\<forall>i\<ge>0. f i = eval_updates (stp_contents B \<mu>) us i (initial_value (stp_contents B \<mu>) a i)"
    using t(3) by (auto simp: arr_den_def)
  obtain n where n: "vc_writeExpr (NFac B) t i w = Some n"
    "arr z \<mu> n (f(eval (stp_contents B \<mu>) x := eval (stp_contents B \<mu>) v))"
    using vc_arrays(2) [OF f(1), of i _ w] i(3) w(3) by (auto simp: den_bv)
  have "arr_den B z \<mu> a (UpdateNode x v us) n" unfolding arr_den_def by (rule exI, rule conjI, rule n(2)) (use f(2) in auto)
  then show ?thesis using t(1) i(1) w(1,2) n(1) by blast
qed

lemma read_ok:
  assumes "makes_array B z \<mu> a us (getArrayForUpdate B a us)"
    "makes B z \<mu> 32 (eval (stp_contents B \<mu>) e) c" "0 \<le> eval (stp_contents B \<mu>) e"
  shows "makes B z \<mu> 8 (eval (stp_contents B \<mu>) (ReadExpr a us e)) (\<lambda>st. do {
    (t, st) \<leftarrow> getArrayForUpdate B a us st;
    ((i, _), st) \<leftarrow> c st;
    n \<leftarrow> vc_readExpr (NFac B) t i;
    Some ((n, 8), st) })"
  unfolding makes_def
proof (intro allI impI)
  fix st assume st: "stored_ok B z \<mu> st"
  obtain t st1 where t: "getArrayForUpdate B a us st = Some (t, st1)" "stored_ok B z \<mu> st1" "arr_den B z \<mu> a us t"
    by (rule makes_arrayE [OF assms(1) st])
  obtain i st2 where i: "c st1 = Some ((i, 32), st2)" "stored_ok B z \<mu> st2" "den z \<mu> 32 (eval (stp_contents B \<mu>) e) i"
    by (rule makesE [OF assms(2) t(2)])
  obtain f where f: "arr z \<mu> t f" "\<forall>i\<ge>0. f i = eval_updates (stp_contents B \<mu>) us i (initial_value (stp_contents B \<mu>) a i)"
    using t(3) by (auto simp: arr_den_def)
  obtain n where n: "vc_readExpr (NFac B) t i = Some n" "bv z \<mu> n 8 (f (eval (stp_contents B \<mu>) e))"
    using vc_arrays(1) [OF f(1), of i] i(3) by (auto simp: den_bv)
  then have "den z \<mu> 8 (eval (stp_contents B \<mu>) (ReadExpr a us e)) n" using f(2) assms(3) by (simp add: den_bv)
  then show "\<exists>n st'. (do { (t, st) \<leftarrow> getArrayForUpdate B a us st; ((i, _), st) \<leftarrow> c st;
      n \<leftarrow> vc_readExpr (NFac B) t i; Some ((n, 8::nat), st) }) = Some ((n, 8), st') \<and> stored_ok B z \<mu> st' \<and>
      den z \<mu> 8 (eval (stp_contents B \<mu>) (ReadExpr a us e)) n"
    using n(1) t(1) i(1,2) by simp
qed

lemma select_ok:
  assumes "makes B z \<mu> 1 c cc" "makes B z \<mu> w x ct" "makes B z \<mu> w y cf"
  shows "makes B z \<mu> w (if c = 1 then x else y) (\<lambda>st. do {
    ((b, _), st) \<leftarrow> cc st;
    ((t, _), st) \<leftarrow> ct st;
    ((f, w), st) \<leftarrow> cf st;
    n \<leftarrow> vc_iteExpr (NFac B) b t f;
    Some ((n, w), st) })"
  unfolding makes_def
proof (intro allI impI)
  fix st assume st: "stored_ok B z \<mu> st"
  obtain b st1 where b: "cc st = Some ((b, 1), st1)" "stored_ok B z \<mu> st1" "den z \<mu> 1 c b" by (rule makesE [OF assms(1) st])
  obtain t st2 where t: "ct st1 = Some ((t, w), st2)" "stored_ok B z \<mu> st2" "den z \<mu> w x t" by (rule makesE [OF assms(2) b(2)])
  obtain f st3 where f: "cf st2 = Some ((f, w), st3)" "stored_ok B z \<mu> st3" "den z \<mu> w y f" by (rule makesE [OF assms(3) t(2)])
  obtain n where "vc_iteExpr (NFac B) b t f = Some n" "den z \<mu> w (if c = 1 then x else y) n"
    using ite_node [OF b(3) t(3) f(3)] by blast
  then show "\<exists>n st'. (do { ((b, _), st) \<leftarrow> cc st; ((t, _), st) \<leftarrow> ct st; ((f, w), st) \<leftarrow> cf st;
      n \<leftarrow> vc_iteExpr (NFac B) b t f; Some ((n, w), st) }) = Some ((n, w), st') \<and> stored_ok B z \<mu> st' \<and>
      den z \<mu> w (if c = 1 then x else y) n"
    using b(1) t(1) f(1,2) by simp
qed

lemma const_of_eval: "wf_expr e \<Longrightarrow> const_of e (getWidth e) (eval \<alpha> e)"
  by (cases e) (simp_all add: const_of_def)

lemma contents_bytes: "byte_vals \<mu> \<Longrightarrow> bytes (stp_contents B \<mu>)"
  by (simp add: bytes_def byte_vals_def stp_contents_def)

lemma concat_node:
  assumes "den z \<mu> w b s" "den z \<mu> u a t" "w \<noteq> 1" "u \<noteq> 1"
  shows "\<exists>n. vc_bvConcatExpr (NFac B) t s = Some n \<and> den z \<mu> (u + w) (a * 2 ^ w + b) n"
proof -
  have bv: "bv z \<mu> t u a" "bv z \<mu> s w b" using assms by (simp_all add: den_bv)
  then have "u + w \<noteq> 1" using bvD(4) assms(3) by fastforce
  then show ?thesis using vc_bvConcatExpr [OF bv] by (simp add: den_bv)
qed

lemma updates_ok:
  assumes "makes_array B z \<mu> a us (getArrayForUpdate B a us)" "wf_array a"
    "makes B z \<mu> 32 (eval (stp_contents B \<mu>) x) (construct_with B x (constructActual B x))"
    "makes B z \<mu> 8 (eval (stp_contents B \<mu>) v) (construct_with B v (constructActual B v))"
    "wf_updates (UpdateNode x v us)" "buildable_updates (stp_contents B \<mu>) (UpdateNode x v us)"
  shows "makes_array B z \<mu> a (UpdateNode x v us) (getArrayForUpdate B a (UpdateNode x v us))"
  unfolding makes_array_def
proof (intro allI impI)
  fix st assume st: "stored_ok B z \<mu> st"
  show "\<exists>t st'. getArrayForUpdate B a (UpdateNode x v us) st = Some (t, st') \<and> stored_ok B z \<mu> st' \<and>
      arr_den B z \<mu> a (UpdateNode x v us) t"
  proof (cases "stpArray st (a, UpdateNode x v us)")
    case (Some t)
    then have "arr_den B z \<mu> a (UpdateNode x v us) t" using st assms(2,5,6) unfolding stored_ok_def by blast
    then show ?thesis using Some st by simp
  next
    case None
    obtain t st' i st1 w st2 n where s: "getArrayForUpdate B a us st = Some (t, st')"
      "construct_with B x (constructActual B x) st' = Some ((i, 32), st1)"
      "construct_with B v (constructActual B v) st1 = Some ((w, 8), st2)" "stored_ok B z \<mu> st2"
      "vc_writeExpr (NFac B) t i w = Some n" "arr_den B z \<mu> a (UpdateNode x v us) n"
      using updates_step [OF assms(1,3,4) st] by blast
    have "stored_ok B z \<mu> (st2\<lparr>stpArray := (stpArray st2)((a, UpdateNode x v us) \<mapsto> n)\<rparr>)"
      using s(4,6) by (auto simp: stored_ok_def)
    then show ?thesis using None s by simp
  qed
qed

lemma operand_ok:
  assumes "wf_expr e" "buildable (stp_contents B \<mu>) e" "makes B z \<mu> (getWidth e) (eval (stp_contents B \<mu>) e) (constructActual B e)"
    "getWidth e = w"
  shows "makes B z \<mu> w (eval (stp_contents B \<mu>) e) (construct_with B e (constructActual B e))"
  using construct_with_ok [OF assms(1-3)] unfolding assms(4) .

lemma constructActual_ok:
  fixes e :: expr and us :: update_node
  assumes b: "byte_vals \<mu>"
  shows "wf_expr e \<Longrightarrow> buildable (stp_contents B \<mu>) e \<Longrightarrow>
      makes B z \<mu> (getWidth e) (eval (stp_contents B \<mu>) e) (constructActual B e)"
    and "wf_updates us \<Longrightarrow> buildable_updates (stp_contents B \<mu>) us \<Longrightarrow>
      \<forall>a. wf_array a \<longrightarrow> makes_array B z \<mu> a us (getArrayForUpdate B a us)"
proof (induction e and us)
  case (ConstantExpr a)
  then show ?case using constructConstant_ok [of a z \<mu>] by (auto simp: makes_def den_def)
next
  case (NotOptimizedExpr e)
  then show ?case using construct_with_ok [of e \<mu> z "constructActual B e"] by simp
next
  case (ReadExpr a us i)
  then show ?case
    using read_ok [of z \<mu> a us i "construct_with B i (constructActual B i)"] construct_with_ok [of i \<mu> z "constructActual B i"]
      eval_range(1) [OF contents_bytes [OF b], of i] by simp
next
  case (SelectExpr c t f)
  then have m: "makes B z \<mu> 1 (eval (stp_contents B \<mu>) c) (construct_with B c (constructActual B c))"
    "makes B z \<mu> (getWidth t) (eval (stp_contents B \<mu>) t) (construct_with B t (constructActual B t))"
    "makes B z \<mu> (getWidth t) (eval (stp_contents B \<mu>) f) (construct_with B f (constructActual B f))"
    by (auto intro!: operand_ok)
  show ?case using select_ok [OF m] by simp
next
  case (ConcatExpr l r)
  then have m: "makes B z \<mu> (getWidth l) (eval (stp_contents B \<mu>) l) (construct_with B l (constructActual B l))"
    "makes B z \<mu> (getWidth r) (eval (stp_contents B \<mu>) r) (construct_with B r (constructActual B r))"
    "getWidth l \<noteq> 1" "getWidth r \<noteq> 1"
    by (auto intro!: operand_ok)
  show ?case using makes_bind2 [OF m(2,1) concat_node [OF _ _ m(4,3)]] by simp
next
  case (ExtractExpr e off w)
  then have m: "makes B z \<mu> (getWidth e) (eval (stp_contents B \<mu>) e) (construct_with B e (constructActual B e))"
    using construct_with_ok by simp
  have r: "0 \<le> eval (stp_contents B \<mu>) e" "eval (stp_contents B \<mu>) e < 2 ^ getWidth e" "0 < getWidth e"
    using eval_range(1) [OF contents_bytes [OF b], of e] wf_expr_width [of e] ExtractExpr.prems(1) by simp_all
  have n: "\<exists>n. (if w = 1 then bvBoolExtract B t 0 else vc_bvExtract (NFac B) t (off + w - 1) off) = Some n \<and> den z \<mu> (w) (eval (stp_contents B \<mu>) (ExtractExpr e off w)) n"
    if "den z \<mu> (getWidth e) (eval (stp_contents B \<mu>) e) t" for t
    using extract_node [OF that r(1,2), of w off] ExtractExpr.prems r(3) by simp
  show ?case
    using makes_bind1 [OF m, where f = "\<lambda>u t. (if w = 1 then bvBoolExtract B t 0 else vc_bvExtract (NFac B) t (off + w - 1) off)" and g = "\<lambda>_. w", OF n] by simp
next
  case (ZExtExpr e w)
  then have m: "makes B z \<mu> (getWidth e) (eval (stp_contents B \<mu>) e) (construct_with B e (constructActual B e))"
    using construct_with_ok by simp
  have r: "0 \<le> eval (stp_contents B \<mu>) e" "eval (stp_contents B \<mu>) e < 2 ^ getWidth e" "0 < getWidth e"
    using eval_range(1) [OF contents_bytes [OF b], of e] wf_expr_width [of e] ZExtExpr.prems(1) by simp_all
  have n: "\<exists>n. (if getWidth e = 1 then do { one \<leftarrow> bvOne w; zero \<leftarrow> bvZero w; vc_iteExpr (NFac B) t one zero }
      else do { zero \<leftarrow> bvZero (w - getWidth e); vc_bvConcatExpr (NFac B) zero t }) = Some n \<and> den z \<mu> (w) (eval (stp_contents B \<mu>) (ZExtExpr e w)) n"
    if "den z \<mu> (getWidth e) (eval (stp_contents B \<mu>) e) t" for t
    using zext_node [OF that r(1,2), of w] ZExtExpr.prems r(3) by simp
  show ?case
    using makes_bind1 [OF m, where f = "\<lambda>u t. (if u = 1 then do { one \<leftarrow> bvOne w; zero \<leftarrow> bvZero w; vc_iteExpr (NFac B) t one zero }
      else do { zero \<leftarrow> bvZero (w - u); vc_bvConcatExpr (NFac B) zero t })" and g = "\<lambda>_. w", OF n] by simp
next
  case (SExtExpr e w)
  then have m: "makes B z \<mu> (getWidth e) (eval (stp_contents B \<mu>) e) (construct_with B e (constructActual B e))"
    using construct_with_ok by simp
  have r: "0 \<le> eval (stp_contents B \<mu>) e" "eval (stp_contents B \<mu>) e < 2 ^ getWidth e" "0 < getWidth e"
    using eval_range(1) [OF contents_bytes [OF b], of e] wf_expr_width [of e] SExtExpr.prems(1) by simp_all
  have n: "\<exists>n. (if getWidth e = 1 then do { m \<leftarrow> bvMinusOne w; zero \<leftarrow> bvZero w; vc_iteExpr (NFac B) t m zero }
      else vc_bvSignExtend (NFac B) t w) = Some n \<and> den z \<mu> (w) (eval (stp_contents B \<mu>) (SExtExpr e w)) n"
    if "den z \<mu> (getWidth e) (eval (stp_contents B \<mu>) e) t" for t
    using sext_node [OF that r(1,2), of w] SExtExpr.prems r(3) by simp
  show ?case
    using makes_bind1 [OF m, where f = "\<lambda>u t. (if u = 1 then do { m \<leftarrow> bvMinusOne w; zero \<leftarrow> bvZero w; vc_iteExpr (NFac B) t m zero }
      else vc_bvSignExtend (NFac B) t w)" and g = "\<lambda>_. w", OF n] by simp
next
  case (NotExpr e)
  then have m: "makes B z \<mu> (getWidth e) (eval (stp_contents B \<mu>) e) (construct_with B e (constructActual B e))"
    using construct_with_ok by simp
  have r: "0 \<le> eval (stp_contents B \<mu>) e" "eval (stp_contents B \<mu>) e < 2 ^ getWidth e" "0 < getWidth e"
    using eval_range(1) [OF contents_bytes [OF b], of e] wf_expr_width [of e] NotExpr.prems(1) by simp_all
  have n: "\<exists>n. (if getWidth e = 1 then vc_notExpr (NFac B) t else vc_bvNotExpr (NFac B) t) = Some n \<and> den z \<mu> (getWidth e) (eval (stp_contents B \<mu>) (NotExpr e)) n"
    if "den z \<mu> (getWidth e) (eval (stp_contents B \<mu>) e) t" for t
    using not_node [OF that r(1,2)] NotExpr.prems r(3) by simp
  show ?case
    using makes_bind1 [OF m, where f = "\<lambda>u t. (if u = 1 then vc_notExpr (NFac B) t else vc_bvNotExpr (NFac B) t)" and g = "\<lambda>w. w", OF n] by simp
next
  case (BinaryExpr k l r)
  then have m: "makes B z \<mu> (getWidth l) (eval (stp_contents B \<mu>) l) (construct_with B l (constructActual B l))"
    "makes B z \<mu> (getWidth l) (eval (stp_contents B \<mu>) r) (construct_with B r (constructActual B r))"
    "wf_expr l" "wf_expr r" "getWidth l = getWidth r" "bin_ok (stp_contents B \<mu>) k l r"
    by (auto intro!: operand_ok)
  have "isConstant r \<longleftrightarrow> dyn_const r \<noteq> None" by (cases r) simp_all
  then show ?case
    using construct_bin_ok [OF m(1,2), of l r "stp_contents B \<mu>" k] m(3-6) const_of_eval [OF m(3)] const_of_eval [OF m(4)]
      eval_range(1) [OF contents_bytes [OF b] m(3)] eval_range(1) [OF contents_bytes [OF b] m(4)] wf_expr_width [OF m(3)]
    by simp
next
  case (CmpExpr k l r)
  then have m: "makes B z \<mu> (getWidth l) (eval (stp_contents B \<mu>) l) (construct_with B l (constructActual B l))"
    "makes B z \<mu> (getWidth l) (eval (stp_contents B \<mu>) r) (construct_with B r (constructActual B r))"
    "wf_expr l" "wf_expr r" "getWidth l = getWidth r"
    by (auto intro!: operand_ok)
  show ?case
    using construct_compare_ok [OF m(1,2), of l k] CmpExpr.prems m(3-5) const_of_eval [OF m(3)]
      eval_range(1) [OF contents_bytes [OF b] m(3)] eval_range(1) [OF contents_bytes [OF b] m(4)]
    by simp
next
  case NoUpdate
  then show ?case using getInitialArray_ok [OF b] by simp
next
  case (UpdateNode x v n)
  then have m: "makes B z \<mu> 32 (eval (stp_contents B \<mu>) x) (construct_with B x (constructActual B x))"
    "makes B z \<mu> 8 (eval (stp_contents B \<mu>) v) (construct_with B v (constructActual B v))"
    using construct_with_ok [of x \<mu> z] construct_with_ok [of v \<mu> z] by auto
  have "\<forall>a. wf_array a \<longrightarrow> makes_array B z \<mu> a n (getArrayForUpdate B a n)" using UpdateNode by simp
  then show ?case using updates_ok [OF _ _ m] UpdateNode.prems by blast
qed

lemma construct_ok:
  assumes "byte_vals \<mu>" "wf_expr e" "buildable (stp_contents B \<mu>) e" "stored_ok B z \<mu> st"
  shows "\<exists>t st'. construct B e st = Some (t, st') \<and> stored_ok B z \<mu> st' \<and>
    den z \<mu> (getWidth e) (eval (stp_contents B \<mu>) e) t"
proof -
  obtain t st' where "construct_cached B e st = Some ((t, getWidth e), st')" "stored_ok B z \<mu> st'"
    "den z \<mu> (getWidth e) (eval (stp_contents B \<mu>) e) t"
    using makesE [OF construct_with_ok [OF assms(2,3) constructActual_ok(1) [OF assms(1-3)]] assms(4)] unfolding construct_cached_def by blast
  moreover from this(2) have "stored_ok B z \<mu> (st'\<lparr>constructed := Map.empty\<rparr>)" by (simp add: stored_ok_def)
  ultimately show ?thesis by (simp add: construct_def)
qed

end

subsection \<open>The builder on a concrete configuration\<close>

text \<open>
  The hashing node factory, the two's complement numbers and a rendering of addresses with one digit
  per unit.
\<close>

definition stp_config :: "(node \<Rightarrow> nat) \<Rightarrow> bool \<Rightarrow> stp_cfg" where
  "stp_config num opt = \<lparr>
     NFac = HashingNodeFactory num,
     optimizeDivides = opt,
     UseConstructHash = True,
     apenv = apint_env True,
     ap_getLimitedValue = (\<lambda>a. if ap_val a < 2 ^ 64 then word_of_int (ap_val a) else - 1),
     fmt_ptr = (\<lambda>p. ''0x'' @ replicate p (CHR ''1'')),
     undef_shift = (\<lambda>x n. x)\<rparr>"

interpretation stp: stp_laws "stp_config num opt"
proof -
  have "node_factory (NFac (stp_config num opt))" using hashing.node_factory_axioms by (simp add: stp_config_def)
  moreover have "apint_laws (apenv (stp_config num opt))" using apint_env.apint_laws_axioms by (simp add: stp_config_def)
  ultimately show "stp_laws (stp_config num opt)"
    by (intro stp_laws.intro stp_laws_axioms.intro) (simp_all add: stp_config_def shl_keeps_zero_def)
qed

definition stp_init :: stp_builder where
  "stp_init = \<lparr>constructed = Map.empty, stpInitialArray = Map.empty, stpArray = Map.empty\<rparr>"

lemma stored_ok_init: "stored_ok B z \<mu> stp_init"
  by (simp add: stored_ok_def stp_init_def)

subsection \<open>Correctness of the translation\<close>

text \<open>
  C1: \<^verbatim>\<open>STPBuilder::construct\<close> refines the meaning of expressions. For every well-formed expression
  in the fragment the builder supports, every assignment \<open>\<mu>\<close> to the array variables of the solver and
  every state of the builder whose stored nodes are right, the call returns a node, the stored nodes
  are right again, and the solver's own evaluator gives the node the value of the expression for the
  array contents that \<open>\<mu>\<close> describes. The fragment \<open>buildable\<close> excludes what the builder rejects or
  translates wrongly: zero divisors, shift amounts beyond the bits that the builder looks at, shifts,
  products with a constant on the left and divisions by a constant at widths other than 64 and those up to 32, extractions of
  one bit at a nonzero offset, Boolean operands outside \<^verbatim>\<open>Eq\<close>, the bitwise operations, \<^verbatim>\<open>Select\<close> and the
  extensions, extensions by more than 64 bits, and wide constants that are not whole words.
\<close>

theorem construct_correct:
  assumes "stp_laws B" "byte_vals \<mu>" "wf_expr e" "buildable (stp_contents B \<mu>) e" "stored_ok B z \<mu> st"
  shows "\<exists>t st'. construct B e st = Some (t, st') \<and> stored_ok B z \<mu> st' \<and>
    node_eval z \<mu> t = Some (if getWidth e = 1 then CBool (eval (stp_contents B \<mu>) e = 1)
      else CBV (getWidth e) (eval (stp_contents B \<mu>) e))"
proof -
  obtain t st' where "construct B e st = Some (t, st')" "stored_ok B z \<mu> st'"
    "den z \<mu> (getWidth e) (eval (stp_contents B \<mu>) e) t"
    using stp_laws.construct_ok [OF assms] by blast
  then show ?thesis by (auto simp: den_def dest: fmD(4) bvD(5))
qed

theorem construct_correct_witness:
  "\<exists>t st'. construct (stp_config (\<lambda>_. 0) True)
      (BinaryExpr UDiv (ReadExpr \<lparr>arr_address = 1, arr_name = ''a'', arr_size = 4, constantValues = []\<rparr>
        (UpdateNode (ConstantExpr (APInt 32 0)) (ConstantExpr (APInt 8 200)) NoUpdate) (ConstantExpr (APInt 32 2)))
        (ConstantExpr (APInt 8 7))) stp_init = Some (t, st')
    \<and> node_eval False (\<lambda>_ i. if i = 2 then 99 else 0) t = Some (CBV 8 14)"
proof -
  let ?e = "BinaryExpr UDiv (ReadExpr \<lparr>arr_address = 1, arr_name = ''a'', arr_size = 4, constantValues = []\<rparr>
      (UpdateNode (ConstantExpr (APInt 32 0)) (ConstantExpr (APInt 8 200)) NoUpdate) (ConstantExpr (APInt 32 2)))
      (ConstantExpr (APInt 8 7))"
  let ?\<mu> = "\<lambda>(_ :: string) (i :: int). if i = 2 then 99 else 0 :: int"
  let ?B = "stp_config (\<lambda>_. 0) True"
  have b: "byte_vals ?\<mu>" by (simp add: byte_vals_def)
  have w: "wf_expr ?e" by (simp add: wf_ap_def wf_array_def isConstantArray_def isSymbolicArray_def)
  have v: "eval (stp_contents ?B ?\<mu>) ?e = 14" "getWidth ?e = 8"
    by (simp_all add: initial_value_def stp_contents_def isConstantArray_def isSymbolicArray_def)
  have "buildable (stp_contents ?B ?\<mu>) ?e" by (simp add: bin_ok_def std_width_def)
  from construct_correct [OF stp.stp_laws_axioms b w this stored_ok_init, of False] v show ?thesis by auto
qed

text \<open>
  C16: the node has the type of the expression. For an expression of the fragment \<open>buildable\<close> and a builder
  whose stored nodes are right, a formula is built for width 1 and a bit vector of the same width
  otherwise, and the node passes \<^verbatim>\<open>BVTypeCheck\<close>.
\<close>

theorem construct_type:
  assumes "stp_laws B" "byte_vals \<mu>" "wf_expr e" "buildable (stp_contents B \<mu>) e" "stored_ok B z \<mu> st"
  shows "\<exists>t st'. construct B e st = Some (t, st') \<and> BVTypeCheck t \<and>
    GetType t = (if getWidth e = 1 then BOOLEAN_TYPE else BITVECTOR_TYPE) \<and>
    GetValueWidth t = (if getWidth e = 1 then 0 else getWidth e) \<and> GetIndexWidth t = 0"
proof -
  obtain t st' where "construct B e st = Some (t, st')" "den z \<mu> (getWidth e) (eval (stp_contents B \<mu>) e) t"
    using stp_laws.construct_ok [OF assms] by blast
  then show ?thesis using fmD(2,3,5,6) bvD(2,3,8,9) by (cases "getWidth e = 1") (auto simp: den_def)
qed

theorem construct_type_witness:
  "\<exists>t st'. construct (stp_config (\<lambda>_. 0) True)
      (CmpExpr Slt (SExtExpr (ConstantExpr (APInt 8 200)) 32) (ConstantExpr (APInt 32 7))) stp_init = Some (t, st')
    \<and> BVTypeCheck t \<and> GetType t = BOOLEAN_TYPE"
  using construct_type [of "stp_config (\<lambda>_. 0) True" "\<lambda>_ i. 0"
      "CmpExpr Slt (SExtExpr (ConstantExpr (APInt 8 200)) 32) (ConstantExpr (APInt 32 7))" False stp_init,
      OF stp.stp_laws_axioms _ _ _ stored_ok_init]
  by (simp add: byte_vals_def wf_ap_def) blast

text \<open>
  C33: an extraction of one bit always reads bit 0. The branch for width 1 passes the constant 0 and
  not the offset, so the formula is the lowest bit of the operand whatever bit was asked for.
\<close>

theorem one_bit_extract_ignores_offset:
  assumes "stp_laws B" "byte_vals \<mu>" "wf_expr e" "buildable (stp_contents B \<mu>) e" "getWidth e \<noteq> 1" "getWidth e < 2 ^ 31"
    "stored_ok B z \<mu> st"
  shows "\<exists>t st'. constructActual B (ExtractExpr e off 1) st = Some ((t, 1), st') \<and>
    node_eval z \<mu> t = Some (CBool (eval (stp_contents B \<mu>) e mod 2 = 1))"
proof -
  obtain t st' where t: "construct_with B e (constructActual B e) st = Some ((t, getWidth e), st')"
    "den z \<mu> (getWidth e) (eval (stp_contents B \<mu>) e) t"
    by (rule makesE [OF stp_laws.construct_with_ok [OF assms(1,3,4) stp_laws.constructActual_ok(1) [OF assms(1-4)]] assms(7)])
  then have bv: "bv z \<mu> t (getWidth e) (eval (stp_contents B \<mu>) e)" using assms(5) by (simp add: den_bv)
  obtain n where "bvBoolExtract B t 0 = Some n" "fm z \<mu> n (eval (stp_contents B \<mu>) e mod 2 = 1)"
    using stp_laws.bvBoolExtract_ok [OF assms(1) bv bvD(4) [OF bv] assms(6)] by auto
  then show ?thesis using t(1) fmD(4) by (auto simp: One_nat_def)
qed

theorem one_bit_extract_ignores_offset_witness:
  "(\<exists>t st'. constructActual (stp_config (\<lambda>_. 0) True) (ExtractExpr (NotOptimizedExpr (ConstantExpr (APInt 8 2))) 1 1) stp_init
      = Some ((t, 1), st') \<and> node_eval False (\<lambda>_ _. 0) t = Some (CBool False))
    \<and> eval (\<lambda>_ _. 0) (ExtractExpr (NotOptimizedExpr (ConstantExpr (APInt 8 2))) 1 1) = 1"
  using one_bit_extract_ignores_offset [of "stp_config (\<lambda>_. 0) True" "\<lambda>_ _. 0"
      "NotOptimizedExpr (ConstantExpr (APInt 8 2))" False stp_init 1, OF stp.stp_laws_axioms _ _ _ _ _ stored_ok_init]
  by (simp add: byte_vals_def wf_ap_def)

lemma split_last_underscore:
  assumes "xs @ c # p = ys @ c # q" "c \<notin> set p" "c \<notin> set q"
  shows "xs = ys \<and> p = q"
proof -
  have "rev p @ c # rev xs = rev q @ c # rev ys" using arg_cong [OF assms(1), of rev] by simp
  moreover have "c \<notin> set (rev p)" "c \<notin> set (rev q)" using assms(2,3) by simp_all
  moreover have "takeWhile (\<lambda>x. x \<noteq> c) (u @ c # v) = u" if "c \<notin> set u" for u v using that by (induction u) auto
  ultimately have "rev p = rev q" by metis
  then have "rev p = rev q \<and> rev xs = rev ys" using \<open>rev p @ c # rev xs = rev q @ c # rev ys\<close> by simp
  then show ?thesis by simp
qed

text \<open>
  C34: two arrays share a variable of the solver only if they have the same name and the same address,
  provided that their names leave room for the address in the buffer. The rendering of an address
  must be injective and free of underscores.
\<close>

theorem symbol_name_unique:
  assumes "inj (fmt_ptr B)" "\<forall>p. CHR ''_'' \<notin> set (fmt_ptr B p)"
    "length (arr_name a) + length (fmt_ptr B (arr_address a)) < 255"
    "length (arr_name b) + length (fmt_ptr B (arr_address b)) < 255"
    "symbol_name B a = symbol_name B b"
  shows "arr_name a = arr_name b \<and> arr_address a = arr_address b"
proof -
  have "arr_name a @ CHR ''_'' # fmt_ptr B (arr_address a) = arr_name b @ CHR ''_'' # fmt_ptr B (arr_address b)"
    using assms(3-5) by (simp add: symbol_name_def)
  from split_last_underscore [OF this] show ?thesis using assms(1,2) by (auto dest: injD)
qed

theorem symbol_name_unique_witness:
  "symbol_name (stp_config (\<lambda>_. 0) True) \<lparr>arr_address = 1, arr_name = ''a'', arr_size = 4, constantValues = []\<rparr>
    \<noteq> symbol_name (stp_config (\<lambda>_. 0) True) \<lparr>arr_address = 2, arr_name = ''a'', arr_size = 4, constantValues = []\<rparr>"
proof -
  have "inj (fmt_ptr (stp_config (\<lambda>_. 0) True))" by (auto simp: inj_def stp_config_def replicate_eq_replicate)
  moreover have "\<forall>p. CHR ''_'' \<notin> set (fmt_ptr (stp_config (\<lambda>_. 0) True) p)" by (simp add: stp_config_def)
  ultimately show ?thesis
    using symbol_name_unique [of "stp_config (\<lambda>_. 0) True" "\<lparr>arr_address = 1, arr_name = ''a'', arr_size = 4, constantValues = []\<rparr>"
      "\<lparr>arr_address = 2, arr_name = ''a'', arr_size = 4, constantValues = []\<rparr>"] by (auto simp: stp_config_def)
qed

end
