(* ===== verification/BitfieldSimplifier.thy ===== *)
theory BitfieldSimplifier
  imports Evaluator
begin

text \<open>
  The simplifier of bit fields, \<^verbatim>\<open>lib/Expr/BitfieldSimplifier.cpp\<close>: bits known from the operands are
  passed upwards, bits that the context ignores are passed downwards, and expressions whose bits are
  all known or ignored become constants.

  The table of \<^verbatim>\<open>m_bitsInfoCache\<close> is a partial function on expressions. A run that does not end is
  \<open>None\<close>, as an aborted one.
\<close>

subsection \<open>Masks, the table and constants\<close>

record bits_info =
  ignoredBits :: uint64_t
  knownOneBits :: uint64_t
  knownZeroBits :: uint64_t

type_synonym bits_cache = "expr \<rightharpoonup> bits_info"

definition zeroMask :: "nat \<Rightarrow> uint64_t" where
  "zeroMask w = (if w < 64 then push_bit w (- 1) else 0)"

text \<open>Shifts of a \<^verbatim>\<open>uint64_t\<close>, which are undefined from 64 on.\<close>

definition shl64 :: "uint64_t \<Rightarrow> nat \<Rightarrow> uint64_t may_abort" where
  "shl64 x n = (if n < 64 then Some (push_bit n x) else None)"

definition shr64 :: "uint64_t \<Rightarrow> nat \<Rightarrow> uint64_t may_abort" where
  "shr64 x n = (if n < 64 then Some (drop_bit n x) else None)"

fun erase_all :: "expr list \<Rightarrow> bits_cache \<Rightarrow> bits_cache" where
  "erase_all [] c = c"
| "erase_all (k # ks) c = erase_all ks (c(k := None))"

definition replaceWithConstant :: "expr_env \<Rightarrow> expr \<Rightarrow> uint64_t \<Rightarrow> bits_cache \<Rightarrow> (expr \<times> bits_cache) may_abort" where
  "replaceWithConstant E e val c = do {
    same \<leftarrow> (case dyn_const e of
        Some ce \<Rightarrow> do { v \<leftarrow> getZExtValue E 64 ce; Some (v = val) }
      | None \<Rightarrow> Some False);
    if same then Some (e, c)
    else do {
      k \<leftarrow> ConstantExpr_create E (val AND NOT (zeroMask (getWidth e))) (getWidth e);
      Some (ConstantExpr k, (erase_all (get_kids e) c)(e := None)) } }"

subsection \<open>What the kinds say about the bits\<close>

text \<open>
  Each rule yields the bits of the expression known to be one and known to be zero, and the
  information on the operands with the bits of them that may be ignored.
\<close>

type_synonym bits_rule = "((uint64_t \<times> uint64_t) \<times> bits_info list) may_abort"

definition force_ones :: "bits_info \<Rightarrow> bits_info" where
  "force_ones b = (if NOT (knownOneBits b OR ignoredBits b) = 0 then b\<lparr>knownOneBits := - 1, knownZeroBits := 0\<rparr> else b)"

definition bits_And :: "bits_info \<Rightarrow> bits_info \<Rightarrow> uint64_t \<Rightarrow> bits_rule" where
  "bits_And b0 b1 ig =
    Some ((knownOneBits b0 AND knownOneBits b1, knownZeroBits b0 OR knownZeroBits b1),
      [force_ones (b0\<lparr>ignoredBits := ig OR knownZeroBits b1\<rparr>),
       force_ones (b1\<lparr>ignoredBits := ig OR (knownZeroBits b0 AND NOT (knownZeroBits b1))\<rparr>)])"

definition force_zeros :: "bits_info \<Rightarrow> bits_info" where
  "force_zeros b = (if NOT (knownZeroBits b OR ignoredBits b) = 0 then b\<lparr>knownOneBits := 0, knownZeroBits := - 1\<rparr> else b)"

definition bits_Or :: "bits_info \<Rightarrow> bits_info \<Rightarrow> uint64_t \<Rightarrow> bits_rule" where
  "bits_Or b0 b1 ig =
    Some ((knownOneBits b0 OR knownOneBits b1, knownZeroBits b0 AND knownZeroBits b1),
      [force_zeros (b0\<lparr>ignoredBits := ig OR knownOneBits b1\<rparr>),
       force_zeros (b1\<lparr>ignoredBits := ig OR (knownOneBits b0 AND NOT (knownOneBits b1))\<rparr>)])"

definition bits_Xor :: "bits_info \<Rightarrow> bits_info \<Rightarrow> uint64_t \<Rightarrow> bits_rule" where
  "bits_Xor b0 b1 ig =
    Some (((knownZeroBits b0 AND knownOneBits b1) OR (knownOneBits b0 AND knownZeroBits b1),
        (knownOneBits b0 AND knownOneBits b1) OR (knownZeroBits b0 AND knownZeroBits b1)),
      [b0\<lparr>ignoredBits := ig\<rparr>, b1\<lparr>ignoredBits := ig\<rparr>])"

definition bits_Not :: "nat \<Rightarrow> bits_info \<Rightarrow> uint64_t \<Rightarrow> bits_rule" where
  "bits_Not w b0 ig =
    Some ((knownZeroBits b0 AND NOT (zeroMask w), knownOneBits b0 OR zeroMask w), [b0\<lparr>ignoredBits := ig\<rparr>])"

definition bits_Shl :: "expr_env \<Rightarrow> nat \<Rightarrow> expr \<Rightarrow> expr \<Rightarrow> bits_info \<Rightarrow> bits_info \<Rightarrow> uint64_t \<Rightarrow> bits_rule" where
  "bits_Shl E w k0 k1 b0 b1 ig =
    (case dyn_const k1 of
       Some c1 \<Rightarrow> do {
         shift \<leftarrow> getZExtValue E 64 c1;
         assert_that (w = getWidth k0);
         if unat shift < w then do {
           ones \<leftarrow> shl64 (knownOneBits b0) (unat shift);
           zeros \<leftarrow> shl64 (knownZeroBits b0) (unat shift);
           i0 \<leftarrow> shr64 (ig AND NOT (zeroMask w)) (unat shift);
           Some ((ones AND NOT (zeroMask w), zeros OR zeroMask w OR NOT (zeroMask (unat shift))),
             [b0\<lparr>ignoredBits := i0 OR zeroMask (w - unat shift)\<rparr>, b1]) }
         else Some ((0, - 1), [b0\<lparr>ignoredBits := - 1\<rparr>, b1]) }
     | None \<Rightarrow> Some ((0, zeroMask w), [b0, b1]))"

definition bits_LShr :: "expr_env \<Rightarrow> nat \<Rightarrow> expr \<Rightarrow> expr \<Rightarrow> bits_info \<Rightarrow> bits_info \<Rightarrow> uint64_t \<Rightarrow> bits_rule" where
  "bits_LShr E w k0 k1 b0 b1 ig =
    (case dyn_const k1 of
       Some c1 \<Rightarrow> do {
         shift \<leftarrow> getZExtValue E 64 c1;
         assert_that (w = getWidth k0);
         if unat shift < w then do {
           ones \<leftarrow> shr64 (knownOneBits b0) (unat shift);
           zeros \<leftarrow> shr64 (knownZeroBits b0) (unat shift);
           i0 \<leftarrow> shl64 ig (unat shift);
           Some ((ones, zeros OR zeroMask (w - unat shift)),
             [b0\<lparr>ignoredBits := i0 OR NOT (zeroMask (unat shift)) OR zeroMask w\<rparr>, b1]) }
         else Some ((0, - 1), [b0\<lparr>ignoredBits := - 1\<rparr>, b1]) }
     | None \<Rightarrow> Some ((0, zeroMask w), [b0, b1]))"

definition bits_Extract :: "nat \<Rightarrow> nat \<Rightarrow> bits_info \<Rightarrow> uint64_t \<Rightarrow> bits_rule" where
  "bits_Extract off w b0 ig = (let msk = zeroMask w in do {
    ones \<leftarrow> shr64 (knownOneBits b0) off;
    zeros \<leftarrow> shr64 (knownZeroBits b0) off;
    i0 \<leftarrow> shl64 ig off;
    keep \<leftarrow> shl64 (NOT msk) off;
    Some ((ones AND NOT msk, zeros OR msk), [b0\<lparr>ignoredBits := i0 OR NOT keep\<rparr>]) })"

definition bits_Concat :: "nat \<Rightarrow> nat \<Rightarrow> bits_info \<Rightarrow> bits_info \<Rightarrow> uint64_t \<Rightarrow> bits_rule" where
  "bits_Concat w0 w1 b0 b1 ig = do {
    ones \<leftarrow> shl64 (knownOneBits b0) w1;
    zeros \<leftarrow> shl64 (knownZeroBits b0) w1;
    i0 \<leftarrow> shr64 ig w1;
    Some ((ones OR knownOneBits b1, zeros OR (knownZeroBits b1 AND NOT (zeroMask w1))),
      [b0\<lparr>ignoredBits := i0 OR zeroMask w0\<rparr>, b1\<lparr>ignoredBits := ig OR zeroMask w1\<rparr>]) }"

definition bits_Select :: "nat \<Rightarrow> bits_info \<Rightarrow> bits_info \<Rightarrow> bits_info \<Rightarrow> uint64_t \<Rightarrow> bits_rule" where
  "bits_Select w b0 b1 b2 ig =
    Some ((knownOneBits b1 AND knownOneBits b2, (knownZeroBits b1 AND knownZeroBits b2) OR zeroMask w),
      [b0, b1\<lparr>ignoredBits := ig\<rparr>, b2\<lparr>ignoredBits := ig\<rparr>])"

definition bits_ZExt :: "bits_info \<Rightarrow> uint64_t \<Rightarrow> bits_rule" where
  "bits_ZExt b0 ig = Some ((knownOneBits b0, knownZeroBits b0), [b0\<lparr>ignoredBits := ig\<rparr>])"

definition bits_SExt :: "nat \<Rightarrow> nat \<Rightarrow> bits_info \<Rightarrow> uint64_t \<Rightarrow> bits_rule" where
  "bits_SExt w0 w b0 ig = (let msk = zeroMask w0 AND NOT (zeroMask w) in do {
    sgn \<leftarrow> shl64 1 (w0 - 1);
    let (ones, zeros) =
      (if knownOneBits b0 AND sgn \<noteq> 0 then (knownOneBits b0 OR msk, knownZeroBits b0 AND NOT msk)
       else if knownZeroBits b0 AND sgn \<noteq> 0 then (knownOneBits b0, knownZeroBits b0 OR msk)
       else (knownOneBits b0, knownZeroBits b0 AND NOT msk));
    let i0 = (if msk AND NOT ig \<noteq> 0 then ig AND NOT sgn else ig);
    Some ((ones, zeros), [b0\<lparr>ignoredBits := i0\<rparr>]) })"

text \<open>The \<^verbatim>\<open>switch\<close> over the kinds, for the simplified operands \<open>kids\<close> and what is known of them.\<close>

definition kind_bits :: "expr_env \<Rightarrow> expr \<Rightarrow> expr list \<Rightarrow> bits_info list \<Rightarrow> uint64_t \<Rightarrow> bits_rule" where
  "kind_bits E e kids bits ig =
    (case e of
       BinaryExpr k _ _ \<Rightarrow>
         (case k of
            And \<Rightarrow> bits_And (bits ! 0) (bits ! 1) ig
          | Or \<Rightarrow> bits_Or (bits ! 0) (bits ! 1) ig
          | Xor \<Rightarrow> bits_Xor (bits ! 0) (bits ! 1) ig
          | Shl \<Rightarrow> bits_Shl E (getWidth e) (kids ! 0) (kids ! 1) (bits ! 0) (bits ! 1) ig
          | LShr \<Rightarrow> bits_LShr E (getWidth e) (kids ! 0) (kids ! 1) (bits ! 0) (bits ! 1) ig
          | _ \<Rightarrow> Some ((0, zeroMask (getWidth e)), bits))
     | NotExpr _ \<Rightarrow> bits_Not (getWidth e) (bits ! 0) ig
     | ExtractExpr _ off w \<Rightarrow> bits_Extract off w (bits ! 0) ig
     | ConcatExpr _ _ \<Rightarrow> bits_Concat (getWidth (kids ! 0)) (getWidth (kids ! 1)) (bits ! 0) (bits ! 1) ig
     | SelectExpr _ _ _ \<Rightarrow> bits_Select (getWidth e) (bits ! 0) (bits ! 1) (bits ! 2) ig
     | ZExtExpr _ _ \<Rightarrow> bits_ZExt (bits ! 0) ig
     | SExtExpr _ w \<Rightarrow> bits_SExt (getWidth (kids ! 0)) w (bits ! 0) ig
     | ConstantExpr a \<Rightarrow> do { v \<leftarrow> getZExtValue E 64 a; Some ((v, NOT v), bits) }
     | _ \<Rightarrow> Some ((0, zeroMask (getWidth e)), bits))"

subsection \<open>Simplification\<close>

definition cache_find :: "bits_cache \<Rightarrow> expr \<Rightarrow> uint64_t \<Rightarrow> bits_info option" where
  "cache_find c e ig =
    (case c e of
       Some i \<Rightarrow> if ig AND NOT (ignoredBits i) = 0 then Some i else None
     | None \<Rightarrow> None)"

definition cache_insert :: "bits_cache \<Rightarrow> expr \<Rightarrow> bits_info \<Rightarrow> bits_cache" where
  "cache_insert c e i = (if 1 < length (get_kids e) \<and> c e = None then c(e \<mapsto> i) else c)"

type_synonym simplify_fn = "expr \<Rightarrow> uint64_t \<Rightarrow> bits_cache \<Rightarrow> ((expr \<times> bits_info) \<times> bits_cache) option"

fun simplify_kids :: "simplify_fn \<Rightarrow> expr list \<Rightarrow> bits_cache \<Rightarrow> ((expr \<times> bits_info) list \<times> bits_cache) option" where
  "simplify_kids f [] c = Some ([], c)"
| "simplify_kids f (k # ks) c = do {
    (r, c) \<leftarrow> f k 0 c;
    (rs, c) \<leftarrow> simplify_kids f ks c;
    Some (r # rs, c) }"

text \<open>The loop that replaces operands by constants or simplifies them again; \<open>old\<close> is \<^verbatim>\<open>oldIgnoredBits[i]\<close>.\<close>

fun adjust_kids :: "expr_env \<Rightarrow> simplify_fn \<Rightarrow> (expr \<times> bits_info \<times> uint64_t) list \<Rightarrow> bits_cache \<Rightarrow> (expr list \<times> bits_cache) option" where
  "adjust_kids E f [] c = Some ([], c)"
| "adjust_kids E f ((k, b, old) # ks) c = do {
    (k, c) \<leftarrow>
      (if NOT (knownOneBits b OR knownZeroBits b OR ignoredBits b) = 0
       then replaceWithConstant E k (knownOneBits b) c
       else if ignoredBits b AND NOT old \<noteq> 0
       then do { ((k, _), c) \<leftarrow> f k (ignoredBits b) c; Some (k, c) }
       else Some (k, c));
    (ks, c) \<leftarrow> adjust_kids E f ks c;
    Some (k # ks, c) }"

lemma simplify_kids_mono [partial_function_mono]:
  assumes "\<And>k ig c. mono_option (\<lambda>f. F f k ig c)"
  shows "mono_option (\<lambda>f. simplify_kids (F f) ks c)"
proof (induction ks arbitrary: c)
  case (Cons k ks)
  show ?case unfolding simplify_kids.simps split_def
    by (intro bind_mono assms Cons option.const_mono)
qed (simp add: option.const_mono)

lemma adjust_kids_mono [partial_function_mono]:
  assumes "\<And>k ig c. mono_option (\<lambda>f. F f k ig c)"
  shows "mono_option (\<lambda>f. adjust_kids E (F f) ks c)"
proof (induction ks arbitrary: c)
  case (Cons k ks)
  obtain e b old where "k = (e, b, old)" by (cases k) auto
  then show ?case unfolding \<open>k = (e, b, old)\<close> adjust_kids.simps split_def
    by (intro bind_mono assms Cons option.const_mono if_mono)
qed (simp add: option.const_mono)

partial_function (option) doSimplifyBits ::
  "expr_env \<Rightarrow> expr \<Rightarrow> uint64_t \<Rightarrow> bits_cache \<Rightarrow> ((expr \<times> bits_info) \<times> bits_cache) option" where
  "doSimplifyBits E e ig c =
    (case cache_find c e ig of
       Some i \<Rightarrow> Some ((e, i), c)
     | None \<Rightarrow> do {
         (rs, c) \<leftarrow> simplify_kids (doSimplifyBits E) (get_kids e) c;
         ((ones, zeros), bits) \<leftarrow> kind_bits E e (map fst rs) (map snd rs) ig;
         assert_that (ones AND zeros = 0);
         assert_that (ones AND zeroMask (getWidth e) = 0);
         assert_that (zeros AND zeroMask (getWidth e) = zeroMask (getWidth e));
         (e', c) \<leftarrow>
           (if \<not> isConstant e \<and> NOT (ones OR zeros OR ig) = 0 then replaceWithConstant E e ones c
            else do {
              (kids, c) \<leftarrow> adjust_kids E (doSimplifyBits E) (zip (map fst rs) (zip bits (map (ignoredBits \<circ> snd) rs))) c;
              e' \<leftarrow> rebuild_changed E e kids;
              Some (e', c) });
         let i = \<lparr>ignoredBits = ig, knownOneBits = ones, knownZeroBits = zeros\<rparr>;
         Some ((e', i), cache_insert c e' i) })"

declare doSimplifyBits.simps [code]

definition simplify :: "expr_env \<Rightarrow> expr \<Rightarrow> bits_cache \<Rightarrow> (expr \<times> bits_cache) option" where
  "simplify E e c = do {
    ((ret, _), c) \<leftarrow> doSimplifyBits E e 0 c;
    Some (ret, c) }"

subsection \<open>Meaning of the bit masks\<close>

text \<open>What is said of a value: bits that are one and bits that are zero, outside a set of ignored bits.\<close>

definition known :: "uint64_t \<Rightarrow> uint64_t \<Rightarrow> uint64_t \<Rightarrow> int \<Rightarrow> bool" where
  "known ig ones zeros v \<longleftrightarrow> (\<forall>j. \<not> bit ig j \<longrightarrow> (bit ones j \<longrightarrow> bit v j) \<and> (bit zeros j \<longrightarrow> \<not> bit v j))"

definition agree :: "uint64_t \<Rightarrow> int \<Rightarrow> int \<Rightarrow> bool" where
  "agree ig u v \<longleftrightarrow> (\<forall>j. \<not> bit ig j \<longrightarrow> bit u j = bit v j)"

text \<open>Nothing is ignored, and the bits beyond the width are known to be zero.\<close>

definition info_ok :: "nat \<Rightarrow> bits_info \<Rightarrow> int \<Rightarrow> bool" where
  "info_ok w b v \<longleftrightarrow> known 0 (knownOneBits b) (knownZeroBits b) v \<and> ignoredBits b = 0 \<and>
    (\<forall>j. w \<le> j \<longrightarrow> j < 64 \<longrightarrow> bit (knownZeroBits b) j)"

definition rule_ok :: "nat \<Rightarrow> bits_rule \<Rightarrow> uint64_t \<Rightarrow> int list \<Rightarrow> (int list \<Rightarrow> int) \<Rightarrow> bool" where
  "rule_ok w r ig xs f \<longleftrightarrow> (\<exists>ones zeros bs. r = Some ((ones, zeros), bs) \<and> known 0 ones zeros (f xs) \<and>
    (\<forall>j. w \<le> j \<longrightarrow> j < 64 \<longrightarrow> bit zeros j) \<and>
    list_all2 (\<lambda>b x. known (ignoredBits b) (knownOneBits b) (knownZeroBits b) x) bs xs \<and>
    (\<forall>ys. length ys = length xs \<longrightarrow>
      (\<forall>i < length xs. agree (ignoredBits (bs ! i)) (ys ! i) (xs ! i)) \<longrightarrow> agree ig (f ys) (f xs)))"

lemma bit_zeroMask [simp]: "bit (zeroMask w) j \<longleftrightarrow> w \<le> j \<and> j < 64"
  by (auto simp: zeroMask_def bit_simps)

lemma bit_not_word [simp]: "bit (NOT (x :: uint64_t)) j \<longleftrightarrow> j < 64 \<and> \<not> bit x j"
  by (simp add: bit_simps)

lemma word_bit_64: "bit (x :: uint64_t) j \<Longrightarrow> j < 64"
  using bit_imp_le_length by fastforce

lemma all_two: "(\<forall>i < length [a, b]. P i) \<longleftrightarrow> P 0 \<and> P (1::nat)"
  by (simp add: less_Suc_eq all_conj_distrib One_nat_def) 

lemma length_two: "length ys = length [a, b] \<longleftrightarrow> (\<exists>y z. ys = [y, z])"
  by (auto simp: length_Suc_conv)

lemma length_one: "length ys = length [a] \<longleftrightarrow> (\<exists>y. ys = [y])"
  by (auto simp: length_Suc_conv)

lemma rule_ok2I:
  assumes "r = Some ((ones, zeros), [c0, c1])" "known 0 ones zeros (f x0 x1)" "\<And>j. w \<le> j \<Longrightarrow> j < 64 \<Longrightarrow> bit zeros j"
    "known (ignoredBits c0) (knownOneBits c0) (knownZeroBits c0) x0" "known (ignoredBits c1) (knownOneBits c1) (knownZeroBits c1) x1"
    "\<And>y0 y1. agree (ignoredBits c0) y0 x0 \<Longrightarrow> agree (ignoredBits c1) y1 x1 \<Longrightarrow> agree ig (f y0 y1) (f x0 x1)"
  shows "rule_ok w r ig [x0, x1] (\<lambda>xs. f (xs ! 0) (xs ! 1))"
  unfolding rule_ok_def
  by (intro exI conjI, rule assms(1)) (use assms(2-6) in \<open>auto simp: length_Suc_conv less_Suc_eq all_conj_distrib One_nat_def\<close>)

lemma rule_ok1I:
  assumes "r = Some ((ones, zeros), [c0])" "known 0 ones zeros (f x0)" "\<And>j. w \<le> j \<Longrightarrow> j < 64 \<Longrightarrow> bit zeros j"
    "known (ignoredBits c0) (knownOneBits c0) (knownZeroBits c0) x0"
    "\<And>y0. agree (ignoredBits c0) y0 x0 \<Longrightarrow> agree ig (f y0) (f x0)"
  shows "rule_ok w r ig [x0] (\<lambda>xs. f (xs ! 0))"
  unfolding rule_ok_def
  by (intro exI conjI, rule assms(1)) (use assms(2-5) in \<open>auto simp: length_Suc_conv less_Suc_eq all_conj_distrib One_nat_def\<close>)

lemma ignored_force [simp]: "ignoredBits (force_ones b) = ignoredBits b" "ignoredBits (force_zeros b) = ignoredBits b"
  by (simp_all add: force_ones_def force_zeros_def)

lemma not_zero_bits: "NOT (x :: uint64_t) = 0 \<Longrightarrow> j < 64 \<Longrightarrow> bit x j"
  by (metis bit_not_word bit_0_eq bot_apply bot_bool_def)

lemma known_force:
  assumes "known 0 (knownOneBits b) (knownZeroBits b) x"
  shows "known i (knownOneBits (force_ones (b\<lparr>ignoredBits := i\<rparr>))) (knownZeroBits (force_ones (b\<lparr>ignoredBits := i\<rparr>))) x"
    "known i (knownOneBits (force_zeros (b\<lparr>ignoredBits := i\<rparr>))) (knownZeroBits (force_zeros (b\<lparr>ignoredBits := i\<rparr>))) x"
  using assms not_zero_bits [of "knownOneBits b OR i"] not_zero_bits [of "knownZeroBits b OR i"]
  by (auto simp: known_def force_ones_def force_zeros_def bit_or_iff dest: word_bit_64)

lemma bits_And_ok:
  assumes "info_ok w b0 x0" "info_ok w b1 x1"
  shows "rule_ok w (bits_And b0 b1 ig) ig [x0, x1] (\<lambda>xs. (xs ! 0) AND (xs ! 1))"
  unfolding bits_And_def
proof (rule rule_ok2I [where f = "(AND)"], rule refl)
  show "known 0 (knownOneBits b0 AND knownOneBits b1) (knownZeroBits b0 OR knownZeroBits b1) (x0 AND x1)"
    "\<And>j. w \<le> j \<Longrightarrow> j < 64 \<Longrightarrow> bit (knownZeroBits b0 OR knownZeroBits b1) j"
    using assms by (auto simp: info_ok_def known_def bit_simps)
qed (use assms in \<open>simp_all add: info_ok_def known_force\<close>, use assms in \<open>auto simp: info_ok_def agree_def known_def bit_simps\<close>)

lemma bits_Or_ok:
  assumes "info_ok w b0 x0" "info_ok w b1 x1"
  shows "rule_ok w (bits_Or b0 b1 ig) ig [x0, x1] (\<lambda>xs. (xs ! 0) OR (xs ! 1))"
  unfolding bits_Or_def
proof (rule rule_ok2I [where f = "(OR)"], rule refl)
  show "known 0 (knownOneBits b0 OR knownOneBits b1) (knownZeroBits b0 AND knownZeroBits b1) (x0 OR x1)"
    "\<And>j. w \<le> j \<Longrightarrow> j < 64 \<Longrightarrow> bit (knownZeroBits b0 AND knownZeroBits b1) j"
    using assms by (auto simp: info_ok_def known_def bit_simps)
qed (use assms in \<open>simp_all add: info_ok_def known_force\<close>, use assms in \<open>auto simp: info_ok_def agree_def known_def bit_simps\<close>)

lemma bits_Xor_ok:
  assumes "info_ok w b0 x0" "info_ok w b1 x1"
  shows "rule_ok w (bits_Xor b0 b1 ig) ig [x0, x1] (\<lambda>xs. (xs ! 0) XOR (xs ! 1))"
  unfolding bits_Xor_def
  by (rule rule_ok2I [where f = "(XOR)"], rule refl)
    (use assms in \<open>auto simp: info_ok_def known_def agree_def bit_simps\<close>)

lemma known_mono: "known 0 a b x \<Longrightarrow> known i a b x"
  by (simp add: known_def)

lemma range_bit: "0 \<le> x \<Longrightarrow> x < 2 ^ w \<Longrightarrow> bit (x::int) j \<Longrightarrow> j < w"
  by (metis bit_take_bit_iff take_bit_int_eq_self)

lemma bit_complement: "0 \<le> x \<Longrightarrow> x < 2 ^ w \<Longrightarrow> bit (2 ^ w - 1 - x :: int) j \<longleftrightarrow> j < w \<and> \<not> bit x j"
proof -
  assume x: "0 \<le> x" "x < 2 ^ w"
  have "take_bit w (NOT x) = 2 ^ w - 1 - x"
    using x by (simp add: take_bit_not_eq_mask_diff take_bit_int_eq_self mask_eq_exp_minus_1)
  then show ?thesis by (metis bit_take_bit_iff bit_not_int_iff)
qed

lemma bits_Not_ok:
  assumes "info_ok w b0 x0" "0 \<le> x0" "x0 < 2 ^ w" "w \<le> 64"
  shows "rule_ok w (bits_Not w b0 ig) ig [x0] (\<lambda>xs. take_bit w (NOT (xs ! 0)))"
  unfolding bits_Not_def
  by (rule rule_ok1I [where f = "\<lambda>x. take_bit w (NOT x)"], rule refl)
    (use assms in \<open>auto simp: info_ok_def known_def agree_def bit_simps\<close>)

lemma bits_ZExt_ok:
  assumes "info_ok w0 b0 x0" "w0 \<le> w"
  shows "rule_ok w (bits_ZExt b0 ig) ig [x0] (\<lambda>xs. xs ! 0)"
  unfolding bits_ZExt_def
  by (rule rule_ok1I [where f = "\<lambda>x. x"], rule refl)
    (use assms in \<open>auto simp: info_ok_def known_def agree_def bit_simps\<close>)

lemma bits_Extract_ok:
  assumes "info_ok w0 b0 x0" "off + w \<le> 64" "0 < w"
  shows "rule_ok w (bits_Extract off w b0 ig) ig [x0] (\<lambda>xs. take_bit w (drop_bit off (xs ! 0)))"
  unfolding bits_Extract_def Let_def
  by (rule rule_ok1I [where f = "\<lambda>x. take_bit w (drop_bit off x)"], use assms in \<open>simp add: shl64_def shr64_def\<close>)
    (use assms in \<open>auto simp: info_ok_def known_def agree_def bit_simps add.commute\<close>)

lemma bit_concat:
  "bit (push_bit w1 (take_bit w0 x) OR take_bit w1 y :: int) j \<longleftrightarrow> (if j < w1 then bit y j else j - w1 < w0 \<and> bit x (j - w1))"
  by (auto simp: bit_simps)

lemma bits_Concat_ok:
  assumes "info_ok w0 b0 x0" "info_ok w1 b1 x1" "w0 + w1 \<le> 64" "0 < w0" "0 \<le> x0" "x0 < 2 ^ w0" "0 \<le> x1" "x1 < 2 ^ w1"
  shows "rule_ok (w0 + w1) (bits_Concat w0 w1 b0 b1 ig) ig [x0, x1]
    (\<lambda>xs. push_bit w1 (take_bit w0 (xs ! 0)) OR take_bit w1 (xs ! 1))"
proof -
  have z: "\<And>j. w0 \<le> j \<Longrightarrow> j < 64 \<Longrightarrow> bit (knownZeroBits b0) j"
    and k: "\<And>j. bit (knownOneBits b0) j \<Longrightarrow> bit x0 j" "\<And>j. bit (knownZeroBits b0) j \<Longrightarrow> \<not> bit x0 j"
      "\<And>j. bit (knownOneBits b1) j \<Longrightarrow> bit x1 j" "\<And>j. bit (knownZeroBits b1) j \<Longrightarrow> \<not> bit x1 j"
    and i: "ignoredBits b0 = 0" "ignoredBits b1 = 0"
    and r: "\<And>j. bit x0 j \<Longrightarrow> j < w0" "\<And>j. bit x1 j \<Longrightarrow> j < w1"
    using assms range_bit by (auto simp: info_ok_def known_def)
  show ?thesis
  proof (rule rule_ok2I [where f = "\<lambda>x y. push_bit w1 (take_bit w0 x) OR take_bit w1 y"])
    show "bits_Concat w0 w1 b0 b1 ig = Some ((push_bit w1 (knownOneBits b0) OR knownOneBits b1,
        push_bit w1 (knownZeroBits b0) OR (knownZeroBits b1 AND NOT (zeroMask w1))),
        [b0\<lparr>ignoredBits := drop_bit w1 ig OR zeroMask w0\<rparr>, b1\<lparr>ignoredBits := ig OR zeroMask w1\<rparr>])"
      using assms(3,4) by (simp add: bits_Concat_def shl64_def shr64_def)
    show "known 0 (push_bit w1 (knownOneBits b0) OR knownOneBits b1)
        (push_bit w1 (knownZeroBits b0) OR (knownZeroBits b1 AND NOT (zeroMask w1)))
        (push_bit w1 (take_bit w0 x0) OR take_bit w1 x1)"
      unfolding known_def bit_concat using k r by (auto simp: bit_or_iff bit_and_iff bit_push_bit_iff dest: r)
  next
    fix j assume "w0 + w1 \<le> j" "j < 64"
    then show "bit (push_bit w1 (knownZeroBits b0) OR (knownZeroBits b1 AND NOT (zeroMask w1))) j"
      using z [of "j - w1"] by (simp add: bit_or_iff bit_push_bit_iff)
  next
    fix y0 y1
    assume a: "agree (ignoredBits (b0\<lparr>ignoredBits := drop_bit w1 ig OR zeroMask w0\<rparr>)) y0 x0"
      "agree (ignoredBits (b1\<lparr>ignoredBits := ig OR zeroMask w1\<rparr>)) y1 x1"
    show "agree ig (push_bit w1 (take_bit w0 y0) OR take_bit w1 y1) (push_bit w1 (take_bit w0 x0) OR take_bit w1 x1)"
      unfolding agree_def bit_concat using a assms(3) by (auto simp: agree_def bit_or_iff bit_drop_bit_eq)
  qed (use k in \<open>auto simp: known_def\<close>)
qed

lemma agree_0: "agree 0 y x \<longleftrightarrow> y = x"
  by (auto simp: agree_def intro: bit_eqI)

lemma info_okD:
  assumes "info_ok w b x"
  shows "ignoredBits b = 0" "\<And>j. bit (knownOneBits b) j \<Longrightarrow> bit x j" "\<And>j. bit (knownZeroBits b) j \<Longrightarrow> \<not> bit x j"
    "\<And>j. w \<le> j \<Longrightarrow> j < 64 \<Longrightarrow> bit (knownZeroBits b) j" "known i (knownOneBits b) (knownZeroBits b) x"
  using assms by (auto simp: info_ok_def known_def)

lemma default_ok:
  assumes "list_all2 (\<lambda>b x. \<exists>w. info_ok w b x) bs xs" "0 \<le> f xs" "f xs < 2 ^ w"
  shows "rule_ok w (Some ((0, zeroMask w), bs)) ig xs f"
  unfolding rule_ok_def
proof (intro exI conjI, rule refl)
  show "known 0 0 (zeroMask w) (f xs)" using range_bit [OF assms(2,3)] by (fastforce simp: known_def)
  show "list_all2 (\<lambda>b x. known (ignoredBits b) (knownOneBits b) (knownZeroBits b) x) bs xs"
    using assms(1) by (rule list_all2_mono) (auto dest: info_okD(5))
  have i: "ignoredBits (bs ! i) = 0" if "i < length xs" for i
    using assms(1) that by (auto simp: list_all2_conv_all_nth dest: info_okD(1))
  show "\<forall>ys. length ys = length xs \<longrightarrow> (\<forall>i<length xs. agree (ignoredBits (bs ! i)) (ys ! i) (xs ! i)) \<longrightarrow> agree ig (f ys) (f xs)"
  proof (intro allI impI)
    fix ys :: "int list" assume ys: "length ys = length xs" "\<forall>i<length xs. agree (ignoredBits (bs ! i)) (ys ! i) (xs ! i)"
    then have "ys = xs" using i by (intro nth_equalityI) (auto simp: agree_0)
    then show "agree ig (f ys) (f xs)" by (simp add: agree_def)
  qed
qed simp

lemma bits_Select_ok:
  assumes "info_ok w0 b0 x0" "info_ok w b1 x1" "info_ok w b2 x2" "0 \<le> x1" "x1 < 2 ^ w" "0 \<le> x2" "x2 < 2 ^ w"
  shows "rule_ok w (bits_Select w b0 b1 b2 ig) ig [x0, x1, x2] (\<lambda>xs. if xs ! 0 = 1 then xs ! 1 else xs ! 2)"
  unfolding rule_ok_def bits_Select_def
proof (intro exI conjI, rule refl)
  note d = info_okD [OF assms(1)] info_okD [OF assms(2)] info_okD [OF assms(3)]
  show "known 0 (knownOneBits b1 AND knownOneBits b2) ((knownZeroBits b1 AND knownZeroBits b2) OR zeroMask w)
      (if [x0, x1, x2] ! 0 = 1 then [x0, x1, x2] ! 1 else [x0, x1, x2] ! 2)"
    using d range_bit [OF assms(4,5)] range_bit [OF assms(6,7)] by (auto simp: known_def bit_or_iff bit_and_iff One_nat_def numeral_2_eq_2)
  show "list_all2 (\<lambda>b x. known (ignoredBits b) (knownOneBits b) (knownZeroBits b) x)
      [b0, b1\<lparr>ignoredBits := ig\<rparr>, b2\<lparr>ignoredBits := ig\<rparr>] [x0, x1, x2]"
    using d by simp
  show "\<forall>ys. length ys = length [x0, x1, x2] \<longrightarrow>
      (\<forall>i<length [x0, x1, x2]. agree (ignoredBits ([b0, b1\<lparr>ignoredBits := ig\<rparr>, b2\<lparr>ignoredBits := ig\<rparr>] ! i)) (ys ! i) ([x0, x1, x2] ! i)) \<longrightarrow>
      agree ig (if ys ! 0 = 1 then ys ! 1 else ys ! 2) (if [x0, x1, x2] ! 0 = 1 then [x0, x1, x2] ! 1 else [x0, x1, x2] ! 2)"
    using d(1) by (auto simp: length_Suc_conv less_Suc_eq all_conj_distrib One_nat_def numeral_2_eq_2 agree_0)
qed (auto simp: bit_or_iff)

lemma bit_sext:
  assumes "0 < w0"
  shows "bit (take_bit w (signed_take_bit (w0 - 1) x) :: int) j \<longleftrightarrow> j < w \<and> bit x (if j < w0 then j else w0 - 1)"
proof -
  obtain v where "w0 = Suc v" using assms by (cases w0) auto
  then show ?thesis by (auto simp: bit_take_bit_iff bit_signed_take_bit_iff min_def less_Suc_eq)
qed

lemma and_single_bit: "(x :: uint64_t) AND 2 ^ i = 0 \<longleftrightarrow> \<not> bit x i"
  using single_bit_and [of i x] by (simp add: and.commute) blast

lemma bits_SExt_ok:
  assumes "info_ok w0 b0 x0" "0 < w0" "w0 \<le> w" "w \<le> 64" "0 \<le> x0" "x0 < 2 ^ w0"
  shows "rule_ok w (bits_SExt w0 w b0 ig) ig [x0] (\<lambda>xs. take_bit w (signed_take_bit (w0 - 1) (xs ! 0)))"
proof -
  note d = info_okD [OF assms(1)]
  have r: "bit x0 j \<Longrightarrow> j < w0" for j using range_bit [OF assms(5,6)] .
  define m where "m = zeroMask w0 AND NOT (zeroMask w)"
  have m: "bit m j \<longleftrightarrow> w0 \<le> j \<and> j < w" for j using assms(4) by (auto simp: m_def bit_and_iff)
  define ones where "ones = (if bit (knownOneBits b0) (w0 - 1) then knownOneBits b0 OR m else knownOneBits b0)"
  define zeros where "zeros = (if \<not> bit (knownOneBits b0) (w0 - 1) \<and> bit (knownZeroBits b0) (w0 - 1) then knownZeroBits b0 OR m
    else knownZeroBits b0 AND NOT m)"
  define i0 where "i0 = (if m AND NOT ig \<noteq> 0 then ig AND NOT (push_bit (w0 - 1) 1) else ig)"
  have "w0 - 1 < 64" using assms(2-4) by simp
  then have "bits_SExt w0 w b0 ig = Some ((ones, zeros), [b0\<lparr>ignoredBits := i0\<rparr>])"
    unfolding bits_SExt_def ones_def zeros_def i0_def m_def [symmetric] Let_def by (simp add: shl64_def and_single_bit)
  moreover have "known 0 ones zeros (take_bit w (signed_take_bit (w0 - 1) x0))"
    unfolding known_def bit_sext [OF assms(2)]
  proof (intro allI impI conjI)
    fix j
    show "bit ones j \<Longrightarrow> j < w" "bit ones j \<Longrightarrow> bit x0 (if j < w0 then j else w0 - 1)"
      using d(2) r m assms(3) by (fastforce simp: ones_def bit_or_iff split: if_splits)+
    show "bit zeros j \<Longrightarrow> \<not> (j < w \<and> bit x0 (if j < w0 then j else w0 - 1))"
      using d(3) m by (auto simp: zeros_def bit_or_iff bit_and_iff split: if_splits)
  qed
  moreover have "bit zeros j" if "w \<le> j" "j < 64" for j
    using d(4) [of j] that assms(3) m by (simp add: zeros_def bit_or_iff bit_and_iff)
  moreover have "agree ig (take_bit w (signed_take_bit (w0 - 1) y)) (take_bit w (signed_take_bit (w0 - 1) x0))" if "agree i0 y x0" for y
    unfolding agree_def bit_sext [OF assms(2)]
  proof (intro allI impI)
    fix j assume j: "\<not> bit ig j"
    have y: "\<not> bit i0 k \<Longrightarrow> bit y k = bit x0 k" for k using that by (simp add: agree_def)
    have "m AND NOT ig \<noteq> 0" if "w0 \<le> j" "j < w"
    proof
      assume "m AND NOT ig = 0"
      moreover have "bit (m AND NOT ig) j" using that m j assms(4) by (simp add: bit_and_iff)
      ultimately show False by simp
    qed
    then show "(j < w \<and> bit y (if j < w0 then j else w0 - 1)) = (j < w \<and> bit x0 (if j < w0 then j else w0 - 1))"
      using y [of j] y [of "w0 - 1"] j \<open>w0 - 1 < 64\<close> by (cases "j < w0") (auto simp: i0_def bit_and_iff bit_exp_iff split: if_splits)
  qed
  ultimately show ?thesis using d(5) by (intro rule_ok1I [where f = "\<lambda>x. take_bit w (signed_take_bit (w0 - 1) x)"]) auto
qed

definition shl_val :: "nat \<Rightarrow> int \<Rightarrow> int \<Rightarrow> int" where
  "shl_val w x s = (if s < int w then take_bit w (push_bit (nat s) x) else 0)"

definition lshr_val :: "nat \<Rightarrow> int \<Rightarrow> int \<Rightarrow> int" where
  "lshr_val w x s = (if s < int w then drop_bit (nat s) (take_bit w x) else 0)"

text \<open>What is known of a shift amount: it is a constant that the rule reads.\<close>

definition amount_ok :: "expr_env \<Rightarrow> expr \<Rightarrow> int \<Rightarrow> bool" where
  "amount_ok E k x \<longleftrightarrow> (\<forall>c. dyn_const k = Some c \<longrightarrow> (\<exists>v. getZExtValue E 64 c = Some v \<and> int (unat v) = x))"

lemma shift_out:
  assumes "info_ok w0 b0 x0" "info_ok w1 b1 x1" "int w \<le> x1" "\<And>x y. int w \<le> y \<Longrightarrow> f x y = 0"
  shows "rule_ok w (Some ((0, - 1), [b0\<lparr>ignoredBits := - 1\<rparr>, b1])) ig [x0, x1] (\<lambda>xs. f (xs ! 0) (xs ! 1))"
proof (rule rule_ok2I, rule refl)
  fix y0 y1
  assume "agree (ignoredBits b1) y1 x1"
  then have "y1 = x1" using info_okD(1) [OF assms(2)] by (simp add: agree_0)
  then show "agree ig (f y0 y1) (f x0 x1)" using assms(3,4) by (simp add: agree_def)
next
  show "known 0 0 (- 1) (f x0 x1)" using assms(3,4) by (simp add: known_def)
qed (use info_okD(5) [OF assms(1)] info_okD(5) [OF assms(2)] in simp_all)

lemma bits_Shl_ok:
  assumes "info_ok w b0 x0" "info_ok w1 b1 x1" "amount_ok E k1 x1" "getWidth k0 = w" "w \<le> 64" "0 \<le> x0" "x0 < 2 ^ w"
  shows "rule_ok w (bits_Shl E w k0 k1 b0 b1 ig) ig [x0, x1] (\<lambda>xs. shl_val w (xs ! 0) (xs ! 1))"
proof (cases "dyn_const k1")
  case None
  have "0 \<le> shl_val w x0 x1" "shl_val w x0 x1 < 2 ^ w" by (auto simp: shl_val_def)
  then show ?thesis using default_ok [of "[b0, b1]" "[x0, x1]" "\<lambda>xs. shl_val w (xs ! 0) (xs ! 1)" w ig] assms(1,2) None
    by (auto simp: bits_Shl_def One_nat_def)
next
  case (Some c)
  then obtain v where v: "getZExtValue E 64 c = Some v" "int (unat v) = x1" using assms(3) by (auto simp: amount_ok_def)
  define n where "n = unat v"
  note d = info_okD [OF assms(1)] and d1 = info_okD [OF assms(2)]
  show ?thesis
  proof (cases "n < w")
    case False
    then show ?thesis using shift_out [OF assms(1,2), of w "shl_val w" ig] Some v assms(4)
      by (simp add: bits_Shl_def n_def [symmetric] shl_val_def)
  next
    case True
    then have n: "n < 64" "x1 < int w" "nat x1 = n" using assms(5) v(2) by (auto simp: n_def [symmetric])
    show ?thesis
    proof (rule rule_ok2I [where f = "shl_val w"])
      show "bits_Shl E w k0 k1 b0 b1 ig = Some ((push_bit n (knownOneBits b0) AND NOT (zeroMask w),
          push_bit n (knownZeroBits b0) OR zeroMask w OR NOT (zeroMask n)),
          [b0\<lparr>ignoredBits := drop_bit n (ig AND NOT (zeroMask w)) OR zeroMask (w - n)\<rparr>, b1])"
        using Some v(1) True n(1) assms(4) by (simp add: bits_Shl_def n_def [symmetric] shl64_def shr64_def)
      show "known 0 (push_bit n (knownOneBits b0) AND NOT (zeroMask w)) (push_bit n (knownZeroBits b0) OR zeroMask w OR NOT (zeroMask n))
          (shl_val w x0 x1)"
        using d(2,3) n by (auto simp: known_def shl_val_def bit_or_iff bit_and_iff bit_push_bit_iff bit_take_bit_iff)
    next
      fix y0 y1
      assume a: "agree (ignoredBits (b0\<lparr>ignoredBits := drop_bit n (ig AND NOT (zeroMask w)) OR zeroMask (w - n)\<rparr>)) y0 x0"
        "agree (ignoredBits b1) y1 x1"
      have "y1 = x1" using a(2) d1(1) by (simp add: agree_0)
      moreover have "bit y0 (j - n) = bit x0 (j - n)" if "\<not> bit ig j" "j < w" "n \<le> j" for j
        using a(1) that assms(5) by (auto simp: agree_def bit_or_iff bit_and_iff bit_drop_bit_eq)
      ultimately show "agree ig (shl_val w y0 y1) (shl_val w x0 x1)"
        using n by (auto simp: agree_def shl_val_def bit_push_bit_iff bit_take_bit_iff)
    qed (use d(5) d1(5) in \<open>auto simp: bit_or_iff\<close>)
  qed
qed

lemma bits_LShr_ok:
  assumes "info_ok w b0 x0" "info_ok w1 b1 x1" "amount_ok E k1 x1" "getWidth k0 = w" "w \<le> 64" "0 \<le> x0" "x0 < 2 ^ w"
  shows "rule_ok w (bits_LShr E w k0 k1 b0 b1 ig) ig [x0, x1] (\<lambda>xs. lshr_val w (xs ! 0) (xs ! 1))"
proof (cases "dyn_const k1")
  case None
  have "take_bit w (lshr_val w x0 x1) = lshr_val w x0 x1" by (rule bit_eqI) (auto simp: lshr_val_def bit_simps)
  then have "0 \<le> lshr_val w x0 x1" "lshr_val w x0 x1 < 2 ^ w" using take_bit_nonnegative take_bit_int_less_exp by metis+
  then show ?thesis using default_ok [of "[b0, b1]" "[x0, x1]" "\<lambda>xs. lshr_val w (xs ! 0) (xs ! 1)" w ig] assms(1,2) None
    by (auto simp: bits_LShr_def One_nat_def)
next
  case (Some c)
  then obtain v where v: "getZExtValue E 64 c = Some v" "int (unat v) = x1" using assms(3) by (auto simp: amount_ok_def)
  define n where "n = unat v"
  note d = info_okD [OF assms(1)] and d1 = info_okD [OF assms(2)]
  show ?thesis
  proof (cases "n < w")
    case False
    then show ?thesis using shift_out [OF assms(1,2), of w "lshr_val w" ig] Some v assms(4)
      by (simp add: bits_LShr_def n_def [symmetric] lshr_val_def)
  next
    case True
    then have n: "n < 64" "x1 < int w" "nat x1 = n" using assms(5) v(2) by (auto simp: n_def [symmetric])
    have r: "bit x0 j \<Longrightarrow> j < w" for j using range_bit [OF assms(6,7)] .
    show ?thesis
    proof (rule rule_ok2I [where f = "lshr_val w"])
      show "bits_LShr E w k0 k1 b0 b1 ig = Some ((drop_bit n (knownOneBits b0), drop_bit n (knownZeroBits b0) OR zeroMask (w - n)),
          [b0\<lparr>ignoredBits := push_bit n ig OR NOT (zeroMask n) OR zeroMask w\<rparr>, b1])"
        using Some v(1) True n(1) assms(4) by (simp add: bits_LShr_def n_def [symmetric] shl64_def shr64_def)
      show "known 0 (drop_bit n (knownOneBits b0)) (drop_bit n (knownZeroBits b0) OR zeroMask (w - n)) (lshr_val w x0 x1)"
        using d(2,3) n r by (fastforce simp: known_def lshr_val_def bit_or_iff bit_drop_bit_eq bit_take_bit_iff)
    next
      fix y0 y1
      assume a: "agree (ignoredBits (b0\<lparr>ignoredBits := push_bit n ig OR NOT (zeroMask n) OR zeroMask w\<rparr>)) y0 x0"
        "agree (ignoredBits b1) y1 x1"
      have "y1 = x1" using a(2) d1(1) by (simp add: agree_0)
      moreover have "bit y0 (n + j) = bit x0 (n + j)" if "\<not> bit ig j" "n + j < w" for j
        using a(1) that assms(5) by (auto simp: agree_def bit_or_iff bit_push_bit_iff)
      ultimately show "agree ig (lshr_val w y0 y1) (lshr_val w x0 x1)"
        using n by (auto simp: agree_def lshr_val_def bit_take_bit_iff bit_drop_bit_eq)
    qed (use d(5) d1(5) in \<open>auto simp: bit_or_iff\<close>)
  qed
qed

subsection \<open>All kinds\<close>

text \<open>The expression with other operands.\<close>

fun with_kids :: "expr \<Rightarrow> expr list \<Rightarrow> expr" where
  "with_kids (ConstantExpr a) ks = ConstantExpr a"
| "with_kids (NotOptimizedExpr e) ks = NotOptimizedExpr (ks ! 0)"
| "with_kids (ReadExpr a us i) ks = ReadExpr a us (ks ! 0)"
| "with_kids (SelectExpr c t f) ks = SelectExpr (ks ! 0) (ks ! 1) (ks ! 2)"
| "with_kids (ConcatExpr l r) ks = ConcatExpr (ks ! 0) (ks ! 1)"
| "with_kids (ExtractExpr e off w) ks = ExtractExpr (ks ! 0) off w"
| "with_kids (ZExtExpr e w) ks = ZExtExpr (ks ! 0) w"
| "with_kids (SExtExpr e w) ks = SExtExpr (ks ! 0) w"
| "with_kids (NotExpr e) ks = NotExpr (ks ! 0)"
| "with_kids (BinaryExpr k l r) ks = BinaryExpr k (ks ! 0) (ks ! 1)"
| "with_kids (CmpExpr k l r) ks = CmpExpr k (ks ! 0) (ks ! 1)"

text \<open>Operands that may stand in place of others: well-formed, of the same widths.\<close>

definition fits_kids :: "expr list \<Rightarrow> expr list \<Rightarrow> bool" where
  "fits_kids ks ks' \<longleftrightarrow> list_all2 (\<lambda>k k'. wf_expr k' \<and> getWidth k' = getWidth k) ks ks'"

lemma fits_kids_simps [simp]:
  "fits_kids [] ks \<longleftrightarrow> ks = []"
  "fits_kids (k # ks) ks' \<longleftrightarrow> (\<exists>x xs. ks' = x # xs \<and> wf_expr x \<and> getWidth x = getWidth k \<and> fits_kids ks xs)"
  by (auto simp: fits_kids_def list_all2_Cons1)

definition kinds_ok :: "expr_env \<Rightarrow> contents \<Rightarrow> expr \<Rightarrow> expr list \<Rightarrow> bits_info list \<Rightarrow> uint64_t \<Rightarrow> bool" where
  "kinds_ok E \<alpha> e kids bits ig \<longleftrightarrow> (\<exists>f. rule_ok (getWidth e) (kind_bits E e kids bits ig) ig (map (eval \<alpha>) kids) f \<and>
    (\<forall>ks. fits_kids kids ks \<longrightarrow> eval \<alpha> (with_kids e ks) = f (map (eval \<alpha>) ks)))"

lemma sgn_val_signed:
  assumes "0 < w" "0 \<le> x" "x < 2 ^ w"
  shows "sgn_val w x = signed_take_bit (w - 1) x"
proof -
  have "sgn_val w x mod 2 ^ w = x mod 2 ^ w" by (simp add: sgn_val_def)
  then have "signed_take_bit (w - 1) (sgn_val w x) = signed_take_bit (w - 1) x"
    using assms(1) by (metis Suc_diff_1 signed_take_bit_eq_iff_take_bit_eq take_bit_eq_mod)
  then show ?thesis using sgn_val_range [OF assms] by (simp add: signed_take_bit_int_eq_self)
qed

lemma sem_bits:
  assumes "0 \<le> a" "a < 2 ^ w" "0 \<le> b" "b < 2 ^ w"
  shows "sem_bin And w a b = a AND b" "sem_bin Or w a b = a OR b" "sem_bin Xor w a b = a XOR b"
    "sem_bin Shl w a b = shl_val w a b" "sem_bin LShr w a b = lshr_val w a b"
proof -
  have t: "take_bit w a = a" "take_bit w b = b" using assms by (simp_all add: take_bit_int_eq_self)
  show "sem_bin And w a b = a AND b" "sem_bin Or w a b = a OR b" "sem_bin Xor w a b = a XOR b"
    unfolding sem_bin.simps take_bit_eq_mod [symmetric] by (simp_all only: take_bit_and take_bit_or take_bit_xor t)
  show "sem_bin Shl w a b = shl_val w a b" by (simp add: sem_bin.simps shl_val_def push_bit_eq_mult flip: take_bit_eq_mod)
  have "take_bit w (drop_bit (nat b) a) = drop_bit (nat b) a"
    by (rule bit_eqI) (use range_bit [OF assms(1,2)] in \<open>fastforce simp: bit_take_bit_iff bit_drop_bit_eq\<close>)
  then show "sem_bin LShr w a b = lshr_val w a b" by (simp add: sem_bin.simps lshr_val_def t drop_bit_eq_div flip: take_bit_eq_mod)
qed

context apint_laws
begin

lemma const_amount: "wf_expr k \<Longrightarrow> getWidth k \<le> 64 \<Longrightarrow> amount_ok E k (eval \<alpha> k)"
proof -
  assume k: "wf_expr k" "getWidth k \<le> 64"
  have "\<exists>v. getZExtValue E 64 c = Some v \<and> int (unat v) = eval \<alpha> k" if "dyn_const k = Some c" for c
  proof -
    have c: "k = ConstantExpr c" using that by (cases k) simp_all
    have "0 \<le> ap_val c" "ap_val c < 2 ^ 64"
      using k c power_increasing [of "ap_width c" 64 "2::int"] by (auto simp: wf_ap_def)
    then show ?thesis using k c ap_getZExtValue [of c]
      by (simp add: getZExtValue_def unsigned_of_int take_bit_int_eq_self flip: uint_nat)
  qed
  then show ?thesis by (simp add: amount_ok_def)
qed

lemma default_kinds:
  assumes "kind_bits E e kids bits ig = Some ((0, zeroMask (getWidth e)), bits)"
    "list_all2 (\<lambda>b k. info_ok (getWidth k) b (eval \<alpha> k)) bits kids"
    "\<And>ks. fits_kids kids ks \<Longrightarrow> eval \<alpha> (with_kids e ks) = f (map (eval \<alpha>) ks)"
    "0 \<le> f (map (eval \<alpha>) kids)" "f (map (eval \<alpha>) kids) < 2 ^ getWidth e"
  shows "kinds_ok E \<alpha> e kids bits ig"
proof -
  have "list_all2 (\<lambda>b x. \<exists>w. info_ok w b x) bits (map (eval \<alpha>) kids)"
    using assms(2) by (auto simp: list_all2_conv_all_nth)
  then show ?thesis unfolding kinds_ok_def assms(1) using default_ok [of bits "map (eval \<alpha>) kids" f "getWidth e" ig] assms(3-5) by blast
qed

lemma kinds_binary:
  assumes "wf_expr (BinaryExpr k l r)" "getWidth l \<le> 64" "bytes \<alpha>" "fits_kids [l, r] [k0, k1]"
    "eval \<alpha> k0 = eval \<alpha> l" "eval \<alpha> k1 = eval \<alpha> r"
    "info_ok (getWidth l) b0 (eval \<alpha> k0)" "info_ok (getWidth l) b1 (eval \<alpha> k1)"
  shows "kinds_ok E \<alpha> (BinaryExpr k l r) [k0, k1] [b0, b1] ig"
proof -
  have w: "wf_expr k0" "wf_expr k1" "getWidth k0 = getWidth l" "getWidth k1 = getWidth l" using assms(1,4) by auto
  note rng = eval_range(1) [OF assms(3)]
  have m: "x mod 2 ^ getWidth l = x" if "0 \<le> x" "x < 2 ^ getWidth l" for x :: int using that by (simp add: mod_pos_pos_trivial)
  have k: "0 \<le> eval \<alpha> k0" "eval \<alpha> k0 < 2 ^ getWidth l" "0 \<le> eval \<alpha> k1" "eval \<alpha> k1 < 2 ^ getWidth l"
    using rng [OF w(1)] rng [OF w(2)] w by simp_all
  have sem: "sem_bin j (getWidth (ks ! 0)) (eval \<alpha> (ks ! 0)) (eval \<alpha> (ks ! 1)) = g (eval \<alpha> (ks ! 0)) (eval \<alpha> (ks ! 1))"
    if "fits_kids [k0, k1] ks" "\<And>a b. 0 \<le> a \<Longrightarrow> a < 2 ^ getWidth l \<Longrightarrow> 0 \<le> b \<Longrightarrow> b < 2 ^ getWidth l \<Longrightarrow> sem_bin j (getWidth l) a b = g a b"
    for j g ks
  proof -
    from that(1) w obtain y0 y1 where y: "ks = [y0, y1]" "wf_expr y0" "wf_expr y1" "getWidth y0 = getWidth l" "getWidth y1 = getWidth l"
      by auto
    show ?thesis using that(2) [of "eval \<alpha> y0" "eval \<alpha> y1"] rng [OF y(2)] rng [OF y(3)] y by (simp add: One_nat_def)
  qed
  have special: "kinds_ok E \<alpha> (BinaryExpr k l r) [k0, k1] [b0, b1] ig"
    if "rule_ok (getWidth l) (kind_bits E (BinaryExpr k l r) [k0, k1] [b0, b1] ig) ig [eval \<alpha> k0, eval \<alpha> k1] (\<lambda>xs. g (xs ! 0) (xs ! 1))"
      "\<And>a b. 0 \<le> a \<Longrightarrow> a < 2 ^ getWidth l \<Longrightarrow> 0 \<le> b \<Longrightarrow> b < 2 ^ getWidth l \<Longrightarrow> sem_bin k (getWidth l) a b = g a b" for g
    unfolding kinds_ok_def
    by (rule exI [of _ "\<lambda>xs. g (xs ! 0) (xs ! 1)"]) (use that sem [OF _ that(2)] in \<open>auto simp: One_nat_def simp del: sem_bin.simps\<close>)
  have general: "kinds_ok E \<alpha> (BinaryExpr k l r) [k0, k1] [b0, b1] ig" if "k \<notin> {And, Or, Xor, Shl, LShr}"
  proof (rule special)
    have "kind_bits E (BinaryExpr k l r) [k0, k1] [b0, b1] ig = Some ((0, zeroMask (getWidth l)), [b0, b1])"
      using that by (cases k) (simp_all add: kind_bits_def)
    then show "rule_ok (getWidth l) (kind_bits E (BinaryExpr k l r) [k0, k1] [b0, b1] ig) ig [eval \<alpha> k0, eval \<alpha> k1]
        (\<lambda>xs. sem_bin k (getWidth l) (xs ! 0) (xs ! 1))"
      using default_ok [of "[b0, b1]" "[eval \<alpha> k0, eval \<alpha> k1]" "\<lambda>xs. sem_bin k (getWidth l) (xs ! 0) (xs ! 1)" "getWidth l" ig] assms(7,8)
        sem_bin_range [of k "getWidth l" "eval \<alpha> k0" "eval \<alpha> k1"] by (auto simp: One_nat_def simp del: sem_bin.simps)
  qed (rule refl)
  show ?thesis
  proof (cases "k \<in> {And, Or, Xor, Shl, LShr}")
    case True
    note kb = kind_bits_def One_nat_def
    from True consider "k = And" | "k = Or" | "k = Xor" | "k = Shl" | "k = LShr" by blast
    then show ?thesis
    proof cases
      case 1
      show ?thesis by (rule special [of "(AND)"]) (use 1 bits_And_ok [OF assms(7,8)] sem_bits(1) in \<open>auto simp: kb\<close>)
    next
      case 2
      show ?thesis by (rule special [of "(OR)"]) (use 2 bits_Or_ok [OF assms(7,8)] sem_bits(2) in \<open>auto simp: kb\<close>)
    next
      case 3
      show ?thesis by (rule special [of "(XOR)"]) (use 3 bits_Xor_ok [OF assms(7,8)] sem_bits(3) in \<open>auto simp: kb\<close>)
    next
      case 4
      show ?thesis by (rule special [of "shl_val (getWidth l)"])
        (use 4 bits_Shl_ok [OF assms(7,8) const_amount] w k assms(2) sem_bits(4) in \<open>auto simp: kb simp del: sem_bin.simps\<close>)
    next
      case 5
      show ?thesis by (rule special [of "lshr_val (getWidth l)"])
        (use 5 bits_LShr_ok [OF assms(7,8) const_amount] w k assms(2) sem_bits(5) in \<open>auto simp: kb simp del: sem_bin.simps\<close>)
    qed
  qed (rule general)
qed

lemma kinds_unary:
  assumes "fits_kids [e] [k0]" "eval \<alpha> k0 = eval \<alpha> e" "info_ok (getWidth k0) b0 (eval \<alpha> k0)" "bytes \<alpha>" "getWidth e \<le> 64"
  shows "kinds_ok E \<alpha> (NotExpr e) [k0] [b0] ig"
    and "0 < w \<Longrightarrow> off + w \<le> getWidth e \<Longrightarrow> kinds_ok E \<alpha> (ExtractExpr e off w) [k0] [b0] ig"
    and "getWidth e \<le> w \<Longrightarrow> kinds_ok E \<alpha> (ZExtExpr e w) [k0] [b0] ig"
    and "getWidth e \<le> w \<Longrightarrow> w \<le> 64 \<Longrightarrow> kinds_ok E \<alpha> (SExtExpr e w) [k0] [b0] ig"
proof -
  have w: "wf_expr k0" "getWidth k0 = getWidth e" using assms(1) by auto
  note rng = eval_range(1) [OF assms(4)]
  have k: "0 \<le> eval \<alpha> k0" "eval \<alpha> k0 < 2 ^ getWidth k0" "0 < getWidth e" using rng [OF w(1)] wf_expr_width [OF w(1)] w by simp_all
  have intro: "kinds_ok E \<alpha> x [k0] [b0] ig"
    if "rule_ok (getWidth x) (kind_bits E x [k0] [b0] ig) ig [eval \<alpha> k0] (\<lambda>xs. g (xs ! 0))"
      "\<And>y. wf_expr y \<Longrightarrow> getWidth y = getWidth e \<Longrightarrow> eval \<alpha> (with_kids x [y]) = g (eval \<alpha> y)" for x g
    unfolding kinds_ok_def by (rule exI [of _ "\<lambda>xs. g (xs ! 0)"]) (use that w(2) in auto)
  show "kinds_ok E \<alpha> (NotExpr e) [k0] [b0] ig"
  proof (rule intro [of _ "\<lambda>x. take_bit (getWidth e) (NOT x)"])
    show "eval \<alpha> (with_kids (NotExpr e) [y]) = take_bit (getWidth e) (NOT (eval \<alpha> y))" if "wf_expr y" "getWidth y = getWidth e" for y
      using rng [OF that(1)] that(2) by (simp add: take_bit_not_eq_mask_diff take_bit_int_eq_self mask_eq_exp_minus_1)
  qed (use bits_Not_ok [OF assms(3) k(1,2)] w assms(5) in \<open>simp add: kind_bits_def\<close>)
  show "kinds_ok E \<alpha> (ExtractExpr e off w) [k0] [b0] ig" if "0 < w" "off + w \<le> getWidth e" for w off
    by (rule intro [of _ "\<lambda>x. take_bit w (drop_bit off x)"])
      (use bits_Extract_ok [OF assms(3), of off w ig] that assms(5) in \<open>auto simp: kind_bits_def drop_bit_eq_div take_bit_eq_mod\<close>)
  show "kinds_ok E \<alpha> (ZExtExpr e w) [k0] [b0] ig" if "getWidth e \<le> w" for w
    by (rule intro [of _ "\<lambda>x. x"]) (use bits_ZExt_ok [OF assms(3), of w ig] that w in \<open>auto simp: kind_bits_def\<close>)
  show "kinds_ok E \<alpha> (SExtExpr e w) [k0] [b0] ig" if v: "getWidth e \<le> w" "w \<le> 64" for w
  proof (rule intro [of _ "\<lambda>x. take_bit w (signed_take_bit (getWidth e - 1) x)"])
    show "eval \<alpha> (with_kids (SExtExpr e w) [y]) = take_bit w (signed_take_bit (getWidth e - 1) (eval \<alpha> y))"
      if "wf_expr y" "getWidth y = getWidth e" for y
      using rng [OF that(1)] that(2) k(3) by (simp add: take_bit_eq_mod sgn_val_signed)
  qed (use bits_SExt_ok [OF assms(3), of w ig] w k v in \<open>auto simp: kind_bits_def\<close>)
qed

lemma kinds_select:
  assumes "wf_expr (SelectExpr c t f)" "fits_kids [c, t, f] [k0, k1, k2]" "bytes \<alpha>"
    "info_ok (getWidth k0) b0 (eval \<alpha> k0)" "info_ok (getWidth k1) b1 (eval \<alpha> k1)" "info_ok (getWidth k2) b2 (eval \<alpha> k2)"
  shows "kinds_ok E \<alpha> (SelectExpr c t f) [k0, k1, k2] [b0, b1, b2] ig"
proof -
  have w: "wf_expr k1" "wf_expr k2" "getWidth k1 = getWidth t" "getWidth k2 = getWidth t" using assms(1,2) by auto
  have "rule_ok (getWidth t) (bits_Select (getWidth t) b0 b1 b2 ig) ig [eval \<alpha> k0, eval \<alpha> k1, eval \<alpha> k2]
      (\<lambda>xs. if xs ! 0 = 1 then xs ! 1 else xs ! 2)"
    using bits_Select_ok [OF assms(4-6) [unfolded w]] eval_range(1) [OF assms(3) w(1)] eval_range(1) [OF assms(3) w(2)] w by simp
  then show ?thesis unfolding kinds_ok_def
    by (intro exI [of _ "\<lambda>xs. if xs ! 0 = 1 then xs ! 1 else xs ! 2"]) (auto simp: kind_bits_def One_nat_def numeral_2_eq_2)
qed

lemma kinds_concat:
  assumes "fits_kids [l, r] [k0, k1]" "bytes \<alpha>" "getWidth l + getWidth r \<le> 64"
    "info_ok (getWidth k0) b0 (eval \<alpha> k0)" "info_ok (getWidth k1) b1 (eval \<alpha> k1)"
  shows "kinds_ok E \<alpha> (ConcatExpr l r) [k0, k1] [b0, b1] ig"
proof -
  have w: "wf_expr k0" "wf_expr k1" "getWidth k0 = getWidth l" "getWidth k1 = getWidth r" using assms(1) by auto
  note rng = eval_range(1) [OF assms(2)]
  let ?f = "\<lambda>xs. push_bit (getWidth r) (take_bit (getWidth l) (xs ! 0)) OR take_bit (getWidth r) (xs ! 1)"
  have "rule_ok (getWidth l + getWidth r) (bits_Concat (getWidth l) (getWidth r) b0 b1 ig) ig [eval \<alpha> k0, eval \<alpha> k1] ?f"
    using bits_Concat_ok [OF assms(4,5)] rng [OF w(1)] rng [OF w(2)] w assms(3) wf_expr_width [OF w(1)] by simp
  moreover have "eval \<alpha> (ConcatExpr y0 y1) = ?f [eval \<alpha> y0, eval \<alpha> y1]"
    if "wf_expr y0" "wf_expr y1" "getWidth y0 = getWidth l" "getWidth y1 = getWidth r" for y0 y1
    using rng [OF that(1)] rng [OF that(2)] that(3,4)
    by (simp add: take_bit_int_eq_self push_bit_eq_mult or_disjoint One_nat_def)
  ultimately show ?thesis unfolding kinds_ok_def
    by (intro exI [of _ ?f]) (auto simp: kind_bits_def w One_nat_def)
qed

lemma kind_bits_ok:
  assumes "bytes \<alpha>" "wf_expr e" "\<forall>k \<in> set (e # get_kids e). getWidth k \<le> 64"
    "fits_kids (get_kids e) kids" "map (eval \<alpha>) kids = map (eval \<alpha>) (get_kids e)"
    "list_all2 (\<lambda>b k. info_ok (getWidth k) b (eval \<alpha> k)) bits kids"
  shows "kinds_ok E \<alpha> e kids bits ig"
proof (cases e)
  case (ConstantExpr a)
  then have v: "getZExtValue E 64 a = Some (word_of_int (ap_val a))" "kids = []" "bits = []" "0 \<le> ap_val a" "ap_val a < 2 ^ ap_width a"
    using assms(2-4,6) wf_ap_64 [of a] by (auto simp: getZExtValue_eq wf_ap_def)
  have "bit (word_of_int (ap_val a) :: uint64_t) j = bit (ap_val a) j" for j
    using range_bit [OF v(4,5), of j] assms(3) ConstantExpr by (auto simp: bit_simps)
  then have "rule_ok (getWidth e) (kind_bits E e kids bits ig) ig [] (\<lambda>_. ap_val a)"
    using ConstantExpr v range_bit [OF v(4,5)] by (fastforce simp: kind_bits_def rule_ok_def known_def agree_def)
  then show ?thesis unfolding kinds_ok_def using ConstantExpr v(2) by (intro exI [of _ "\<lambda>_. ap_val a"]) auto
next
  case (NotOptimizedExpr x)
  show ?thesis
    by (rule default_kinds [OF _ assms(6), where f = "\<lambda>xs. xs ! 0"])
      (use NotOptimizedExpr assms eval_range(1) [OF assms(1)] in \<open>auto simp: kind_bits_def\<close>)
next
  case (ReadExpr a us i)
  show ?thesis
    by (rule default_kinds [OF _ assms(6), where f = "\<lambda>xs. eval_updates \<alpha> us (xs ! 0) (initial_value \<alpha> a (xs ! 0))"])
      (use ReadExpr assms eval_range(1) [OF assms(1,2)] in \<open>auto simp: kind_bits_def\<close>)
next
  case (SelectExpr c t f)
  then show ?thesis using assms(2,4,6) kinds_select [of c t f _ _ _ \<alpha>] assms(1) by (auto simp: list_all2_Cons2)
next
  case (ConcatExpr l r)
  then show ?thesis using assms kinds_concat [of l r _ _ \<alpha>] by (auto simp: list_all2_Cons2)
next
  case (ExtractExpr x off w)
  then show ?thesis using assms kinds_unary(2) [of x _ \<alpha>] by (auto simp: list_all2_Cons2)
next
  case (ZExtExpr x w)
  then show ?thesis using assms kinds_unary(3) [of x _ \<alpha>] by (auto simp: list_all2_Cons2)
next
  case (SExtExpr x w)
  then show ?thesis using assms kinds_unary(4) [of x _ \<alpha>] by (auto simp: list_all2_Cons2)
next
  case (NotExpr x)
  then show ?thesis using assms kinds_unary(1) [of x _ \<alpha>] by (auto simp: list_all2_Cons2)
next
  case (BinaryExpr k l r)
  then show ?thesis using assms kinds_binary [of k l r \<alpha>] by (auto simp: list_all2_Cons2)
next
  case (CmpExpr k l r)
  show ?thesis
    by (rule default_kinds [OF _ assms(6), where f = "\<lambda>xs. of_bool (sem_cmp k (getWidth l) (xs ! 0) (xs ! 1))"])
      (use CmpExpr assms in \<open>auto simp: kind_bits_def One_nat_def\<close>)
qed

end

lemma with_kids_same [simp]: "with_kids e (get_kids e) = e"
  by (cases e) (simp_all add: One_nat_def numeral_2_eq_2)

lemma fits_kids_refl: "wf_expr e \<Longrightarrow> fits_kids (get_kids e) kids \<Longrightarrow> fits_kids kids (get_kids e)"
  by (cases e) auto

text \<open>What \<open>kinds_ok\<close> says of the masks themselves.\<close>

lemma kinds_okD:
  assumes "kinds_ok E \<alpha> e kids bits ig" "wf_expr e" "fits_kids (get_kids e) kids" "map (eval \<alpha>) kids = map (eval \<alpha>) (get_kids e)"
  obtains ones zeros bs where "kind_bits E e kids bits ig = Some ((ones, zeros), bs)" "known 0 ones zeros (eval \<alpha> e)"
    "\<And>j. getWidth e \<le> j \<Longrightarrow> j < 64 \<Longrightarrow> bit zeros j"
    "list_all2 (\<lambda>b k. known (ignoredBits b) (knownOneBits b) (knownZeroBits b) (eval \<alpha> k)) bs kids"
    "\<And>ks. fits_kids kids ks \<Longrightarrow> (\<And>i. i < length kids \<Longrightarrow> agree (ignoredBits (bs ! i)) (eval \<alpha> (ks ! i)) (eval \<alpha> (kids ! i))) \<Longrightarrow>
      agree ig (eval \<alpha> (with_kids e ks)) (eval \<alpha> e)"
proof -
  obtain f where r: "rule_ok (getWidth e) (kind_bits E e kids bits ig) ig (map (eval \<alpha>) kids) f"
    and f: "\<And>ks. fits_kids kids ks \<Longrightarrow> eval \<alpha> (with_kids e ks) = f (map (eval \<alpha>) ks)"
    using assms(1) by (auto simp: kinds_ok_def)
  have e: "f (map (eval \<alpha>) kids) = eval \<alpha> e" using f [OF fits_kids_refl [OF assms(2,3)]] assms(4) by simp
  obtain ones zeros bs where o: "kind_bits E e kids bits ig = Some ((ones, zeros), bs)" "known 0 ones zeros (eval \<alpha> e)"
    "\<forall>j. getWidth e \<le> j \<longrightarrow> j < 64 \<longrightarrow> bit zeros j"
    "list_all2 (\<lambda>b k. known (ignoredBits b) (knownOneBits b) (knownZeroBits b) (eval \<alpha> k)) bs kids"
    "\<forall>ys. length ys = length kids \<longrightarrow> (\<forall>i<length kids. agree (ignoredBits (bs ! i)) (ys ! i) (map (eval \<alpha>) kids ! i)) \<longrightarrow>
      agree ig (f ys) (eval \<alpha> e)"
    using r e unfolding rule_ok_def by (auto simp: list_all2_map2)
  show ?thesis
  proof (rule that [OF o(1,2) _ o(4)])
    fix ks assume ks: "fits_kids kids ks" "\<And>i. i < length kids \<Longrightarrow> agree (ignoredBits (bs ! i)) (eval \<alpha> (ks ! i)) (eval \<alpha> (kids ! i))"
    have "length ks = length kids" using ks(1) by (simp add: fits_kids_def list_all2_lengthD)
    then show "agree ig (eval \<alpha> (with_kids e ks)) (eval \<alpha> e)" using o(5) [rule_format, of "map (eval \<alpha>) ks"] ks f by simp
  qed (use o(3) in blast)
qed

lemma info_ok_const:
  assumes "\<And>j. bit k j = bit x j" "0 \<le> x" "x < 2 ^ w"
  shows "info_ok w \<lparr>ignoredBits = 0, knownOneBits = k, knownZeroBits = NOT k\<rparr> x"
  using assms(1) range_bit [OF assms(2,3)] by (fastforce simp: info_ok_def known_def)

subsection \<open>Properties\<close>

text \<open>
  C19: the bit rules of \<^verbatim>\<open>doSimplifyBits\<close> are right for every kind of expression of at most 64 bits.
  From right information on the operands, with nothing ignored, they compute bits of the expression
  that are indeed one and zero. The information they leave on an operand holds outside its ignored
  bits, and operands that differ from the old ones in ignored bits only give an expression that
  differs from the old one in ignored bits only.
\<close>

theorem bit_rules_sound:
  assumes "apint_laws E" "bytes \<alpha>" "wf_expr e" "\<forall>k \<in> set (e # get_kids e). getWidth k \<le> 64"
    "fits_kids (get_kids e) kids" "map (eval \<alpha>) kids = map (eval \<alpha>) (get_kids e)"
    "list_all2 (\<lambda>b k. info_ok (getWidth k) b (eval \<alpha> k)) bits kids"
  shows "\<exists>ones zeros bs. kind_bits E e kids bits ig = Some ((ones, zeros), bs) \<and> known 0 ones zeros (eval \<alpha> e) \<and>
    list_all2 (\<lambda>b k. known (ignoredBits b) (knownOneBits b) (knownZeroBits b) (eval \<alpha> k)) bs kids \<and>
    (\<forall>ks. fits_kids kids ks \<longrightarrow>
      (\<forall>i < length kids. agree (ignoredBits (bs ! i)) (eval \<alpha> (ks ! i)) (eval \<alpha> (kids ! i))) \<longrightarrow>
      agree ig (eval \<alpha> (with_kids e ks)) (eval \<alpha> e))"
  by (rule kinds_okD [OF apint_laws.kind_bits_ok [OF assms] assms(3,5,6), of ig]) blast

theorem bit_rules_sound_witness:
  "\<exists>ones zeros bs. kind_bits (apint_env False) (BinaryExpr And (NotOptimizedExpr (ConstantExpr (APInt 8 0x5A))) (ConstantExpr (APInt 8 0x0F)))
      [NotOptimizedExpr (ConstantExpr (APInt 8 0x5A)), ConstantExpr (APInt 8 0x0F)]
      [\<lparr>ignoredBits = 0, knownOneBits = 0, knownZeroBits = zeroMask 8\<rparr>,
       \<lparr>ignoredBits = 0, knownOneBits = 0x0F, knownZeroBits = NOT 0x0F\<rparr>] 0 = Some ((ones, zeros), bs)
    \<and> known 0 ones zeros 0x0A"
proof -
  have "\<not> bit (90 :: int) j" if "8 \<le> j" for j using range_bit [of 90 8 j] that by auto
  then have i: "info_ok 8 \<lparr>ignoredBits = 0, knownOneBits = 0, knownZeroBits = zeroMask 8\<rparr> 90"
    by (auto simp: info_ok_def known_def)
  have "bit (15 :: uint64_t) j = bit (15 :: int) j" for j
    using range_bit [of 15 8 j] bit_uint_iff [of "15 :: uint64_t" j] by auto
  then have "info_ok 8 \<lparr>ignoredBits = 0, knownOneBits = 15, knownZeroBits = NOT 15\<rparr> 15" by (intro info_ok_const) simp_all
  with i have h: "list_all2 (\<lambda>b k. info_ok (getWidth k) b (eval (\<lambda>_ _. 0) k))
      [\<lparr>ignoredBits = 0, knownOneBits = 0, knownZeroBits = zeroMask 8\<rparr>, \<lparr>ignoredBits = 0, knownOneBits = 15, knownZeroBits = NOT 15\<rparr>]
      [NotOptimizedExpr (ConstantExpr (APInt 8 90)), ConstantExpr (APInt 8 15)]" by (simp only: list_all2_Cons list_all2_Nil) simp
  let ?e = "BinaryExpr And (NotOptimizedExpr (ConstantExpr (APInt 8 90))) (ConstantExpr (APInt 8 15))"
  have "eval (\<lambda>_ _. 0) ?e = 10" by (simp add: sem_bin.simps)
  moreover have "bytes (\<lambda>_ _. 0)" "wf_expr ?e" "\<forall>k \<in> set (?e # get_kids ?e). getWidth k \<le> 64" by (simp_all add: bytes_def wf_ap_def)
  ultimately show ?thesis using bit_rules_sound [OF apint_env.apint_laws_axioms _ _ _ _ _ h, of ?e False 0] by (simp add: wf_ap_def) blast
qed

text \<open>Two bytes of different arrays.\<close>

definition byte_y :: expr where
  "byte_y = ReadExpr \<lparr>arr_address = 1, arr_name = ''y'', arr_size = 1, constantValues = []\<rparr> NoUpdate (ConstantExpr (APInt 32 0))"

definition byte_z :: expr where
  "byte_z = ReadExpr \<lparr>arr_address = 2, arr_name = ''z'', arr_size = 1, constantValues = []\<rparr> NoUpdate (ConstantExpr (APInt 32 0))"

text \<open>
  C35: the table makes the simplifier unsound. Simplifying \<open>((y | 0xF0) | z) & 0x0F\<close> stores for \<open>y | z\<close>
  that its upper half is one, which is right only while these bits are ignored. A later call for the
  upper half of \<open>y | z\<close> finds the entry and answers with the constant 15, though the value is 0 when
  both bytes are 0.
\<close>

theorem simplify_cache_unsound:
  "(do { (_, c) \<leftarrow> simplify (apint_env True)
      (BinaryExpr And (BinaryExpr Or (BinaryExpr Or byte_y (ConstantExpr (APInt 8 0xF0))) byte_z) (ConstantExpr (APInt 8 0x0F))) Map.empty;
    (r, _) \<leftarrow> simplify (apint_env True) (ExtractExpr (BinaryExpr Or byte_y byte_z) 4 4) c;
    Some r }) = Some (ConstantExpr (APInt 4 15)) \<and>
   eval (\<lambda>_ _. 0) (ExtractExpr (BinaryExpr Or byte_y byte_z) 4 4) = 0"
proof -
  have "eval (\<lambda>_ _. 0) (ExtractExpr (BinaryExpr Or byte_y byte_z) 4 4) = 0"
    by (simp add: byte_y_def byte_z_def sem_bin.simps initial_value_def isConstantArray_def isSymbolicArray_def)
  moreover have "(do { (_, c) \<leftarrow> simplify (apint_env True)
      (BinaryExpr And (BinaryExpr Or (BinaryExpr Or byte_y (ConstantExpr (APInt 8 0xF0))) byte_z) (ConstantExpr (APInt 8 0x0F))) Map.empty;
    (r, _) \<leftarrow> simplify (apint_env True) (ExtractExpr (BinaryExpr Or byte_y byte_z) 4 4) c;
    Some r }) = Some (ConstantExpr (APInt 4 15))"
    by code_simp
  ultimately show ?thesis by blast
qed

end
