(* ===== verification/Memory.thy ===== *)
theory Memory
  imports Expr
begin

text \<open>
  Memory objects and their contents, \<^verbatim>\<open>include/klee/Memory.h\<close> and \<^verbatim>\<open>lib/Core/Memory.cpp\<close>.

  An \<^verbatim>\<open>ObjectState\<close> keeps every byte in up to three places: the concrete store, the table of known
  symbolic values and the update list of an array. Two bit masks tell which of them count. A null
  pointer is \<open>None\<close>, offsets of type \<^verbatim>\<open>unsigned\<close> are numbers below \<open>2 ^ 32\<close>.
\<close>

subsection \<open>State\<close>

type_synonym uint8_t = "8 word"

record memory_object =
  mo_id :: nat
  mo_address :: uint64_t
  mo_size :: nat
  isUserSpecified :: bool
  isSharedConcrete :: bool

record object_state =
  concreteMask :: "bitarray option"
  copyOnWriteOwner :: nat
  os_object :: memory_object
  concreteStore :: "uint8_t list"
  flushMask :: "bitarray option"
  knownSymbolics :: "expr option list option"
  upd_root :: "array option"
  upd_head :: update_node
  os_size :: nat
  readOnly :: bool

text \<open>
  The target, the option, and what is outside the sources: the operations on constants, the address
  of a new array and the rendering of a number by \<^verbatim>\<open>llvm::utostr\<close>.
\<close>

record mem_env =
  menv :: expr_env
  isLittleEndian :: bool
  getPointerWidth :: nat
  UseConstantArrays :: bool
  arr_alloc :: "string \<Rightarrow> nat"
  utostr :: "nat \<Rightarrow> string"

text \<open>What all objects share: the memory of the process and the counters of the two kinds of arrays.\<close>

record mem_heap =
  host :: "nat \<Rightarrow> uint8_t"
  tmp_arr_id :: nat
  const_arr_id :: nat

type_synonym 'a mem_op = "object_state \<Rightarrow> mem_heap \<Rightarrow> ('a \<times> object_state \<times> mem_heap) may_abort"

definition u32 :: "nat \<Rightarrow> nat" where
  "u32 n = n mod 2 ^ 32"

subsection \<open>Addresses and bounds\<close>

definition getBaseExpr :: "mem_env \<Rightarrow> memory_object \<Rightarrow> expr may_abort" where
  "getBaseExpr M mo = map_option ConstantExpr (ConstantExpr_create (menv M) (mo_address mo) (getPointerWidth M))"

definition getSizeExpr :: "mem_env \<Rightarrow> memory_object \<Rightarrow> expr may_abort" where
  "getSizeExpr M mo = map_option ConstantExpr (ConstantExpr_create (menv M) (of_nat (mo_size mo)) (getPointerWidth M))"

definition getOffsetExpr :: "mem_env \<Rightarrow> memory_object \<Rightarrow> expr \<Rightarrow> expr may_abort" where
  "getOffsetExpr M mo pointer = do { b \<leftarrow> getBaseExpr M mo; create_Sub (menv M) pointer b }"

definition getBoundsCheckOffset :: "mem_env \<Rightarrow> memory_object \<Rightarrow> expr \<Rightarrow> expr may_abort" where
  "getBoundsCheckOffset M mo offset =
    (if mo_size mo = 0 then
       create_Eq (menv M) offset (ConstantExpr (ConstantExpr_alloc (menv M) 0 (getPointerWidth M)))
     else do { sz \<leftarrow> getSizeExpr M mo; create_Ult (menv M) offset sz })"

definition getBoundsCheckOffset_bytes :: "mem_env \<Rightarrow> memory_object \<Rightarrow> expr \<Rightarrow> nat \<Rightarrow> expr may_abort" where
  "getBoundsCheckOffset_bytes M mo offset n =
    (if n \<le> mo_size mo then
       create_Ult (menv M) offset (ConstantExpr (ConstantExpr_alloc (menv M) (of_nat (u32 (mo_size mo - n + 1))) (getPointerWidth M)))
     else Some (ConstantExpr (ConstantExpr_alloc (menv M) 0 1)))"

definition getBoundsCheckPointer :: "mem_env \<Rightarrow> memory_object \<Rightarrow> expr \<Rightarrow> expr may_abort" where
  "getBoundsCheckPointer M mo pointer = do { off \<leftarrow> getOffsetExpr M mo pointer; getBoundsCheckOffset M mo off }"

definition getBoundsCheckPointer_bytes :: "mem_env \<Rightarrow> memory_object \<Rightarrow> expr \<Rightarrow> nat \<Rightarrow> expr may_abort" where
  "getBoundsCheckPointer_bytes M mo pointer n =
    do { off \<leftarrow> getOffsetExpr M mo pointer; getBoundsCheckOffset_bytes M mo off n }"

subsection \<open>The masks and the table of known values\<close>

definition isByteConcrete :: "object_state \<Rightarrow> nat \<Rightarrow> bool may_abort" where
  "isByteConcrete os offset = (case concreteMask os of None \<Rightarrow> Some True | Some b \<Rightarrow> ba_get b offset)"

definition isByteFlushed :: "object_state \<Rightarrow> nat \<Rightarrow> bool may_abort" where
  "isByteFlushed os offset = (case flushMask os of None \<Rightarrow> Some False | Some b \<Rightarrow> map_option Not (ba_get b offset))"

definition getKnownSymbolic :: "object_state \<Rightarrow> nat \<Rightarrow> expr option may_abort" where
  "getKnownSymbolic os offset = (case knownSymbolics os of None \<Rightarrow> Some None | Some ks \<Rightarrow> nth_opt ks offset)"

definition isByteKnownSymbolic :: "object_state \<Rightarrow> nat \<Rightarrow> bool may_abort" where
  "isByteKnownSymbolic os offset = map_option (\<lambda>v. v \<noteq> None) (getKnownSymbolic os offset)"

definition markByteConcrete :: "object_state \<Rightarrow> nat \<Rightarrow> object_state may_abort" where
  "markByteConcrete os offset =
    (case concreteMask os of
       None \<Rightarrow> Some os
     | Some b \<Rightarrow> do { b \<leftarrow> ba_set b offset; Some (os\<lparr>concreteMask := Some b\<rparr>) })"

definition markByteUnflushed :: "object_state \<Rightarrow> nat \<Rightarrow> object_state may_abort" where
  "markByteUnflushed os offset =
    (case flushMask os of
       None \<Rightarrow> Some os
     | Some b \<Rightarrow> do { b \<leftarrow> ba_set b offset; Some (os\<lparr>flushMask := Some b\<rparr>) })"

definition markByteSymbolic :: "object_state \<Rightarrow> nat \<Rightarrow> object_state may_abort" where
  "markByteSymbolic os offset = do {
    let b = (case concreteMask os of None \<Rightarrow> BitArray_new (os_size os) True | Some b \<Rightarrow> b);
    b \<leftarrow> ba_unset b offset;
    Some (os\<lparr>concreteMask := Some b\<rparr>) }"

definition markByteFlushed :: "object_state \<Rightarrow> nat \<Rightarrow> object_state may_abort" where
  "markByteFlushed os offset =
    (case flushMask os of
       None \<Rightarrow> Some (os\<lparr>flushMask := Some (BitArray_new (os_size os) False)\<rparr>)
     | Some b \<Rightarrow> do { b \<leftarrow> ba_unset b offset; Some (os\<lparr>flushMask := Some b\<rparr>) })"

definition setKnownSymbolic :: "object_state \<Rightarrow> nat \<Rightarrow> expr option \<Rightarrow> object_state may_abort" where
  "setKnownSymbolic os offset v =
    (case knownSymbolics os of
       Some ks \<Rightarrow> do { ks \<leftarrow> upd_opt ks offset v; Some (os\<lparr>knownSymbolics := Some ks\<rparr>) }
     | None \<Rightarrow>
         if v \<noteq> None then do {
           ks \<leftarrow> upd_opt (replicate (os_size os) None) offset v;
           Some (os\<lparr>knownSymbolics := Some ks\<rparr>) }
         else Some os)"

definition isAllConcrete :: "object_state \<Rightarrow> bool may_abort" where
  "isAllConcrete os = (case concreteMask os of None \<Rightarrow> Some True | Some b \<Rightarrow> isAllOnes b (os_size os))"

fun isConcrete_loop :: "object_state \<Rightarrow> nat list \<Rightarrow> bool may_abort" where
  "isConcrete_loop os [] = Some True"
| "isConcrete_loop os (i # is) = do {
    c \<leftarrow> isByteConcrete os i;
    if \<not> c then Some False else isConcrete_loop os is }"

definition isConcrete :: "object_state \<Rightarrow> nat \<Rightarrow> nat \<Rightarrow> bool may_abort" where
  "isConcrete os offset width =
    (if concreteMask os = None then Some True
     else isConcrete_loop os (map (\<lambda>i. u32 (offset + i)) [0..<getMinBytesForWidth width]))"

text \<open>
  The \<^verbatim>\<open>const\<close> overload: the caller reads the bytes. The other overload hands out an address to write through,
  which is no operation on the object and is not modelled.
\<close>

definition getConcreteStore :: "object_state \<Rightarrow> bool \<Rightarrow> uint8_t list option may_abort" where
  "getConcreteStore os allowSymbolic =
    (if allowSymbolic then Some (Some (concreteStore os))
     else do { c \<leftarrow> isAllConcrete os; Some (if c then Some (concreteStore os) else None) })"

definition readConcrete8 :: "object_state \<Rightarrow> mem_heap \<Rightarrow> nat \<Rightarrow> uint8_t option may_abort" where
  "readConcrete8 os h offset =
    (if isSharedConcrete (os_object os) then Some (Some (host h (unat (mo_address (os_object os)) + offset)))
     else do {
       c \<leftarrow> isByteConcrete os offset;
       if c then map_option Some (nth_opt (concreteStore os) offset) else Some None })"

subsection \<open>Update lists\<close>

definition extend :: "object_state \<Rightarrow> expr \<Rightarrow> expr \<Rightarrow> object_state may_abort" where
  "extend os index val = do {
    n \<leftarrow> new_UpdateNode (upd_head os) index val;
    Some (os\<lparr>upd_head := n\<rparr>) }"

text \<open>The writes of an update list, the oldest first.\<close>

fun Writes :: "update_node \<Rightarrow> (expr \<times> expr) list" where
  "Writes NoUpdate = []"
| "Writes (UpdateNode index val next) = Writes next @ [(index, val)]"

text \<open>The concrete writes at the begin of the list go to the contents of the array.\<close>

fun pull_writes :: "expr_env \<Rightarrow> (expr \<times> expr) list \<Rightarrow> apint list \<Rightarrow> (apint list \<times> (expr \<times> expr) list) may_abort" where
  "pull_writes E [] Contents = Some (Contents, [])"
| "pull_writes E ((index, val) # ws) Contents =
    (case (dyn_const index, dyn_const val) of
       (Some Index, Some Value) \<Rightarrow> do {
         i \<leftarrow> getZExtValue E 64 Index;
         Contents \<leftarrow> upd_opt Contents (unat i) Value;
         pull_writes E ws Contents }
     | _ \<Rightarrow> Some (Contents, (index, val) # ws))"

fun extend_all :: "object_state \<Rightarrow> (expr \<times> expr) list \<Rightarrow> object_state may_abort" where
  "extend_all os [] = Some os"
| "extend_all os ((index, val) # ws) = do { os \<leftarrow> extend os index val; extend_all os ws }"

definition getUpdates :: "mem_env \<Rightarrow> (array \<times> update_node) mem_op" where
  "getUpdates M os h =
    (case upd_root os of
       Some root \<Rightarrow> Some ((root, upd_head os), os, h)
     | None \<Rightarrow> do {
         zero \<leftarrow> ConstantExpr_create (menv M) 0 8;
         (Contents, ws) \<leftarrow> pull_writes (menv M) (Writes (upd_head os)) (replicate (os_size os) zero);
         assert_that (os_size os \<noteq> 0);
         let h = h\<lparr>const_arr_id := const_arr_id h + 1\<rparr>;
         let name = ''const_arr'' @ utostr M (const_arr_id h);
         root \<leftarrow> Array_new (arr_alloc M name) name (os_size os) Contents;
         os \<leftarrow> extend_all (os\<lparr>upd_root := Some root, upd_head := NoUpdate\<rparr>) ws;
         Some ((root, upd_head os), os, h) })"

definition const32 :: "mem_env \<Rightarrow> nat \<Rightarrow> expr may_abort" where
  "const32 M n = map_option ConstantExpr (ConstantExpr_create (menv M) (of_nat n) 32)"

definition const8 :: "mem_env \<Rightarrow> uint8_t \<Rightarrow> expr may_abort" where
  "const8 M v = map_option ConstantExpr (ConstantExpr_create (menv M) (ucast v) 8)"

text \<open>The body of the loop of \<^verbatim>\<open>flushRangeForRead\<close> and the loop; the mask exists.\<close>

definition flush_byte_read :: "mem_env \<Rightarrow> object_state \<Rightarrow> nat \<Rightarrow> object_state may_abort" where
  "flush_byte_read M os offset = do {
    f \<leftarrow> isByteFlushed os offset;
    if f then Some os
    else do {
      c \<leftarrow> isByteConcrete os offset;
      i \<leftarrow> const32 M offset;
      v \<leftarrow> (if c then do { b \<leftarrow> nth_opt (concreteStore os) offset; const8 M b }
        else do { k \<leftarrow> getKnownSymbolic os offset; k });
      os \<leftarrow> extend os i v;
      markByteFlushed os offset } }"

fun flush_read_loop :: "mem_env \<Rightarrow> nat list \<Rightarrow> object_state \<Rightarrow> object_state may_abort" where
  "flush_read_loop M [] os = Some os"
| "flush_read_loop M (i # is) os = do { os \<leftarrow> flush_byte_read M os i; flush_read_loop M is os }"

definition new_flushMask :: "object_state \<Rightarrow> object_state" where
  "new_flushMask os = (if flushMask os = None then os\<lparr>flushMask := Some (BitArray_new (os_size os) True)\<rparr> else os)"

definition flushRangeForRead :: "mem_env \<Rightarrow> nat \<Rightarrow> nat \<Rightarrow> object_state \<Rightarrow> object_state may_abort" where
  "flushRangeForRead M rangeBase rangeSize os = flush_read_loop M [rangeBase..<rangeBase + rangeSize] (new_flushMask os)"

definition flush_byte_write :: "mem_env \<Rightarrow> object_state \<Rightarrow> nat \<Rightarrow> object_state may_abort" where
  "flush_byte_write M os offset = do {
    f \<leftarrow> isByteFlushed os offset;
    c \<leftarrow> isByteConcrete os offset;
    if \<not> f then do {
      i \<leftarrow> const32 M offset;
      os \<leftarrow> (if c then do {
          b \<leftarrow> nth_opt (concreteStore os) offset;
          v \<leftarrow> const8 M b;
          os \<leftarrow> extend os i v;
          markByteSymbolic os offset }
        else do {
          k \<leftarrow> getKnownSymbolic os offset;
          v \<leftarrow> k;
          os \<leftarrow> extend os i v;
          setKnownSymbolic os offset None });
      markByteFlushed os offset }
    else if c then markByteSymbolic os offset
    else do {
      k \<leftarrow> isByteKnownSymbolic os offset;
      if k then setKnownSymbolic os offset None else Some os } }"

fun flush_write_loop :: "mem_env \<Rightarrow> nat list \<Rightarrow> object_state \<Rightarrow> object_state may_abort" where
  "flush_write_loop M [] os = Some os"
| "flush_write_loop M (i # is) os = do { os \<leftarrow> flush_byte_write M os i; flush_write_loop M is os }"

definition flushRangeForWrite :: "mem_env \<Rightarrow> nat \<Rightarrow> nat \<Rightarrow> object_state \<Rightarrow> object_state may_abort" where
  "flushRangeForWrite M rangeBase rangeSize os = flush_write_loop M [rangeBase..<rangeBase + rangeSize] (new_flushMask os)"

definition fastRangeCheckOffset :: "object_state \<Rightarrow> expr \<Rightarrow> nat \<times> nat" where
  "fastRangeCheckOffset os offset = (0, os_size os)"

subsection \<open>Creation\<close>

text \<open>The bytes \<open>junk\<close> are those of the new store, which is not initialised.\<close>

definition ObjectState_new :: "mem_env \<Rightarrow> memory_object \<Rightarrow> uint8_t list \<Rightarrow> mem_heap \<Rightarrow> (object_state \<times> mem_heap) may_abort" where
  "ObjectState_new M mo junk h = do {
    assert_that (length junk = mo_size mo);
    let os = \<lparr>concreteMask = None, copyOnWriteOwner = 0, os_object = mo, concreteStore = junk, flushMask = None,
      knownSymbolics = None, upd_root = None, upd_head = NoUpdate, os_size = mo_size mo, readOnly = False\<rparr>;
    if UseConstantArrays M then Some (os, h)
    else do {
      let h = h\<lparr>tmp_arr_id := tmp_arr_id h + 1\<rparr>;
      let name = ''tmp_arr'' @ utostr M (tmp_arr_id h);
      root \<leftarrow> Array_new (arr_alloc M name) name (mo_size mo) [];
      Some (os\<lparr>upd_root := Some root, upd_head := NoUpdate\<rparr>, h) } }"

fun symbolic_loop :: "nat list \<Rightarrow> object_state \<Rightarrow> object_state may_abort" where
  "symbolic_loop [] os = Some os"
| "symbolic_loop (i # is) os = do {
    os \<leftarrow> markByteSymbolic os i;
    os \<leftarrow> setKnownSymbolic os i None;
    os \<leftarrow> markByteFlushed os i;
    symbolic_loop is os }"

definition makeSymbolic :: "object_state \<Rightarrow> object_state may_abort" where
  "makeSymbolic os = do {
    assert_that (upd_head os = NoUpdate);
    symbolic_loop [0..<os_size os] os }"

definition ObjectState_array :: "memory_object \<Rightarrow> uint8_t list \<Rightarrow> array \<Rightarrow> object_state may_abort" where
  "ObjectState_array mo junk ar = do {
    assert_that (length junk = mo_size mo);
    makeSymbolic \<lparr>concreteMask = None, copyOnWriteOwner = 0, os_object = mo, concreteStore = junk, flushMask = None,
      knownSymbolics = None, upd_root = Some ar, upd_head = NoUpdate, os_size = mo_size mo, readOnly = False\<rparr> }"

definition ObjectState_copy :: "object_state \<Rightarrow> object_state may_abort" where
  "ObjectState_copy os = do {
    cm \<leftarrow> (case concreteMask os of None \<Rightarrow> Some None | Some b \<Rightarrow> map_option Some (BitArray_copy b (os_size os)));
    fm \<leftarrow> (case flushMask os of None \<Rightarrow> Some None | Some b \<Rightarrow> map_option Some (BitArray_copy b (os_size os)));
    assert_that (\<not> readOnly os);
    ks \<leftarrow> (case knownSymbolics os of
        None \<Rightarrow> Some None
      | Some ks \<Rightarrow> if os_size os \<le> length ks then Some (Some (take (os_size os) ks)) else None);
    assert_that (os_size os \<le> length (concreteStore os));
    Some (os\<lparr>concreteMask := cm, copyOnWriteOwner := 0, concreteStore := take (os_size os) (concreteStore os), flushMask := fm,
      knownSymbolics := ks, readOnly := False\<rparr>) }"

definition makeConcrete :: "object_state \<Rightarrow> object_state" where
  "makeConcrete os = os\<lparr>concreteMask := None, flushMask := None, knownSymbolics := None\<rparr>"

definition initializeToZero :: "object_state \<Rightarrow> object_state" where
  "initializeToZero os = (makeConcrete os)\<lparr>concreteStore := replicate (os_size os) 0\<rparr>"

definition initializeToRandom :: "object_state \<Rightarrow> object_state" where
  "initializeToRandom os = (makeConcrete os)\<lparr>concreteStore := replicate (os_size os) 0xAB\<rparr>"

definition setReadOnly :: "object_state \<Rightarrow> bool \<Rightarrow> object_state" where
  "setReadOnly os ro = os\<lparr>readOnly := ro\<rparr>"

subsection \<open>Single bytes\<close>

definition read8 :: "mem_env \<Rightarrow> nat \<Rightarrow> expr mem_op" where
  "read8 M offset os h =
    (if \<not> isSharedConcrete (os_object os) then do {
       c \<leftarrow> isByteConcrete os offset;
       if c then do {
         b \<leftarrow> nth_opt (concreteStore os) offset;
         e \<leftarrow> const8 M b;
         Some (e, os, h) }
       else do {
         k \<leftarrow> getKnownSymbolic os offset;
         case k of
           Some e \<Rightarrow> Some (e, os, h)
         | None \<Rightarrow> do {
             f \<leftarrow> isByteFlushed os offset;
             assert_that f;
             ((root, ul), os, h) \<leftarrow> getUpdates M os h;
             i \<leftarrow> const32 M offset;
             e \<leftarrow> create_Read (menv M) root ul i;
             Some (e, os, h) } } }
     else do {
       e \<leftarrow> const8 M (host h (unat (mo_address (os_object os)) + offset));
       Some (e, os, h) })"

definition read8_sym :: "mem_env \<Rightarrow> expr \<Rightarrow> expr mem_op" where
  "read8_sym M offset os h = do {
    assert_that (\<not> isConstant offset);
    assert_that (\<not> isSharedConcrete (os_object os));
    let (base, sz) = fastRangeCheckOffset os offset;
    os \<leftarrow> flushRangeForRead M base sz os;
    ((root, ul), os, h) \<leftarrow> getUpdates M os h;
    i \<leftarrow> create_ZExt (menv M) offset 32;
    e \<leftarrow> create_Read (menv M) root ul i;
    Some (e, os, h) }"

definition write8 :: "nat \<Rightarrow> uint8_t \<Rightarrow> unit mem_op" where
  "write8 offset v os h =
    (if \<not> isSharedConcrete (os_object os) then do {
       st \<leftarrow> upd_opt (concreteStore os) offset v;
       os \<leftarrow> setKnownSymbolic (os\<lparr>concreteStore := st\<rparr>) offset None;
       os \<leftarrow> markByteConcrete os offset;
       os \<leftarrow> markByteUnflushed os offset;
       Some ((), os, h) }
     else Some ((), os, h\<lparr>host := (host h)(unat (mo_address (os_object os)) + offset := v)\<rparr>))"

definition write8_expr :: "mem_env \<Rightarrow> nat \<Rightarrow> expr \<Rightarrow> unit mem_op" where
  "write8_expr M offset val os h =
    (case dyn_const val of
       Some CE \<Rightarrow> do {
         v \<leftarrow> getZExtValue (menv M) 8 CE;
         write8 offset (ucast v) os h }
     | None \<Rightarrow> do {
         assert_that (\<not> isSharedConcrete (os_object os));
         os \<leftarrow> setKnownSymbolic os offset (Some val);
         os \<leftarrow> markByteSymbolic os offset;
         os \<leftarrow> markByteUnflushed os offset;
         Some ((), os, h) })"

definition write8_sym :: "mem_env \<Rightarrow> expr \<Rightarrow> expr \<Rightarrow> unit mem_op" where
  "write8_sym M offset val os h = do {
    assert_that (\<not> isConstant offset);
    assert_that (\<not> isSharedConcrete (os_object os));
    let (base, sz) = fastRangeCheckOffset os offset;
    os \<leftarrow> flushRangeForWrite M base sz os;
    i \<leftarrow> create_ZExt (menv M) offset 32;
    os \<leftarrow> extend os i val;
    Some ((), os, h) }"

subsection \<open>Several bytes\<close>

definition byte_index :: "mem_env \<Rightarrow> nat \<Rightarrow> nat \<Rightarrow> nat" where
  "byte_index M NumBytes i = (if isLittleEndian M then i else NumBytes - i - 1)"

text \<open>The loop of \<^verbatim>\<open>read\<close> for a function that reads the byte with a given index; \<^verbatim>\<open>Res\<close> starts as a null reference.\<close>

fun read_loop :: "mem_env \<Rightarrow> nat \<Rightarrow> (nat \<Rightarrow> expr mem_op) \<Rightarrow> nat list \<Rightarrow> expr option \<Rightarrow> expr mem_op" where
  "read_loop M n rd [] Res os h = do { e \<leftarrow> Res; Some (e, os, h) }"
| "read_loop M n rd (i # is) Res os h = do {
    let idx = byte_index M n i;
    (Byte, os, h) \<leftarrow> rd idx os h;
    Res \<leftarrow> (if idx \<noteq> 0 then do { e \<leftarrow> Res; create_Concat (menv M) Byte e } else Some Byte);
    read_loop M n rd is (Some Res) os h }"

definition read_const :: "mem_env \<Rightarrow> nat \<Rightarrow> nat \<Rightarrow> expr mem_op" where
  "read_const M offset width os h =
    (if width = 1 then do {
       (b, os, h) \<leftarrow> read8 M offset os h;
       e \<leftarrow> ExtractExpr_create (menv M) b 0 1;
       Some (e, os, h) }
     else do {
       let NumBytes = width div 8;
       assert_that (width = NumBytes * 8);
       read_loop M NumBytes (\<lambda>idx. read8 M (u32 (offset + idx))) [0..<NumBytes] None os h })"

definition os_read :: "mem_env \<Rightarrow> expr \<Rightarrow> nat \<Rightarrow> expr mem_op" where
  "os_read M offset width os h = do {
    offset \<leftarrow> create_ZExt (menv M) offset 32;
    case dyn_const offset of
      Some CE \<Rightarrow> do {
        v \<leftarrow> getZExtValue (menv M) 32 CE;
        read_const M (unat v) width os h }
    | None \<Rightarrow>
        if width = 1 then do {
          (b, os, h) \<leftarrow> read8_sym M offset os h;
          e \<leftarrow> ExtractExpr_create (menv M) b 0 1;
          Some (e, os, h) }
        else do {
          let NumBytes = width div 8;
          assert_that (width = NumBytes * 8);
          read_loop M NumBytes (\<lambda>idx os h. do {
              c \<leftarrow> const32 M idx;
              a \<leftarrow> create_Add (menv M) offset c;
              read8_sym M a os h }) [0..<NumBytes] None os h } }"

fun write_loop :: "mem_env \<Rightarrow> nat \<Rightarrow> (nat \<Rightarrow> nat \<Rightarrow> unit mem_op) \<Rightarrow> nat list \<Rightarrow> unit mem_op" where
  "write_loop M n wr [] os h = Some ((), os, h)"
| "write_loop M n wr (i # is) os h = do {
    (_, os, h) \<leftarrow> wr (byte_index M n i) i os h;
    write_loop M n wr is os h }"

definition write16 :: "mem_env \<Rightarrow> nat \<Rightarrow> 16 word \<Rightarrow> unit mem_op" where
  "write16 M offset v = write_loop M 2 (\<lambda>idx i. write8 (u32 (offset + idx)) (ucast (drop_bit (8 * i) v))) [0..<2]"

definition write32 :: "mem_env \<Rightarrow> nat \<Rightarrow> uint32_t \<Rightarrow> unit mem_op" where
  "write32 M offset v = write_loop M 4 (\<lambda>idx i. write8 (u32 (offset + idx)) (ucast (drop_bit (8 * i) v))) [0..<4]"

definition write64 :: "mem_env \<Rightarrow> nat \<Rightarrow> uint64_t \<Rightarrow> unit mem_op" where
  "write64 M offset v = write_loop M 8 (\<lambda>idx i. write8 (u32 (offset + idx)) (ucast (drop_bit (8 * i) v))) [0..<8]"

text \<open>The writes of \<^verbatim>\<open>write(unsigned, ref<Expr>)\<close> that are not those of a constant of at most 64 bits.\<close>

definition write_general :: "mem_env \<Rightarrow> nat \<Rightarrow> expr \<Rightarrow> unit mem_op" where
  "write_general M offset val os h =
    (let w = getWidth val in
     if w = 1 then do {
       v \<leftarrow> create_ZExt (menv M) val 8;
       write8_expr M offset v os h }
     else do {
       let NumBytes = w div 8;
       assert_that (w = NumBytes * 8);
       write_loop M NumBytes (\<lambda>idx i os h. do {
           b \<leftarrow> ExtractExpr_create (menv M) val (8 * i) 8;
           write8_expr M (u32 (offset + idx)) b os h }) [0..<NumBytes] os h })"

definition write_const :: "mem_env \<Rightarrow> nat \<Rightarrow> expr \<Rightarrow> unit mem_op" where
  "write_const M offset val os h =
    (case dyn_const val of
       Some CE \<Rightarrow>
         if ap_width CE \<le> 64 then do {
           v \<leftarrow> getZExtValue (menv M) 64 CE;
           (if ap_width CE = 1 \<or> ap_width CE = 8 then write8 offset (ucast v) os h
            else if ap_width CE = 16 then write16 M offset (ucast v) os h
            else if ap_width CE = 32 then write32 M offset (ucast v) os h
            else if ap_width CE = 64 then write64 M offset v os h
            else None) }
         else write_general M offset val os h
     | None \<Rightarrow> write_general M offset val os h)"

definition os_write :: "mem_env \<Rightarrow> expr \<Rightarrow> expr \<Rightarrow> unit mem_op" where
  "os_write M offset val os h = do {
    offset \<leftarrow> create_ZExt (menv M) offset 32;
    case dyn_const offset of
      Some CE \<Rightarrow> do {
        v \<leftarrow> getZExtValue (menv M) 32 CE;
        write_const M (unat v) val os h }
    | None \<Rightarrow>
        let w = getWidth val in
        if w = 1 then do {
          v \<leftarrow> create_ZExt (menv M) val 8;
          write8_sym M offset v os h }
        else do {
          let NumBytes = w div 8;
          assert_that (w = NumBytes * 8);
          write_loop M NumBytes (\<lambda>idx i os h. do {
              c \<leftarrow> const32 M idx;
              a \<leftarrow> create_Add (menv M) offset c;
              b \<leftarrow> ExtractExpr_create (menv M) val (8 * i) 8;
              write8_sym M a b os h }) [0..<NumBytes] os h } }"

end
