(* ===== verification/Memory_Correct.thy ===== *)
theory Memory_Correct
  imports Memory Expr_Arith
begin

text \<open>
  An object state refines an array of bytes: every read returns an expression with the value of the
  bytes and every write changes exactly the bytes it names, whichever of the three places holds them.
\<close>

declare One_nat_def [simp del]

subsection \<open>Masks and bytes\<close>

text \<open>A missing mask counts as one with all bits set.\<close>

definition mset_bit :: "bitarray option \<Rightarrow> nat \<Rightarrow> bool" where
  "mset_bit m j \<longleftrightarrow> (case m of None \<Rightarrow> True | Some b \<Rightarrow> ba_get b j = Some True)"

definition mask_ok :: "nat \<Rightarrow> bitarray option \<Rightarrow> bool" where
  "mask_ok sz m \<longleftrightarrow> (\<forall>b. m = Some b \<longrightarrow> length b = words_for sz)"

abbreviation conc :: "object_state \<Rightarrow> nat \<Rightarrow> bool" where
  "conc os j \<equiv> mset_bit (concreteMask os) j"

abbreviation unflushed :: "object_state \<Rightarrow> nat \<Rightarrow> bool" where
  "unflushed os j \<equiv> mset_bit (flushMask os) j"

definition ksym :: "object_state \<Rightarrow> nat \<Rightarrow> expr option" where
  "ksym os j = (case knownSymbolics os of None \<Rightarrow> None | Some ks \<Rightarrow> ks ! j)"

definition upd_val :: "contents \<Rightarrow> object_state \<Rightarrow> nat \<Rightarrow> int" where
  "upd_val \<alpha> os j = eval_updates \<alpha> (upd_head os) (int j)
    (case upd_root os of None \<Rightarrow> 0 | Some a \<Rightarrow> initial_value \<alpha> a (int j))"

definition byte_val :: "contents \<Rightarrow> object_state \<Rightarrow> nat \<Rightarrow> int" where
  "byte_val \<alpha> os j =
    (if conc os j then uint (concreteStore os ! j)
     else case ksym os j of Some e \<Rightarrow> eval \<alpha> e | None \<Rightarrow> upd_val \<alpha> os j)"

definition os_shape :: "object_state \<Rightarrow> bool" where
  "os_shape os \<longleftrightarrow> os_size os + 31 < 2 ^ 32 \<and> length (concreteStore os) = os_size os \<and>
    mask_ok (os_size os) (concreteMask os) \<and> mask_ok (os_size os) (flushMask os) \<and>
    (\<forall>ks. knownSymbolics os = Some ks \<longrightarrow> length ks = os_size os)"

text \<open>The indices of the writes that \<^verbatim>\<open>getUpdates\<close> moves into the array are in bounds.\<close>

definition writes_in :: "nat \<Rightarrow> update_node \<Rightarrow> bool" where
  "writes_in sz us \<longleftrightarrow> (\<forall>(x, v) \<in> set (Writes us). \<forall>c. dyn_const x = Some c \<longrightarrow> ap_val c < int sz)"

definition os_inv :: "expr_env \<Rightarrow> contents \<Rightarrow> object_state \<Rightarrow> bool" where
  "os_inv E \<alpha> os \<longleftrightarrow> os_shape os \<and> updates_ok E \<alpha> (upd_head os) \<and> writes_in (os_size os) (upd_head os) \<and>
    (\<forall>a. upd_root os = Some a \<longrightarrow> wf_array a \<and> arr_size a = os_size os) \<and>
    (\<forall>j < os_size os. \<forall>e. ksym os j = Some e \<longrightarrow> \<not> conc os j \<and> expr_ok E \<alpha> e \<and> getWidth e = 8) \<and>
    (\<forall>j < os_size os. unflushed os j \<longrightarrow> conc os j \<or> ksym os j \<noteq> None) \<and>
    (\<forall>j < os_size os. \<not> unflushed os j \<longrightarrow> upd_val \<alpha> os j = byte_val \<alpha> os j)"

lemma os_invD:
  assumes "os_inv E \<alpha> os"
  shows "os_shape os" "updates_ok E \<alpha> (upd_head os)" "writes_in (os_size os) (upd_head os)"
    "upd_root os = Some a \<Longrightarrow> wf_array a \<and> arr_size a = os_size os"
    "j < os_size os \<Longrightarrow> ksym os j = Some e \<Longrightarrow> \<not> conc os j \<and> expr_ok E \<alpha> e \<and> getWidth e = 8"
    "j < os_size os \<Longrightarrow> unflushed os j \<Longrightarrow> conc os j \<or> ksym os j \<noteq> None"
    "j < os_size os \<Longrightarrow> \<not> unflushed os j \<Longrightarrow> upd_val \<alpha> os j = byte_val \<alpha> os j"
  using assms unfolding os_inv_def by blast+

lemma os_shapeD:
  assumes "os_shape os"
  shows "os_size os < 2 ^ 32" "length (concreteStore os) = os_size os" "mask_ok (os_size os) (concreteMask os)"
    "mask_ok (os_size os) (flushMask os)" "knownSymbolics os = Some ks \<Longrightarrow> length ks = os_size os" "os_size os + 31 < 2 ^ 32"
  using assms unfolding os_shape_def by simp_all

lemma mset_bit_simps [simp]: "mset_bit None j" "mset_bit (Some b) j \<longleftrightarrow> ba_get b j = Some True"
  by (simp_all add: mset_bit_def)

lemma mask_get: "mask_ok sz (Some b) \<Longrightarrow> j < sz \<Longrightarrow> ba_get b j = Some (mset_bit (Some b) j)"
  by (simp add: mask_ok_def ba_get_eq ba_in)

lemma isByteConcrete_eq: "os_shape os \<Longrightarrow> j < os_size os \<Longrightarrow> isByteConcrete os j = Some (conc os j)"
  using mask_get [of "os_size os" _ j] by (auto simp: isByteConcrete_def os_shape_def split: option.split)

lemma isByteFlushed_eq: "os_shape os \<Longrightarrow> j < os_size os \<Longrightarrow> isByteFlushed os j = Some (\<not> unflushed os j)"
  using mask_get [of "os_size os" _ j] by (auto simp: isByteFlushed_def os_shape_def split: option.split)

lemma getKnownSymbolic_eq: "os_shape os \<Longrightarrow> j < os_size os \<Longrightarrow> getKnownSymbolic os j = Some (ksym os j)"
  by (auto simp: getKnownSymbolic_def ksym_def os_shape_def nth_opt_in split: option.split)

lemma mset_set:
  assumes "mask_ok sz (Some b)" "i < sz"
  obtains b' where "ba_set b i = Some b'" "mask_ok sz (Some b')" "\<And>j. j < sz \<Longrightarrow> mset_bit (Some b') j \<longleftrightarrow> j = i \<or> mset_bit (Some b) j"
  using ba_set_spec [of b sz i] assms by (auto simp: mask_ok_def)

lemma mset_unset:
  assumes "mask_ok sz (Some b)" "i < sz"
  obtains b' where "ba_unset b i = Some b'" "mask_ok sz (Some b')" "\<And>j. j < sz \<Longrightarrow> mset_bit (Some b') j \<longleftrightarrow> j \<noteq> i \<and> mset_bit (Some b) j"
  using ba_unset_spec [of b sz i] assms by (auto simp: mask_ok_def)

lemma mset_new:
  assumes "sz + 31 < 2 ^ 32"
  shows "mask_ok sz (Some (BitArray_new sz v))" and "j < sz \<Longrightarrow> mset_bit (Some (BitArray_new sz v)) j \<longleftrightarrow> v"
  using BitArray_new_spec [OF assms] by (auto simp: mask_ok_def)

lemma markByteConcrete_ok:
  assumes "os_shape os" "i < os_size os"
  obtains m where "markByteConcrete os i = Some (os\<lparr>concreteMask := m\<rparr>)" "mask_ok (os_size os) m"
    "\<And>j. j < os_size os \<Longrightarrow> mset_bit m j \<longleftrightarrow> j = i \<or> conc os j"
proof (cases "concreteMask os")
  case None
  then show ?thesis using that [of None] by (simp add: markByteConcrete_def mask_ok_def)
next
  case (Some b)
  obtain b' where "ba_set b i = Some b'" "mask_ok (os_size os) (Some b')"
    "\<And>j. j < os_size os \<Longrightarrow> mset_bit (Some b') j \<longleftrightarrow> j = i \<or> mset_bit (Some b) j"
    using mset_set [of "os_size os" b i] os_shapeD(3) [OF assms(1)] assms(2) Some by metis
  then show ?thesis using that [of "Some b'"] Some by (simp add: markByteConcrete_def)
qed

lemma markByteUnflushed_ok:
  assumes "os_shape os" "i < os_size os"
  obtains m where "markByteUnflushed os i = Some (os\<lparr>flushMask := m\<rparr>)" "mask_ok (os_size os) m"
    "\<And>j. j < os_size os \<Longrightarrow> mset_bit m j \<longleftrightarrow> j = i \<or> unflushed os j"
proof (cases "flushMask os")
  case None
  then show ?thesis using that [of None] by (simp add: markByteUnflushed_def mask_ok_def)
next
  case (Some b)
  obtain b' where "ba_set b i = Some b'" "mask_ok (os_size os) (Some b')"
    "\<And>j. j < os_size os \<Longrightarrow> mset_bit (Some b') j \<longleftrightarrow> j = i \<or> mset_bit (Some b) j"
    using mset_set [of "os_size os" b i] os_shapeD(4) [OF assms(1)] assms(2) Some by metis
  then show ?thesis using that [of "Some b'"] Some by (simp add: markByteUnflushed_def)
qed

lemma markByteSymbolic_ok:
  assumes "os_shape os" "i < os_size os"
  obtains m where "markByteSymbolic os i = Some (os\<lparr>concreteMask := m\<rparr>)" "mask_ok (os_size os) m"
    "\<And>j. j < os_size os \<Longrightarrow> mset_bit m j \<longleftrightarrow> j \<noteq> i \<and> conc os j"
proof -
  define b where "b = (case concreteMask os of None \<Rightarrow> BitArray_new (os_size os) True | Some b \<Rightarrow> b)"
  have b: "mask_ok (os_size os) (Some b)" "\<And>j. j < os_size os \<Longrightarrow> mset_bit (Some b) j = conc os j"
    using os_shapeD(3) [OF assms(1)] mset_new [OF os_shapeD(6) [OF assms(1)]] by (auto simp: b_def split: option.splits)
  obtain b' where "ba_unset b i = Some b'" "mask_ok (os_size os) (Some b')"
    "\<And>j. j < os_size os \<Longrightarrow> mset_bit (Some b') j \<longleftrightarrow> j \<noteq> i \<and> mset_bit (Some b) j"
    using mset_unset [OF b(1) assms(2)] by metis
  then show ?thesis using that [of "Some b'"] b(2) by (simp add: markByteSymbolic_def b_def)
qed

lemma flush_unset_ok:
  assumes "os_shape os" "i < os_size os" "flushMask os \<noteq> None"
  obtains m where "markByteFlushed os i = Some (os\<lparr>flushMask := m\<rparr>)" "mask_ok (os_size os) m" "m \<noteq> None"
    "\<And>j. j < os_size os \<Longrightarrow> mset_bit m j \<longleftrightarrow> j \<noteq> i \<and> unflushed os j"
proof -
  obtain b where b: "flushMask os = Some b" using assms(3) by blast
  obtain b' where "ba_unset b i = Some b'" "mask_ok (os_size os) (Some b')"
    "\<And>j. j < os_size os \<Longrightarrow> mset_bit (Some b') j \<longleftrightarrow> j \<noteq> i \<and> mset_bit (Some b) j"
    using mset_unset [of "os_size os" b i] os_shapeD(4) [OF assms(1)] assms(2) b by metis
  then show ?thesis using that [of "Some b'"] b by (simp add: markByteFlushed_def)
qed

lemma setKnownSymbolic_ok:
  assumes "os_shape os" "i < os_size os"
  obtains k where "setKnownSymbolic os i v = Some (os\<lparr>knownSymbolics := k\<rparr>)" "\<And>ks. k = Some ks \<Longrightarrow> length ks = os_size os"
    "\<And>j. j < os_size os \<Longrightarrow> ksym (os\<lparr>knownSymbolics := k\<rparr>) j = (if j = i then v else ksym os j)"
proof (cases "knownSymbolics os")
  case None
  show ?thesis
  proof (cases v)
    case None
    with \<open>knownSymbolics os = None\<close> show ?thesis using that [of None] by (simp add: setKnownSymbolic_def ksym_def)
  next
    case (Some e)
    with None show ?thesis using that [of "Some ((replicate (os_size os) None)[i := v])"] assms(2)
      by (simp add: setKnownSymbolic_def ksym_def upd_opt_in nth_list_update)
  qed
next
  case (Some ks)
  have "length ks = os_size os" using os_shapeD(5) [OF assms(1) Some] .
  then show ?thesis using that [of "Some (ks[i := v])"] assms(2) Some
    by (simp add: setKnownSymbolic_def ksym_def upd_opt_in nth_list_update)
qed

lemma frame_simps [simp]:
  "ksym (os\<lparr>concreteMask := m\<rparr>) j = ksym os j" "ksym (os\<lparr>flushMask := m\<rparr>) j = ksym os j"
  "ksym (os\<lparr>concreteStore := st\<rparr>) j = ksym os j" "ksym (os\<lparr>upd_head := u\<rparr>) j = ksym os j" "ksym (os\<lparr>upd_root := r\<rparr>) j = ksym os j"
  "upd_val \<alpha> (os\<lparr>concreteMask := m\<rparr>) j = upd_val \<alpha> os j" "upd_val \<alpha> (os\<lparr>flushMask := m\<rparr>) j = upd_val \<alpha> os j"
  "upd_val \<alpha> (os\<lparr>concreteStore := st\<rparr>) j = upd_val \<alpha> os j" "upd_val \<alpha> (os\<lparr>knownSymbolics := k\<rparr>) j = upd_val \<alpha> os j"
  by (simp_all add: ksym_def upd_val_def)

lemma flags_frame [simp]:
  "ksym (os\<lparr>copyOnWriteOwner := c\<rparr>) = ksym os" "ksym (os\<lparr>readOnly := r\<rparr>) = ksym os"
  "upd_val \<alpha> (os\<lparr>copyOnWriteOwner := c\<rparr>) = upd_val \<alpha> os" "upd_val \<alpha> (os\<lparr>readOnly := r\<rparr>) = upd_val \<alpha> os"
  "os_shape (os\<lparr>copyOnWriteOwner := c\<rparr>) = os_shape os" "os_shape (os\<lparr>readOnly := r\<rparr>) = os_shape os"
  by (simp_all add: ksym_def [abs_def] upd_val_def [abs_def] os_shape_def)

lemma flags_frame_bytes [simp]:
  "byte_val \<alpha> (os\<lparr>copyOnWriteOwner := c\<rparr>) = byte_val \<alpha> os" "byte_val \<alpha> (os\<lparr>readOnly := r\<rparr>) = byte_val \<alpha> os"
  by (simp_all add: byte_val_def [abs_def] cong: if_cong option.case_cong)

lemma flags_frame_inv [simp]:
  "os_inv E \<alpha> (os\<lparr>copyOnWriteOwner := c\<rparr>) = os_inv E \<alpha> os" "os_inv E \<alpha> (os\<lparr>readOnly := r\<rparr>) = os_inv E \<alpha> os"
  by (simp_all add: os_inv_def)

text \<open>The object state after an operation: the invariant holds and the bytes are those of \<open>f\<close>.\<close>

definition after :: "expr_env \<Rightarrow> contents \<Rightarrow> object_state \<Rightarrow> (nat \<Rightarrow> int) \<Rightarrow> object_state \<Rightarrow> bool" where
  "after E \<alpha> os f os' \<longleftrightarrow> os_inv E \<alpha> os' \<and> os_size os' = os_size os \<and> os_object os' = os_object os \<and>
    (\<forall>j < os_size os. byte_val \<alpha> os' j = f j)"

lemma afterD:
  assumes "after E \<alpha> os f os'"
  shows "os_inv E \<alpha> os'" "os_size os' = os_size os" "os_object os' = os_object os" "j < os_size os \<Longrightarrow> byte_val \<alpha> os' j = f j"
  using assms by (auto simp: after_def)

lemma after_trans: "after E \<alpha> os f os' \<Longrightarrow> after E \<alpha> os' g os'' \<Longrightarrow> (\<And>j. j < os_size os \<Longrightarrow> g j = k j) \<Longrightarrow> after E \<alpha> os k os''"
  by (auto simp: after_def)

lemma after_refl: "os_inv E \<alpha> os \<Longrightarrow> after E \<alpha> os (byte_val \<alpha> os) os"
  by (simp add: after_def)

text \<open>A change of the masks, the store and the table at one offset, which is not flushed afterwards.\<close>

lemma set_byte_ok:
  assumes inv: "os_inv E \<alpha> os" and i: "i < os_size os"
    and os': "os' = os\<lparr>concreteStore := st, knownSymbolics := k, concreteMask := cm, flushMask := fm\<rparr>"
    and len: "length st = os_size os" "\<And>ks. k = Some ks \<Longrightarrow> length ks = os_size os" "mask_ok (os_size os) cm" "mask_ok (os_size os) fm"
    and st: "\<And>j. j < os_size os \<Longrightarrow> j \<noteq> i \<Longrightarrow> st ! j = concreteStore os ! j"
    and k: "\<And>j. j < os_size os \<Longrightarrow> ksym os' j = (if j = i then v else ksym os j)"
    and cm: "\<And>j. j < os_size os \<Longrightarrow> mset_bit cm j = (if j = i then v = None else conc os j)"
    and fm: "\<And>j. j < os_size os \<Longrightarrow> mset_bit fm j \<longleftrightarrow> j = i \<or> unflushed os j"
    and v: "\<And>e. v = Some e \<Longrightarrow> expr_ok E \<alpha> e \<and> getWidth e = 8"
    and x: "x = (case v of None \<Rightarrow> uint (st ! i) | Some e \<Rightarrow> eval \<alpha> e)"
  shows "after E \<alpha> os ((byte_val \<alpha> os)(i := x)) os'"
proof -
  note d = os_invD [OF inv]
  have u: "upd_val \<alpha> os' j = upd_val \<alpha> os j" for j by (simp add: os' upd_val_def)
  have val: "byte_val \<alpha> os' j = (if j = i then x else byte_val \<alpha> os j)" if "j < os_size os" for j
    using that k [OF that] cm [OF that] st [OF that] u [of j] x
    by (auto simp: byte_val_def os' split: option.split)
  have "os_inv E \<alpha> os'"
    unfolding os_inv_def
  proof (intro conjI allI impI)
    show "os_shape os'" using os_shapeD(6) [OF d(1)] len by (simp add: os_shape_def os')
    fix j assume j: "j < os_size os'"
    then have j': "j < os_size os" by (simp add: os')
    show "upd_val \<alpha> os' j = byte_val \<alpha> os' j" if "\<not> unflushed os' j"
      using that fm [OF j'] d(7) [OF j'] val [OF j'] u by (auto simp: os')
    show "conc os' j \<or> ksym os' j \<noteq> None" if "unflushed os' j"
      using that fm [OF j'] cm [OF j'] k [OF j'] d(6) [OF j'] by (auto simp: os')
    fix e assume "ksym os' j = Some e"
    then have "(if j = i then v else ksym os j) = Some e" using k [OF j'] by simp
    then show "\<not> conc os' j" "expr_ok E \<alpha> e" "getWidth e = 8"
      using cm [OF j'] v d(5) [OF j'] by (auto simp: os' split: if_splits)
  qed (use d in \<open>auto simp: os'\<close>)
  then show ?thesis using val by (simp add: after_def os')
qed

lemma write8_ok:
  assumes "os_inv E \<alpha> os" "i < os_size os" "\<not> isSharedConcrete (os_object os)"
  shows "\<exists>os'. write8 i v os h = Some ((), os', h) \<and> after E \<alpha> os ((byte_val \<alpha> os)(i := uint v)) os'"
proof -
  note sh = os_invD(1) [OF assms(1)]
  let ?st = "(concreteStore os)[i := v]"
  let ?os1 = "os\<lparr>concreteStore := ?st\<rparr>"
  have st: "upd_opt (concreteStore os) i v = Some ?st" using os_shapeD(2) [OF sh] assms(2) by (simp add: upd_opt_in)
  have sh1: "os_shape ?os1" using sh by (simp add: os_shape_def)
  obtain k where k: "setKnownSymbolic ?os1 i None = Some (?os1\<lparr>knownSymbolics := k\<rparr>)" "\<And>ks. k = Some ks \<Longrightarrow> length ks = os_size ?os1"
    "\<And>j. j < os_size ?os1 \<Longrightarrow> ksym (?os1\<lparr>knownSymbolics := k\<rparr>) j = (if j = i then None else ksym ?os1 j)"
    using setKnownSymbolic_ok [OF sh1] assms(2) by simp metis
  let ?os2 = "?os1\<lparr>knownSymbolics := k\<rparr>"
  have sh2: "os_shape ?os2" using sh1 k(2) by (simp add: os_shape_def)
  obtain cm where cm: "markByteConcrete ?os2 i = Some (?os2\<lparr>concreteMask := cm\<rparr>)" "mask_ok (os_size ?os2) cm"
    "\<And>j. j < os_size ?os2 \<Longrightarrow> mset_bit cm j \<longleftrightarrow> j = i \<or> conc ?os2 j"
    using markByteConcrete_ok [OF sh2] assms(2) by simp metis
  let ?os3 = "?os2\<lparr>concreteMask := cm\<rparr>"
  have sh3: "os_shape ?os3" using sh2 cm(2) by (simp add: os_shape_def)
  obtain fm where fm: "markByteUnflushed ?os3 i = Some (?os3\<lparr>flushMask := fm\<rparr>)" "mask_ok (os_size ?os3) fm"
    "\<And>j. j < os_size ?os3 \<Longrightarrow> mset_bit fm j \<longleftrightarrow> j = i \<or> unflushed ?os3 j"
    using markByteUnflushed_ok [OF sh3] assms(2) by simp metis
  have "after E \<alpha> os ((byte_val \<alpha> os)(i := uint v)) (?os3\<lparr>flushMask := fm\<rparr>)"
    by (rule set_byte_ok [where v = None and st = ?st and k = k and cm = cm and fm = fm, OF assms(1,2)])
      (use k(2,3) cm(2,3) fm(2,3) os_shapeD(2) [OF sh] assms(2) in \<open>auto simp: ksym_def\<close>)
  then show ?thesis using st k(1) cm(1) fm(1) assms(3) by (simp add: write8_def upd_opt_in)
qed

lemma write8_known_ok:
  assumes "os_inv (menv M) \<alpha> os" "i < os_size os" "\<not> isSharedConcrete (os_object os)"
    "dyn_const e = None" "expr_ok (menv M) \<alpha> e" "getWidth e = 8"
  shows "\<exists>os'. write8_expr M i e os h = Some ((), os', h) \<and> after (menv M) \<alpha> os ((byte_val \<alpha> os)(i := eval \<alpha> e)) os'"
proof -
  note sh = os_invD(1) [OF assms(1)]
  obtain k where k: "setKnownSymbolic os i (Some e) = Some (os\<lparr>knownSymbolics := k\<rparr>)" "\<And>ks. k = Some ks \<Longrightarrow> length ks = os_size os"
    "\<And>j. j < os_size os \<Longrightarrow> ksym (os\<lparr>knownSymbolics := k\<rparr>) j = (if j = i then Some e else ksym os j)"
    using setKnownSymbolic_ok [OF sh assms(2), of "Some e"] by metis
  let ?os2 = "os\<lparr>knownSymbolics := k\<rparr>"
  have sh2: "os_shape ?os2" using sh k(2) by (simp add: os_shape_def)
  obtain cm where cm: "markByteSymbolic ?os2 i = Some (?os2\<lparr>concreteMask := cm\<rparr>)" "mask_ok (os_size ?os2) cm"
    "\<And>j. j < os_size ?os2 \<Longrightarrow> mset_bit cm j \<longleftrightarrow> j \<noteq> i \<and> conc ?os2 j"
    using markByteSymbolic_ok [OF sh2] assms(2) by simp metis
  let ?os3 = "?os2\<lparr>concreteMask := cm\<rparr>"
  have sh3: "os_shape ?os3" using sh2 cm(2) by (simp add: os_shape_def)
  obtain fm where fm: "markByteUnflushed ?os3 i = Some (?os3\<lparr>flushMask := fm\<rparr>)" "mask_ok (os_size ?os3) fm"
    "\<And>j. j < os_size ?os3 \<Longrightarrow> mset_bit fm j \<longleftrightarrow> j = i \<or> unflushed ?os3 j"
    using markByteUnflushed_ok [OF sh3] assms(2) by simp metis
  have "after (menv M) \<alpha> os ((byte_val \<alpha> os)(i := eval \<alpha> e)) (?os3\<lparr>flushMask := fm\<rparr>)"
    by (rule set_byte_ok [where v = "Some e" and st = "concreteStore os" and k = k and cm = cm and fm = fm, OF assms(1,2)])
      (use k(2,3) cm(2,3) fm(2,3) os_shapeD(2) [OF sh] assms in \<open>auto simp: ksym_def\<close>)
  then show ?thesis using k(1) cm(1) fm(1) assms(3,4) by (simp add: write8_expr_def)
qed

subsection \<open>Update lists\<close>

text \<open>The effect of a list of writes, the oldest first, on the value at one index.\<close>

definition apply_writes :: "contents \<Rightarrow> (expr \<times> expr) list \<Rightarrow> int \<Rightarrow> int \<Rightarrow> int" where
  "apply_writes \<alpha> ws i d = fold (\<lambda>(x, v) d. if eval \<alpha> x = i then eval \<alpha> v else d) ws d"

lemma eval_updates_Writes: "eval_updates \<alpha> us i d = apply_writes \<alpha> (Writes us) i d"
  by (induction us rule: Writes.induct) (simp_all add: apply_writes_def)

definition write_ok :: "expr_env \<Rightarrow> contents \<Rightarrow> expr \<times> expr \<Rightarrow> bool" where
  "write_ok E \<alpha> w \<longleftrightarrow> expr_ok E \<alpha> (fst w) \<and> getWidth (fst w) = 32 \<and> expr_ok E \<alpha> (snd w) \<and> getWidth (snd w) = 8"

lemma updates_ok_Writes: "updates_ok E \<alpha> us \<longleftrightarrow> (\<forall>w \<in> set (Writes us). write_ok E \<alpha> w)"
  by (induction us rule: Writes.induct) (auto simp: write_ok_def)

lemma extend_ok: "getWidth v = 8 \<Longrightarrow> extend os x v = Some (os\<lparr>upd_head := UpdateNode x v (upd_head os)\<rparr>)"
  by (simp add: extend_def new_UpdateNode_def)

lemma extend_all_ok:
  assumes "\<forall>w \<in> set ws. getWidth (snd w) = 8"
  shows "\<exists>us. extend_all os ws = Some (os\<lparr>upd_head := us\<rparr>) \<and> Writes us = Writes (upd_head os) @ ws"
  using assms
proof (induction ws arbitrary: os)
  case Nil
  show ?case by (rule exI [of _ "upd_head os"]) simp
next
  case (Cons w ws)
  obtain x v where w: "w = (x, v)" by (cases w)
  then have e: "extend os x v = Some (os\<lparr>upd_head := UpdateNode x v (upd_head os)\<rparr>)" using Cons.prems by (simp add: extend_ok)
  show ?case using Cons.IH [of "os\<lparr>upd_head := UpdateNode x v (upd_head os)\<rparr>"] Cons.prems e w by auto
qed

text \<open>Moving the value of one byte to the update list.\<close>

lemma flush_step:
  assumes inv: "os_inv E \<alpha> os" and i: "i < os_size os"
    and eq: "os_size os' = os_size os" "os_object os' = os_object os" "concreteStore os' = concreteStore os" "upd_root os' = upd_root os"
    and sh: "os_shape os'" and ok: "updates_ok E \<alpha> (upd_head os')" "writes_in (os_size os) (upd_head os')"
    and upd: "\<And>j. j < os_size os \<Longrightarrow> upd_val \<alpha> os' j = (if j = i then byte_val \<alpha> os i else upd_val \<alpha> os j)"
    and fm: "\<And>j. j < os_size os \<Longrightarrow> unflushed os' j \<longleftrightarrow> j \<noteq> i \<and> unflushed os j"
    and same: "\<And>j. j < os_size os \<Longrightarrow> j \<noteq> i \<Longrightarrow> ksym os' j = ksym os j \<and> conc os' j = conc os j"
    and here: "ksym os' i = ksym os i \<and> conc os' i = conc os i \<or> ksym os' i = None \<and> \<not> conc os' i"
  shows "after E \<alpha> os (byte_val \<alpha> os) os'"
proof -
  note d = os_invD [OF inv]
  have same_or: "ksym os' j = ksym os j \<and> conc os' j = conc os j \<or> j = i \<and> ksym os' j = None \<and> \<not> conc os' j" if "j < os_size os" for j
    using same [OF that] here by (cases "j = i") auto
  have val: "byte_val \<alpha> os' j = byte_val \<alpha> os j" if j: "j < os_size os" for j
  proof (cases "j = i")
    case True
    then show ?thesis using same_or [OF j] upd [OF j] by (auto simp: byte_val_def eq split: option.split)
  next
    case False
    then show ?thesis using same [OF j] upd [OF j] by (auto simp: byte_val_def eq split: option.split)
  qed
  have "os_inv E \<alpha> os'"
    unfolding os_inv_def
  proof (intro conjI allI impI)
    fix j assume "j < os_size os'"
    then have j: "j < os_size os" by (simp add: eq)
    show "upd_val \<alpha> os' j = byte_val \<alpha> os' j" if "\<not> unflushed os' j"
      using that fm [OF j] upd [OF j] val [OF j] d(7) [OF j] by auto
    show "conc os' j \<or> ksym os' j \<noteq> None" if "unflushed os' j" using that fm [OF j] same [OF j] d(6) [OF j] by auto
    fix e assume "ksym os' j = Some e"
    then have "ksym os j = Some e" "conc os' j = conc os j" using same_or [OF j] by auto
    then show "\<not> conc os' j" "expr_ok E \<alpha> e" "getWidth e = 8" using d(5) [OF j] by auto
  qed (use sh ok eq d(4) in auto)
  then show ?thesis using val by (simp add: after_def eq)
qed

lemma upd_val_extend:
  "upd_val \<alpha> (os\<lparr>upd_head := UpdateNode (ConstantExpr (APInt w (int i))) v us\<rparr>) j =
    (if j = i then eval \<alpha> v else upd_val \<alpha> (os\<lparr>upd_head := us\<rparr>) j)"
  by (simp add: upd_val_def)

lemma extend_const_ok:
  assumes "os_inv E \<alpha> os" "i < os_size os" "expr_ok E \<alpha> v" "getWidth v = 8"
  shows "updates_ok E \<alpha> (UpdateNode (ConstantExpr (APInt 32 (int i))) v (upd_head os))"
    "writes_in (os_size os) (UpdateNode (ConstantExpr (APInt 32 (int i))) v (upd_head os))"
  using assms os_invD(2,3) [OF assms(1)] os_shapeD(1) [OF os_invD(1) [OF assms(1)]]
  by (auto simp: updates_ok_Writes write_ok_def writes_in_def wf_ap_def)

definition flushes :: "expr_env \<Rightarrow> contents \<Rightarrow> object_state \<Rightarrow> nat \<Rightarrow> object_state \<Rightarrow> bool" where
  "flushes E \<alpha> os i os' \<longleftrightarrow> after E \<alpha> os (byte_val \<alpha> os) os' \<and> flushMask os' \<noteq> None \<and>
    (\<forall>j < os_size os. unflushed os' j \<longleftrightarrow> j \<noteq> i \<and> unflushed os j)"

definition in_updates :: "object_state \<Rightarrow> nat \<Rightarrow> bool" where
  "in_updates os j \<longleftrightarrow> \<not> conc os j \<and> ksym os j = None"

text \<open>What an operation returns that reads, and one that writes.\<close>

definition reads_os :: "expr_env \<Rightarrow> contents \<Rightarrow> object_state \<Rightarrow> mem_heap \<Rightarrow> nat \<Rightarrow> int \<Rightarrow> (expr \<times> object_state \<times> mem_heap) may_abort \<Rightarrow> bool" where
  "reads_os E \<alpha> os h w v r \<longleftrightarrow> (\<exists>e os' h'. r = Some (e, os', h') \<and> expr_ok E \<alpha> e \<and> getWidth e = w \<and> eval \<alpha> e = v \<and>
    after E \<alpha> os (byte_val \<alpha> os) os' \<and> host h' = host h)"

definition writes_os :: "expr_env \<Rightarrow> contents \<Rightarrow> object_state \<Rightarrow> mem_heap \<Rightarrow> (nat \<Rightarrow> int) \<Rightarrow> (unit \<times> object_state \<times> mem_heap) may_abort \<Rightarrow> bool" where
  "writes_os E \<alpha> os h f r \<longleftrightarrow> (\<exists>os' h'. r = Some ((), os', h') \<and> after E \<alpha> os f os' \<and> host h' = host h)"

lemma new_flushMask_ok:
  assumes "os_inv E \<alpha> os"
  shows "after E \<alpha> os (byte_val \<alpha> os) (new_flushMask os)" "flushMask (new_flushMask os) \<noteq> None"
    "j < os_size os \<Longrightarrow> unflushed (new_flushMask os) j = unflushed os j"
proof -
  have u: "unflushed (new_flushMask os) j = unflushed os j" if "j < os_size os" for j
    using mset_new(2) [OF os_shapeD(6) [OF os_invD(1) [OF assms]] that, where v = True] by (auto simp: new_flushMask_def)
  have bv: "byte_val \<alpha> (new_flushMask os) j = byte_val \<alpha> os j" for j
    by (simp add: new_flushMask_def byte_val_def split: option.split)
  have same: "os_size (new_flushMask os) = os_size os" "os_object (new_flushMask os) = os_object os" "concreteMask (new_flushMask os) = concreteMask os"
    "upd_head (new_flushMask os) = upd_head os" "upd_root (new_flushMask os) = upd_root os"
    "\<And>j. ksym (new_flushMask os) j = ksym os j" "\<And>j. upd_val \<alpha> (new_flushMask os) j = upd_val \<alpha> os j"
    by (simp_all add: new_flushMask_def)
  have "os_shape (new_flushMask os)" using os_invD(1) [OF assms] mset_new(1) [OF os_shapeD(6) [OF os_invD(1) [OF assms]]] by (auto simp: os_shape_def new_flushMask_def)
  then have "os_inv E \<alpha> (new_flushMask os)" using assms u by (simp add: os_inv_def same bv)
  then show "after E \<alpha> os (byte_val \<alpha> os) (new_flushMask os)" using bv by (simp add: after_def same)
  show "flushMask (new_flushMask os) \<noteq> None" by (simp add: new_flushMask_def)
  show "j < os_size os \<Longrightarrow> unflushed (new_flushMask os) j = unflushed os j" using u .
qed

text \<open>The number that \<open>n\<close> bytes stand for, the lowest first, and its bytes.\<close>

definition le_val :: "(nat \<Rightarrow> int) \<Rightarrow> nat \<Rightarrow> int" where
  "le_val f n = (\<Sum>i<n. f i * 2 ^ (8 * i))"

lemma le_val_Suc [simp]: "le_val f 0 = 0" "le_val f (Suc n) = le_val f n + f n * 2 ^ (8 * n)"
  by (simp_all add: le_val_def)

lemma le_val_bytes: "le_val (\<lambda>i. v div 2 ^ (8 * i) mod 256) n = v mod 2 ^ (8 * n)"
proof (induction n)
  case (Suc n)
  have "v mod (2 ^ (8 * n) * 256) = 2 ^ (8 * n) * (v div 2 ^ (8 * n) mod 256) + v mod 2 ^ (8 * n)" by (rule zmod_zmult2_eq) simp
  then show ?case using Suc by (simp add: power_add mult.commute)
qed simp

lemma reads_osI:
  "r = Some (e, os', h') \<Longrightarrow> expr_ok E \<alpha> e \<Longrightarrow> getWidth e = w \<Longrightarrow> eval \<alpha> e = v \<Longrightarrow> after E \<alpha> os (byte_val \<alpha> os) os' \<Longrightarrow>
    host h' = host h \<Longrightarrow> reads_os E \<alpha> os h w v r"
  by (auto simp: reads_os_def)

lemma reads_osE:
  assumes "reads_os E \<alpha> os h w v r"
  obtains e os' h' where "r = Some (e, os', h')" "expr_ok E \<alpha> e" "getWidth e = w" "eval \<alpha> e = v" "after E \<alpha> os (byte_val \<alpha> os) os'" "host h' = host h"
  using assms by (auto simp: reads_os_def)

lemma reads_os_range: "bytes \<alpha> \<Longrightarrow> reads_os E \<alpha> os h w v r \<Longrightarrow> v mod 2 ^ w = v"
  using eval_range by (fastforce simp: reads_os_def expr_ok_def)

lemma reads_os_trans:
  assumes "after E \<alpha> os (byte_val \<alpha> os) os1" "host h1 = host h" "reads_os E \<alpha> os1 h1 w v r"
  shows "reads_os E \<alpha> os h w v r"
proof -
  obtain e os' h' where r: "r = Some (e, os', h')" "expr_ok E \<alpha> e" "getWidth e = w" "eval \<alpha> e = v"
    "after E \<alpha> os1 (byte_val \<alpha> os1) os'" "host h' = host h1" using reads_osE [OF assms(3)] .
  have "after E \<alpha> os (byte_val \<alpha> os) os'" using after_trans [OF assms(1) r(5)] afterD(4) [OF assms(1)] by simp
  then show ?thesis using r assms(2) by (intro reads_osI [of r e os' h']) simp_all
qed

lemma writes_os_trans:
  assumes "after E \<alpha> os f os1" "host h1 = host h" "writes_os E \<alpha> os1 h1 g r" "\<And>j. j < os_size os \<Longrightarrow> g j = k j"
  shows "writes_os E \<alpha> os h k r"
  using assms(2,3) after_trans [OF assms(1) _ assms(4)] by (auto simp: writes_os_def)

text \<open>The bytes after a write of \<open>n\<close> bytes at \<open>off\<close>.\<close>

definition put_bytes :: "nat \<Rightarrow> nat \<Rightarrow> (nat \<Rightarrow> int) \<Rightarrow> (nat \<Rightarrow> int) \<Rightarrow> nat \<Rightarrow> int" where
  "put_bytes off n g f j = (if off \<le> j \<and> j < off + n then g (j - off) else f j)"

lemma put_bytes_1: "put_bytes off 1 g f = f(off := g 0)"
  by (auto simp: put_bytes_def)

lemma uint_byte: "uint (ucast (drop_bit n v :: 'a::len word) :: uint8_t) = uint v div 2 ^ n mod 256" if "8 \<le> LENGTH('a)"
  using that by (simp add: unsigned_ucast_eq unsigned_drop_bit_eq take_bit_eq_mod drop_bit_eq_div [of n "uint v"])

abbreviation byte_of :: "int \<Rightarrow> nat \<Rightarrow> int" where
  "byte_of v i \<equiv> v div 2 ^ (8 * i) mod 256"

text \<open>The widths of a read and of a write: \<^verbatim>\<open>write\<close> rejects narrow constants of other widths.\<close>

definition width_ok :: "nat \<Rightarrow> bool" where
  "width_ok w \<longleftrightarrow> w = 1 \<or> 8 dvd w \<and> 0 < w"

definition writable :: "expr \<Rightarrow> bool" where
  "writable e \<longleftrightarrow> width_ok (getWidth e) \<and> (isConstant e \<and> getWidth e \<le> 64 \<longrightarrow> getWidth e \<in> {1, 8, 16, 32, 64})"

lemma width_okE:
  assumes "width_ok w"
  obtains "w = 1" "getMinBytesForWidth w = 1" | n where "w \<noteq> 1" "w = 8 * n" "w div 8 = n" "0 < n" "getMinBytesForWidth w = n"
proof (cases "w = 1")
  case True
  then show ?thesis using that(1) by (simp add: getMinBytesForWidth_def)
next
  case False
  then obtain n where "w = 8 * n" "0 < n" using assms by (auto simp: width_ok_def)
  then show ?thesis using that(2) [of n] False by (simp add: getMinBytesForWidth_def)
qed

text \<open>
  An offset whose \<open>n\<close> bytes are in the object. The bytes after the first one are addressed by sums,
  which the assertions of \<^verbatim>\<open>read8\<close> and \<^verbatim>\<open>write8\<close> require not to fold to constants.
\<close>

definition offset_ok :: "mem_env \<Rightarrow> contents \<Rightarrow> object_state \<Rightarrow> expr \<Rightarrow> nat \<Rightarrow> bool" where
  "offset_ok M \<alpha> os i n \<longleftrightarrow> expr_ok (menv M) \<alpha> i \<and> nat (eval \<alpha> i mod 2 ^ 32) + n \<le> os_size os \<and>
    (\<forall>x. create_ZExt (menv M) i 32 = Some x \<and> dyn_const x = None \<longrightarrow>
      (\<forall>k < n. \<forall>a. create_Add (menv M) x (ConstantExpr (APInt 32 (int k))) = Some a \<longrightarrow> dyn_const a = None))"

text \<open>The offset is a wrapped difference, so a pointer below the object is far above its size.\<close>

lemma wrapped_offset:
  fixes p a :: int
  assumes "0 \<le> p" "p < B" "0 \<le> a" "0 < n" "a + n \<le> B" "0 < k"
  shows "(p - a) mod B + k \<le> n \<longleftrightarrow> a \<le> p \<and> p + k \<le> a + n"
proof (cases "a \<le> p")
  case True
  then have "(p - a) mod B = p - a" using assms by simp
  then show ?thesis using True by auto
next
  case False
  then have "(p - a + B) mod B = p - a + B" using assms by (intro mod_pos_pos_trivial) auto
  then show ?thesis using False assms by auto
qed

text \<open>What the pointers of the target need besides the laws of the constants.\<close>

locale mem_laws = apint_laws "menv M" for M :: mem_env +
  assumes pointer_width: "getPointerWidth M = 32 \<or> getPointerWidth M = 64"
begin

lemma pull_writes_ok:
  assumes "\<forall>w \<in> set ws. write_ok (menv M) \<alpha> w" "\<forall>(x, v) \<in> set ws. \<forall>c. dyn_const x = Some c \<longrightarrow> ap_val c < int sz"
    "length C = sz" "\<forall>c \<in> set C. wf_ap c \<and> ap_width c = 8"
  shows "\<exists>C' ws'. pull_writes (menv M) ws C = Some (C', ws') \<and> length C' = sz \<and> (\<forall>c \<in> set C'. wf_ap c \<and> ap_width c = 8) \<and>
    set ws' \<subseteq> set ws \<and> (\<forall>j < sz. apply_writes \<alpha> ws' (int j) (ap_val (C' ! j)) = apply_writes \<alpha> ws (int j) (ap_val (C ! j)))"
  using assms
proof (induction ws arbitrary: C)
  case Nil
  then show ?case by simp
next
  case (Cons w ws)
  obtain x v where w: "w = (x, v)" by (cases w)
  show ?case
  proof (cases "\<exists>i c. dyn_const x = Some i \<and> dyn_const v = Some c")
    case True
    then obtain i c where ic: "x = ConstantExpr i" "v = ConstantExpr c" by (auto elim!: dyn_const.elims)
    have i: "wf_ap i" "ap_width i = 32" "ap_val i < int sz" and c: "wf_ap c" "ap_width c = 8"
      using Cons.prems(1,2) w ic by (auto simp: write_ok_def)
    have z: "getZExtValue (menv M) 64 i = Some (word_of_int (ap_val i))" using i by (simp add: getZExtValue_eq)
    have n: "unat (word_of_int (ap_val i) :: uint64_t) = nat (ap_val i)"
      using i(1,2) by (simp add: unat_eq_nat_uint word_of_int_inverse wf_ap_def)
    have lt: "nat (ap_val i) < length C" using i(1,3) Cons.prems(3) by (auto simp: wf_ap_def)
    let ?C = "C[nat (ap_val i) := c]"
    have "\<forall>c \<in> set ?C. wf_ap c \<and> ap_width c = 8" using Cons.prems(4) c set_update_subset_insert [of C "nat (ap_val i)" c] by blast
    then obtain C' ws' where r: "pull_writes (menv M) ws ?C = Some (C', ws')" "length C' = sz" "\<forall>c \<in> set C'. wf_ap c \<and> ap_width c = 8"
      "set ws' \<subseteq> set ws" "\<forall>j < sz. apply_writes \<alpha> ws' (int j) (ap_val (C' ! j)) = apply_writes \<alpha> ws (int j) (ap_val (?C ! j))"
      using Cons.IH [of ?C] Cons.prems by auto
    have "apply_writes \<alpha> ws (int j) (ap_val (?C ! j)) = apply_writes \<alpha> (w # ws) (int j) (ap_val (C ! j))" if "j < sz" for j
      using that lt i(1) Cons.prems(3) by (auto simp: apply_writes_def w ic nth_list_update wf_ap_def)
    then show ?thesis using r z n lt by (auto simp: w ic upd_opt_in)
  next
    case False
    then show ?thesis using Cons.prems by (auto simp: w split: option.splits)
  qed
qed

lemma getUpdates_ok:
  assumes inv: "os_inv (menv M) \<alpha> os" and sz: "0 < os_size os"
  shows "\<exists>root us h'. getUpdates M os h = Some ((root, us), os\<lparr>upd_root := Some root, upd_head := us\<rparr>, h') \<and> host h' = host h \<and>
    wf_array root \<and> arr_size root = os_size os \<and> updates_ok (menv M) \<alpha> us \<and> writes_in (os_size os) us \<and>
    (\<forall>j < os_size os. upd_val \<alpha> (os\<lparr>upd_root := Some root, upd_head := us\<rparr>) j = upd_val \<alpha> os j)"
proof (cases "upd_root os")
  case (Some root)
  have "os\<lparr>upd_root := Some root, upd_head := upd_head os\<rparr> = os" using Some by simp
  then show ?thesis using Some os_invD(2,3) [OF inv] os_invD(4) [OF inv Some]
    by (intro exI [of _ root] exI [of _ "upd_head os"] exI [of _ h]) (simp add: getUpdates_def upd_val_def)
next
  case None
  let ?ws = "Writes (upd_head os)" and ?C = "replicate (os_size os) (APInt 8 0)"
  have ws: "\<forall>w \<in> set ?ws. write_ok (menv M) \<alpha> w" using os_invD(2) [OF inv] by (simp add: updates_ok_Writes)
  obtain C ws' where p: "pull_writes (menv M) ?ws ?C = Some (C, ws')" "length C = os_size os" "\<forall>c \<in> set C. wf_ap c \<and> ap_width c = 8"
    "set ws' \<subseteq> set ?ws" "\<forall>j < os_size os. apply_writes \<alpha> ws' (int j) (ap_val (C ! j)) = apply_writes \<alpha> ?ws (int j) (ap_val (?C ! j))"
    using pull_writes_ok [OF ws, of "os_size os" ?C] os_invD(3) [OF inv] by (auto simp: writes_in_def wf_ap_def)
  define root where "root = \<lparr>arr_address = arr_alloc M (''const_arr'' @ utostr M (const_arr_id h + 1)),
    arr_name = ''const_arr'' @ utostr M (const_arr_id h + 1), arr_size = os_size os, constantValues = C\<rparr>"
  have cr: "isConstantArray root" using sz p(2) by (auto simp: root_def isConstantArray_def isSymbolicArray_def)
  have wf: "wf_array root" using os_shapeD(1) [OF os_invD(1) [OF inv]] p(2,3) by (simp add: wf_array_def root_def)
  have "\<forall>w \<in> set ws'. getWidth (snd w) = 8" using ws p(4) by (auto simp: write_ok_def)
  then obtain us where u: "extend_all (os\<lparr>upd_root := Some root, upd_head := NoUpdate\<rparr>) ws' =
      Some (os\<lparr>upd_root := Some root, upd_head := us\<rparr>)" "Writes us = ws'"
    using extend_all_ok [of ws' "os\<lparr>upd_root := Some root, upd_head := NoUpdate\<rparr>"] by auto
  have v: "upd_val \<alpha> (os\<lparr>upd_root := Some root, upd_head := us\<rparr>) j = upd_val \<alpha> os j" if "j < os_size os" for j
    using that p(5) cr None by (simp add: upd_val_def initial_value_def eval_updates_Writes u(2) root_def)
  have "getUpdates M os h = Some ((root, us), os\<lparr>upd_root := Some root, upd_head := us\<rparr>, h\<lparr>const_arr_id := const_arr_id h + 1\<rparr>)"
    using p(1,2) u(1) sz None by (simp add: getUpdates_def Array_new_def Let_def root_def)
  moreover have "updates_ok (menv M) \<alpha> us" "writes_in (os_size os) us"
    using ws p(4) os_invD(3) [OF inv] unfolding updates_ok_Writes writes_in_def u(2) by blast+
  ultimately show ?thesis using wf v by (auto simp: root_def)
qed

lemma getUpdates_after:
  assumes inv: "os_inv (menv M) \<alpha> os" and sz: "0 < os_size os"
  obtains root us os' h' where "getUpdates M os h = Some ((root, us), os', h')" "host h' = host h"
    "wf_array root" "arr_size root = os_size os" "updates_ok (menv M) \<alpha> us" "after (menv M) \<alpha> os (byte_val \<alpha> os) os'"
    "\<forall>j < os_size os. eval_updates \<alpha> us (int j) (initial_value \<alpha> root (int j)) = upd_val \<alpha> os j"
proof -
  obtain root us h' where g: "getUpdates M os h = Some ((root, us), os\<lparr>upd_root := Some root, upd_head := us\<rparr>, h')" "host h' = host h"
    "wf_array root" "arr_size root = os_size os" "updates_ok (menv M) \<alpha> us" "writes_in (os_size os) us"
    "\<forall>j < os_size os. upd_val \<alpha> (os\<lparr>upd_root := Some root, upd_head := us\<rparr>) j = upd_val \<alpha> os j"
    using getUpdates_ok [OF assms, of h] by blast
  let ?os = "os\<lparr>upd_root := Some root, upd_head := us\<rparr>"
  have bv: "byte_val \<alpha> ?os j = byte_val \<alpha> os j" if "j < os_size os" for j
    using that g(7) by (auto simp: byte_val_def split: option.split)
  have "os_inv (menv M) \<alpha> ?os"
    unfolding os_inv_def
  proof (intro conjI allI impI)
    fix j assume j: "j < os_size ?os"
    show "upd_val \<alpha> ?os j = byte_val \<alpha> ?os j" if "\<not> unflushed ?os j" using that j g(7) bv os_invD(7) [OF inv, of j] by simp
    show "conc ?os j \<or> ksym ?os j \<noteq> None" if "unflushed ?os j" using that j os_invD(6) [OF inv, of j] by simp
    fix e assume "ksym ?os j = Some e"
    then show "\<not> conc ?os j" "expr_ok (menv M) \<alpha> e" "getWidth e = 8" using j os_invD(5) [OF inv, of j e] by auto
  qed (use g os_invD(1) [OF inv] in \<open>auto simp: os_shape_def\<close>)
  then have "after (menv M) \<alpha> os (byte_val \<alpha> os) ?os" using bv by (simp add: after_def)
  then show ?thesis using g that [of root us ?os h'] by (simp add: upd_val_def)
qed

lemma ConstantExpr_create_fits:
  assumes "0 < w" "w \<le> 64" "uint v < 2 ^ w"
  shows "ConstantExpr_create (menv M) v w = Some (APInt w (uint v))"
proof -
  have "uint (truncateToNBits v w) = uint v" using assms by (simp add: uint_truncateToNBits)
  then have "truncateToNBits v w = v" by (simp only: word_uint_eq_iff)
  then show ?thesis using assms by (simp add: ConstantExpr_create_def ConstantExpr_alloc_def ap_new)
qed

lemma const32_ok: "n < 2 ^ 32 \<Longrightarrow> const32 M n = Some (ConstantExpr (APInt 32 (int n)))"
  using ConstantExpr_create_fits [of 32 "of_nat n"] by (simp add: const32_def uint_nat unat_of_nat)

lemma const8_ok: "const8 M v = Some (ConstantExpr (APInt 8 (uint v)))"
  using ConstantExpr_create_fits [of 8 "ucast v"] uint_lt2p [of v] by (simp add: const8_def uint_up_ucast is_up)

text \<open>The value of a byte that is not flushed, as the expression that the flush writes.\<close>

lemma unflushed_value:
  assumes "os_inv (menv M) \<alpha> os" "i < os_size os" "unflushed os i"
  obtains v where "expr_ok (menv M) \<alpha> v" "getWidth v = 8" "eval \<alpha> v = byte_val \<alpha> os i"
    "if conc os i then nth_opt (concreteStore os) i = Some (concreteStore os ! i) \<and> const8 M (concreteStore os ! i) = Some v else ksym os i = Some v"
proof (cases "conc os i")
  case True
  let ?b = "concreteStore os ! i"
  show ?thesis
    using that [of "ConstantExpr (APInt 8 (uint ?b))"] True assms(2) os_shapeD(2) [OF os_invD(1) [OF assms(1)]] uint_lt2p [of ?b]
    by (simp add: const8_ok wf_ap_def byte_val_def nth_opt_in)
next
  case False
  then obtain v where v: "ksym os i = Some v" using os_invD(6) [OF assms(1,2,3)] by blast
  then show ?thesis using that [of v] False os_invD(5) [OF assms(1,2) v] by (simp add: byte_val_def)
qed

lemma flush_byte_read_ok:
  assumes inv: "os_inv (menv M) \<alpha> os" and i: "i < os_size os" and fl: "flushMask os \<noteq> None"
  shows "\<exists>os'. flush_byte_read M os i = Some os' \<and> flushes (menv M) \<alpha> os i os'"
proof (cases "unflushed os i")
  case False
  then show ?thesis using isByteFlushed_eq [OF os_invD(1) [OF inv] i] after_refl [OF inv] fl
    by (auto simp: flush_byte_read_def flushes_def)
next
  case True
  note sh = os_invD(1) [OF inv]
  obtain v where v: "expr_ok (menv M) \<alpha> v" "getWidth v = 8" "eval \<alpha> v = byte_val \<alpha> os i"
    "if conc os i then nth_opt (concreteStore os) i = Some (concreteStore os ! i) \<and> const8 M (concreteStore os ! i) = Some v else ksym os i = Some v"
    using unflushed_value [OF inv i True] .
  let ?us = "UpdateNode (ConstantExpr (APInt 32 (int i))) v (upd_head os)"
  let ?os1 = "os\<lparr>upd_head := ?us\<rparr>"
  have sh1: "os_shape ?os1" using sh by (simp add: os_shape_def)
  obtain m where m: "markByteFlushed ?os1 i = Some (?os1\<lparr>flushMask := m\<rparr>)" "mask_ok (os_size ?os1) m" "m \<noteq> None"
    "\<And>j. j < os_size ?os1 \<Longrightarrow> mset_bit m j \<longleftrightarrow> j \<noteq> i \<and> unflushed ?os1 j"
    using flush_unset_ok [OF sh1] i fl by simp metis
  have c32: "const32 M i = Some (ConstantExpr (APInt 32 (int i)))" using const32_ok i os_shapeD(1) [OF sh] by simp
  have "after (menv M) \<alpha> os (byte_val \<alpha> os) (?os1\<lparr>flushMask := m\<rparr>)"
    by (rule flush_step [OF inv i]) (use m(2,4) sh extend_const_ok [OF inv i v(1,2)] v(3) in \<open>auto simp: upd_val_extend os_shape_def\<close>)
  then have "flushes (menv M) \<alpha> os i (?os1\<lparr>flushMask := m\<rparr>)" using m(3,4) by (simp add: flushes_def)
  moreover have "flush_byte_read M os i = Some (?os1\<lparr>flushMask := m\<rparr>)"
    using True v(2,4) m(1) c32 i sh
    by (auto simp: flush_byte_read_def isByteFlushed_eq isByteConcrete_eq getKnownSymbolic_eq extend_ok split: if_splits)
  ultimately show ?thesis by blast
qed

lemma flush_read_loop_ok:
  assumes "os_inv (menv M) \<alpha> os" "\<forall>i \<in> set is. i < os_size os" "flushMask os \<noteq> None"
  shows "\<exists>os'. flush_read_loop M is os = Some os' \<and> after (menv M) \<alpha> os (byte_val \<alpha> os) os' \<and>
    (\<forall>j < os_size os. unflushed os' j \<longleftrightarrow> j \<notin> set is \<and> unflushed os j)"
  using assms
proof (induction "is" arbitrary: os)
  case Nil
  then show ?case by (simp add: after_refl)
next
  case (Cons i "is")
  obtain os1 where 1: "flush_byte_read M os i = Some os1" "flushes (menv M) \<alpha> os i os1"
    using flush_byte_read_ok [OF Cons.prems(1) _ Cons.prems(3), of i] Cons.prems(2) by auto
  have a: "after (menv M) \<alpha> os (byte_val \<alpha> os) os1" using 1(2) by (simp add: flushes_def)
  note d = afterD [OF a]
  obtain os2 where 2: "flush_read_loop M is os1 = Some os2" "after (menv M) \<alpha> os1 (byte_val \<alpha> os1) os2"
    "\<forall>j < os_size os1. unflushed os2 j \<longleftrightarrow> j \<notin> set is \<and> unflushed os1 j"
    using Cons.IH [OF d(1)] Cons.prems(2) d(2) 1(2) by (auto simp: flushes_def)
  have "after (menv M) \<alpha> os (byte_val \<alpha> os) os2" using after_trans [OF a 2(2)] d(4) by simp
  then show ?case using 1 2 d(2) by (auto simp: flushes_def)
qed

lemma flush_byte_write_ok:
  assumes inv: "os_inv (menv M) \<alpha> os" and i: "i < os_size os" and fl: "flushMask os \<noteq> None"
  shows "\<exists>os'. flush_byte_write M os i = Some os' \<and> flushes (menv M) \<alpha> os i os' \<and>
    (\<forall>j < os_size os. in_updates os' j \<longleftrightarrow> j = i \<or> in_updates os j)"
proof -
  note sh = os_invD(1) [OF inv]
  note get = isByteFlushed_eq [OF sh i] isByteConcrete_eq [OF sh i] getKnownSymbolic_eq [OF sh i]
  obtain us where us: "updates_ok (menv M) \<alpha> us" "writes_in (os_size os) us"
    "\<And>j. upd_val \<alpha> (os\<lparr>upd_head := us\<rparr>) j = (if j = i then byte_val \<alpha> os i else upd_val \<alpha> os j)"
    "unflushed os i \<Longrightarrow> \<exists>v. (if conc os i then nth_opt (concreteStore os) i \<bind> const8 M = Some v else ksym os i = Some v) \<and>
      extend os (ConstantExpr (APInt 32 (int i))) v = Some (os\<lparr>upd_head := us\<rparr>)"
    "\<not> unflushed os i \<Longrightarrow> us = upd_head os"
  proof (cases "unflushed os i")
    case True
    obtain v where v: "expr_ok (menv M) \<alpha> v" "getWidth v = 8" "eval \<alpha> v = byte_val \<alpha> os i"
      "if conc os i then nth_opt (concreteStore os) i = Some (concreteStore os ! i) \<and> const8 M (concreteStore os ! i) = Some v else ksym os i = Some v"
      using unflushed_value [OF inv i True] .
    show ?thesis
      by (rule that [of "UpdateNode (ConstantExpr (APInt 32 (int i))) v (upd_head os)"])
        (use True v extend_const_ok [OF inv i v(1,2)] in \<open>auto simp: upd_val_extend extend_ok\<close>)
  next
    case False
    then show ?thesis using that [of "upd_head os"] os_invD(2,3) [OF inv] os_invD(7) [OF inv i] by auto
  qed
  let ?os1 = "os\<lparr>upd_head := us\<rparr>"
  have sh1: "os_shape ?os1" using sh by (simp add: os_shape_def)
  obtain cm where cm: "markByteSymbolic ?os1 i = Some (?os1\<lparr>concreteMask := cm\<rparr>)" "mask_ok (os_size os) cm"
    "\<And>j. j < os_size os \<Longrightarrow> mset_bit cm j \<longleftrightarrow> j \<noteq> i \<and> conc os j"
    using markByteSymbolic_ok [OF sh1] i by simp metis
  obtain k where k: "setKnownSymbolic ?os1 i None = Some (?os1\<lparr>knownSymbolics := k\<rparr>)" "\<And>ks. k = Some ks \<Longrightarrow> length ks = os_size os"
    "\<And>j. j < os_size os \<Longrightarrow> ksym (?os1\<lparr>knownSymbolics := k\<rparr>) j = (if j = i then None else ksym os j)"
    by (rule setKnownSymbolic_ok [OF sh1, of i None]) (use i in auto)
  define os2 where "os2 = (if conc os i then ?os1\<lparr>concreteMask := cm\<rparr> else if unflushed os i \<or> ksym os i \<noteq> None
    then ?os1\<lparr>knownSymbolics := k\<rparr> else ?os1)"
  have f2: "os_size os2 = os_size os" "os_object os2 = os_object os" "concreteStore os2 = concreteStore os" "upd_root os2 = upd_root os"
    "flushMask os2 = flushMask os" "upd_head os2 = us" "os_shape os2" "\<And>j. upd_val \<alpha> os2 j = upd_val \<alpha> ?os1 j"
    using sh1 cm(2) k(2) by (auto simp: os2_def os_shape_def)
  have none: "ksym os i = None" if "conc os i" using that os_invD(5) [OF inv i] by (cases "ksym os i") auto
  have kc: "ksym os2 j = (if j = i then None else ksym os j) \<and> (conc os2 j \<longleftrightarrow> j \<noteq> i \<and> conc os j)" if "j < os_size os" for j
    using cm(3) [OF that] k(3) [OF that] none by (auto simp: os2_def)
  obtain m where m: "unflushed os i \<Longrightarrow> markByteFlushed os2 i = Some (os2\<lparr>flushMask := m\<rparr>)" "\<not> unflushed os i \<Longrightarrow> m = flushMask os"
    "mask_ok (os_size os) m" "m \<noteq> None" "\<And>j. j < os_size os \<Longrightarrow> mset_bit m j \<longleftrightarrow> j \<noteq> i \<and> unflushed os j"
  proof (cases "unflushed os i")
    case True
    show ?thesis by (rule flush_unset_ok [OF f2(7), of i]) (use i fl f2 True that in auto)
  next
    case False
    then show ?thesis using that [of "flushMask os"] fl os_shapeD(4) [OF sh] by auto
  qed
  have "after (menv M) \<alpha> os (byte_val \<alpha> os) (os2\<lparr>flushMask := m\<rparr>)"
    by (rule flush_step [OF inv i]) (use f2 m(3,5) us(1-3) kc i in \<open>auto simp: os_shape_def\<close>)
  moreover have "flush_byte_write M os i = Some (os2\<lparr>flushMask := m\<rparr>)"
  proof (cases "unflushed os i")
    case True
    then obtain v where v: "if conc os i then nth_opt (concreteStore os) i \<bind> const8 M = Some v else ksym os i = Some v"
      "extend os (ConstantExpr (APInt 32 (int i))) v = Some ?os1" using us(4) by blast
    then show ?thesis using True get m(1) cm(1) k(1) const32_ok [of i] i os_shapeD(1) [OF sh]
      by (auto simp: flush_byte_write_def os2_def bind_eq_Some_conv split: if_splits)
  next
    case False
    then show ?thesis using get m(2) cm(1) k(1) us(5) by (auto simp: flush_byte_write_def os2_def isByteKnownSymbolic_def)
  qed
  ultimately show ?thesis using m(4,5) kc by (auto simp: flushes_def in_updates_def)
qed

lemma flush_write_loop_ok:
  assumes "os_inv (menv M) \<alpha> os" "\<forall>i \<in> set is. i < os_size os" "flushMask os \<noteq> None"
  shows "\<exists>os'. flush_write_loop M is os = Some os' \<and> after (menv M) \<alpha> os (byte_val \<alpha> os) os' \<and>
    (\<forall>j < os_size os. (unflushed os' j \<longleftrightarrow> j \<notin> set is \<and> unflushed os j) \<and> (in_updates os' j \<longleftrightarrow> j \<in> set is \<or> in_updates os j))"
  using assms
proof (induction "is" arbitrary: os)
  case Nil
  then show ?case by (simp add: after_refl)
next
  case (Cons i "is")
  obtain os1 where 1: "flush_byte_write M os i = Some os1" "flushes (menv M) \<alpha> os i os1" "\<forall>j < os_size os. in_updates os1 j \<longleftrightarrow> j = i \<or> in_updates os j"
    using flush_byte_write_ok [OF Cons.prems(1) _ Cons.prems(3), of i] Cons.prems(2) by auto
  have a: "after (menv M) \<alpha> os (byte_val \<alpha> os) os1" using 1(2) by (simp add: flushes_def)
  note d = afterD [OF a]
  obtain os2 where 2: "flush_write_loop M is os1 = Some os2" "after (menv M) \<alpha> os1 (byte_val \<alpha> os1) os2"
    "\<forall>j < os_size os1. (unflushed os2 j \<longleftrightarrow> j \<notin> set is \<and> unflushed os1 j) \<and> (in_updates os2 j \<longleftrightarrow> j \<in> set is \<or> in_updates os1 j)"
    using Cons.IH [OF d(1)] Cons.prems(2) d(2) 1(2) by (auto simp: flushes_def)
  have "after (menv M) \<alpha> os (byte_val \<alpha> os) os2" using after_trans [OF a 2(2)] d(4) by simp
  then show ?case using 1 2 d(2) by (auto simp: flushes_def)
qed

lemma flushRangeForRead_ok:
  assumes inv: "os_inv (menv M) \<alpha> os"
  obtains os' where "flushRangeForRead M 0 (os_size os) os = Some os'" "after (menv M) \<alpha> os (byte_val \<alpha> os) os'"
    "\<forall>j < os_size os. \<not> unflushed os' j"
proof -
  note n = new_flushMask_ok [OF inv] and d = afterD [OF new_flushMask_ok(1) [OF inv]]
  obtain os' where o: "flush_read_loop M [0..<os_size os] (new_flushMask os) = Some os'"
    "after (menv M) \<alpha> (new_flushMask os) (byte_val \<alpha> (new_flushMask os)) os'" "\<forall>j < os_size os. \<not> unflushed os' j"
    using flush_read_loop_ok [OF d(1), of "[0..<os_size os]"] n(2) d(2) by auto
  show ?thesis using that [of os'] o after_trans [OF n(1) o(2)] d(4) by (simp add: flushRangeForRead_def)
qed

lemma flushRangeForWrite_ok:
  assumes inv: "os_inv (menv M) \<alpha> os"
  obtains os' where "flushRangeForWrite M 0 (os_size os) os = Some os'" "after (menv M) \<alpha> os (byte_val \<alpha> os) os'"
    "\<forall>j < os_size os. \<not> unflushed os' j" "\<forall>j < os_size os. in_updates os' j"
proof -
  note n = new_flushMask_ok [OF inv] and d = afterD [OF new_flushMask_ok(1) [OF inv]]
  obtain os' where o: "flush_write_loop M [0..<os_size os] (new_flushMask os) = Some os'"
    "after (menv M) \<alpha> (new_flushMask os) (byte_val \<alpha> (new_flushMask os)) os'" "\<forall>j < os_size os. \<not> unflushed os' j" "\<forall>j < os_size os. in_updates os' j"
    using flush_write_loop_ok [OF d(1), of "[0..<os_size os]"] n(2) d(2) by auto
  show ?thesis using that [of os'] o after_trans [OF n(1) o(2)] d(4) by (simp add: flushRangeForWrite_def)
qed

subsection \<open>Reading and writing one byte\<close>

lemma read8_ok:
  assumes b: "bytes \<alpha>" and inv: "os_inv (menv M) \<alpha> os" and i: "i < os_size os" and ns: "\<not> isSharedConcrete (os_object os)"
  shows "reads_os (menv M) \<alpha> os h 8 (byte_val \<alpha> os i) (read8 M i os h)"
proof -
  note sh = os_invD(1) [OF inv]
  note get = isByteFlushed_eq [OF sh i] isByteConcrete_eq [OF sh i] getKnownSymbolic_eq [OF sh i]
  consider (c) "conc os i" | (k) e where "\<not> conc os i" "ksym os i = Some e" | (u) "\<not> conc os i" "ksym os i = None" by (cases "ksym os i") auto
  then show ?thesis
  proof cases
    case c
    then show ?thesis using get ns i after_refl [OF inv] os_shapeD(2) [OF sh] uint_lt2p [of "concreteStore os ! i"]
      by (simp add: read8_def reads_os_def const8_ok nth_opt_in byte_val_def wf_ap_def)
  next
    case k
    then show ?thesis using get ns after_refl [OF inv] os_invD(5) [OF inv i k(2)] by (simp add: read8_def reads_os_def byte_val_def)
  next
    case u
    have f: "\<not> unflushed os i" using os_invD(6) [OF inv i] u by blast
    have lt: "0 < os_size os" using i by simp
    obtain root us os' h' where g: "getUpdates M os h = Some ((root, us), os', h')" "host h' = host h"
      "wf_array root" "arr_size root = os_size os" "updates_ok (menv M) \<alpha> us" "after (menv M) \<alpha> os (byte_val \<alpha> os) os'"
      "\<forall>j < os_size os. eval_updates \<alpha> us (int j) (initial_value \<alpha> root (int j)) = upd_val \<alpha> os j"
      using getUpdates_after [OF inv lt, of h] .
    let ?i = "ConstantExpr (APInt 32 (int i))"
    have "creates (menv M) \<alpha> 8 (byte_val \<alpha> os i) (create_Read (menv M) root us ?i)"
      using create_Read_ok [OF b g(3,5), of ?i] i g(4,7) u os_shapeD(1) [OF sh] by (simp add: wf_ap_def byte_val_def)
    then show ?thesis using get f u ns g(1,2,6) const32_ok [of i] i os_shapeD(1) [OF sh]
      by (auto simp: read8_def reads_os_def creates_def)
  qed
qed

lemma const_iff_dyn: "isConstant e \<longleftrightarrow> dyn_const e \<noteq> None"
  by (cases e) auto

lemma read8_sym_ok:
  assumes b: "bytes \<alpha>" and inv: "os_inv (menv M) \<alpha> os" and ns: "\<not> isSharedConcrete (os_object os)"
    and i: "expr_ok (menv M) \<alpha> i" "dyn_const i = None" "eval \<alpha> i mod 2 ^ 32 < int (os_size os)"
  shows "reads_os (menv M) \<alpha> os h 8 (byte_val \<alpha> os (nat (eval \<alpha> i mod 2 ^ 32))) (read8_sym M i os h)"
proof -
  obtain os1 where f: "flushRangeForRead M 0 (os_size os) os = Some os1" "after (menv M) \<alpha> os (byte_val \<alpha> os) os1"
    "\<forall>j < os_size os. \<not> unflushed os1 j" using flushRangeForRead_ok [OF inv] .
  note d = afterD [OF f(2)]
  let ?n = "nat (eval \<alpha> i mod 2 ^ 32)"
  have lt: "?n < os_size os" "int ?n = eval \<alpha> i mod 2 ^ 32" using i(3) by auto
  then have pos: "0 < os_size os1" using d(2) by simp
  obtain root us os' h' where g: "getUpdates M os1 h = Some ((root, us), os', h')" "host h' = host h"
    "wf_array root" "arr_size root = os_size os1" "updates_ok (menv M) \<alpha> us" "after (menv M) \<alpha> os1 (byte_val \<alpha> os1) os'"
    "\<forall>j < os_size os1. eval_updates \<alpha> us (int j) (initial_value \<alpha> root (int j)) = upd_val \<alpha> os1 j"
    using getUpdates_after [OF d(1) pos, of h] .
  obtain x where x: "create_ZExt (menv M) i 32 = Some x" "expr_ok (menv M) \<alpha> x" "getWidth x = 32" "eval \<alpha> x = int ?n"
    using create_ZExt_ok [OF b i(1), of 32] lt(2) by (auto simp: creates_def)
  have "upd_val \<alpha> os1 ?n = byte_val \<alpha> os ?n" using os_invD(7) [OF d(1), of ?n] f(3) lt(1) d(2,4) by simp
  then have "creates (menv M) \<alpha> 8 (byte_val \<alpha> os ?n) (create_Read (menv M) root us x)"
    using i(3) create_Read_ok [OF b g(3,5) x(2,3)] g(4) spec [OF g(7), of ?n] lt(1) d(2) unfolding x(4) by simp
  moreover have "after (menv M) \<alpha> os (byte_val \<alpha> os) os'" using after_trans [OF f(2) g(6)] d(4) by simp
  ultimately show ?thesis using f(1) g(1,2) x(1) ns i(2)
    by (auto simp: read8_sym_def reads_os_def creates_def fastRangeCheckOffset_def const_iff_dyn)
qed

lemma write8_sym_ok:
  assumes b: "bytes \<alpha>" and inv: "os_inv (menv M) \<alpha> os" and ns: "\<not> isSharedConcrete (os_object os)"
    and i: "expr_ok (menv M) \<alpha> i" "dyn_const i = None" "eval \<alpha> i mod 2 ^ 32 < int (os_size os)"
    and v: "expr_ok (menv M) \<alpha> v" "getWidth v = 8"
  shows "writes_os (menv M) \<alpha> os h ((byte_val \<alpha> os)(nat (eval \<alpha> i mod 2 ^ 32) := eval \<alpha> v)) (write8_sym M i v os h)"
proof -
  obtain os1 where f: "flushRangeForWrite M 0 (os_size os) os = Some os1" "after (menv M) \<alpha> os (byte_val \<alpha> os) os1"
    "\<forall>j < os_size os. \<not> unflushed os1 j" "\<forall>j < os_size os. in_updates os1 j" using flushRangeForWrite_ok [OF inv] .
  note d = afterD [OF f(2)] and e = os_invD [OF afterD(1) [OF f(2)]]
  let ?n = "nat (eval \<alpha> i mod 2 ^ 32)"
  have lt: "int ?n = eval \<alpha> i mod 2 ^ 32" by simp
  obtain x where x: "create_ZExt (menv M) i 32 = Some x" "expr_ok (menv M) \<alpha> x" "getWidth x = 32" "eval \<alpha> x = int ?n"
    using create_ZExt_ok [OF b i(1), of 32] lt by (auto simp: creates_def)
  let ?us = "UpdateNode x v (upd_head os1)"
  let ?os = "os1\<lparr>upd_head := ?us\<rparr>"
  have u: "upd_val \<alpha> ?os j = (if j = ?n then eval \<alpha> v else byte_val \<alpha> os j)" if "j < os_size os" for j
    using e(7) [of j] f(3) d(2) d(4) [OF that] that x(4) lt by (auto simp: upd_val_def)
  have up: "in_updates ?os j" if "j < os_size os" for j using that f(4) by (simp add: in_updates_def)
  have bv: "byte_val \<alpha> ?os j = ((byte_val \<alpha> os)(?n := eval \<alpha> v)) j" if "j < os_size os" for j
    using u [OF that] up [OF that] by (simp add: byte_val_def in_updates_def)
  have w: "updates_ok (menv M) \<alpha> ?us" "writes_in (os_size os1) ?us"
    using e(2,3) v x d(2) i(3) by (auto simp: updates_ok_Writes write_ok_def writes_in_def elim!: dyn_const.elims)
  have "os_inv (menv M) \<alpha> ?os"
    unfolding os_inv_def using w e(1,4) up u bv d(2) f(3) by (auto simp: os_shape_def in_updates_def)
  then have "after (menv M) \<alpha> os ((byte_val \<alpha> os)(?n := eval \<alpha> v)) ?os" using bv d(2,3) by (simp add: after_def)
  then show ?thesis using f(1) x(1) v(2) ns i(2)
    by (auto simp: write8_sym_def writes_os_def fastRangeCheckOffset_def const_iff_dyn extend_ok)
qed

lemma write8_expr_ok:
  assumes "os_inv (menv M) \<alpha> os" "i < os_size os" "\<not> isSharedConcrete (os_object os)" "expr_ok (menv M) \<alpha> e" "getWidth e = 8"
  shows "writes_os (menv M) \<alpha> os h ((byte_val \<alpha> os)(i := eval \<alpha> e)) (write8_expr M i e os h)"
proof (cases "dyn_const e")
  case None
  then show ?thesis using write8_known_ok [OF assms(1-3) None assms(4,5), of h] by (auto simp: writes_os_def)
next
  case (Some c)
  then have e: "e = ConstantExpr c" by (auto elim!: dyn_const.elims)
  have c: "wf_ap c" "ap_width c = 8" using assms(4,5) by (simp_all add: e)
  then have "uint (ucast (word_of_int (ap_val c) :: uint64_t) :: uint8_t) = ap_val c"
    by (simp add: wf_ap_def unsigned_ucast_eq unsigned_of_int take_bit_eq_mod)
  then show ?thesis using write8_ok [OF assms(1-3), of "ucast (word_of_int (ap_val c) :: uint64_t)" h] c
    by (auto simp: e write8_expr_def getZExtValue_eq writes_os_def)
qed

subsection \<open>Several bytes\<close>

lemma read_loop_ok:
  assumes b: "bytes \<alpha>" and le: "isLittleEndian M" and n: "0 < n"
    and rd: "\<And>idx os' h'. idx < n \<Longrightarrow> after (menv M) \<alpha> os0 (byte_val \<alpha> os0) os' \<Longrightarrow> reads_os (menv M) \<alpha> os' h' 8 (f idx) (rd idx os' h')"
  shows "k \<le> n \<Longrightarrow> after (menv M) \<alpha> os0 (byte_val \<alpha> os0) os \<Longrightarrow>
    (k \<noteq> 0 \<Longrightarrow> \<exists>e. Res = Some e \<and> expr_ok (menv M) \<alpha> e \<and> getWidth e = 8 * k \<and> eval \<alpha> e = le_val f k) \<Longrightarrow>
    reads_os (menv M) \<alpha> os h (8 * n) (le_val f n) (read_loop M n rd [k..<n] Res os h)"
proof (induction "n - k" arbitrary: k os h Res)
  case 0
  then have k: "k = n" by simp
  then obtain e where "Res = Some e" "expr_ok (menv M) \<alpha> e" "getWidth e = 8 * n" "eval \<alpha> e = le_val f n" using 0 n by auto
  then show ?case using after_refl [OF afterD(1) [OF 0(3)]] by (simp add: k reads_os_def)
next
  case (Suc d)
  have kn: "k < n" "[k..<n] = k # [Suc k..<n]" using Suc(2) by (simp_all add: upt_rec)
  obtain B os1 h1 where B: "rd k os h = Some (B, os1, h1)" "expr_ok (menv M) \<alpha> B" "getWidth B = 8" "eval \<alpha> B = f k"
    "after (menv M) \<alpha> os (byte_val \<alpha> os) os1" "host h1 = host h" using reads_osE [OF rd [OF kn(1) Suc(4)]] .
  have a1: "after (menv M) \<alpha> os0 (byte_val \<alpha> os0) os1"
    using after_trans [OF Suc(4) B(5)] afterD(2,4) [OF Suc(4)] by simp
  have "\<exists>e. (if k \<noteq> 0 then do { e \<leftarrow> Res; create_Concat (menv M) B e } else Some B) = Some e \<and>
    expr_ok (menv M) \<alpha> e \<and> getWidth e = 8 * Suc k \<and> eval \<alpha> e = le_val f (Suc k)"
  proof (cases "k = 0")
    case True
    then show ?thesis using B by simp
  next
    case False
    then obtain e where e: "Res = Some e" "expr_ok (menv M) \<alpha> e" "getWidth e = 8 * k" "eval \<alpha> e = le_val f k" using Suc(5) by blast
    then show ?thesis using create_Concat_ok [OF b B(2) e(2)] False by (auto simp: creates_def B)
  qed
  then obtain e where e: "(if k \<noteq> 0 then do { e \<leftarrow> Res; create_Concat (menv M) B e } else Some B) = Some e"
    "expr_ok (menv M) \<alpha> e" "getWidth e = 8 * Suc k" "eval \<alpha> e = le_val f (Suc k)" by blast
  have "reads_os (menv M) \<alpha> os1 h1 (8 * n) (le_val f n) (read_loop M n rd [Suc k..<n] (Some e) os1 h1)"
    by (rule Suc(1)) (use Suc(2) kn(1) a1 e in auto)
  from reads_os_trans [OF B(5,6) this] show ?case using B(1) e(1) le by (simp add: kn(2) byte_index_def)
qed

lemma write_loop_ok:
  assumes le: "isLittleEndian M"
    and wr: "\<And>i os' h'. i < n \<Longrightarrow> os_inv (menv M) \<alpha> os' \<Longrightarrow> os_size os' = sz \<Longrightarrow> os_object os' = ob \<Longrightarrow>
      writes_os (menv M) \<alpha> os' h' ((byte_val \<alpha> os')(off + i := g i)) (wr i i os' h')"
  shows "k \<le> n \<Longrightarrow> os_inv (menv M) \<alpha> os \<Longrightarrow> os_size os = sz \<Longrightarrow> os_object os = ob \<Longrightarrow>
    writes_os (menv M) \<alpha> os h (put_bytes (off + k) (n - k) (\<lambda>i. g (k + i)) (byte_val \<alpha> os)) (write_loop M n wr [k..<n] os h)"
proof (induction "n - k" arbitrary: k os h)
  case 0
  have "put_bytes (off + k) (n - k) (\<lambda>i. g (k + i)) (byte_val \<alpha> os) = byte_val \<alpha> os" using 0(1) by (auto simp: put_bytes_def)
  then show ?case using 0 after_refl [OF 0(3)] by (simp add: writes_os_def)
next
  case (Suc d)
  have kn: "k < n" "[k..<n] = k # [Suc k..<n]" using Suc(2) by (simp_all add: upt_rec)
  obtain os1 h1 where w: "wr k k os h = Some ((), os1, h1)" "after (menv M) \<alpha> os ((byte_val \<alpha> os)(off + k := g k)) os1" "host h1 = host h"
    using wr [OF kn(1) Suc(4-6), of h] by (auto simp: writes_os_def)
  note d = afterD [OF w(2)]
  have "writes_os (menv M) \<alpha> os1 h1 (put_bytes (off + Suc k) (n - Suc k) (\<lambda>i. g (Suc k + i)) (byte_val \<alpha> os1)) (write_loop M n wr [Suc k..<n] os1 h1)"
    by (rule Suc(1)) (use Suc(2-6) kn(1) d in auto)
  then have "writes_os (menv M) \<alpha> os h (put_bytes (off + k) (n - k) (\<lambda>i. g (k + i)) (byte_val \<alpha> os)) (write_loop M n wr [Suc k..<n] os1 h1)"
    by (rule writes_os_trans [OF w(2,3)]) (use d(4) kn(1) in \<open>auto simp: put_bytes_def Suc_diff_Suc\<close>)
  then show ?case using w(1) le by (simp add: kn(2) byte_index_def)
qed

lemma write_loop_all:
  assumes "isLittleEndian M" "os_inv (menv M) \<alpha> os"
    and "\<And>i os' h'. i < n \<Longrightarrow> os_inv (menv M) \<alpha> os' \<Longrightarrow> os_size os' = os_size os \<Longrightarrow> os_object os' = os_object os \<Longrightarrow>
      writes_os (menv M) \<alpha> os' h' ((byte_val \<alpha> os')(off + i := g i)) (wr i i os' h')"
  shows "writes_os (menv M) \<alpha> os h (put_bytes off n g (byte_val \<alpha> os)) (write_loop M n wr [0..<n] os h)"
proof -
  have "writes_os (menv M) \<alpha> os h (put_bytes (off + 0) (n - 0) (\<lambda>i. g (0 + i)) (byte_val \<alpha> os)) (write_loop M n wr [0..<n] os h)"
    by (rule write_loop_ok [where sz = "os_size os" and ob = "os_object os", OF assms(1)]) (assumption | rule assms le0 refl)+
  then show ?thesis by simp
qed

lemma u32_offset: "os_inv E \<alpha> os \<Longrightarrow> k < os_size os \<Longrightarrow> u32 k = k"
  using os_shapeD(1) [OF os_invD(1)] by (fastforce simp: u32_def)

lemma write8_loop_ok:
  assumes "isLittleEndian M" "os_inv (menv M) \<alpha> os" "\<not> isSharedConcrete (os_object os)" "off + n \<le> os_size os"
    "\<And>i. i < n \<Longrightarrow> uint (v i) = g i"
  shows "writes_os (menv M) \<alpha> os h (put_bytes off n g (byte_val \<alpha> os)) (write_loop M n (\<lambda>idx i. write8 (u32 (off + idx)) (v i)) [0..<n] os h)"
proof (rule write_loop_all [OF assms(1,2)])
  fix i os' h' assume i: "i < n" and o: "os_inv (menv M) \<alpha> os'" "os_size os' = os_size os" "os_object os' = os_object os"
  have lt: "off + i < os_size os'" using i o(2) assms(4) by simp
  then show "writes_os (menv M) \<alpha> os' h' ((byte_val \<alpha> os')(off + i := g i)) (write8 (u32 (off + i)) (v i) os' h')"
    using write8_ok [OF o(1) lt, of "v i" h'] assms(3,5) i o(3) u32_offset [OF o(1) lt] by (auto simp: writes_os_def)
qed

lemma read_const_ok:
  assumes b: "bytes \<alpha>" and le: "isLittleEndian M" and inv: "os_inv (menv M) \<alpha> os" and ns: "\<not> isSharedConcrete (os_object os)"
    and w: "width_ok w" "off + getMinBytesForWidth w \<le> os_size os"
  shows "reads_os (menv M) \<alpha> os h w (le_val (\<lambda>i. byte_val \<alpha> os (off + i)) (getMinBytesForWidth w) mod 2 ^ w) (read_const M off w os h)"
proof (cases "w = 1")
  case True
  then have lt: "off < os_size os" using w(2) by (simp add: getMinBytesForWidth_def)
  obtain e os' h' where r: "read8 M off os h = Some (e, os', h')" "expr_ok (menv M) \<alpha> e" "getWidth e = 8" "eval \<alpha> e = byte_val \<alpha> os off"
    "after (menv M) \<alpha> os (byte_val \<alpha> os) os'" "host h' = host h" using reads_osE [OF read8_ok [OF b inv lt ns]] .
  then show ?thesis using ExtractExpr_create_creates [OF b r(2), of 1 0] True
    by (auto simp: read_const_def reads_os_def creates_def getMinBytesForWidth_def le_val_def)
next
  case False
  define n where "n = w div 8"
  have wn: "w = 8 * n" "0 < n" "getMinBytesForWidth w = n" using w(1) False by (auto simp: n_def elim!: width_okE)
  have "reads_os (menv M) \<alpha> os h (8 * n) (le_val (\<lambda>i. byte_val \<alpha> os (off + i)) n)
    (read_loop M n (\<lambda>idx. read8 M (u32 (off + idx))) [0..<n] None os h)"
  proof (rule read_loop_ok [where os0 = os, OF b le wn(2)])
    fix idx os' h' assume i: "idx < n" and a: "after (menv M) \<alpha> os (byte_val \<alpha> os) os'"
    have lt: "off + idx < os_size os" using i w(2) wn by simp
    show "reads_os (menv M) \<alpha> os' h' 8 (byte_val \<alpha> os (off + idx)) (read8 M (u32 (off + idx)) os' h')"
      using read8_ok [OF b afterD(1) [OF a], of "off + idx" h'] lt afterD(2,3) [OF a] afterD(4) [OF a lt] ns u32_offset [OF inv lt] by simp
  qed (use after_refl [OF inv] in auto)
  then have r: "reads_os (menv M) \<alpha> os h w (le_val (\<lambda>i. byte_val \<alpha> os (off + i)) n) (read_const M off w os h)"
    using False wn by (simp add: read_const_def)
  then show ?thesis using reads_os_range [OF b r] wn(3) by simp
qed

lemma write_general_ok:
  assumes b: "bytes \<alpha>" and le: "isLittleEndian M" and inv: "os_inv (menv M) \<alpha> os" and ns: "\<not> isSharedConcrete (os_object os)"
    and v: "expr_ok (menv M) \<alpha> v" "width_ok (getWidth v)" "off + getMinBytesForWidth (getWidth v) \<le> os_size os"
  shows "writes_os (menv M) \<alpha> os h (put_bytes off (getMinBytesForWidth (getWidth v)) (byte_of (eval \<alpha> v)) (byte_val \<alpha> os)) (write_general M off v os h)"
  using v(2)
proof (cases rule: width_okE)
  case 1
  obtain z where z: "create_ZExt (menv M) v 8 = Some z" "expr_ok (menv M) \<alpha> z" "getWidth z = 8" "eval \<alpha> z = eval \<alpha> v mod 256"
    using create_ZExt_ok [OF b v(1), of 8] by (auto simp: creates_def)
  have "off < os_size os" using v(3) 1 by simp
  from write8_expr_ok [OF inv this ns z(2,3), of h] show ?thesis
    using z 1 by (simp add: write_general_def put_bytes_1)
next
  case (2 n)
  have "writes_os (menv M) \<alpha> os h (put_bytes off n (byte_of (eval \<alpha> v)) (byte_val \<alpha> os))
    (write_loop M n (\<lambda>idx i os h. do { b \<leftarrow> ExtractExpr_create (menv M) v (8 * i) 8; write8_expr M (u32 (off + idx)) b os h }) [0..<n] os h)"
  proof (rule write_loop_all [OF le inv])
    fix i os' h' assume i: "i < n" and o: "os_inv (menv M) \<alpha> os'" "os_size os' = os_size os" "os_object os' = os_object os"
    have lt: "off + i < os_size os'" using i o(2) v(3) 2 by simp
    obtain x where x: "ExtractExpr_create (menv M) v (8 * i) 8 = Some x" "expr_ok (menv M) \<alpha> x" "getWidth x = 8" "eval \<alpha> x = byte_of (eval \<alpha> v) i"
      using ExtractExpr_create_creates [OF b v(1), of 8 "8 * i"] i 2 by (auto simp: creates_def)
    show "writes_os (menv M) \<alpha> os' h' ((byte_val \<alpha> os')(off + i := byte_of (eval \<alpha> v) i))
      (do { b \<leftarrow> ExtractExpr_create (menv M) v (8 * i) 8; write8_expr M (u32 (off + i)) b os' h' })"
      using write8_expr_ok [OF o(1) lt _ x(2,3), of h'] x(1,4) ns o(3) u32_offset [OF o(1) lt] by simp
  qed
  then show ?thesis using 2 by (simp add: write_general_def)
qed

lemma write_words_ok:
  assumes le: "isLittleEndian M" and inv: "os_inv (menv M) \<alpha> os" and ns: "\<not> isSharedConcrete (os_object os)"
  shows "off + 2 \<le> os_size os \<Longrightarrow> writes_os (menv M) \<alpha> os h (put_bytes off 2 (byte_of (uint x)) (byte_val \<alpha> os)) (write16 M off x os h)"
    "off + 4 \<le> os_size os \<Longrightarrow> writes_os (menv M) \<alpha> os h (put_bytes off 4 (byte_of (uint y)) (byte_val \<alpha> os)) (write32 M off y os h)"
    "off + 8 \<le> os_size os \<Longrightarrow> writes_os (menv M) \<alpha> os h (put_bytes off 8 (byte_of (uint z)) (byte_val \<alpha> os)) (write64 M off z os h)"
  unfolding write16_def write32_def write64_def by (rule write8_loop_ok [OF le inv ns]; simp add: uint_byte)+

lemma uint_ucast_ap:
  assumes "wf_ap c" "ap_width c \<le> 64" "ap_width c \<le> LENGTH('a)"
  shows "uint (ucast (word_of_int (ap_val c) :: uint64_t) :: 'a::len word) = ap_val c"
proof -
  have v: "uint (word_of_int (ap_val c) :: uint64_t) = ap_val c" using wf_ap_64 [OF assms(1,2)] by (simp add: unsigned_of_int take_bit_eq_mod)
  have "ap_val c < 2 ^ LENGTH('a)" by (rule order.strict_trans2 [of _ "2 ^ ap_width c"]) (use assms in \<open>simp_all add: wf_ap_def\<close>)
  then show ?thesis using assms(1) by (simp add: unsigned_ucast_eq v take_bit_eq_mod wf_ap_def)
qed

lemma write_const_ok:
  assumes b: "bytes \<alpha>" and le: "isLittleEndian M" and inv: "os_inv (menv M) \<alpha> os" and ns: "\<not> isSharedConcrete (os_object os)"
    and v: "expr_ok (menv M) \<alpha> v" "writable v" "off + getMinBytesForWidth (getWidth v) \<le> os_size os"
  shows "writes_os (menv M) \<alpha> os h (put_bytes off (getMinBytesForWidth (getWidth v)) (byte_of (eval \<alpha> v)) (byte_val \<alpha> os)) (write_const M off v os h)"
proof (cases "\<exists>c. v = ConstantExpr c \<and> ap_width c \<le> 64")
  case False
  then have "write_const M off v os h = write_general M off v os h" by (cases v) (auto simp: write_const_def)
  then show ?thesis using write_general_ok [OF b le inv ns v(1) _ v(3)] v(2) by (simp add: writable_def)
next
  case True
  then obtain c where c: "v = ConstantExpr c" "ap_width c \<le> 64" by blast
  have wf: "wf_ap c" using v(1) c by simp
  let ?x = "word_of_int (ap_val c) :: uint64_t"
  have z: "getZExtValue (menv M) 64 c = Some ?x" using wf c(2) by (simp add: getZExtValue_eq)
  have x: "uint ?x = ap_val c" using wf_ap_64 [OF wf c(2)] by (simp add: unsigned_of_int take_bit_eq_mod)
  have u: "uint (ucast ?x :: uint8_t) = ap_val c" if "ap_width c \<le> 8" by (rule uint_ucast_ap [OF wf c(2)]) (simp add: that)
  have u16: "uint (ucast ?x :: 16 word) = ap_val c" if "ap_width c = 16" by (rule uint_ucast_ap [OF wf c(2)]) (simp add: that)
  have u32: "uint (ucast ?x :: uint32_t) = ap_val c" if "ap_width c = 32" by (rule uint_ucast_ap [OF wf c(2)]) (simp add: that)
  have "ap_width c = 1 \<or> ap_width c = 8 \<or> ap_width c = 16 \<or> ap_width c = 32 \<or> ap_width c = 64" using v(2) c by (auto simp: writable_def)
  then consider "ap_width c = 1 \<or> ap_width c = 8" | "ap_width c = 16" | "ap_width c = 32" | "ap_width c = 64" by blast
  then show ?thesis
  proof cases
    case 1
    then have n: "getMinBytesForWidth (getWidth v) = 1" "ap_val c < 256" "0 \<le> ap_val c" using c wf by (auto simp: getMinBytesForWidth_def wf_ap_def)
    have "uint (ucast ?x :: uint8_t) = ap_val c" using 1 by (intro u) auto
    then have "writes_os (menv M) \<alpha> os h ((byte_val \<alpha> os)(off := ap_val c)) (write8 off (ucast ?x) os h)"
      using write8_ok [OF inv _ ns, of off "ucast ?x" h] v(3) n(1) by (auto simp: writes_os_def)
    then show ?thesis using 1 c z n by (simp add: write_const_def put_bytes_1)
  next
    case 2
    then show ?thesis using write_words_ok(1) [OF le inv ns, of off h "ucast ?x"] u16 c z v(3) by (simp add: write_const_def getMinBytesForWidth_def)
  next
    case 3
    then show ?thesis using write_words_ok(2) [OF le inv ns, of off h "ucast ?x"] u32 c z v(3) by (simp add: write_const_def getMinBytesForWidth_def)
  next
    case 4
    then show ?thesis using write_words_ok(3) [OF le inv ns, of off h ?x] x c z v(3) by (simp add: write_const_def getMinBytesForWidth_def)
  qed
qed

subsection \<open>Any offset\<close>

lemma offset_ZExt:
  assumes b: "bytes \<alpha>" and i: "offset_ok M \<alpha> os i n"
  obtains x where "create_ZExt (menv M) i 32 = Some x" "expr_ok (menv M) \<alpha> x" "getWidth x = 32" "eval \<alpha> x = int (nat (eval \<alpha> i mod 2 ^ 32))"
  using create_ZExt_ok [OF b, of i 32] i by (auto simp: creates_def offset_ok_def)

lemma offset_sum:
  assumes b: "bytes \<alpha>" and inv: "os_inv (menv M) \<alpha> os" and i: "offset_ok M \<alpha> os i n"
    and x: "create_ZExt (menv M) i 32 = Some x" "expr_ok (menv M) \<alpha> x" "getWidth x = 32" "eval \<alpha> x = int off" "dyn_const x = None"
    and k: "k < n" "off + k < os_size os"
  obtains a where "create_Add (menv M) x (ConstantExpr (APInt 32 (int k))) = Some a" "expr_ok (menv M) \<alpha> a" "dyn_const a = None"
    "eval \<alpha> a mod 2 ^ 32 = int (off + k)" "const32 M k = Some (ConstantExpr (APInt 32 (int k)))"
proof -
  have lt: "off + k < 2 ^ 32" using k(2) os_shapeD(1) [OF os_invD(1) [OF inv]] by simp
  have kk: "expr_ok (menv M) \<alpha> (ConstantExpr (APInt 32 (int k)))" using lt by (simp add: wf_ap_def)
  obtain a where a: "create_Add (menv M) x (ConstantExpr (APInt 32 (int k))) = Some a" "expr_ok (menv M) \<alpha> a"
    "eval \<alpha> a = sem_bin Add 32 (int off) (int k)"
    using create_AddSub_ok [OF b, of 32, OF _ x(2) kk x(3)] x(4) by (auto simp: creates_def)
  have "sem_bin Add 32 (int off) (int k) mod 2 ^ 32 = int (off + k)" using lt by (simp add: sem_bin.simps)
  then show ?thesis using that [of a] a i x(1,5) k(1) const32_ok [of k] lt by (auto simp: offset_ok_def)
qed

lemma read_sym_bytes_ok:
  assumes b: "bytes \<alpha>" and le: "isLittleEndian M" and inv: "os_inv (menv M) \<alpha> os" and ns: "\<not> isSharedConcrete (os_object os)"
    and i: "offset_ok M \<alpha> os i n" "0 < n" "off + n \<le> os_size os"
    and x: "create_ZExt (menv M) i 32 = Some x" "expr_ok (menv M) \<alpha> x" "getWidth x = 32" "eval \<alpha> x = int off" "dyn_const x = None"
  shows "reads_os (menv M) \<alpha> os h (8 * n) (le_val (\<lambda>k. byte_val \<alpha> os (off + k)) n)
    (read_loop M n (\<lambda>idx os h. do { c \<leftarrow> const32 M idx; a \<leftarrow> create_Add (menv M) x c; read8_sym M a os h }) [0..<n] None os h)"
proof (rule read_loop_ok [where os0 = os, OF b le i(2)])
  fix k os' h' assume k: "k < n" and a: "after (menv M) \<alpha> os (byte_val \<alpha> os) os'"
  have lt: "off + k < os_size os" using k i(3) by simp
  obtain y where y: "create_Add (menv M) x (ConstantExpr (APInt 32 (int k))) = Some y" "expr_ok (menv M) \<alpha> y" "dyn_const y = None"
    "eval \<alpha> y mod 2 ^ 32 = int (off + k)" "const32 M k = Some (ConstantExpr (APInt 32 (int k)))"
    using offset_sum [OF b inv i(1) x k lt] by auto
  show "reads_os (menv M) \<alpha> os' h' 8 (byte_val \<alpha> os (off + k)) (do { c \<leftarrow> const32 M k; a \<leftarrow> create_Add (menv M) x c; read8_sym M a os' h' })"
    using read8_sym_ok [OF b afterD(1) [OF a] _ y(2,3), of h'] ns afterD(2,3) [OF a] afterD(4) [OF a lt] lt
    unfolding y(1,4,5) nat_int by (simp add: y(1))
qed (use after_refl [OF inv] in auto)

lemma write_sym_bytes_ok:
  assumes b: "bytes \<alpha>" and le: "isLittleEndian M" and inv: "os_inv (menv M) \<alpha> os" and ns: "\<not> isSharedConcrete (os_object os)"
    and i: "offset_ok M \<alpha> os i n" "off + n \<le> os_size os" and v: "expr_ok (menv M) \<alpha> v" "getWidth v = 8 * n"
    and x: "create_ZExt (menv M) i 32 = Some x" "expr_ok (menv M) \<alpha> x" "getWidth x = 32" "eval \<alpha> x = int off" "dyn_const x = None"
  shows "writes_os (menv M) \<alpha> os h (put_bytes off n (byte_of (eval \<alpha> v)) (byte_val \<alpha> os))
    (write_loop M n (\<lambda>idx i os h. do { c \<leftarrow> const32 M idx; a \<leftarrow> create_Add (menv M) x c;
      b \<leftarrow> ExtractExpr_create (menv M) v (8 * i) 8; write8_sym M a b os h }) [0..<n] os h)"
proof (rule write_loop_all [OF le inv])
  fix k os' h' assume k: "k < n" and o: "os_inv (menv M) \<alpha> os'" "os_size os' = os_size os" "os_object os' = os_object os"
  have lt: "off + k < os_size os" using k i(2) by simp
  obtain y where y: "create_Add (menv M) x (ConstantExpr (APInt 32 (int k))) = Some y" "expr_ok (menv M) \<alpha> y" "dyn_const y = None"
    "eval \<alpha> y mod 2 ^ 32 = int (off + k)" "const32 M k = Some (ConstantExpr (APInt 32 (int k)))"
    using offset_sum [OF b inv i(1) x k lt] by auto
  obtain z where z: "ExtractExpr_create (menv M) v (8 * k) 8 = Some z" "expr_ok (menv M) \<alpha> z" "getWidth z = 8" "eval \<alpha> z = byte_of (eval \<alpha> v) k"
    using ExtractExpr_create_creates [OF b v(1), of 8 "8 * k"] k v(2) by (auto simp: creates_def)
  show "writes_os (menv M) \<alpha> os' h' ((byte_val \<alpha> os')(off + k := byte_of (eval \<alpha> v) k)) (do { c \<leftarrow> const32 M k; a \<leftarrow> create_Add (menv M) x c;
      b \<leftarrow> ExtractExpr_create (menv M) v (8 * k) 8; write8_sym M a b os' h' })"
    using write8_sym_ok [OF b o(1) _ y(2,3) _ z(2,3), of h'] ns o(2,3) lt unfolding y(1,4,5) nat_int z(4) by (simp add: y(1) z(1))
qed

lemma os_read_ok:
  assumes b: "bytes \<alpha>" and le: "isLittleEndian M" and inv: "os_inv (menv M) \<alpha> os" and ns: "\<not> isSharedConcrete (os_object os)"
    and w: "width_ok w" and i: "offset_ok M \<alpha> os i (getMinBytesForWidth w)" and off: "off = nat (eval \<alpha> i mod 2 ^ 32)"
  shows "reads_os (menv M) \<alpha> os h w (le_val (\<lambda>k. byte_val \<alpha> os (off + k)) (getMinBytesForWidth w) mod 2 ^ w) (os_read M i w os h)"
proof -
  obtain x where x: "create_ZExt (menv M) i 32 = Some x" "expr_ok (menv M) \<alpha> x" "getWidth x = 32" "eval \<alpha> x = int off"
    using offset_ZExt [OF b i] unfolding off .
  have sz: "off + getMinBytesForWidth w \<le> os_size os" using i by (simp add: offset_ok_def off)
  note small = os_shapeD(1) [OF os_invD(1) [OF inv]]
  show ?thesis
  proof (cases "dyn_const x")
    case (Some c)
    then have c: "x = ConstantExpr c" by (auto elim!: dyn_const.elims)
    then have "unat (word_of_int (ap_val c) :: uint64_t) = off" "wf_ap c" "ap_width c = 32" using x sz small by (simp_all add: unat_of_nat)
    then show ?thesis using read_const_ok [OF b le inv ns w sz, of h] x(1) c by (simp add: os_read_def getZExtValue_eq)
  next
    case None
    show ?thesis
      using w
    proof (cases rule: width_okE)
      case 1
      have o: "nat (eval \<alpha> x mod 2 ^ 32) = off" "eval \<alpha> x mod 2 ^ 32 < int (os_size os)" using x(4) sz 1(2) small by simp_all
      obtain e os' h' where r: "read8_sym M x os h = Some (e, os', h')" "expr_ok (menv M) \<alpha> e" "getWidth e = 8" "eval \<alpha> e = byte_val \<alpha> os off"
        "after (menv M) \<alpha> os (byte_val \<alpha> os) os'" "host h' = host h"
        using reads_osE [OF read8_sym_ok [OF b inv ns x(2) None o(2)]] unfolding o(1) .
      then show ?thesis using ExtractExpr_create_creates [OF b r(2), of 1 0] 1 x(1) None
        by (auto simp: os_read_def reads_os_def creates_def le_val_def)
    next
      case (2 n)
      then have "reads_os (menv M) \<alpha> os h w (le_val (\<lambda>k. byte_val \<alpha> os (off + k)) n) (os_read M i w os h)"
        using read_sym_bytes_ok [OF b le inv ns _ 2(4) _ x None, of h] i sz x(1) None by (simp add: os_read_def)
      then show ?thesis using reads_os_range [OF b] 2(5) by fastforce
    qed
  qed
qed

lemma os_write_ok:
  assumes b: "bytes \<alpha>" and le: "isLittleEndian M" and inv: "os_inv (menv M) \<alpha> os" and ns: "\<not> isSharedConcrete (os_object os)"
    and v: "expr_ok (menv M) \<alpha> v" "writable v" and i: "offset_ok M \<alpha> os i (getMinBytesForWidth (getWidth v))" and off: "off = nat (eval \<alpha> i mod 2 ^ 32)"
  shows "writes_os (menv M) \<alpha> os h (put_bytes off (getMinBytesForWidth (getWidth v)) (byte_of (eval \<alpha> v)) (byte_val \<alpha> os)) (os_write M i v os h)"
proof -
  obtain x where x: "create_ZExt (menv M) i 32 = Some x" "expr_ok (menv M) \<alpha> x" "getWidth x = 32" "eval \<alpha> x = int off"
    using offset_ZExt [OF b i] unfolding off .
  have sz: "off + getMinBytesForWidth (getWidth v) \<le> os_size os" using i by (simp add: offset_ok_def off)
  note small = os_shapeD(1) [OF os_invD(1) [OF inv]]
  have w: "width_ok (getWidth v)" using v(2) by (simp add: writable_def)
  show ?thesis
  proof (cases "dyn_const x")
    case (Some c)
    then have c: "x = ConstantExpr c" by (auto elim!: dyn_const.elims)
    then have "unat (word_of_int (ap_val c) :: uint64_t) = off" "wf_ap c" "ap_width c = 32" using x sz small by (simp_all add: unat_of_nat)
    then show ?thesis using write_const_ok [OF b le inv ns v sz, of h] x(1) c by (simp add: os_write_def getZExtValue_eq)
  next
    case None
    show ?thesis
      using w
    proof (cases rule: width_okE)
      case 1
      have o: "nat (eval \<alpha> x mod 2 ^ 32) = off" "eval \<alpha> x mod 2 ^ 32 < int (os_size os)" using x(4) sz 1(2) small by simp_all
      obtain z where z: "create_ZExt (menv M) v 8 = Some z" "expr_ok (menv M) \<alpha> z" "getWidth z = 8" "eval \<alpha> z = eval \<alpha> v mod 256"
        using create_ZExt_ok [OF b v(1), of 8] by (auto simp: creates_def)
      show ?thesis using write8_sym_ok [OF b inv ns x(2) None o(2) z(2,3), of h] 1 x(1) z(1,4) None
        unfolding o(1) by (simp add: os_write_def put_bytes_1)
    next
      case (2 n)
      then show ?thesis using write_sym_bytes_ok [OF b le inv ns _ _ v(1) _ x None, of n h] i sz x(1) None by (simp add: os_write_def)
    qed
  qed
qed

subsection \<open>Bounds checks\<close>

lemma pointer_const:
  assumes "uint v < 2 ^ getPointerWidth M"
  shows "ConstantExpr_create (menv M) v (getPointerWidth M) = Some (APInt (getPointerWidth M) (uint v))"
    "ConstantExpr_alloc (menv M) v (getPointerWidth M) = APInt (getPointerWidth M) (uint v)"
    "expr_ok (menv M) \<alpha> (ConstantExpr (APInt (getPointerWidth M) (uint v)))"
  using pointer_width assms ConstantExpr_create_fits [of "getPointerWidth M" v]
  by (auto simp: ConstantExpr_alloc_def ap_new wf_ap_def)

lemma getOffsetExpr_ok:
  assumes "bytes \<alpha>" "expr_ok (menv M) \<alpha> p" "getWidth p = getPointerWidth M" "uint (mo_address mo) < 2 ^ getPointerWidth M"
  shows "creates (menv M) \<alpha> (getPointerWidth M) ((eval \<alpha> p - uint (mo_address mo)) mod 2 ^ getPointerWidth M) (getOffsetExpr M mo p)"
  using create_AddSub_ok [OF assms(1) _ assms(2) pointer_const(3) [OF assms(4)] assms(3)] pointer_width pointer_const(1) [OF assms(4)]
  by (auto simp: getOffsetExpr_def getBaseExpr_def sem_bin.simps)

lemma size_const:
  assumes "n \<le> 2 ^ 32"
  shows "uint (of_nat n :: uint64_t) = int n" "n < 2 ^ 32 \<Longrightarrow> uint (of_nat n :: uint64_t) < 2 ^ getPointerWidth M"
proof -
  show n: "uint (of_nat n :: uint64_t) = int n" using assms by (simp add: unsigned_of_nat take_bit_nat_eq_self_iff)
  show "uint (of_nat n :: uint64_t) < 2 ^ getPointerWidth M" if "n < 2 ^ 32" unfolding n using that pointer_width by auto
qed

lemma getBoundsCheckOffset_ok:
  assumes "bytes \<alpha>" "expr_ok (menv M) \<alpha> off" "getWidth off = getPointerWidth M" "mo_size mo < 2 ^ 32"
  shows "creates (menv M) \<alpha> 1 (of_bool (if mo_size mo = 0 then eval \<alpha> off = 0 else eval \<alpha> off < int (mo_size mo))) (getBoundsCheckOffset M mo off)"
proof -
  have le: "getPointerWidth M \<le> 64" using pointer_width by auto
  note sz = size_const [of "mo_size mo"]
  note cmp = create_cmp_ok [OF assms(1,2) pointer_const(3) assms(3) _ le]
  show ?thesis
  proof (cases "mo_size mo = 0")
    case True
    then show ?thesis using cmp [of 0 Eq] pointer_const(2) [of 0] by (simp add: getBoundsCheckOffset_def)
  next
    case False
    then show ?thesis using cmp [of "of_nat (mo_size mo)" Ult] pointer_const(1) [of "of_nat (mo_size mo)"] sz assms(4)
      by (simp add: getBoundsCheckOffset_def getSizeExpr_def)
  qed
qed

lemma getBoundsCheckOffset_bytes_ok:
  assumes "bytes \<alpha>" "expr_ok (menv M) \<alpha> off" "getWidth off = getPointerWidth M" "mo_size mo < 2 ^ 32" "0 < n"
  shows "creates (menv M) \<alpha> 1 (of_bool (eval \<alpha> off + int n \<le> int (mo_size mo))) (getBoundsCheckOffset_bytes M mo off n)"
proof -
  have le: "getPointerWidth M \<le> 64" using pointer_width by auto
  have pos: "0 \<le> eval \<alpha> off" using eval_range(1) [OF assms(1)] assms(2) by (simp add: expr_ok_def)
  let ?k = "u32 (mo_size mo - n + 1)"
  note cmp = create_cmp_ok [OF assms(1,2) pointer_const(3) assms(3) _ le]
  show ?thesis
  proof (cases "n \<le> mo_size mo")
    case True
    then have k: "?k = mo_size mo - n + 1" "?k < 2 ^ 32" using assms(4,5) by (simp_all add: u32_def)
    have "eval \<alpha> off < int ?k \<longleftrightarrow> eval \<alpha> off + int n \<le> int (mo_size mo)" using True k(1) by auto
    then show ?thesis using cmp [of "of_nat ?k" Ult] size_const [of ?k] pointer_const(2) [of "of_nat ?k"] k(2) True
      by (simp add: getBoundsCheckOffset_bytes_def)
  next
    case False
    then have "\<not> eval \<alpha> off + int n \<le> int (mo_size mo)" using pos by linarith
    then show ?thesis using False by (simp add: getBoundsCheckOffset_bytes_def ConstantExpr_alloc_def ap_new wf_ap_def)
  qed
qed

end

definition mem_config :: "bool \<Rightarrow> bool \<Rightarrow> bool \<Rightarrow> mem_env" where
  "mem_config le ca opt = \<lparr>
     menv = apint_env opt,
     isLittleEndian = le,
     getPointerWidth = 32,
     UseConstantArrays = ca,
     arr_alloc = length,
     utostr = (\<lambda>n. replicate n (CHR ''1''))\<rparr>"

interpretation mem: mem_laws "mem_config le ca opt"
proof -
  have "apint_laws (menv (mem_config le ca opt))" using apint_env.apint_laws_axioms by (simp add: mem_config_def)
  then show "mem_laws (mem_config le ca opt)" by (intro mem_laws.intro mem_laws_axioms.intro) (simp_all add: mem_config_def)
qed

subsection \<open>The states of an object\<close>

text \<open>
  The states an object goes through: the two constructors, the copy, the initialisations and the
  accesses within its bounds.
\<close>

inductive os_reach :: "mem_env \<Rightarrow> contents \<Rightarrow> object_state \<Rightarrow> bool" for M :: mem_env and \<alpha> :: contents where
  new: "ObjectState_new M mo junk h = Some (os, h') \<Longrightarrow> mo_size mo + 31 < 2 ^ 32 \<Longrightarrow> \<not> isSharedConcrete mo \<Longrightarrow> os_reach M \<alpha> os"
| array: "ObjectState_array mo junk ar = Some os \<Longrightarrow> wf_array ar \<Longrightarrow> arr_size ar = mo_size mo \<Longrightarrow> mo_size mo + 31 < 2 ^ 32 \<Longrightarrow> \<not> isSharedConcrete mo \<Longrightarrow> os_reach M \<alpha> os"
| copy: "os_reach M \<alpha> os \<Longrightarrow> ObjectState_copy os = Some os' \<Longrightarrow> os_reach M \<alpha> os'"
| zero: "os_reach M \<alpha> os \<Longrightarrow> os_reach M \<alpha> (initializeToZero os)"
| random: "os_reach M \<alpha> os \<Longrightarrow> os_reach M \<alpha> (initializeToRandom os)"
| set_read_only: "os_reach M \<alpha> os \<Longrightarrow> os_reach M \<alpha> (setReadOnly os ro)"
| read_at: "os_reach M \<alpha> os \<Longrightarrow> width_ok w \<Longrightarrow> offset_ok M \<alpha> os i (getMinBytesForWidth w) \<Longrightarrow> os_read M i w os h = Some (e, os', h') \<Longrightarrow> os_reach M \<alpha> os'"
| write_at: "os_reach M \<alpha> os \<Longrightarrow> expr_ok (menv M) \<alpha> v \<Longrightarrow> writable v \<Longrightarrow> offset_ok M \<alpha> os i (getMinBytesForWidth (getWidth v)) \<Longrightarrow>
    os_write M i v os h = Some (u, os', h') \<Longrightarrow> os_reach M \<alpha> os'"

lemma makeConcrete_inv:
  assumes "os_inv E \<alpha> os" "length st = os_size os"
  shows "os_inv E \<alpha> ((makeConcrete os)\<lparr>concreteStore := st\<rparr>)"
  using os_invD [OF assms(1)] assms(2) by (auto simp: os_inv_def makeConcrete_def os_shape_def mask_ok_def ksym_def)

lemma ObjectState_new_inv:
  assumes "ObjectState_new M mo junk h = Some (os, h')" "mo_size mo + 31 < 2 ^ 32"
  shows "os_inv (menv M) \<alpha> os \<and> os_object os = mo"
  using assms
  by (auto simp: ObjectState_new_def Let_def os_inv_def os_shape_def mask_ok_def ksym_def Array_new_def updates_ok_Writes writes_in_def
      wf_array_def isConstantArray_def isSymbolicArray_def bind_eq_Some_conv split: if_splits)

lemma ObjectState_copy_inv:
  assumes "ObjectState_copy os = Some os'" "os_inv E \<alpha> os"
  shows "os_inv E \<alpha> os' \<and> os_object os' = os_object os"
proof -
  note sh = os_shapeD [OF os_invD(1) [OF assms(2)]]
  have m: "(case m of None \<Rightarrow> Some None | Some b \<Rightarrow> map_option Some (BitArray_copy b (os_size os))) = Some m" if "mask_ok (os_size os) m" for m
    using that by (auto simp: mask_ok_def BitArray_copy_def length_ba_words [OF sh(6)] split: option.split)
  have k: "(case knownSymbolics os of None \<Rightarrow> Some None | Some ks \<Rightarrow> if os_size os \<le> length ks then Some (Some (take (os_size os) ks)) else None)
    = Some (knownSymbolics os)" using sh(5) by (auto split: option.split)
  have "os' = os\<lparr>copyOnWriteOwner := 0, readOnly := False\<rparr>"
    using assms(1) sh(2) unfolding ObjectState_copy_def m [OF sh(3)] m [OF sh(4)] k by (auto simp: bind_eq_Some_conv split: if_splits)
  then show ?thesis using assms(2) by simp
qed

lemma markByteFlushed_ok:
  assumes "os_shape os" "i < os_size os"
  shows "\<exists>m. markByteFlushed os i = Some (os\<lparr>flushMask := m\<rparr>) \<and> mask_ok (os_size os) m \<and>
    (\<forall>j < os_size os. mset_bit m j \<longrightarrow> j \<noteq> i \<and> unflushed os j)"
proof (cases "flushMask os")
  case None
  then show ?thesis using mset_new [OF os_shapeD(6) [OF assms(1)], where v = False] by (auto simp: markByteFlushed_def)
next
  case (Some b)
  then obtain m where "markByteFlushed os i = Some (os\<lparr>flushMask := m\<rparr>)" "mask_ok (os_size os) m"
    "\<And>j. j < os_size os \<Longrightarrow> mset_bit m j \<longleftrightarrow> j \<noteq> i \<and> unflushed os j" using flush_unset_ok [OF assms] by blast
  then show ?thesis by auto
qed

lemma symbolic_loop_ok:
  assumes "os_shape os" "\<forall>i \<in> set is. i < os_size os"
  shows "\<exists>cm k fm. symbolic_loop is os = Some (os\<lparr>concreteMask := cm, knownSymbolics := k, flushMask := fm\<rparr>) \<and>
    os_shape (os\<lparr>concreteMask := cm, knownSymbolics := k, flushMask := fm\<rparr>) \<and>
    (\<forall>j < os_size os. j \<in> set is \<or> in_updates os j \<and> \<not> unflushed os j \<longrightarrow>
      in_updates (os\<lparr>concreteMask := cm, knownSymbolics := k, flushMask := fm\<rparr>) j \<and> \<not> mset_bit fm j)"
  using assms
proof (induction "is" arbitrary: os)
  case Nil
  then show ?case by (intro exI [of _ "concreteMask os"] exI [of _ "knownSymbolics os"] exI [of _ "flushMask os"]) simp
next
  case (Cons i "is")
  have i: "i < os_size os" using Cons.prems(2) by simp
  obtain cm where cm: "markByteSymbolic os i = Some (os\<lparr>concreteMask := cm\<rparr>)" "mask_ok (os_size os) cm"
    "\<And>j. j < os_size os \<Longrightarrow> mset_bit cm j \<longleftrightarrow> j \<noteq> i \<and> conc os j" using markByteSymbolic_ok [OF Cons.prems(1) i] by metis
  let ?os1 = "os\<lparr>concreteMask := cm\<rparr>"
  have sh1: "os_shape ?os1" using Cons.prems(1) cm(2) by (simp add: os_shape_def)
  obtain k where k: "setKnownSymbolic ?os1 i None = Some (?os1\<lparr>knownSymbolics := k\<rparr>)" "\<And>ks. k = Some ks \<Longrightarrow> length ks = os_size os"
    "\<And>j. j < os_size os \<Longrightarrow> ksym (?os1\<lparr>knownSymbolics := k\<rparr>) j = (if j = i then None else ksym os j)"
    by (rule setKnownSymbolic_ok [OF sh1, of i None]) (use i in auto)
  let ?os2 = "?os1\<lparr>knownSymbolics := k\<rparr>"
  have sh2: "os_shape ?os2" using sh1 k(2) by (simp add: os_shape_def)
  obtain fm where fm: "markByteFlushed ?os2 i = Some (?os2\<lparr>flushMask := fm\<rparr>)" "mask_ok (os_size os) fm"
    "\<And>j. j < os_size os \<Longrightarrow> mset_bit fm j \<Longrightarrow> j \<noteq> i \<and> unflushed os j" using markByteFlushed_ok [OF sh2, of i] i by auto
  let ?os3 = "?os2\<lparr>flushMask := fm\<rparr>"
  have sh3: "os_shape ?os3" using sh2 fm(2) by (simp add: os_shape_def)
  have up: "in_updates ?os3 j \<and> \<not> unflushed ?os3 j" if "j < os_size os" "j = i \<or> in_updates os j \<and> \<not> unflushed os j" for j
    using that cm(3) k(3) fm(3) by (auto simp: in_updates_def)
  have is': "\<forall>i \<in> set is. i < os_size ?os3" using Cons.prems(2) by simp
  obtain cm' k' fm' where r: "symbolic_loop is ?os3 = Some (os\<lparr>concreteMask := cm', knownSymbolics := k', flushMask := fm'\<rparr>)"
    "os_shape (os\<lparr>concreteMask := cm', knownSymbolics := k', flushMask := fm'\<rparr>)"
    "\<forall>j < os_size os. j \<in> set is \<or> in_updates ?os3 j \<and> \<not> unflushed ?os3 j \<longrightarrow>
      in_updates (os\<lparr>concreteMask := cm', knownSymbolics := k', flushMask := fm'\<rparr>) j \<and> \<not> mset_bit fm' j"
    using Cons.IH [OF sh3 is'] by auto
  show ?case using r up cm(1) k(1) fm(1)
    by (intro exI [of _ cm'] exI [of _ k'] exI [of _ fm'] conjI) (simp, simp, metis set_ConsD)
qed

lemma ObjectState_array_inv:
  assumes "ObjectState_array mo junk ar = Some os" "wf_array ar" "arr_size ar = mo_size mo" "mo_size mo + 31 < 2 ^ 32"
  shows "os_inv E \<alpha> os \<and> os_object os = mo"
proof -
  define o0 where "o0 = \<lparr>concreteMask = None, copyOnWriteOwner = 0, os_object = mo, concreteStore = junk, flushMask = None,
    knownSymbolics = None, upd_root = Some ar, upd_head = NoUpdate, os_size = mo_size mo, readOnly = False\<rparr>"
  have l: "length junk = mo_size mo" "symbolic_loop [0..<os_size o0] o0 = Some os"
    using assms(1) by (auto simp: ObjectState_array_def makeSymbolic_def o0_def bind_eq_Some_conv)
  have sh: "os_shape o0" using l(1) assms(4) by (simp add: os_shape_def o0_def mask_ok_def wf_array_def)
  obtain cm k fm where os: "os = o0\<lparr>concreteMask := cm, knownSymbolics := k, flushMask := fm\<rparr>" "os_shape os"
    "\<And>j. j < os_size o0 \<Longrightarrow> in_updates os j \<and> \<not> unflushed os j"
    using symbolic_loop_ok [OF sh, of "[0..<os_size o0]"] l(2) by auto
  have "os_size os = mo_size mo" "os_object os = mo" "upd_root os = Some ar" "upd_head os = NoUpdate" by (simp_all add: os(1) o0_def)
  then show ?thesis using os(2,3) assms(2,3)
    by (auto simp: os_inv_def updates_ok_Writes writes_in_def in_updates_def byte_val_def o0_def)
qed

lemma os_reach_inv:
  assumes "mem_laws M" "bytes \<alpha>" "isLittleEndian M" "os_reach M \<alpha> os"
  shows "os_inv (menv M) \<alpha> os \<and> \<not> isSharedConcrete (os_object os)"
  using assms(4)
proof induction
  case (new mo junk h os h')
  then show ?case using ObjectState_new_inv [of M mo junk h os h' \<alpha>] by auto
next
  case (array mo junk ar os)
  then show ?case using ObjectState_array_inv [of mo junk ar os "menv M" \<alpha>] by auto
next
  case (copy os os')
  then show ?case using ObjectState_copy_inv [of os os'] by auto
next
  case (zero os)
  then show ?case using makeConcrete_inv [of "menv M" \<alpha> os "replicate (os_size os) 0"] by (simp add: initializeToZero_def makeConcrete_def)
next
  case (random os)
  then show ?case using makeConcrete_inv [of "menv M" \<alpha> os "replicate (os_size os) 0xAB"] by (simp add: initializeToRandom_def makeConcrete_def)
next
  case (set_read_only os ro)
  then show ?case by (simp add: setReadOnly_def)
next
  case (read_at os w i h e os' h')
  then show ?case using mem_laws.os_read_ok [OF assms(1-3), of os w i _ h] by (auto simp: reads_os_def after_def)
next
  case (write_at os v i h u os' h')
  then show ?case using mem_laws.os_write_ok [OF assms(1-3), of os v i _ h] by (auto simp: writes_os_def after_def)
qed

subsection \<open>An object with a symbolic offset\<close>

definition sample_object :: object_state where
  "sample_object = \<lparr>concreteMask = None, copyOnWriteOwner = 0,
     os_object = \<lparr>mo_id = 1, mo_address = 4096, mo_size = 4, isUserSpecified = False, isSharedConcrete = False\<rparr>,
     concreteStore = [1, 2, 3, 4], flushMask = None, knownSymbolics = None, upd_root = None, upd_head = NoUpdate, os_size = 4, readOnly = False\<rparr>"

definition sample_offset :: expr where
  "sample_offset = ZExtExpr (ReadExpr \<lparr>arr_address = 1, arr_name = ''i'', arr_size = 1, constantValues = []\<rparr> NoUpdate (ConstantExpr (APInt 32 0))) 32"

abbreviation sample_heap :: mem_heap where
  "sample_heap \<equiv> \<lparr>host = (\<lambda>_. 0), tmp_arr_id = 0, const_arr_id = 0\<rparr>"

lemma sample_ok: "os_inv E \<alpha> sample_object" "\<not> isSharedConcrete (os_object sample_object)"
  by (simp_all add: os_inv_def sample_object_def os_shape_def mask_ok_def ksym_def updates_ok_Writes writes_in_def)

lemma sample_eval: "eval (\<lambda>_ _. 1) sample_offset = 1"
  by (simp add: sample_offset_def initial_value_def isConstantArray_def isSymbolicArray_def)

lemma sample_offset_ok: "offset_ok (mem_config True True False) (\<lambda>_ _. 1) sample_object sample_offset 2"
proof -
  have z: "create_ZExt (menv (mem_config True True False)) sample_offset 32 = Some sample_offset" by code_simp
  have "map_option dyn_const (create_Add (menv (mem_config True True False)) sample_offset (ConstantExpr (APInt 32 0))) = Some None" by code_simp
  moreover have "map_option dyn_const (create_Add (menv (mem_config True True False)) sample_offset (ConstantExpr (APInt 32 1))) = Some None" by code_simp
  ultimately have "\<forall>k < 2. \<forall>a. create_Add (menv (mem_config True True False)) sample_offset (ConstantExpr (APInt 32 (int k))) = Some a \<longrightarrow> dyn_const a = None"
    by (auto simp: less_Suc_eq numeral_2_eq_2 One_nat_def)
  moreover have "expr_ok (menv (mem_config True True False)) (\<lambda>_ _. 1) sample_offset"
    by (simp add: sample_offset_def wf_ap_def wf_array_def isConstantArray_def isSymbolicArray_def updates_ok_Writes)
  ultimately show ?thesis using z by (simp add: offset_ok_def sample_eval sample_object_def)
qed

subsection \<open>Objects refine arrays of bytes\<close>

text \<open>
  C6: for a little-endian target and an object that does not share the memory of the host, \<^verbatim>\<open>ObjectState::read\<close> with any
  offset in bounds, constant or symbolic, returns an expression of the asked
  width, 1 or whole bytes, whose value is the little-endian number of the bytes at the offset, whichever of the store,
  the table of known values and the update list hold them. The bytes stay the same and so does the invariant.
\<close>

theorem read_refines:
  assumes "mem_laws M" "bytes \<alpha>" "isLittleEndian M" "os_inv (menv M) \<alpha> os" "\<not> isSharedConcrete (os_object os)"
    "width_ok w" "offset_ok M \<alpha> os i (getMinBytesForWidth w)"
  shows "\<exists>e os' h'. os_read M i w os h = Some (e, os', h') \<and> wf_expr e \<and> getWidth e = w \<and>
    eval \<alpha> e = le_val (\<lambda>k. byte_val \<alpha> os (nat (eval \<alpha> i mod 2 ^ 32) + k)) (getMinBytesForWidth w) mod 2 ^ w \<and>
    os_inv (menv M) \<alpha> os' \<and> (\<forall>j < os_size os. byte_val \<alpha> os' j = byte_val \<alpha> os j)"
  using mem_laws.os_read_ok [OF assms refl, of h] by (auto simp: reads_os_def after_def expr_ok_def)

theorem read_refines_witness:
  "\<exists>e os' h'. os_read (mem_config True True False) sample_offset 16 sample_object sample_heap = Some (e, os', h') \<and> wf_expr e \<and>
    getWidth e = 16 \<and> eval (\<lambda>_ _. 1) e = 0x0302"
proof -
  have n: "getMinBytesForWidth 16 = 2" by (simp add: getMinBytesForWidth_def)
  have v: "le_val (\<lambda>k. byte_val (\<lambda>_ _. 1) sample_object (nat (eval (\<lambda>_ _. 1) sample_offset mod 2 ^ 32) + k)) 2 mod 2 ^ 16 = 0x0302"
    unfolding sample_eval by code_simp
  show ?thesis
    using read_refines [OF mem.mem_laws_axioms, of "\<lambda>_ _. 1" True True False sample_object 16 sample_offset sample_heap] sample_ok sample_offset_ok v
    unfolding n by (auto simp: bytes_def mem_config_def width_ok_def)
qed

text \<open>
  C3: for a little-endian target and an object that does not share the memory of the host, \<^verbatim>\<open>ObjectState::write\<close> with any
  offset in bounds stores the bytes of a value of a width that it accepts, the lowest first, changes no
  other byte and keeps the invariant.
\<close>

theorem write_refines:
  assumes "mem_laws M" "bytes \<alpha>" "isLittleEndian M" "os_inv (menv M) \<alpha> os" "\<not> isSharedConcrete (os_object os)"
    "expr_ok (menv M) \<alpha> v" "writable v" "offset_ok M \<alpha> os i (getMinBytesForWidth (getWidth v))"
  shows "\<exists>os' h'. os_write M i v os h = Some ((), os', h') \<and> os_inv (menv M) \<alpha> os' \<and> os_size os' = os_size os \<and>
    (\<forall>j < os_size os. byte_val \<alpha> os' j = put_bytes (nat (eval \<alpha> i mod 2 ^ 32)) (getMinBytesForWidth (getWidth v))
      (\<lambda>k. eval \<alpha> v div 2 ^ (8 * k) mod 256) (byte_val \<alpha> os) j)"
  using mem_laws.os_write_ok [OF assms refl, of h] by (auto simp: writes_os_def after_def)

theorem write_refines_witness:
  "\<exists>os' h'. os_write (mem_config True True False) sample_offset (ConcatExpr (ConstantExpr (APInt 8 7)) (ConstantExpr (APInt 8 9))) sample_object sample_heap
      = Some ((), os', h') \<and> byte_val (\<lambda>_ _. 1) os' 0 = 1 \<and> byte_val (\<lambda>_ _. 1) os' 1 = 9 \<and> byte_val (\<lambda>_ _. 1) os' 2 = 7 \<and> byte_val (\<lambda>_ _. 1) os' 3 = 4"
proof -
  let ?v = "ConcatExpr (ConstantExpr (APInt 8 7)) (ConstantExpr (APInt 8 9))"
  have n: "getMinBytesForWidth (getWidth ?v) = 2" by (simp add: getMinBytesForWidth_def)
  have w: "writable ?v" "expr_ok E (\<lambda>_ _. 1) ?v" for E by (simp_all add: writable_def width_ok_def wf_ap_def)
  have sz: "0 < os_size sample_object" "1 < os_size sample_object" "2 < os_size sample_object" "3 < os_size sample_object" by (simp_all add: sample_object_def)
  obtain os' h' where o: "os_write (mem_config True True False) sample_offset ?v sample_object sample_heap = Some ((), os', h')"
    "\<forall>j < os_size sample_object. byte_val (\<lambda>_ _. 1) os' j = put_bytes 1 2 (\<lambda>k. eval (\<lambda>_ _. 1) ?v div 2 ^ (8 * k) mod 256) (byte_val (\<lambda>_ _. 1) sample_object) j"
    using write_refines [OF mem.mem_laws_axioms, of "\<lambda>_ _. 1" True True False sample_object ?v sample_offset sample_heap] sample_ok sample_offset_ok w
    unfolding n sample_eval by (auto simp: bytes_def mem_config_def One_nat_def)
  then show ?thesis using sz by (auto simp: put_bytes_def byte_val_def sample_object_def)
qed

lemma le_val_put_bytes: "le_val (\<lambda>k. put_bytes off n g f (off + k)) n = le_val g n"
  unfolding le_val_def by (rule sum.cong) (simp_all add: put_bytes_def)

lemma le_val_cong: "(\<And>k. k < n \<Longrightarrow> f k = g k) \<Longrightarrow> le_val f n = le_val g n"
  unfolding le_val_def by (rule sum.cong) simp_all

lemma width_bytes: "width_ok w \<Longrightarrow> w \<le> 8 * getMinBytesForWidth w"
  by (auto elim: width_okE)

text \<open>
  C7: what was written is read back. Under the conditions of a single write, a read of the same width at the same offset after a write
  returns an expression with the value written, and the bytes around it are those from before.
\<close>

theorem write_read_roundtrip:
  assumes "mem_laws M" "bytes \<alpha>" "isLittleEndian M" "os_inv (menv M) \<alpha> os" "\<not> isSharedConcrete (os_object os)"
    "expr_ok (menv M) \<alpha> v" "writable v" "offset_ok M \<alpha> os i (getMinBytesForWidth (getWidth v))"
  shows "\<exists>os1 h1 e os2 h2. os_write M i v os h = Some ((), os1, h1) \<and> os_read M i (getWidth v) os1 h1 = Some (e, os2, h2) \<and>
    wf_expr e \<and> getWidth e = getWidth v \<and> eval \<alpha> e = eval \<alpha> v \<and>
    (\<forall>j < os_size os. j < nat (eval \<alpha> i mod 2 ^ 32) \<or> nat (eval \<alpha> i mod 2 ^ 32) + getMinBytesForWidth (getWidth v) \<le> j \<longrightarrow>
      byte_val \<alpha> os2 j = byte_val \<alpha> os j)"
proof -
  define off where "off = nat (eval \<alpha> i mod 2 ^ 32)"
  let ?n = "getMinBytesForWidth (getWidth v)"
  obtain os1 h1 where w: "os_write M i v os h = Some ((), os1, h1)" "after (menv M) \<alpha> os (put_bytes off ?n (byte_of (eval \<alpha> v)) (byte_val \<alpha> os)) os1"
    using mem_laws.os_write_ok [OF assms off_def, of h] by (auto simp: writes_os_def)
  note d = afterD [OF w(2)]
  have ns: "\<not> isSharedConcrete (os_object os1)" using assms(5) d(3) by simp
  have o: "offset_ok M \<alpha> os1 i ?n" using assms(8) unfolding offset_ok_def d(2) .
  have lt: "off + ?n \<le> os_size os" using assms(8) by (simp add: offset_ok_def off_def)
  have wk: "width_ok (getWidth v)" using assms(7) by (simp add: writable_def)
  obtain e os2 h2 where r: "os_read M i (getWidth v) os1 h1 = Some (e, os2, h2)" "expr_ok (menv M) \<alpha> e" "getWidth e = getWidth v"
    "eval \<alpha> e = le_val (\<lambda>k. byte_val \<alpha> os1 (off + k)) ?n mod 2 ^ getWidth v" "after (menv M) \<alpha> os1 (byte_val \<alpha> os1) os2"
    using mem_laws.os_read_ok [OF assms(1-3) d(1) ns wk o off_def, of h1] by (auto simp: reads_os_def)
  have "le_val (\<lambda>k. byte_val \<alpha> os1 (off + k)) ?n = le_val (\<lambda>k. put_bytes off ?n (byte_of (eval \<alpha> v)) (byte_val \<alpha> os) (off + k)) ?n"
    using d(4) lt by (intro le_val_cong) simp
  then have "eval \<alpha> e = eval \<alpha> v mod 2 ^ (8 * ?n) mod 2 ^ getWidth v" using r(4) by (simp only: le_val_put_bytes le_val_bytes)
  also have "\<dots> = eval \<alpha> v mod 2 ^ getWidth v" using width_bytes [OF wk] by (simp add: mod_mod_cancel le_imp_power_dvd)
  also have "\<dots> = eval \<alpha> v" using eval_range(1) [OF assms(2), of v] assms(6) by (simp add: expr_ok_def)
  finally have "eval \<alpha> e = eval \<alpha> v" .
  then show ?thesis using w(1) r(1-3) d(2,4) afterD(4) [OF r(5)] unfolding off_def [symmetric] by (auto simp: expr_ok_def put_bytes_def)
qed

theorem write_read_roundtrip_witness:
  "\<exists>os1 h1 e os2 h2. os_write (mem_config True True False) sample_offset (ConstantExpr (APInt 16 0xBEEF)) sample_object sample_heap = Some ((), os1, h1) \<and>
    os_read (mem_config True True False) sample_offset 16 os1 h1 = Some (e, os2, h2) \<and> eval (\<lambda>_ _. 1) e = 0xBEEF"
proof -
  let ?v = "ConstantExpr (APInt 16 0xBEEF)"
  have n: "getMinBytesForWidth (getWidth ?v) = 2" by (simp add: getMinBytesForWidth_def)
  have w: "writable ?v" "expr_ok E (\<lambda>_ _. 1) ?v" for E by (simp_all add: writable_def width_ok_def wf_ap_def)
  show ?thesis
    using write_read_roundtrip [OF mem.mem_laws_axioms, of "\<lambda>_ _. 1" True True False sample_object ?v sample_offset sample_heap] sample_ok sample_offset_ok w
    unfolding n by (auto simp: bytes_def mem_config_def)
qed

text \<open>
  C8: the invariant that the comment before \<^verbatim>\<open>fastRangeCheckOffset\<close> states of the caches, and what the
  reads rely on. In every state that the constructors, the copy, the initialisations and accesses in
  bounds of \<^verbatim>\<open>ObjectState\<close> lead to, a byte with a known value is not concrete, a byte that is neither is flushed, and
  the update list holds the current value of every byte that is flushed. Code outside of the class
  that writes into the store through its address, as \<^verbatim>\<open>S2EExecutionState::dmaWrite\<close> and
  \<^verbatim>\<open>AddressSpace::copyInConcretes\<close> do, is not one of these operations: it leaves a flushed byte with its old
  value in the update list.
\<close>

theorem memory_invariant:
  assumes "mem_laws M" "bytes \<alpha>" "isLittleEndian M" "os_reach M \<alpha> os" "j < os_size os"
  shows "isByteConcrete os j = Some (conc os j) \<and> isByteFlushed os j = Some (\<not> unflushed os j) \<and>
    getKnownSymbolic os j = Some (ksym os j) \<and> (ksym os j \<noteq> None \<longrightarrow> \<not> conc os j) \<and>
    (\<not> conc os j \<and> ksym os j = None \<longrightarrow> \<not> unflushed os j) \<and> (\<not> unflushed os j \<longrightarrow> upd_val \<alpha> os j = byte_val \<alpha> os j)"
proof -
  have inv: "os_inv (menv M) \<alpha> os" using os_reach_inv [OF assms(1-4)] ..
  note sh = os_invD(1) [OF inv]
  show ?thesis using isByteConcrete_eq [OF sh assms(5)] isByteFlushed_eq [OF sh assms(5)] getKnownSymbolic_eq [OF sh assms(5)]
      os_invD(5-7) [OF inv assms(5)] by blast
qed

theorem memory_invariant_witness:
  "\<exists>os. ObjectState_array \<lparr>mo_id = 1, mo_address = 4096, mo_size = 1, isUserSpecified = False, isSharedConcrete = False\<rparr> [0]
      \<lparr>arr_address = 1, arr_name = ''x'', arr_size = 1, constantValues = []\<rparr> = Some os \<and> isByteConcrete os 0 = Some False \<and>
      isByteFlushed os 0 = Some True"
proof -
  let ?mo = "\<lparr>mo_id = 1, mo_address = 4096, mo_size = 1, isUserSpecified = False, isSharedConcrete = False\<rparr>"
  let ?ar = "\<lparr>arr_address = 1, arr_name = ''x'', arr_size = 1, constantValues = []\<rparr>"
  have "map_option (\<lambda>os. (ksym os 0 = None, conc os 0, os_size os)) (ObjectState_array ?mo [0] ?ar) = Some (True, False, 1)" by code_simp
  then obtain os where o: "ObjectState_array ?mo [0] ?ar = Some os" "ksym os 0 = None" "\<not> conc os 0" "os_size os = 1" by auto
  have "os_reach (mem_config True True False) (\<lambda>_ _. 1) os" by (rule array [OF o(1)]) (simp_all add: wf_array_def isConstantArray_def isSymbolicArray_def)
  then show ?thesis
    using memory_invariant [OF mem.mem_laws_axioms, of "\<lambda>_ _. 1" True True False os 0] o by (auto simp: bytes_def mem_config_def)
qed

text \<open>
  C36: the bounds checks are exact. For an object that does not wrap around the end of the address
  space, the condition for one byte holds of the pointers into the object, of its address if it is
  empty, and the condition for \<open>n\<close> bytes of those with \<open>n\<close> bytes of the object after them.
\<close>

theorem bounds_check_exact:
  assumes "mem_laws M" "bytes \<alpha>" "expr_ok (menv M) \<alpha> p" "getWidth p = getPointerWidth M" "mo_size mo < 2 ^ 32"
    "uint (mo_address mo) + max 1 (int (mo_size mo)) \<le> 2 ^ getPointerWidth M" "0 < n"
  shows "(\<exists>e. getBoundsCheckPointer M mo p = Some e \<and> wf_expr e \<and> getWidth e = 1 \<and>
      (eval \<alpha> e = 1 \<longleftrightarrow> uint (mo_address mo) \<le> eval \<alpha> p \<and> eval \<alpha> p < uint (mo_address mo) + max 1 (int (mo_size mo)))) \<and>
    (\<exists>e. getBoundsCheckPointer_bytes M mo p n = Some e \<and> wf_expr e \<and> getWidth e = 1 \<and>
      (eval \<alpha> e = 1 \<longleftrightarrow> uint (mo_address mo) \<le> eval \<alpha> p \<and> eval \<alpha> p + int n \<le> uint (mo_address mo) + int (mo_size mo)))"
proof -
  let ?a = "uint (mo_address mo)" and ?B = "2 ^ getPointerWidth M :: int" and ?m = "max 1 (int (mo_size mo))"
  have p: "0 \<le> eval \<alpha> p" "eval \<alpha> p < ?B" using eval_range(1) [OF assms(2), of p] assms(3,4) by (simp_all add: expr_ok_def)
  have lt: "?a < ?B" using assms(6) by simp
  obtain off where off: "getOffsetExpr M mo p = Some off" "expr_ok (menv M) \<alpha> off" "getWidth off = getPointerWidth M" "eval \<alpha> off = (eval \<alpha> p - ?a) mod ?B"
    using mem_laws.getOffsetExpr_ok [OF assms(1-4) lt] by (auto simp: creates_def)
  have w: "(eval \<alpha> p - ?a) mod ?B + k \<le> ?m \<longleftrightarrow> ?a \<le> eval \<alpha> p \<and> eval \<alpha> p + k \<le> ?a + ?m" if "0 < k" for k
    using wrapped_offset [OF p, of ?a ?m k] assms(6) that by simp
  have ge: "0 \<le> eval \<alpha> off" by (simp add: off(4))
  have "(if mo_size mo = 0 then eval \<alpha> off = 0 else eval \<alpha> off < int (mo_size mo)) \<longleftrightarrow> ?a \<le> eval \<alpha> p \<and> eval \<alpha> p < ?a + ?m"
    using w [of 1] ge by (cases "mo_size mo = 0") (auto simp: off(4))
  moreover have "eval \<alpha> off + int n \<le> int (mo_size mo) \<longleftrightarrow> ?a \<le> eval \<alpha> p \<and> eval \<alpha> p + int n \<le> ?a + int (mo_size mo)"
  proof (cases "mo_size mo = 0")
    case True
    then show ?thesis using ge assms(7) by linarith
  next
    case False
    then have "?m = int (mo_size mo)" by simp
    then show ?thesis using w [of "int n"] assms(7) off(4) by simp
  qed
  ultimately show ?thesis
    using mem_laws.getBoundsCheckOffset_ok [OF assms(1,2) off(2,3) assms(5)] mem_laws.getBoundsCheckOffset_bytes_ok [OF assms(1,2) off(2,3) assms(5,7)]
    by (auto simp: getBoundsCheckPointer_def getBoundsCheckPointer_bytes_def off(1) creates_def expr_ok_def)
qed

theorem bounds_check_exact_witness:
  "\<exists>e. getBoundsCheckPointer_bytes (mem_config True True False) (os_object sample_object) (NotOptimizedExpr (ConstantExpr (APInt 32 4098))) 2 = Some e \<and>
    wf_expr e \<and> getWidth e = 1 \<and> eval (\<lambda>_ _. 1) e = 1"
  using bounds_check_exact [OF mem.mem_laws_axioms, of "\<lambda>_ _. 1" True True False "NotOptimizedExpr (ConstantExpr (APInt 32 4098))" "os_object sample_object" 2]
  by (auto simp: bytes_def mem_config_def wf_ap_def sample_object_def)

text \<open>
  C37: for a big-endian target no read of more than one byte succeeds. The loop starts with the byte of
  the highest index and joins it to the result, which is still a null reference then.
\<close>

theorem big_endian_read_aborts:
  assumes "\<not> isLittleEndian M" "8 < w" "8 dvd w"
  shows "read_const M off w os h = None"
proof -
  obtain n where n: "w = 8 * n" "1 < n" using assms(2,3) by (auto elim!: dvdE)
  then have "[0..<n] = 0 # [1..<n]" by (simp add: upt_rec One_nat_def)
  then show ?thesis using assms(1) n
    by (cases "read8 M (u32 (off + (n - 1))) os h") (auto simp: read_const_def byte_index_def)
qed

theorem big_endian_read_aborts_witness:
  "read_const (mem_config False True True) 0 16 \<lparr>concreteMask = None, copyOnWriteOwner = 0,
      os_object = \<lparr>mo_id = 1, mo_address = 4096, mo_size = 2, isUserSpecified = False, isSharedConcrete = False\<rparr>,
      concreteStore = [1, 2], flushMask = None, knownSymbolics = None, upd_root = None, upd_head = NoUpdate, os_size = 2, readOnly = False\<rparr>
      \<lparr>host = (\<lambda>_. 0), tmp_arr_id = 0, const_arr_id = 0\<rparr> = None"
  by (rule big_endian_read_aborts) (simp_all add: mem_config_def)

end
