(* ===== verification/ExprOrder.thy ===== *)
theory ExprOrder
  imports Evaluator
begin

text \<open>
  Hash values and the order of expressions: \<^verbatim>\<open>computeHash\<close> and \<^verbatim>\<open>compare\<close> of \<^verbatim>\<open>lib/Expr/Expr.cpp\<close> and
  \<^verbatim>\<open>lib/Expr/Updates.cpp\<close> and the functions \<^verbatim>\<open>compareContents\<close> of \<^verbatim>\<open>klee/Expr.h\<close>. The order is what the
  sets and maps of expressions are sorted by.

  \<^verbatim>\<open>NotExpr::computeHash\<close> stores its result in a local variable, so the member \<^verbatim>\<open>hashValue\<close> of such a node is never
  set and differs from object to object. Reading it is \<open>None\<close> here, and so is the hash value of every node above it and
  every comparison that looks at one of them. The tests for the same object are left out, as expressions
  have no identity here: without such nodes they only save time, and with them they decide nothing but
  the comparison of an object with itself. The hash of an \<^verbatim>\<open>APInt\<close> is a parameter.
\<close>

declare One_nat_def [simp del]

subsection \<open>Definitions\<close>

text \<open>The last field is for callers: how a comparison comes out that depends on a hash value never set.\<close>

record hash_env =
  henv :: expr_env
  ap_hash :: "apint \<Rightarrow> uint32_t"
  unset_less :: "expr \<Rightarrow> expr \<Rightarrow> bool"

fun bkind_num :: "bkind \<Rightarrow> nat" where
  "bkind_num Add = 9"
| "bkind_num Sub = 10"
| "bkind_num Mul = 11"
| "bkind_num UDiv = 12"
| "bkind_num SDiv = 13"
| "bkind_num URem = 14"
| "bkind_num SRem = 15"
| "bkind_num And = 17"
| "bkind_num Or = 18"
| "bkind_num Xor = 19"
| "bkind_num Shl = 20"
| "bkind_num LShr = 21"
| "bkind_num AShr = 22"

fun ckind_num :: "ckind \<Rightarrow> nat" where
  "ckind_num Eq = 23"
| "ckind_num Ne = 24"
| "ckind_num Ult = 25"
| "ckind_num Ule = 26"
| "ckind_num Ugt = 27"
| "ckind_num Uge = 28"
| "ckind_num Slt = 29"
| "ckind_num Sle = 30"
| "ckind_num Sgt = 31"
| "ckind_num Sge = 32"

fun getKind :: "expr \<Rightarrow> nat" where
  "getKind (ConstantExpr _) = 0"
| "getKind (NotOptimizedExpr _) = 1"
| "getKind (ReadExpr _ _ _) = 3"
| "getKind (SelectExpr _ _ _) = 4"
| "getKind (ConcatExpr _ _) = 5"
| "getKind (ExtractExpr _ _ _) = 6"
| "getKind (ZExtExpr _ _) = 7"
| "getKind (SExtExpr _ _) = 8"
| "getKind (NotExpr _) = 16"
| "getKind (BinaryExpr k _ _) = bkind_num k"
| "getKind (CmpExpr k _ _) = ckind_num k"

definition MAGIC_HASH_CONSTANT :: uint32_t where
  "MAGIC_HASH_CONSTANT = 39"

text \<open>The loop of \<^verbatim>\<open>Expr::computeHash\<close> over the hash values of the kids.\<close>

definition computeHash :: "nat \<Rightarrow> uint32_t list \<Rightarrow> uint32_t" where
  "computeHash k hs = foldl (\<lambda>res h. push_bit 1 res XOR h * MAGIC_HASH_CONSTANT) (of_nat k * MAGIC_HASH_CONSTANT) hs"

text \<open>The characters of a name are signed.\<close>

definition name_hash :: "string \<Rightarrow> uint32_t" where
  "name_hash s = foldl (\<lambda>res c. res * MAGIC_HASH_CONSTANT + scast (word_of_nat (of_char c) :: uint8_t)) 0 s"

fun hash :: "hash_env \<Rightarrow> expr \<Rightarrow> uint32_t may_abort" and update_hash :: "hash_env \<Rightarrow> update_node \<Rightarrow> uint32_t may_abort" where
  "hash H (ConstantExpr a) = Some (ap_hash H a XOR of_nat (ap_width a) * MAGIC_HASH_CONSTANT)"
| "hash H (NotOptimizedExpr e) = do { h \<leftarrow> hash H e; Some (computeHash 1 [h]) }"
| "hash H (ReadExpr root us i) = do {
    h \<leftarrow> hash H i;
    u \<leftarrow> update_hash H us;
    Some (h * MAGIC_HASH_CONSTANT XOR (name_hash (arr_name root) XOR u)) }"
| "hash H (SelectExpr c t f) = do { h1 \<leftarrow> hash H c; h2 \<leftarrow> hash H t; h3 \<leftarrow> hash H f; Some (computeHash 4 [h1, h2, h3]) }"
| "hash H (ConcatExpr l r) = do { h1 \<leftarrow> hash H l; h2 \<leftarrow> hash H r; Some (computeHash 5 [h1, h2]) }"
| "hash H (ExtractExpr e off w) = do {
    h \<leftarrow> hash H e;
    Some ((of_nat off * MAGIC_HASH_CONSTANT XOR of_nat w * MAGIC_HASH_CONSTANT) XOR h * MAGIC_HASH_CONSTANT) }"
| "hash H (ZExtExpr e w) = do { h \<leftarrow> hash H e; Some (of_nat w * MAGIC_HASH_CONSTANT XOR h * MAGIC_HASH_CONSTANT) }"
| "hash H (SExtExpr e w) = do { h \<leftarrow> hash H e; Some (of_nat w * MAGIC_HASH_CONSTANT XOR h * MAGIC_HASH_CONSTANT) }"
| "hash H (NotExpr e) = None"
| "hash H (BinaryExpr k l r) = do { h1 \<leftarrow> hash H l; h2 \<leftarrow> hash H r; Some (computeHash (bkind_num k) [h1, h2]) }"
| "hash H (CmpExpr k l r) = do { h1 \<leftarrow> hash H l; h2 \<leftarrow> hash H r; Some (computeHash (ckind_num k) [h1, h2]) }"
| "update_hash H NoUpdate = Some 0"
| "update_hash H (UpdateNode x v n) = do {
    h1 \<leftarrow> hash H x;
    h2 \<leftarrow> hash H v;
    h3 \<leftarrow> update_hash H n;
    Some (h1 XOR h2 XOR h3) }"

text \<open>\<^verbatim>\<open>a < b ? -1 : 1\<close> after a test for equality, and \<^verbatim>\<open>if (int res = ...) return res\<close>.\<close>

definition cmp :: "'a::linorder \<Rightarrow> 'a \<Rightarrow> int" where
  "cmp a b = (if a = b then 0 else if a < b then - 1 else 1)"

definition or_else :: "int \<Rightarrow> int \<Rightarrow> int" where
  "or_else res rest = (if res \<noteq> 0 then res else rest)"

text \<open>The comparison of \<^verbatim>\<open>std::string\<close>: characters count as unsigned.\<close>

fun string_cmp :: "string \<Rightarrow> string \<Rightarrow> int" where
  "string_cmp [] [] = 0"
| "string_cmp [] (d # ds) = - 1"
| "string_cmp (c # cs) [] = 1"
| "string_cmp (c # cs) (d # ds) = or_else (cmp (of_char c :: nat) (of_char d)) (string_cmp cs ds)"

definition constant_cmp :: "hash_env \<Rightarrow> apint \<Rightarrow> apint \<Rightarrow> int" where
  "constant_cmp H a b =
    (if ap_width a \<noteq> ap_width b then (if ap_width a < ap_width b then - 1 else 1)
     else if ap_cmp (henv H) Eq a b then 0
     else if ap_cmp (henv H) Ult a b then - 1 else 1)"

text \<open>\<^verbatim>\<open>if (int res = ...) return res;\<close> for a comparison that may look at a hash value never set.\<close>

definition if_res :: "int may_abort \<Rightarrow> int may_abort \<Rightarrow> int may_abort" where
  "if_res m rest = do { res \<leftarrow> m; if res \<noteq> 0 then Some res else rest }"

text \<open>\<^verbatim>\<open>UpdateList::compare\<close> before its loop, and \<^verbatim>\<open>Expr::compare\<close> before the contents.\<close>

definition updates_head :: "array \<Rightarrow> update_node \<Rightarrow> array \<Rightarrow> update_node \<Rightarrow> int \<Rightarrow> int" where
  "updates_head root us root' us' rest =
    or_else (string_cmp (arr_name root) (arr_name root'))
      (or_else (cmp (arr_address root) (arr_address root')) (or_else (cmp (update_size us) (update_size us')) rest))"

definition compare_head :: "hash_env \<Rightarrow> expr \<Rightarrow> expr \<Rightarrow> int may_abort \<Rightarrow> int may_abort" where
  "compare_head H a b rest =
    (if getKind a \<noteq> getKind b then Some (if getKind a < getKind b then - 1 else 1)
     else do {
       ha \<leftarrow> hash H a;
       hb \<leftarrow> hash H b;
       if ha \<noteq> hb then Some (if ha < hb then - 1 else 1) else rest })"

text \<open>
  \<^verbatim>\<open>Expr::compare\<close>: the kinds, the hash values, the contents and the kids.
  The assertion after the loop over the updates holds because the lists have the same size.
\<close>

fun compare :: "hash_env \<Rightarrow> expr \<Rightarrow> expr \<Rightarrow> int may_abort" and compare_updates :: "hash_env \<Rightarrow> update_node \<Rightarrow> update_node \<Rightarrow> int may_abort" where
  "compare H (ConstantExpr a) y = compare_head H (ConstantExpr a) y (case y of ConstantExpr b \<Rightarrow> Some (constant_cmp H a b) | _ \<Rightarrow> Some 0)"
| "compare H (NotOptimizedExpr e) y = compare_head H (NotOptimizedExpr e) y (case y of NotOptimizedExpr e' \<Rightarrow> compare H e e' | _ \<Rightarrow> Some 0)"
| "compare H (ReadExpr root us i) y = compare_head H (ReadExpr root us i) y (case y of
      ReadExpr root' us' i' \<Rightarrow> if_res (if_res (Some (updates_head root us root' us' 0)) (compare_updates H us us')) (compare H i i')
    | _ \<Rightarrow> Some 0)"
| "compare H (SelectExpr c t f) y = compare_head H (SelectExpr c t f) y (case y of
      SelectExpr c' t' f' \<Rightarrow> if_res (compare H c c') (if_res (compare H t t') (compare H f f'))
    | _ \<Rightarrow> Some 0)"
| "compare H (ConcatExpr l r) y = compare_head H (ConcatExpr l r) y (case y of
      ConcatExpr l' r' \<Rightarrow> if_res (compare H l l') (compare H r r') | _ \<Rightarrow> Some 0)"
| "compare H (ExtractExpr e off w) y = compare_head H (ExtractExpr e off w) y (case y of
      ExtractExpr e' off' w' \<Rightarrow> if_res (Some (cmp off off')) (if_res (Some (cmp w w')) (compare H e e')) | _ \<Rightarrow> Some 0)"
| "compare H (ZExtExpr e w) y = compare_head H (ZExtExpr e w) y (case y of
      ZExtExpr e' w' \<Rightarrow> if_res (Some (cmp w w')) (compare H e e') | _ \<Rightarrow> Some 0)"
| "compare H (SExtExpr e w) y = compare_head H (SExtExpr e w) y (case y of
      SExtExpr e' w' \<Rightarrow> if_res (Some (cmp w w')) (compare H e e') | _ \<Rightarrow> Some 0)"
| "compare H (NotExpr e) y = compare_head H (NotExpr e) y (case y of
      NotExpr e' \<Rightarrow> if_res (compare H e e') (compare H e e') | _ \<Rightarrow> Some 0)"
| "compare H (BinaryExpr k l r) y = compare_head H (BinaryExpr k l r) y (case y of
      BinaryExpr k' l' r' \<Rightarrow> if_res (compare H l l') (compare H r r') | _ \<Rightarrow> Some 0)"
| "compare H (CmpExpr k l r) y = compare_head H (CmpExpr k l r) y (case y of
      CmpExpr k' l' r' \<Rightarrow> if_res (compare H l l') (compare H r r') | _ \<Rightarrow> Some 0)"
| "compare_updates H NoUpdate vs = Some 0"
| "compare_updates H (UpdateNode x v n) vs = (case vs of
      UpdateNode x' v' n' \<Rightarrow> if_res (if_res (compare H x x') (compare H v v')) (compare_updates H n n')
    | NoUpdate \<Rightarrow> Some 0)"

subsection \<open>The order behind it\<close>

text \<open>The comparison with given hash values, whatever they are.\<close>

definition order_head :: "(expr \<Rightarrow> uint32_t) \<Rightarrow> expr \<Rightarrow> expr \<Rightarrow> int \<Rightarrow> int" where
  "order_head h a b rest = or_else (cmp (getKind a) (getKind b)) (or_else (cmp (h a) (h b)) rest)"

fun order_by :: "hash_env \<Rightarrow> (expr \<Rightarrow> uint32_t) \<Rightarrow> expr \<Rightarrow> expr \<Rightarrow> int" and order_updates :: "hash_env \<Rightarrow> (expr \<Rightarrow> uint32_t) \<Rightarrow> update_node \<Rightarrow> update_node \<Rightarrow> int" where
  "order_by H h (ConstantExpr a) y = order_head h (ConstantExpr a) y (case y of ConstantExpr b \<Rightarrow> constant_cmp H a b | _ \<Rightarrow> 0)"
| "order_by H h (NotOptimizedExpr e) y = order_head h (NotOptimizedExpr e) y (case y of NotOptimizedExpr e' \<Rightarrow> order_by H h e e' | _ \<Rightarrow> 0)"
| "order_by H h (ReadExpr root us i) y = order_head h (ReadExpr root us i) y (case y of
      ReadExpr root' us' i' \<Rightarrow> or_else (updates_head root us root' us' (order_updates H h us us')) (order_by H h i i')
    | _ \<Rightarrow> 0)"
| "order_by H h (SelectExpr c t f) y = order_head h (SelectExpr c t f) y (case y of
      SelectExpr c' t' f' \<Rightarrow> or_else (order_by H h c c') (or_else (order_by H h t t') (order_by H h f f'))
    | _ \<Rightarrow> 0)"
| "order_by H h (ConcatExpr l r) y = order_head h (ConcatExpr l r) y (case y of
      ConcatExpr l' r' \<Rightarrow> or_else (order_by H h l l') (order_by H h r r') | _ \<Rightarrow> 0)"
| "order_by H h (ExtractExpr e off w) y = order_head h (ExtractExpr e off w) y (case y of
      ExtractExpr e' off' w' \<Rightarrow> or_else (cmp off off') (or_else (cmp w w') (order_by H h e e')) | _ \<Rightarrow> 0)"
| "order_by H h (ZExtExpr e w) y = order_head h (ZExtExpr e w) y (case y of
      ZExtExpr e' w' \<Rightarrow> or_else (cmp w w') (order_by H h e e') | _ \<Rightarrow> 0)"
| "order_by H h (SExtExpr e w) y = order_head h (SExtExpr e w) y (case y of
      SExtExpr e' w' \<Rightarrow> or_else (cmp w w') (order_by H h e e') | _ \<Rightarrow> 0)"
| "order_by H h (NotExpr e) y = order_head h (NotExpr e) y (case y of
      NotExpr e' \<Rightarrow> or_else (order_by H h e e') (order_by H h e e') | _ \<Rightarrow> 0)"
| "order_by H h (BinaryExpr k l r) y = order_head h (BinaryExpr k l r) y (case y of
      BinaryExpr k' l' r' \<Rightarrow> or_else (order_by H h l l') (order_by H h r r') | _ \<Rightarrow> 0)"
| "order_by H h (CmpExpr k l r) y = order_head h (CmpExpr k l r) y (case y of
      CmpExpr k' l' r' \<Rightarrow> or_else (order_by H h l l') (order_by H h r r') | _ \<Rightarrow> 0)"
| "order_updates H h NoUpdate vs = 0"
| "order_updates H h (UpdateNode x v n) vs = (case vs of
      UpdateNode x' v' n' \<Rightarrow> or_else (or_else (order_by H h x x') (order_by H h v v')) (order_updates H h n n')
    | NoUpdate \<Rightarrow> 0)"

subsection \<open>Three-way comparisons\<close>

text \<open>What the results for \<open>a\<close> and \<open>b\<close>, \<open>b\<close> and \<open>c\<close>, and \<open>a\<close> and \<open>c\<close> have to satisfy in a linear order.\<close>

definition tri :: "int \<Rightarrow> int \<Rightarrow> int \<Rightarrow> bool" where
  "tri x y z \<longleftrightarrow> (x = 0 \<longrightarrow> z = y) \<and> (y = 0 \<longrightarrow> z = x) \<and> (x < 0 \<and> y < 0 \<longrightarrow> z < 0) \<and> (0 < x \<and> 0 < y \<longrightarrow> 0 < z)"

lemma tri_or_else:
  assumes "tri x y z" "x = 0 \<Longrightarrow> y = 0 \<Longrightarrow> tri x' y' z'"
  shows "tri (or_else x x') (or_else y y') (or_else z z')"
  using assms by (auto simp: tri_def or_else_def)

lemma tri_cmp: "tri (cmp a b) (cmp b c) (cmp a c)"
  by (auto simp: tri_def cmp_def)

lemma cmp_flip: "cmp b a = - cmp a b"
  by (auto simp: cmp_def)

lemma cmp_0 [simp]: "cmp a b = 0 \<longleftrightarrow> a = b"
  by (simp add: cmp_def)

lemma or_else_flip: "or_else (- x) (- y) = - or_else x y"
  by (simp add: or_else_def)

lemma or_else_0 [simp]: "or_else x y = 0 \<longleftrightarrow> x = 0 \<and> y = 0"
  by (simp add: or_else_def)

lemma string_cmp_0 [simp]: "string_cmp s t = 0 \<longleftrightarrow> s = t"
  by (induction s t rule: string_cmp.induct) auto

lemma string_cmp_flip: "string_cmp t s = - string_cmp s t"
proof (induction s t rule: string_cmp.induct)
  case (4 c cs d ds)
  then show ?case using cmp_flip [of "of_char d :: nat" "of_char c"] by (simp add: or_else_flip)
qed simp_all

lemma tri_string: "tri (string_cmp s t) (string_cmp t u) (string_cmp s u)"
proof (induction s t arbitrary: u rule: string_cmp.induct)
  case (4 c cs d ds)
  show ?case
  proof (cases u)
    case Nil
    then show ?thesis by (simp add: tri_def)
  next
    case (Cons e es)
    then show ?thesis using 4 by (simp add: tri_or_else tri_cmp)
  qed
qed (case_tac u; simp add: tri_def)+

subsection \<open>The order of expressions\<close>

lemma bkind_num_eq [simp]: "bkind_num k = bkind_num l \<longleftrightarrow> k = l"
  by (cases k; cases l) simp_all

lemma ckind_num_eq [simp]: "ckind_num k = ckind_num l \<longleftrightarrow> k = l"
  by (cases k; cases l) simp_all

lemma kind_num_distinct [simp]:
  "bkind_num k \<noteq> 0" "bkind_num k \<noteq> 1" "bkind_num k \<noteq> 3" "bkind_num k \<noteq> 4" "bkind_num k \<noteq> 5" "bkind_num k \<noteq> 6"
  "bkind_num k \<noteq> 7" "bkind_num k \<noteq> 8" "bkind_num k \<noteq> 16" "bkind_num k \<noteq> ckind_num c"
  "ckind_num c \<noteq> 0" "ckind_num c \<noteq> 1" "ckind_num c \<noteq> 3" "ckind_num c \<noteq> 4" "ckind_num c \<noteq> 5" "ckind_num c \<noteq> 6"
  "ckind_num c \<noteq> 7" "ckind_num c \<noteq> 8" "ckind_num c \<noteq> 16"
  by (cases k; simp; fail | cases c; simp; fail | cases k; cases c; simp)+

lemmas kind_num_distinct' [simp] = kind_num_distinct [symmetric]

lemma compare_head_0: "order_head h a b rest = 0 \<longleftrightarrow> getKind a = getKind b \<and> h a = h b \<and> rest = 0"
  by (simp add: order_head_def)

lemma compare_head_flip: "rest' = - rest \<Longrightarrow> order_head h b a rest' = - order_head h a b rest"
  using cmp_flip [of "getKind b" "getKind a"] cmp_flip [of "h b" "h a"] by (simp add: order_head_def or_else_flip)

lemma tri_compare_head:
  assumes "getKind a = getKind b \<Longrightarrow> getKind b = getKind c \<Longrightarrow> tri x y z"
  shows "tri (order_head h a b x) (order_head h b c y) (order_head h a c z)"
  unfolding order_head_def using assms by (intro tri_or_else tri_cmp) auto

lemma updates_head_flip:
  assumes "update_size us = update_size us' \<Longrightarrow> rest' = - rest"
  shows "updates_head r' us' r us rest' = - updates_head r us r' us' rest"
  using string_cmp_flip [of "arr_name r'" "arr_name r"] cmp_flip [of "arr_address r'" "arr_address r"] cmp_flip [of "update_size us'" "update_size us"] assms
  by (auto simp: updates_head_def or_else_def)

lemma tri_updates_head:
  assumes "update_size us = update_size us' \<Longrightarrow> update_size us' = update_size us'' \<Longrightarrow> tri x y z"
  shows "tri (updates_head r us r' us' x) (updates_head r' us' r'' us'' y) (updates_head r us r'' us'' z)"
  unfolding updates_head_def using assms by (intro tri_or_else tri_cmp tri_string) auto

lemma compare_is_head: "\<exists>r. order_by H h a b = order_head h a b r"
  by (cases a) auto

lemma tri_compareI:
  assumes "getKind a = getKind b \<Longrightarrow> getKind b = getKind c \<Longrightarrow> tri (order_by H h a b) (order_by H h b c) (order_by H h a c)"
  shows "tri (order_by H h a b) (order_by H h b c) (order_by H h a c)"
proof (cases "getKind a = getKind b \<and> getKind b = getKind c")
  case False
  obtain x y z where "order_by H h a b = order_head h a b x" "order_by H h b c = order_head h b c y" "order_by H h a c = order_head h a c z"
    using compare_is_head by metis
  then show ?thesis using False by (auto intro: tri_compare_head)
qed (use assms in blast)

lemma compare_flipI:
  assumes "getKind a = getKind b \<Longrightarrow> order_by H h b a = - order_by H h a b"
  shows "order_by H h b a = - order_by H h a b"
proof (cases "getKind a = getKind b")
  case False
  obtain x y where "order_by H h a b = order_head h a b x" "order_by H h b a = order_head h b a y" using compare_is_head by metis
  then show ?thesis using False cmp_flip [of "getKind b" "getKind a"] by (simp add: order_head_def or_else_def)
qed (use assms in blast)

fun arrays_of :: "expr \<Rightarrow> array set" and arrays_of_updates :: "update_node \<Rightarrow> array set" where
  "arrays_of (ConstantExpr a) = {}"
| "arrays_of (NotOptimizedExpr e) = arrays_of e"
| "arrays_of (ReadExpr root us i) = insert root (arrays_of_updates us \<union> arrays_of i)"
| "arrays_of (SelectExpr c t f) = arrays_of c \<union> arrays_of t \<union> arrays_of f"
| "arrays_of (ConcatExpr l r) = arrays_of l \<union> arrays_of r"
| "arrays_of (ExtractExpr e off w) = arrays_of e"
| "arrays_of (ZExtExpr e w) = arrays_of e"
| "arrays_of (SExtExpr e w) = arrays_of e"
| "arrays_of (NotExpr e) = arrays_of e"
| "arrays_of (BinaryExpr k l r) = arrays_of l \<union> arrays_of r"
| "arrays_of (CmpExpr k l r) = arrays_of l \<union> arrays_of r"
| "arrays_of_updates NoUpdate = {}"
| "arrays_of_updates (UpdateNode x v n) = arrays_of x \<union> arrays_of v \<union> arrays_of_updates n"

lemma constant_cmp_eq:
  assumes "apint_laws (henv H)" "wf_ap a" "wf_ap b"
  shows "constant_cmp H a b = or_else (cmp (ap_width a) (ap_width b)) (cmp (ap_val a) (ap_val b))"
  using apint_laws.ap_cmp [OF assms] by (auto simp: constant_cmp_def or_else_def cmp_def)

lemma compare_tri:
  assumes laws: "apint_laws (henv H)"
  shows "wf_expr a \<Longrightarrow> wf_expr b \<Longrightarrow> wf_expr c \<Longrightarrow> tri (order_by H h a b) (order_by H h b c) (order_by H h a c)"
    and "wf_updates u \<Longrightarrow> wf_updates v \<Longrightarrow> wf_updates w \<Longrightarrow> update_size u = update_size v \<Longrightarrow> update_size v = update_size w \<Longrightarrow>
      tri (order_updates H h u v) (order_updates H h v w) (order_updates H h u w)"
proof (induction a and u arbitrary: b c and v w)
  case (ConstantExpr a)
  then show ?case
    by - (rule tri_compareI; cases b; simp; cases c; simp; auto intro!: tri_compare_head tri_or_else tri_cmp simp: constant_cmp_eq [OF laws])
next
  case NoUpdate
  then show ?case by (cases v; cases w) (auto simp: tri_def)
next
  case (UpdateNode x y n)
  then show ?case by (cases v; cases w) (auto intro!: tri_or_else)
qed (rule tri_compareI; case_tac b; simp; case_tac c; simp; auto intro!: tri_compare_head tri_updates_head tri_or_else tri_cmp)+

lemma or_else_flipI: "x' = - x \<Longrightarrow> y' = - y \<Longrightarrow> or_else x' y' = - or_else x y"
  by (simp add: or_else_flip)

lemmas flip_intros = compare_head_flip updates_head_flip or_else_flipI cmp_flip

lemma compare_flip:
  assumes laws: "apint_laws (henv H)"
  shows "wf_expr a \<Longrightarrow> wf_expr b \<Longrightarrow> order_by H h b a = - order_by H h a b"
    and "wf_updates u \<Longrightarrow> wf_updates v \<Longrightarrow> update_size u = update_size v \<Longrightarrow> order_updates H h v u = - order_updates H h u v"
proof (induction a and u arbitrary: b and v)
  case (ConstantExpr a)
  then show ?case
    by - (rule compare_flipI; cases b; simp; auto intro!: flip_intros simp: constant_cmp_eq [OF laws])
next
  case NoUpdate
  then show ?case by (cases v) auto
next
  case (UpdateNode x y n)
  then show ?case by (cases v) (auto intro!: flip_intros)
qed (rule compare_flipI; case_tac b; simp; auto intro!: flip_intros)+

lemma compare_0:
  assumes laws: "apint_laws (henv H)" and inj: "inj_on arr_address A"
  shows "wf_expr a \<Longrightarrow> wf_expr b \<Longrightarrow> arrays_of a \<subseteq> A \<Longrightarrow> arrays_of b \<subseteq> A \<Longrightarrow> order_by H h a b = 0 \<longleftrightarrow> a = b"
    and "wf_updates u \<Longrightarrow> wf_updates v \<Longrightarrow> arrays_of_updates u \<subseteq> A \<Longrightarrow> arrays_of_updates v \<subseteq> A \<Longrightarrow>
      update_size u = update_size v \<Longrightarrow> order_updates H h u v = 0 \<longleftrightarrow> u = v"
proof (induction a and u arbitrary: b and v)
  case (ConstantExpr a)
  then show ?case
    by (cases b) (auto simp: compare_head_0 constant_cmp_eq [OF laws] intro: apint.expand)
next
  case NoUpdate
  then show ?case by (cases v) auto
next
  case (UpdateNode x y n)
  then show ?case by (cases v) auto
qed (case_tac b; auto simp: compare_head_0 updates_head_def dest: inj_onD [OF inj])+

subsection \<open>Expressions whose hash values are set\<close>

fun no_not :: "expr \<Rightarrow> bool" and no_not_updates :: "update_node \<Rightarrow> bool" where
  "no_not (ConstantExpr a) = True"
| "no_not (NotOptimizedExpr e) = no_not e"
| "no_not (ReadExpr a us i) = (no_not i \<and> no_not_updates us)"
| "no_not (SelectExpr c t f) = (no_not c \<and> no_not t \<and> no_not f)"
| "no_not (ConcatExpr l r) = (no_not l \<and> no_not r)"
| "no_not (ExtractExpr e off w) = no_not e"
| "no_not (ZExtExpr e w) = no_not e"
| "no_not (SExtExpr e w) = no_not e"
| "no_not (NotExpr e) = False"
| "no_not (BinaryExpr k l r) = (no_not l \<and> no_not r)"
| "no_not (CmpExpr k l r) = (no_not l \<and> no_not r)"
| "no_not_updates NoUpdate = True"
| "no_not_updates (UpdateNode x v n) = (no_not x \<and> no_not v \<and> no_not_updates n)"

lemma hash_set:
  shows "hash H e \<noteq> None \<longleftrightarrow> no_not e" and "update_hash H us \<noteq> None \<longleftrightarrow> no_not_updates us"
  by (induction e and us) (auto simp: bind_eq_None_conv)

lemma hash_the: "no_not e \<Longrightarrow> hash H e = Some (the (hash H e))"
  using hash_set(1) [of H e] by simp

lemma if_res_Some [simp]: "if_res (Some x) (Some y) = Some (or_else x y)"
  by (simp add: if_res_def or_else_def)

lemma compare_head_Some:
  assumes "no_not a" "no_not b"
  shows "compare_head H a b (Some rest) = Some (order_head (\<lambda>e. the (hash H e)) a b rest)"
proof -
  from assms hash_set(1) obtain ha hb where "hash H a = Some ha" "hash H b = Some hb" by blast
  thus ?thesis by (simp add: compare_head_def order_head_def or_else_def cmp_def)
qed

lemma updates_head_or_else: "or_else (updates_head r us r' us' 0) x = updates_head r us r' us' x"
  by (simp add: updates_head_def or_else_def)

lemma compare_order_by:
  shows "no_not a \<Longrightarrow> no_not b \<Longrightarrow> compare H a b = Some (order_by H (\<lambda>e. the (hash H e)) a b)"
    and "no_not_updates u \<Longrightarrow> no_not_updates v \<Longrightarrow> compare_updates H u v = Some (order_updates H (\<lambda>e. the (hash H e)) u v)"
proof (induction a and u arbitrary: b and v)
  case (ReadExpr root us i)
  thus ?case by (cases b) (auto simp: compare_head_Some updates_head_or_else simp del: hash.simps)
next
  case NoUpdate
  show ?case by simp
next
  case (UpdateNode x y n)
  thus ?case by (cases v) auto
qed (case_tac b; auto simp: compare_head_Some simp del: hash.simps)+

text \<open>
  C38: on well-formed expressions without \<^verbatim>\<open>Not\<close> nodes, \<^verbatim>\<open>Expr::compare\<close> is a three-way comparison of a linear order: it is
  zero exactly for equal expressions, the swapped call returns the opposite sign and the order is
  transitive. The arrays in question have to be different objects unless they are equal. Two \<^verbatim>\<open>Not\<close> nodes that are not the same
  object are compared by hash values that were never set.
\<close>

theorem compare_linear_order:
  assumes "apint_laws (henv H)" "wf_expr a" "wf_expr b" "wf_expr c" "no_not a" "no_not b" "no_not c"
    "inj_on arr_address (arrays_of a \<union> arrays_of b)"
  shows "\<exists>x y z. compare H a b = Some x \<and> compare H b a = Some (- x) \<and> compare H b c = Some y \<and> compare H a c = Some z \<and>
    (x = 0 \<longleftrightarrow> a = b) \<and> (x < 0 \<and> y < 0 \<longrightarrow> z < 0) \<and> compare H (NotExpr a) (NotExpr b) = None"
  using compare_0(1) [OF assms(1,8,2,3)] compare_flip(1) [OF assms(1-3)] compare_tri(1) [OF assms(1-4)] assms(5-7)
  by (simp add: tri_def compare_order_by compare_head_def)

theorem compare_linear_order_witness:
  "\<exists>x. compare \<lparr>henv = apint_env True, ap_hash = (\<lambda>a. word_of_int (ap_val a)), unset_less = (\<lambda>_ _. True)\<rparr>
      (ZExtExpr (ConstantExpr (APInt 8 3)) 16) (ZExtExpr (ConstantExpr (APInt 8 4)) 16) = Some x \<and> x \<noteq> 0"
  using compare_linear_order [of "\<lparr>henv = apint_env True, ap_hash = (\<lambda>a. word_of_int (ap_val a)), unset_less = (\<lambda>_ _. True)\<rparr>"
      "ZExtExpr (ConstantExpr (APInt 8 3)) 16" "ZExtExpr (ConstantExpr (APInt 8 4)) 16" "ConstantExpr (APInt 8 3)"]
    apint_env.apint_laws_axioms by (simp add: wf_ap_def) blast

end
