(* ===== verification/LinuxProcess.thy ===== *)
theory LinuxProcess
  imports S2E_Prelude
begin


subsection \<open>Undefined uses\<close>

datatype undefined_use = NullState | UnsetVariable | BufferOverrun | UnterminatedString | SignedOverflow

type_synonym 'a run = "undefined_use + 'a"

definition andThen :: "'a run \<Rightarrow> ('a \<Rightarrow> 'b run) \<Rightarrow> 'b run" where
  "andThen r f = (case r of Inl u \<Rightarrow> Inl u | Inr x \<Rightarrow> f x)"

lemma andThen_simps [simp]: "andThen (Inl u) f = Inl u" "andThen (Inr x) f = f x"
  by (simp_all add: andThen_def)

subsection \<open>Reading the guest\<close>

type_synonym guest = "uint64_t \<Rightarrow> uint8_t option"

text \<open>The loop of \<^verbatim>\<open>S2EExecutionState::readMemoryConcrete\<close>: whether it succeeds and the bytes it has stored.\<close>

fun readMemoryConcrete :: "guest \<Rightarrow> uint64_t \<Rightarrow> nat \<Rightarrow> bool \<times> uint8_t list" where
  "readMemoryConcrete G address 0 = (True, [])"
| "readMemoryConcrete G address (Suc len) =
    (case G address of
       None \<Rightarrow> (False, [])
     | Some v \<Rightarrow> let (ok, d) = readMemoryConcrete G (address + 1) len in (ok, v # d))"

record linux_read =
  hookingpoint :: uint32_t
  hookingpoint2 :: uint32_t
  taskaddr :: uint32_t
  tasksize :: int
  listoffset :: int
  pidoffset :: int
  mmoffset :: int
  pgdoffset :: int
  commoffset :: int
  commsize :: int
  vmstartoffset :: int
  vmendoffset :: int
  vmnextoffset :: int
  vmfileoffset :: int
  dentryoffset :: int
  dnameoffset :: int
  dinameoffset :: int
  m_state :: "guest option"

definition init_kernel_info :: "linux_read \<Rightarrow> linux_read" where
  "init_kernel_info L = L\<lparr>hookingpoint := 0xC01449B0, hookingpoint2 := 0, taskaddr := 0xC0687340, tasksize := 3212,
     listoffset := 452, pidoffset := 496, mmoffset := 460, pgdoffset := 36, commoffset := 792, commsize := 16,
     vmstartoffset := 4, vmendoffset := 8, vmnextoffset := 12, vmfileoffset := 72, dentryoffset := 12,
     dnameoffset := 28, dinameoffset := 96\<rparr>"

text \<open>An address and an offset of type \<^verbatim>\<open>int\<close> are added modulo \<open>2 ^ 32\<close>, and the sum is widened to the address.\<close>

definition at_offset :: "uint32_t \<Rightarrow> int \<Rightarrow> uint64_t" where
  "at_offset p off = ucast (p + word_of_int off)"

definition get_mstate :: "guest \<Rightarrow> linux_read \<Rightarrow> linux_read" where
  "get_mstate G L = L\<lparr>m_state := Some G\<rparr>"

text \<open>A variable of four bytes that \<^verbatim>\<open>readMemoryConcrete\<close> is to fill.\<close>

definition read_u32 :: "linux_read \<Rightarrow> uint64_t \<Rightarrow> uint32_t run" where
  "read_u32 L address =
    (case m_state L of
       None \<Rightarrow> Inl NullState
     | Some G \<Rightarrow>
         let (ok, d) = readMemoryConcrete G address 4
         in if ok then Inr (foldr (\<lambda>b v. push_bit 8 v OR ucast b) d 0) else Inl UnsetVariable)"

text \<open>A buffer: a byte that was never written is \<open>None\<close>.\<close>

type_synonym buffer = "uint8_t option list"

definition read_buffer :: "linux_read \<Rightarrow> uint64_t \<Rightarrow> nat \<Rightarrow> buffer \<Rightarrow> buffer run" where
  "read_buffer L address len buf =
    (case m_state L of
       None \<Rightarrow> Inl NullState
     | Some G \<Rightarrow>
         let (ok, d) = readMemoryConcrete G address len
         in if length d \<le> length buf then Inr (map Some d @ drop (length d) buf) else Inl BufferOverrun)"

definition get_first_task_struct :: "linux_read \<Rightarrow> uint32_t" where
  "get_first_task_struct L = taskaddr L"

definition get_next_task_struct :: "linux_read \<Rightarrow> uint32_t \<Rightarrow> uint32_t run" where
  "get_next_task_struct L pcbaddr =
    andThen (read_u32 L (at_offset pcbaddr (listoffset L) + 4)) (\<lambda>next. Inr (next - word_of_int (listoffset L)))"

definition get_process_pid :: "linux_read \<Rightarrow> uint32_t \<Rightarrow> int run" where
  "get_process_pid L pcbaddr = andThen (read_u32 L (at_offset pcbaddr (pidoffset L))) (\<lambda>pid. Inr (sint pid))"

definition get_process_name :: "linux_read \<Rightarrow> uint32_t \<Rightarrow> nat \<Rightarrow> buffer \<Rightarrow> buffer run" where
  "get_process_name L pcbaddr len buf = read_buffer L (at_offset pcbaddr (commoffset L)) len buf"

definition get_process_firstmmap :: "linux_read \<Rightarrow> uint32_t \<Rightarrow> uint32_t run" where
  "get_process_firstmmap L pcbaddr =
    andThen (read_u32 L (at_offset pcbaddr (mmoffset L))) (\<lambda>mmaddr. read_u32 L (ucast mmaddr))"

definition get_next_mmap :: "linux_read \<Rightarrow> uint32_t \<Rightarrow> uint32_t run" where
  "get_next_mmap L mmapaddr = read_u32 L (at_offset mmapaddr (vmnextoffset L))"

definition get_module_name :: "linux_read \<Rightarrow> uint32_t \<Rightarrow> nat \<Rightarrow> buffer \<Rightarrow> buffer run" where
  "get_module_name L mmap len buf =
    andThen (read_u32 L (at_offset mmap (vmfileoffset L))) (\<lambda>vmfile.
    andThen (read_u32 L (at_offset vmfile (dentryoffset L))) (\<lambda>dentry.
    read_buffer L (at_offset dentry (dinameoffset L)) (if len < 36 then len else 36) buf))"

definition get_vmstart :: "linux_read \<Rightarrow> uint32_t \<Rightarrow> int run" where
  "get_vmstart L mmap = andThen (read_u32 L (at_offset mmap (vmstartoffset L))) (\<lambda>vmstart. Inr (sint vmstart))"

definition get_vmend :: "linux_read \<Rightarrow> uint32_t \<Rightarrow> int run" where
  "get_vmend L mmap = andThen (read_u32 L (at_offset mmap (vmendoffset L))) (\<lambda>vmend. Inr (sint vmend))"

subsection \<open>Printing\<close>

text \<open>What \<^verbatim>\<open>printf\<close> prints for \<^verbatim>\<open>%s\<close>: it must find a zero before the end of the buffer and before a byte never set.\<close>

fun c_string :: "buffer \<Rightarrow> uint8_t list run" where
  "c_string [] = Inl UnterminatedString"
| "c_string (None # bs) = Inl UnsetVariable"
| "c_string (Some b # bs) = (if b = 0 then Inr [] else andThen (c_string bs) (\<lambda>s. Inr (b # s)))"

text \<open>A line of output.\<close>

datatype line =
  Process int int "uint8_t list"
| Module int "uint8_t list" int int

text \<open>Sums and differences of numbers of type \<^verbatim>\<open>int\<close>, which must not overflow.\<close>

definition in_int :: "int \<Rightarrow> int run" where
  "in_int x = (if - (2 ^ 31) \<le> x \<and> x < 2 ^ 31 then Inr x else Inl SignedOverflow)"

text \<open>One iteration of the loop over the areas of a task: the line, the buffer, the next area and the next number.\<close>

definition print_module :: "linux_read \<Rightarrow> uint32_t \<Rightarrow> int \<Rightarrow> buffer \<Rightarrow> (line \<times> buffer \<times> uint32_t \<times> int) run" where
  "print_module L nowmmap j m_name =
    andThen (get_module_name L nowmmap 512 m_name) (\<lambda>m_name.
    andThen (get_vmstart L nowmmap) (\<lambda>base.
    andThen (get_vmend L nowmmap) (\<lambda>end.
    andThen (get_vmstart L nowmmap) (\<lambda>start.
    andThen (in_int (end - start)) (\<lambda>sz.
    andThen (c_string m_name) (\<lambda>s.
    andThen (get_next_mmap L nowmmap) (\<lambda>n.
    andThen (in_int (j + 1)) (\<lambda>j'. Inr (Module j s base sz, m_name, n, j')))))))))"

lemma print_module_next: "print_module L m j b = Inr (l, b', m', j') \<Longrightarrow> j' = j + 1 \<and> j + 1 < 2 ^ 31"
  by (auto simp: print_module_def andThen_def in_int_def split: sum.splits if_splits)

text \<open>The loop ends: the number of the area cannot grow for ever.\<close>

function module_loop :: "linux_read \<Rightarrow> uint32_t \<Rightarrow> int \<Rightarrow> buffer \<Rightarrow> line list \<Rightarrow> (buffer \<times> line list) run" where
  "module_loop L nowmmap j m_name out =
    (if nowmmap = 0 then Inr (m_name, out)
     else case print_module L nowmmap j m_name of
       Inl u \<Rightarrow> Inl u
     | Inr (l, m_name, nowmmap, j) \<Rightarrow> module_loop L nowmmap j m_name (out @ [l]))"
  by pat_completeness auto
termination
  by (relation "measure (\<lambda>(L, m, j, b, out). nat (2 ^ 31 - j))") (auto dest!: print_module_next)

declare module_loop.simps [simp del]

text \<open>The part of an iteration of the loop over the tasks before the inner loop.\<close>

definition print_process :: "linux_read \<Rightarrow> uint32_t \<Rightarrow> int \<Rightarrow> buffer \<Rightarrow> (line \<times> buffer \<times> uint32_t) run" where
  "print_process L nowtask i p_name =
    andThen (get_process_pid L nowtask) (\<lambda>nowpid.
    andThen (get_process_name L nowtask 512 p_name) (\<lambda>p_name.
    andThen (c_string p_name) (\<lambda>s.
    andThen (get_process_firstmmap L nowtask) (\<lambda>m. Inr (Process i nowpid s, p_name, m)))))"

text \<open>At most 100 tasks are listed, so that their number does not overflow.\<close>

function task_loop :: "linux_read \<Rightarrow> uint32_t \<Rightarrow> uint32_t \<Rightarrow> int \<Rightarrow> buffer \<Rightarrow> buffer \<Rightarrow> line list \<Rightarrow> line list run" where
  "task_loop L first nowtask i p_name m_name out =
    andThen (print_process L nowtask i p_name) (\<lambda>(l, p_name, nowmmap).
    andThen (module_loop L nowmmap 0 m_name (out @ [l])) (\<lambda>(m_name, out).
    andThen (get_next_task_struct L nowtask) (\<lambda>nowtask.
    if i + 1 < 100 \<and> nowtask \<noteq> first then task_loop L first nowtask (i + 1) p_name m_name out
    else Inr out)))"
  by pat_completeness auto
termination
  by (relation "measure (\<lambda>(L, first, nowtask, i, p, m, out). nat (100 - i))") auto

definition print_linux_process_info :: "linux_read \<Rightarrow> line list run" where
  "print_linux_process_info L =
    (let L = init_kernel_info L; first = get_first_task_struct L in
     task_loop L first first 0 (replicate 512 None) (replicate 512 None) [])"

subsection \<open>What the guest holds\<close>

definition u32_at :: "guest \<Rightarrow> uint64_t \<Rightarrow> uint32_t \<Rightarrow> bool" where
  "u32_at G a v \<longleftrightarrow> (\<forall>i<4. G (a + of_nat i) = Some (ucast (drop_bit (8 * i) v)))"

definition string_at :: "guest \<Rightarrow> uint64_t \<Rightarrow> nat \<Rightarrow> uint8_t list \<Rightarrow> bool" where
  "string_at G a n s \<longleftrightarrow> length s < n \<and> 0 \<notin> set s \<and> (\<forall>i\<le>length s. G (a + of_nat i) = Some ((s @ [0]) ! i))"

text \<open>An area of memory of a task: its name, its start and its end.\<close>

type_synonym area = "uint8_t list \<times> uint32_t \<times> uint32_t"

definition area_at :: "guest \<Rightarrow> uint32_t \<Rightarrow> area \<Rightarrow> bool" where
  "area_at G m = (\<lambda>(name, start, end).
    (\<exists>vmfile dentry. u32_at G (at_offset m 72) vmfile \<and> u32_at G (at_offset vmfile 12) dentry \<and>
       string_at G (at_offset dentry 96) 36 name) \<and>
    u32_at G (at_offset m 4) start \<and> u32_at G (at_offset m 8) end \<and>
    - (2 ^ 31) \<le> sint end - sint start \<and> sint end - sint start < 2 ^ 31)"

text \<open>The areas of a task, linked and ended by zero.\<close>

inductive areas_at :: "guest \<Rightarrow> uint32_t \<Rightarrow> area list \<Rightarrow> bool" for G where
  areas_end: "areas_at G 0 []"
| areas_step: "\<lbrakk>m \<noteq> 0; area_at G m a; u32_at G (at_offset m 12) m'; areas_at G m' as\<rbrakk> \<Longrightarrow> areas_at G m (a # as)"

text \<open>A task: its identifier, its name and its areas, which the plugin can number.\<close>

type_synonym task = "uint32_t \<times> uint8_t list \<times> area list"

definition head_at :: "guest \<Rightarrow> uint32_t \<Rightarrow> uint32_t \<Rightarrow> uint8_t list \<Rightarrow> uint32_t \<Rightarrow> bool" where
  "head_at G t pid name mm \<longleftrightarrow> u32_at G (at_offset t 496) pid \<and> string_at G (at_offset t 792) 512 name \<and> u32_at G (at_offset t 460) mm"

definition task_at :: "guest \<Rightarrow> uint32_t \<Rightarrow> task \<Rightarrow> bool" where
  "task_at G t = (\<lambda>(pid, name, areas).
    (\<exists>mm m. head_at G t pid name mm \<and> u32_at G (ucast mm) m \<and> areas_at G m areas \<and> length areas < 2 ^ 31))"


text \<open>The tasks from \<open>t\<close> up to the task at \<open>u\<close>, which is not looked at.\<close>

inductive tasks_to :: "guest \<Rightarrow> uint32_t \<Rightarrow> uint32_t \<Rightarrow> task list \<Rightarrow> uint32_t \<Rightarrow> bool" for G h where
  to_here: "tasks_to G h u [] u"
| to_step: "\<lbrakk>task_at G t x; u32_at G (at_offset t 452 + 4) (t' + 452); t' \<noteq> h; tasks_to G h t' xs u\<rbrakk>
    \<Longrightarrow> tasks_to G h t (x # xs) u"

text \<open>The lines expected for the areas, for a task and for a list of tasks.\<close>

fun area_lines :: "int \<Rightarrow> area list \<Rightarrow> line list" where
  "area_lines j [] = []"
| "area_lines j ((name, start, end) # as) = Module j name (sint start) (sint end - sint start) # area_lines (j + 1) as"

fun task_lines :: "int \<Rightarrow> task list \<Rightarrow> line list" where
  "task_lines i [] = []"
| "task_lines i ((pid, name, as) # xs) = Process i (sint pid) name # area_lines 0 as @ task_lines (i + 1) xs"

subsection \<open>Reads\<close>

lemma readMemoryConcrete_prefix:
  assumes "\<forall>i<length bs. G (a + of_nat i) = Some (bs ! i)"
  shows "\<exists>ok d. readMemoryConcrete G a (length bs + n) = (ok, bs @ d) \<and> length d \<le> n \<and> (n = 0 \<longrightarrow> ok)"
  using assms
proof (induction bs arbitrary: a)
  case Nil
  have "length (snd (readMemoryConcrete G a n)) \<le> n" for a
    by (induction n arbitrary: a) (auto split: option.splits prod.splits, metis snd_conv)
  thus ?case by (cases "readMemoryConcrete G a n") (auto, metis snd_conv)
next
  case (Cons b bs)
  have "\<forall>i<length bs. G (a + 1 + of_nat i) = Some (bs ! i)"
    using Cons.prems by (auto simp: add.assoc dest: spec [of _ "Suc _"])
  from Cons.IH [OF this] Cons.prems show ?case by (force dest: spec [of _ 0])
qed

lemma u32_bytes: "foldr (\<lambda>b v. push_bit 8 v OR ucast b) (map (\<lambda>i. ucast (drop_bit (8 * i) v) :: uint8_t) [0..<4]) 0 = (v :: uint32_t)"
  (is "?l = v")
proof (rule bit_word_eqI)
  fix n assume n: "n < LENGTH(32)"
  have l: "[0..<4] = [0, 1, 2, 3 :: nat]" by (simp add: upt_rec)
  consider "n < 8" | "8 \<le> n" "n < 16" | "16 \<le> n" "n < 24" | "24 \<le> n" by linarith
  thus "bit ?l n = bit v n" using n by cases (simp_all add: l bit_simps less_diff_conv2)
qed

lemma read_u32_at:
  assumes "u32_at G a v" "m_state L = Some G"
  shows "read_u32 L a = Inr v"
proof -
  have "\<forall>i<length (map (\<lambda>i. ucast (drop_bit (8 * i) v) :: uint8_t) [0..<4]). G (a + of_nat i) =
      Some (map (\<lambda>i. ucast (drop_bit (8 * i) v)) [0..<4] ! i)"
    using assms(1) by (simp add: u32_at_def)
  from readMemoryConcrete_prefix [OF this, of 0] show ?thesis
    using assms(2) by (auto simp: read_u32_def u32_bytes)
qed

lemma c_string_prefix: "0 \<notin> set s \<Longrightarrow> c_string (map Some (s @ 0 # d) @ bs) = Inr s"
  by (induction s) auto

lemma read_buffer_string:
  assumes "string_at G a n s" "m_state L = Some G" "n \<le> length buf"
  obtains buf' where "read_buffer L a n buf = Inr buf'" "length buf' = length buf" "c_string buf' = Inr s"
proof -
  have "\<forall>i<length (s @ [0]). G (a + of_nat i) = Some ((s @ [0]) ! i)" "length s < n" "0 \<notin> set s"
    using assms(1) by (auto simp: string_at_def)
  with readMemoryConcrete_prefix [of "s @ [0]" G a "n - Suc (length s)"] obtain ok d where
    "readMemoryConcrete G a n = (ok, s @ 0 # d)" "length s + 1 + length d \<le> n"
    by auto
  with assms \<open>0 \<notin> set s\<close> show thesis
    by (intro that [of "map Some (s @ 0 # d) @ drop (length (s @ 0 # d)) buf"])
      (auto simp: read_buffer_def c_string_prefix simp del: map_append)
qed

lemmas kernel_reads = get_process_pid_def get_process_name_def get_process_firstmmap_def get_next_mmap_def
  get_module_name_def get_vmstart_def get_vmend_def get_next_task_struct_def read_u32_at init_kernel_info_def

subsection \<open>The loops\<close>

definition ubuntu :: "linux_read \<Rightarrow> guest \<Rightarrow> bool" where
  "ubuntu L G \<longleftrightarrow> (\<exists>L0. L = init_kernel_info L0 \<and> m_state L0 = Some G)"

lemma ubuntu_simps:
  assumes "ubuntu L G"
  shows "listoffset L = 452" "pidoffset L = 496" "mmoffset L = 460" "commoffset L = 792" "vmstartoffset L = 4"
    "vmendoffset L = 8" "vmnextoffset L = 12" "vmfileoffset L = 72" "dentryoffset L = 12" "dinameoffset L = 96"
    "m_state L = Some G"
  using assms by (auto simp: ubuntu_def init_kernel_info_def)

lemma print_module_at:
  assumes "ubuntu L G" "area_at G m (name, start, end)" "u32_at G (at_offset m 12) m'" "length buf = 512" "0 \<le> j"
  obtains buf' where "length buf' = 512" "print_module L m j buf =
    andThen (in_int (j + 1)) (\<lambda>j'. Inr (Module j name (sint start) (sint end - sint start), buf', m', j'))"
proof -
  note L = ubuntu_simps [OF assms(1)]
  from assms(2) obtain vmfile dentry where v: "u32_at G (at_offset m 72) vmfile" "u32_at G (at_offset vmfile 12) dentry"
    "string_at G (at_offset dentry 96) 36 name" by (auto simp: area_at_def)
  from read_buffer_string [OF v(3) L(11), of buf] assms(4) obtain buf' where
    b: "read_buffer L (at_offset dentry 96) 36 buf = Inr buf'" "length buf' = 512" "c_string buf' = Inr name"
    by auto
  have "in_int (sint end - sint start) = Inr (sint end - sint start)" using assms(2) by (simp add: area_at_def in_int_def)
  thus thesis
    using assms(2,3) v b
    by (intro that [of buf']) (auto simp: print_module_def kernel_reads(1-8) read_u32_at [OF _ L(11)] L(1-10) area_at_def)
qed

lemma module_loop_at:
  assumes "areas_at G m as" "ubuntu L G" "length buf = 512" "0 \<le> j" "j + int (length as) < 2 ^ 31"
  shows "\<exists>buf'. length buf' = 512 \<and> module_loop L m j buf out = Inr (buf', out @ area_lines j as)"
  using assms
proof (induction arbitrary: j buf out)
  case areas_end
  thus ?case by (simp add: module_loop.simps)
next
  case (areas_step m a m' as)
  obtain name start "end" where a: "a = (name, start, end)" by (cases a)
  with print_module_at areas_step.hyps areas_step.prems obtain buf' where b: "length buf' = 512"
    "print_module L m j buf = andThen (in_int (j + 1)) (\<lambda>j'. Inr (Module j name (sint start) (sint end - sint start), buf', m', j'))"
    by metis
  have i: "in_int (j + 1) = Inr (j + 1)" using areas_step.prems by (simp add: in_int_def)
  from areas_step.IH [OF areas_step.prems(1) b(1), of "j + 1" "out @ [Module j name (sint start) (sint end - sint start)]"]
    areas_step.hyps(1) areas_step.prems(3,4) show ?case
    by (subst module_loop.simps) (auto simp: b(2) i a)
qed

lemma print_process_head:
  assumes "ubuntu L G" "head_at G t pid name mm" "length buf = 512"
  obtains buf' where "length buf' = 512"
    "print_process L t i buf = andThen (read_u32 L (ucast mm)) (\<lambda>m. Inr (Process i (sint pid) name, buf', m))"
proof -
  note L = ubuntu_simps [OF assms(1)]
  from assms(2) have v: "u32_at G (at_offset t 496) pid" "string_at G (at_offset t 792) 512 name"
    "u32_at G (at_offset t 460) mm" by (auto simp: head_at_def)
  from read_buffer_string [OF v(2) L(11), of buf] assms(3) obtain buf' where
    b: "read_buffer L (at_offset t 792) 512 buf = Inr buf'" "length buf' = 512" "c_string buf' = Inr name"
    by auto
  show thesis
    using v b by (intro that [of buf']) (simp_all add: print_process_def kernel_reads(1-8) read_u32_at [OF _ L(11)] L(1-10))
qed

lemma print_process_at:
  assumes "ubuntu L G" "head_at G t pid name mm" "u32_at G (ucast mm) m" "length buf = 512"
  obtains buf' where "length buf' = 512" "print_process L t i buf = Inr (Process i (sint pid) name, buf', m)"
proof -
  from print_process_head [OF assms(1,2,4)] obtain buf' where b: "length buf' = 512"
    "print_process L t i buf = andThen (read_u32 L (ucast mm)) (\<lambda>m. Inr (Process i (sint pid) name, buf', m))" .
  thus thesis by (intro that [of buf']) (simp_all add: read_u32_at [OF assms(3) ubuntu_simps(11) [OF assms(1)]])
qed

declare task_loop.simps [simp del]

text \<open>One iteration of the loop over the tasks.\<close>

lemma task_loop_step:
  assumes "ubuntu L G" "task_at G t x" "u32_at G (at_offset t 452 + 4) (t' + 452)" "length pb = 512" "length mb = 512"
  obtains pb' mb' where "length pb' = 512" "length mb' = 512"
    "task_loop L h t i pb mb out = (if i + 1 < 100 \<and> t' \<noteq> h then task_loop L h t' (i + 1) pb' mb' (out @ task_lines i [x])
      else Inr (out @ task_lines i [x]))"
proof -
  obtain pid name as where x: "x = (pid, name, as)" by (cases x)
  with assms(2) obtain mm m where m: "head_at G t pid name mm" "u32_at G (ucast mm) m" "areas_at G m as" "length as < 2 ^ 31"
    by (auto simp: task_at_def)
  from print_process_at [OF assms(1) m(1,2) assms(4)] obtain pb' where p: "length pb' = 512"
    "print_process L t i pb = Inr (Process i (sint pid) name, pb', m)" .
  from module_loop_at [OF m(3) assms(1,5), of 0 "out @ [Process i (sint pid) name]"] m(4) obtain mb' where mb: "length mb' = 512"
    "module_loop L m 0 mb (out @ [Process i (sint pid) name]) = Inr (mb', (out @ [Process i (sint pid) name]) @ area_lines 0 as)"
    by auto
  have n: "get_next_task_struct L t = Inr t'"
    using assms(1,3) by (simp add: get_next_task_struct_def ubuntu_simps read_u32_at [OF _ ubuntu_simps(11)])
  show thesis by (rule that [OF p(1) mb(1)]) (subst task_loop.simps, simp add: p mb n x)
qed


lemma task_loop_to:
  assumes "tasks_to G h t xs u" "ubuntu L G" "length pb = 512" "length mb = 512" "i + int (length xs) < 100"
  shows "\<exists>pb' mb'. length pb' = 512 \<and> length mb' = 512 \<and>
    task_loop L h t i pb mb out = task_loop L h u (i + int (length xs)) pb' mb' (out @ task_lines i xs)"
  using assms
proof (induction arbitrary: i pb mb out)
  case (to_here u)
  thus ?case by auto
next
  case (to_step t x t' xs u)
  from task_loop_step [OF to_step.prems(1) to_step.hyps(1,2) to_step.prems(2,3), of h i out] obtain pb' mb' where
    s: "length pb' = 512" "length mb' = 512"
    "task_loop L h t i pb mb out = (if i + 1 < 100 \<and> t' \<noteq> h then task_loop L h t' (i + 1) pb' mb' (out @ task_lines i [x])
      else Inr (out @ task_lines i [x]))" .
  obtain pid name as where x: "x = (pid, name, as)" by (cases x)
  from to_step.IH [OF to_step.prems(1) s(1,2), of "i + 1" "out @ task_lines i [x]"] s(3) to_step.hyps(3) to_step.prems(4)
  show ?case by (simp add: x add.assoc)
qed

lemma ubuntu_init: "ubuntu (init_kernel_info (get_mstate G L)) G"
  by (auto simp: ubuntu_def get_mstate_def)

lemma taskaddr_init [simp]: "taskaddr (init_kernel_info L) = 0xC0687340"
  by (simp add: init_kernel_info_def)


lemma readMemoryConcrete_fails: "i < n \<Longrightarrow> G (a + of_nat i) = None \<Longrightarrow> \<not> fst (readMemoryConcrete G a n)"
proof (induction n arbitrary: a i)
  case (Suc n)
  show ?case
  proof (cases i)
    case 0
    with Suc.prems show ?thesis by simp
  next
    case (Suc k)
    with Suc.prems Suc.IH [of k "a + 1"] show ?thesis by (auto simp: add.assoc split: option.split prod.split)
  qed
qed simp

lemma read_u32_fails: "m_state L = Some G \<Longrightarrow> i < 4 \<Longrightarrow> G (a + of_nat i) = None \<Longrightarrow> read_u32 L a = Inl UnsetVariable"
  using readMemoryConcrete_fails [of i 4 G a] by (auto simp: read_u32_def split: prod.split)

subsection \<open>A guest for the witnesses\<close>

text \<open>The memory that holds the given bytes at the given addresses.\<close>

fun guest_of :: "(uint64_t \<times> uint8_t list) list \<Rightarrow> guest" where
  "guest_of [] x = None"
| "guest_of ((a, bs) # ws) x = (if unat (x - a) < length bs then Some (bs ! unat (x - a)) else guest_of ws x)"

definition holds :: "guest \<Rightarrow> uint64_t \<Rightarrow> uint8_t list \<Rightarrow> bool" where
  "holds G a bs \<longleftrightarrow> (\<forall>i<length bs. G (a + of_nat i) = Some (bs ! i))"

definition le_bytes :: "uint32_t \<Rightarrow> uint8_t list" where
  "le_bytes v = map (\<lambda>i. ucast (drop_bit (8 * i) v)) [0..<4]"

lemma length_le_bytes [simp]: "length (le_bytes v) = 4"
  by (simp add: le_bytes_def)

lemma u32_at_holds: "u32_at G a v = holds G a (le_bytes v)"
  by (simp add: u32_at_def holds_def le_bytes_def)

lemma string_at_holds: "string_at G a n s \<longleftrightarrow> length s < n \<and> 0 \<notin> set s \<and> holds G a (s @ [0])"
  by (auto simp: string_at_def holds_def less_Suc_eq_le)

lemma holds_here: "length bs < 2 ^ 64 \<Longrightarrow> holds (guest_of ((a, bs) # ws)) a bs"
  by (simp add: holds_def unat_of_nat)

lemma holds_skip:
  assumes "uint a + int (length bs) \<le> uint b \<or> uint b + int (length cs) \<le> uint a" "uint a + int (length bs) \<le> 2 ^ 64" "uint b + int (length cs) \<le> 2 ^ 64"
  shows "holds (guest_of ((a, bs) # ws)) b cs = holds (guest_of ws) b cs"
proof -
  have "\<not> unat (b + of_nat i - a) < length bs" if "i < length cs" for i
  proof -
    have "int i < 2 ^ 64" using that assms(3) uint_ge_0 [of b] by linarith
    hence "uint (b + of_nat i :: uint64_t) = uint b + int i"
      using that assms(3) by (simp add: uint_word_ariths unsigned_of_nat take_bit_eq_mod mod_pos_pos_trivial)
    hence u: "uint (b + of_nat i - a) = (uint b + int i - uint a) mod 2 ^ 64" by (simp add: uint_word_ariths(2))
    have "int (length bs) \<le> uint (b + of_nat i - a)"
    proof (cases "uint b + int i - uint a < 0")
      case True
      have "uint a < 2 ^ 64" using unsigned_less [where ?'a = int, of a] by simp
      hence "0 \<le> uint b + int i - uint a + 2 ^ 64" using uint_ge_0 [of b] by linarith
      hence "(uint b + int i - uint a) mod 2 ^ 64 = uint b + int i - uint a + 2 ^ 64"
        using True by (subst mod_add_self2 [symmetric], intro mod_pos_pos_trivial) auto
      thus ?thesis unfolding u using assms(2) uint_ge_0 [of b] by linarith
    next
      case False
      have "uint b + int i - uint a < 2 ^ 64" using assms(3) that uint_ge_0 [of a] by linarith
      hence "(uint b + int i - uint a) mod 2 ^ 64 = uint b + int i - uint a" using False by (intro mod_pos_pos_trivial) auto
      thus ?thesis unfolding u using assms(1) that False by linarith
    qed
    hence "int (length bs) \<le> int (unat (b + of_nat i - a))" by simp
    thus ?thesis by linarith
  qed
  thus ?thesis by (simp add: holds_def)
qed

lemmas guest_simps = u32_at_holds string_at_holds holds_here holds_skip

lemma demo_offsets:
  "at_offset 0xC2000000 72 = 0xC2000048" "at_offset 0xC2000000 4 = 0xC2000004" "at_offset 0xC2000000 8 = 0xC2000008"
  "at_offset 0xC2000000 12 = 0xC200000C" "at_offset 0xC3000000 12 = 0xC300000C" "at_offset 0xC4000000 96 = 0xC4000060"
  "at_offset 0xC0687340 496 = 0xC0687530" "at_offset 0xC0687340 792 = 0xC0687658" "at_offset 0xC0687340 460 = 0xC068750C"
  "at_offset 0xC0687340 452 = 0xC0687504" "(ucast (0xC1000000 :: uint32_t) :: uint64_t) = 0xC1000000"
  by code_simp+








abbreviation demo_linux :: linux_read where
  "demo_linux \<equiv> \<lparr>hookingpoint = 0, hookingpoint2 = 0, taskaddr = 0, tasksize = 0, listoffset = 0, pidoffset = 0, mmoffset = 0,
     pgdoffset = 0, commoffset = 0, commsize = 0, vmstartoffset = 0, vmendoffset = 0, vmnextoffset = 0, vmfileoffset = 0,
     dentryoffset = 0, dnameoffset = 0, dinameoffset = 0, m_state = None\<rparr>"

subsection \<open>Properties\<close>





text \<open>C40: the memory descriptor of a task is not checked. When that of one of the first hundred tasks cannot be read, as with a
  kernel thread, whose descriptor is the null pointer, where address zero is not mapped, and the tasks before it are listed without
  trouble, the listing goes on with a variable it has never set.\<close>

theorem no_descriptor_undefined:
  assumes "tasks_to G 0xC0687340 0xC0687340 ts t" "length ts < 100" "head_at G t pid name mm" "i < 4" "G (ucast mm + of_nat i) = None"
  shows "print_linux_process_info (get_mstate G L) = Inl UnsetVariable"
proof -
  let ?L = "init_kernel_info (get_mstate G L)"
  note u = ubuntu_init [of G L]
  from task_loop_to [OF assms(1) u, of "replicate 512 None" "replicate 512 None" 0 "[]"] assms(2) obtain pb mb where
    b: "length pb = 512" "print_linux_process_info (get_mstate G L) =
      task_loop ?L 0xC0687340 t (int (length ts)) pb mb (task_lines 0 ts)"
    by (auto simp: print_linux_process_info_def get_first_task_struct_def Let_def)
  from print_process_head [OF u assms(3) b(1)] obtain pb' where "print_process ?L t (int (length ts)) pb =
    andThen (read_u32 ?L (ucast mm)) (\<lambda>m. Inr (Process (int (length ts)) (sint pid) name, pb', m))" .
  hence "print_process ?L t (int (length ts)) pb = Inl UnsetVariable"
    by (simp add: read_u32_fails [OF ubuntu_simps(11) [OF u] assms(4,5)])
  thus ?thesis unfolding b(2) by (subst task_loop.simps) simp
qed

text \<open>The first task of the list has an identifier, a name and, like every kernel thread, no descriptor.\<close>

definition kernel_guest :: guest where
  "kernel_guest = guest_of [(0xC068750C, le_bytes 0), (0xC0687530, le_bytes 0), (0xC0687658, [0x73, 0x77, 0x61, 0x70] @ [0])]"

lemma kernel_head_at: "head_at kernel_guest 0xC0687340 0 [0x73, 0x77, 0x61, 0x70] 0"
  unfolding head_at_def demo_offsets by (simp add: kernel_guest_def guest_simps del: append.simps)

theorem no_descriptor_undefined_witness:
  "print_linux_process_info (get_mstate kernel_guest demo_linux) = Inl UnsetVariable"
  by (rule no_descriptor_undefined [OF to_here _ kernel_head_at, of 0]) (simp_all add: kernel_guest_def)

end
