(* ===== verification/Solver.thy ===== *)
theory Solver
  imports Expr_Arith
begin

text \<open>
  Queries and the front end of the solvers, \<^verbatim>\<open>klee/Solver.h\<close>, \<^verbatim>\<open>klee/SolverImpl.h\<close> and
  the first part of \<^verbatim>\<open>lib/Solver/Solver.cpp\<close>.

  A solver has a state of its own. An operation of it can abort, can report a failure (\<^verbatim>\<open>return false\<close>) or
  succeed with a result: a value of type \<open>('a option \<times> 's) may_abort\<close>. The locale \<open>solver_spec\<close> states what
  the classes derived from \<^verbatim>\<open>SolverImpl\<close> promise; it is the interface between the front end,
  the solvers that wrap another one and those that decide queries.
\<close>

declare One_nat_def [simp del]

subsection \<open>Queries and solvers\<close>

record query =
  q_constraints :: "expr list"
  q_expr :: expr

definition withExpr :: "query \<Rightarrow> expr \<Rightarrow> query" where
  "withExpr q e = \<lparr>q_constraints = q_constraints q, q_expr = e\<rparr>"

definition withFalse :: "expr_env \<Rightarrow> query \<Rightarrow> query" where
  "withFalse E q = \<lparr>q_constraints = q_constraints q, q_expr = ConstantExpr (ConstantExpr_alloc E 0 1)\<rparr>"

definition negateExpr :: "expr_env \<Rightarrow> query \<Rightarrow> query may_abort" where
  "negateExpr E q = map_option (withExpr q) (createIsZero E (q_expr q))"

text \<open>\<^verbatim>\<open>Solver::Validity\<close>.\<close>

datatype validity = VTrue | VFalse | VUnknown

definition validity_to_str :: "validity \<Rightarrow> string" where
  "validity_to_str v = (case v of VTrue \<Rightarrow> ''True'' | VFalse \<Rightarrow> ''False'' | VUnknown \<Rightarrow> ''Unknown'')"

type_synonym ('a, 's) solve = "'s \<Rightarrow> ('a option \<times> 's) may_abort"

text \<open>Success, failure, \<^verbatim>\<open>if (!m) return false;\<close>, \<^verbatim>\<open>assert(success)\<close> and an expression that may abort.\<close>

definition return_ok :: "'a \<Rightarrow> ('a, 's) solve" where
  "return_ok x s = Some (Some x, s)"

definition return_false :: "('a, 's) solve" where
  "return_false s = Some (None, s)"

definition if_ok :: "('a, 's) solve \<Rightarrow> ('a \<Rightarrow> ('b, 's) solve) \<Rightarrow> ('b, 's) solve" where
  "if_ok m f s = (case m s of None \<Rightarrow> None | Some (None, s') \<Rightarrow> Some (None, s') | Some (Some x, s') \<Rightarrow> f x s')"

definition assert_ok :: "('a, 's) solve \<Rightarrow> ('a, 's) solve" where
  "assert_ok m s = (case m s of Some (Some x, s') \<Rightarrow> Some (Some x, s') | _ \<Rightarrow> None)"

definition or_abort :: "'a may_abort \<Rightarrow> ('a, 's) solve" where
  "or_abort r s = (case r of None \<Rightarrow> None | Some x \<Rightarrow> Some (Some x, s))"

text \<open>The virtual functions of \<^verbatim>\<open>SolverImpl\<close>; the values of the objects and whether there is a solution are the results of the last one.\<close>

record 's solver_impl =
  computeValidity :: "query \<Rightarrow> (validity, 's) solve"
  computeTruth :: "query \<Rightarrow> (bool, 's) solve"
  computeValue :: "query \<Rightarrow> (expr, 's) solve"
  computeInitialValues :: "query \<Rightarrow> array list \<Rightarrow> (uint8_t list list \<times> bool, 's) solve"

definition SolverImpl_computeValidity :: "expr_env \<Rightarrow> (query \<Rightarrow> (bool, 's) solve) \<Rightarrow> query \<Rightarrow> (validity, 's) solve" where
  "SolverImpl_computeValidity E truth q =
    if_ok (truth q) (\<lambda>isTrue.
      if isTrue then return_ok VTrue
      else if_ok (or_abort (negateExpr E q)) (\<lambda>nq.
        if_ok (truth nq) (\<lambda>isFalse. return_ok (if isFalse then VFalse else VUnknown))))"

subsection \<open>The front end\<close>

definition evaluate_query :: "expr_env \<Rightarrow> 's solver_impl \<Rightarrow> query \<Rightarrow> (validity, 's) solve" where
  "evaluate_query E S q =
    (if getWidth (q_expr q) \<noteq> 1 then or_abort None
     else case dyn_const (q_expr q) of
       Some CE \<Rightarrow> if_ok (or_abort (isTrue E CE)) (\<lambda>t. return_ok (if t then VTrue else VFalse))
     | None \<Rightarrow> computeValidity S q)"

definition mustBeTrue :: "expr_env \<Rightarrow> 's solver_impl \<Rightarrow> query \<Rightarrow> (bool, 's) solve" where
  "mustBeTrue E S q =
    (if getWidth (q_expr q) \<noteq> 1 then or_abort None
     else case dyn_const (q_expr q) of
       Some CE \<Rightarrow> or_abort (isTrue E CE)
     | None \<Rightarrow> computeTruth S q)"

definition mustBeFalse :: "expr_env \<Rightarrow> 's solver_impl \<Rightarrow> query \<Rightarrow> (bool, 's) solve" where
  "mustBeFalse E S q = if_ok (or_abort (negateExpr E q)) (mustBeTrue E S)"

definition mayBeTrue :: "expr_env \<Rightarrow> 's solver_impl \<Rightarrow> query \<Rightarrow> (bool, 's) solve" where
  "mayBeTrue E S q = if_ok (mustBeFalse E S q) (\<lambda>res. return_ok (\<not> res))"

definition mayBeFalse :: "expr_env \<Rightarrow> 's solver_impl \<Rightarrow> query \<Rightarrow> (bool, 's) solve" where
  "mayBeFalse E S q = if_ok (mustBeTrue E S q) (\<lambda>res. return_ok (\<not> res))"

definition getValue :: "'s solver_impl \<Rightarrow> query \<Rightarrow> (apint, 's) solve" where
  "getValue S q =
    (case dyn_const (q_expr q) of
       Some CE \<Rightarrow> return_ok CE
     | None \<Rightarrow> if_ok (computeValue S q) (\<lambda>tmp. or_abort (dyn_const tmp)))"

text \<open>When the implementation fails, \<^verbatim>\<open>hasSolution\<close> was never set; the result is \<^verbatim>\<open>false\<close> whatever it holds.\<close>

definition getInitialValues :: "'s solver_impl \<Rightarrow> query \<Rightarrow> array list \<Rightarrow> (uint8_t list list, 's) solve" where
  "getInitialValues S q objects =
    if_ok (computeInitialValues S q objects) (\<lambda>(values, hasSolution). if hasSolution then return_ok values else return_false)"

text \<open>
  A binary search of \<^verbatim>\<open>getRange\<close>: the loop \<^verbatim>\<open>while (lo<hi)\<close> with the question asked for \<open>mid\<close>. The search for the
  number of useful bits, for the smallest and for the largest value differ in the question only.
\<close>

function search :: "(uint64_t \<Rightarrow> (bool, 's) solve) \<Rightarrow> uint64_t \<Rightarrow> uint64_t \<Rightarrow> (uint64_t, 's) solve" where
  "search ask lo hi s =
    (if lo < hi then
       let mid = lo + (hi - lo) div 2
       in (case ask mid s of
             Some (Some res, s') \<Rightarrow> if res then search ask lo mid s' else search ask (mid + 1) hi s'
           | _ \<Rightarrow> None)
     else Some (Some lo, s))"
  by pat_completeness auto

lemma search_mid:
  assumes "(lo :: uint64_t) < hi"
  shows "unat (lo + (hi - lo) div 2) = (unat lo + unat hi) div 2"
    and "unat (lo + (hi - lo) div 2 + 1) = (unat lo + unat hi) div 2 + 1"
proof -
  have l: "unat lo < unat hi" "unat hi < 2 ^ 64" using assms unsigned_less [where ?'a = nat, of hi] by (simp_all add: word_less_nat_alt)
  have "unat ((hi - lo) div 2) = (unat hi - unat lo) div 2"
    using assms by (simp add: unat_div unat_sub less_imp_le)
  thus m: "unat (lo + (hi - lo) div 2) = (unat lo + unat hi) div 2"
    using l by (simp add: unat_word_ariths)
  show "unat (lo + (hi - lo) div 2 + 1) = (unat lo + unat hi) div 2 + 1"
    unfolding unat_word_ariths(1) [of _ 1] m using l by simp
qed

termination search
proof (relation "measure (\<lambda>(ask, lo, hi, s). unat hi - unat lo)", goal_cases)
  case (2 ask lo hi s mid res s')
  then show ?case using search_mid(1) [OF 2(1)] by (auto simp: word_less_nat_alt)
next
  case (3 ask lo hi s mid res s')
  then show ?case using search_mid(2) [OF 3(1)] by (auto simp: word_less_nat_alt)
qed simp_all

declare search.simps [simp del]

definition cmp_query :: "expr_env \<Rightarrow> query \<Rightarrow> ckind \<Rightarrow> expr \<Rightarrow> uint64_t \<Rightarrow> query may_abort" where
  "cmp_query E q k e v = do {
    c \<leftarrow> ConstantExpr_create E v (getWidth (q_expr q));
    e' \<leftarrow> create_cmp E k e (ConstantExpr c);
    Some (withExpr q e') }"

text \<open>The questions of the three searches.\<close>

definition ask_bits :: "expr_env \<Rightarrow> 's solver_impl \<Rightarrow> query \<Rightarrow> uint64_t \<Rightarrow> (bool, 's) solve" where
  "ask_bits E S q mid =
    if_ok (or_abort (do {
        c \<leftarrow> ConstantExpr_create E mid (getWidth (q_expr q));
        l \<leftarrow> create_bin E LShr (q_expr q) (ConstantExpr c);
        cmp_query E q Eq l 0 }))
      (mustBeTrue E S)"

definition ask_min :: "expr_env \<Rightarrow> 's solver_impl \<Rightarrow> query \<Rightarrow> uint64_t \<Rightarrow> (bool, 's) solve" where
  "ask_min E S q mid = if_ok (or_abort (cmp_query E q Ule (q_expr q) mid)) (mayBeTrue E S)"

definition ask_max :: "expr_env \<Rightarrow> 's solver_impl \<Rightarrow> query \<Rightarrow> uint64_t \<Rightarrow> (bool, 's) solve" where
  "ask_max E S q mid = if_ok (or_abort (cmp_query E q Ule (q_expr q) mid)) (mustBeTrue E S)"

definition range_of_bool :: "validity \<Rightarrow> uint64_t \<times> uint64_t" where
  "range_of_bool v = (case v of VTrue \<Rightarrow> (1, 1) | VFalse \<Rightarrow> (0, 0) | VUnknown \<Rightarrow> (0, 1))"

definition getRange :: "expr_env \<Rightarrow> 's solver_impl \<Rightarrow> query \<Rightarrow> (apint \<times> apint, 's) solve" where
  "getRange E S q =
    (let e = q_expr q; width = getWidth e in
     if_ok
       (if width = 1 then if_ok (assert_ok (evaluate_query E S q)) (\<lambda>result. return_ok (range_of_bool result))
        else case dyn_const e of
          Some CE \<Rightarrow> if_ok (or_abort (getZExtValue E 64 CE)) (\<lambda>v. return_ok (v, v))
        | None \<Rightarrow>
            if_ok (search (ask_bits E S q) 0 (of_nat width)) (\<lambda>bits.
            if_ok (assert_ok (if_ok (or_abort (cmp_query E q Eq e 0)) (mayBeTrue E S))) (\<lambda>res.
            if_ok (if res then return_ok 0 else search (ask_min E S q) 0 (maxValueOfNBits (unat bits))) (\<lambda>min.
            if_ok (search (ask_max E S q) min (maxValueOfNBits (unat bits))) (\<lambda>max.
            return_ok (min, max))))))
       (\<lambda>(min, max). or_abort (do {
          a \<leftarrow> ConstantExpr_create E min width;
          b \<leftarrow> ConstantExpr_create E max width;
          Some (a, b) })))"

subsection \<open>What a solver promises\<close>

text \<open>The contents of the arrays that satisfy a list of constraints, and the expressions that hold in all of them.\<close>

definition models :: "contents \<Rightarrow> expr list \<Rightarrow> bool" where
  "models \<alpha> cs \<longleftrightarrow> bytes \<alpha> \<and> (\<forall>c \<in> set cs. eval \<alpha> c = 1)"

definition valid :: "query \<Rightarrow> bool" where
  "valid q \<longleftrightarrow> (\<forall>\<alpha>. models \<alpha> (q_constraints q) \<longrightarrow> eval \<alpha> (q_expr q) = 1)"

definition unsat :: "query \<Rightarrow> bool" where
  "unsat q \<longleftrightarrow> (\<forall>\<alpha>. models \<alpha> (q_constraints q) \<longrightarrow> eval \<alpha> (q_expr q) = 0)"

definition validity_of :: "query \<Rightarrow> validity" where
  "validity_of q = (if valid q then VTrue else if unsat q then VFalse else VUnknown)"

text \<open>A query that makes sense: well-formed, with constraints that have a model.\<close>

definition query_ok :: "expr_env \<Rightarrow> query \<Rightarrow> bool" where
  "query_ok E q \<longleftrightarrow> (\<exists>\<alpha>. models \<alpha> (q_constraints q)) \<and> getWidth (q_expr q) \<le> 64 \<and>
    (\<forall>\<alpha>. bytes \<alpha> \<longrightarrow> expr_ok E \<alpha> (q_expr q) \<and> (\<forall>c \<in> set (q_constraints q). expr_ok E \<alpha> c \<and> getWidth c = 1))"

text \<open>The values of the objects in given contents.\<close>

definition values_of :: "contents \<Rightarrow> array list \<Rightarrow> uint8_t list list" where
  "values_of \<alpha> objects = map (\<lambda>a. map (\<lambda>i. word_of_int (\<alpha> a i)) [0..<arr_size a]) objects"

text \<open>The objects that a client may ask for: symbolic arrays, no more bytes than the memory shared with a child process holds.\<close>

definition objects_ok :: "array list \<Rightarrow> bool" where
  "objects_ok objects \<longleftrightarrow> (\<forall>a \<in> set objects. wf_array a \<and> isSymbolicArray a) \<and> (\<Sum>a\<leftarrow>objects. arr_size a) < 2 ^ 20"

text \<open>
  \<open>solves sure I P m\<close>: from a state with the invariant, \<open>m\<close> does not abort and keeps the
  invariant, a result it returns has the property \<open>P\<close>, and it does not fail when it is \<open>sure\<close>.
\<close>

definition solves :: "bool \<Rightarrow> ('s \<Rightarrow> bool) \<Rightarrow> ('a \<Rightarrow> bool) \<Rightarrow> ('a, 's) solve \<Rightarrow> bool" where
  "solves sure I P m \<longleftrightarrow> (\<forall>s. I s \<longrightarrow>
    (\<exists>r s'. m s = Some (r, s') \<and> I s' \<and> (sure \<longrightarrow> r \<noteq> None) \<and> (\<forall>x. r = Some x \<longrightarrow> P x)))"

locale solver_spec =
  fixes E :: expr_env and Q :: "query \<Rightarrow> bool" and sure :: bool and S :: "'s solver_impl" and I :: "'s \<Rightarrow> bool"
  assumes truth: "Q q \<Longrightarrow> query_ok E q \<Longrightarrow> getWidth (q_expr q) = 1 \<Longrightarrow> solves sure I (\<lambda>b. b = valid q) (computeTruth S q)"
    and full_validity: "Q q \<Longrightarrow> query_ok E q \<Longrightarrow> getWidth (q_expr q) = 1 \<Longrightarrow>
      solves sure I (\<lambda>v. v = validity_of q) (computeValidity S q)"
    and a_value: "Q q \<Longrightarrow> query_ok E q \<Longrightarrow>
      solves sure I (\<lambda>e. \<exists>c \<alpha>. e = ConstantExpr c \<and> ap_width c = getWidth (q_expr q) \<and>
        models \<alpha> (q_constraints q) \<and> ap_val c = eval \<alpha> (q_expr q)) (computeValue S q)"
    and initial_values: "Q q \<Longrightarrow> query_ok E q \<Longrightarrow> getWidth (q_expr q) = 1 \<Longrightarrow>
      objects_ok objects \<Longrightarrow>
      solves sure I (\<lambda>(vals, hasSolution). (hasSolution \<longleftrightarrow> \<not> valid q) \<and> (hasSolution \<longrightarrow>
        (\<exists>\<alpha>. models \<alpha> (q_constraints q) \<and> eval \<alpha> (q_expr q) = 0 \<and> vals = values_of \<alpha> objects)))
        (computeInitialValues S q objects)"

subsection \<open>Rules\<close>

named_theorems solve_rules

lemma solves_return [solve_rules]: "P x \<Longrightarrow> solves sure I P (return_ok x)"
  by (simp add: solves_def return_ok_def)

lemma solves_false [solve_rules]: "\<not> sure \<Longrightarrow> solves sure I P return_false"
  by (simp add: solves_def return_false_def)

lemma solves_abort [solve_rules]: "r = Some x \<Longrightarrow> P x \<Longrightarrow> solves sure I P (or_abort r)"
  by (simp add: solves_def or_abort_def)

lemma solves_if_ok:
  assumes "solves sure I P m" "\<And>x. P x \<Longrightarrow> solves sure I R (f x)"
  shows "solves sure I R (if_ok m f)"
  unfolding solves_def
proof (intro allI impI)
  fix s assume "I s"
  with assms(1) obtain r s' where m: "m s = Some (r, s')" "I s'" "sure \<longrightarrow> r \<noteq> None" "\<forall>x. r = Some x \<longrightarrow> P x"
    unfolding solves_def by blast
  show "\<exists>r s'. if_ok m f s = Some (r, s') \<and> I s' \<and> (sure \<longrightarrow> r \<noteq> None) \<and> (\<forall>x. r = Some x \<longrightarrow> R x)"
  proof (cases r)
    case (Some x)
    with m assms(2) [of x] show ?thesis by (auto simp: if_ok_def solves_def)
  qed (use m in \<open>auto simp: if_ok_def\<close>)
qed

lemma solves_weaken: "solves sure I P m \<Longrightarrow> (\<And>x. P x \<Longrightarrow> R x) \<Longrightarrow> solves sure I R m"
  unfolding solves_def by blast

lemma solves_assert_ok: "solves True I P m \<Longrightarrow> solves True I P (assert_ok m)"
  unfolding solves_def assert_ok_def by fastforce

lemma query_ok_D:
  assumes "query_ok E q" "bytes \<alpha>"
  shows "expr_ok E \<alpha> (q_expr q)" "getWidth (q_expr q) \<le> 64" "c \<in> set (q_constraints q) \<Longrightarrow> expr_ok E \<alpha> c"
    "c \<in> set (q_constraints q) \<Longrightarrow> getWidth c = 1"
  using assms by (auto simp: query_ok_def)

lemma bool_eval:
  assumes "query_ok E q" "getWidth (q_expr q) = 1" "bytes \<alpha>"
  shows "eval \<alpha> (q_expr q) = 0 \<or> eval \<alpha> (q_expr q) = 1"
  using eval_range(1) [OF assms(3), of "q_expr q"] query_ok_D(1) [OF assms(1,3)] assms(2)
  by (auto simp: expr_ok_def)

lemma creates_all:
  assumes "bytes \<alpha>\<^sub>0" "\<forall>\<alpha>. bytes \<alpha> \<longrightarrow> creates E \<alpha> w (f \<alpha>) r"
  obtains e where "r = Some e" "getWidth e = w" "\<forall>\<alpha>. bytes \<alpha> \<longrightarrow> expr_ok E \<alpha> e \<and> eval \<alpha> e = f \<alpha>"
proof -
  from assms obtain e where e: "r = Some e" "getWidth e = w" by (auto simp: creates_def)
  with assms(2) show thesis by (intro that [of e]) auto
qed

lemma query_ok_withExpr:
  assumes "query_ok E q" "getWidth e \<le> 64" "\<forall>\<alpha>. bytes \<alpha> \<longrightarrow> expr_ok E \<alpha> e"
  shows "query_ok E (withExpr q e)"
  using assms by (simp add: query_ok_def withExpr_def)

lemma withExpr_simps [simp]: "q_constraints (withExpr q e) = q_constraints q" "q_expr (withExpr q e) = e"
  by (simp_all add: withExpr_def)

lemma solvesD:
  assumes "solves sure I P m" "I s" sure
  shows "\<exists>x s'. m s = Some (Some x, s') \<and> I s' \<and> P x"
proof -
  from assms obtain r s' where "m s = Some (r, s')" "I s'" "r \<noteq> None" "\<forall>x. r = Some x \<longrightarrow> P x"
    unfolding solves_def by blast
  thus ?thesis by auto
qed

lemma search_state:
  assumes "I s" "lo \<le> hi" "\<forall>mid. lo \<le> mid \<and> mid < hi \<longrightarrow> solves True I (\<lambda>b. b = P mid) (ask mid)"
    and "\<forall>m m'. m \<le> m' \<longrightarrow> P m \<longrightarrow> P m'"
  shows "\<exists>r s'. search ask lo hi s = Some (Some r, s') \<and> I s' \<and> lo \<le> r \<and> r \<le> hi \<and> (\<forall>m. lo \<le> m \<longrightarrow> m < r \<longrightarrow> \<not> P m) \<and> (r < hi \<longrightarrow> P r)"
  using assms
proof (induction ask lo hi s rule: search.induct)
  case (1 ask lo hi s)
  show ?case
  proof (cases "lo < hi")
    case True
    let ?mid = "lo + (hi - lo) div 2"
    note u = search_mid [OF True]
    have m: "lo \<le> ?mid" "?mid < hi" "?mid + 1 \<le> hi" "?mid < ?mid + 1"
      using True u by (auto simp: word_less_nat_alt word_le_nat_alt)
    with 1(5) have "solves True I (\<lambda>b. b = P ?mid) (ask ?mid)" by blast
    from solvesD [OF this 1(3)] obtain s' where a: "ask ?mid s = Some (Some (P ?mid), s')" "I s'" by blast
    show ?thesis
    proof (cases "P ?mid")
      case P: True
      have "\<exists>r s''. search ask lo ?mid s' = Some (Some r, s'') \<and> I s'' \<and> lo \<le> r \<and> r \<le> ?mid \<and> (\<forall>m. lo \<le> m \<longrightarrow> m < r \<longrightarrow> \<not> P m) \<and> (r < ?mid \<longrightarrow> P r)"
        by (rule 1(1) [OF True refl a(1)]) (use P a m 1(5,6) in auto)
      with P a m show ?thesis by (subst search.simps) (auto simp: Let_def True order.order_iff_strict)
    next
      case P: False
      have "\<exists>r s''. search ask (?mid + 1) hi s' = Some (Some r, s'') \<and> I s'' \<and> ?mid + 1 \<le> r \<and> r \<le> hi \<and> (\<forall>m. ?mid + 1 \<le> m \<longrightarrow> m < r \<longrightarrow> \<not> P m) \<and> (r < hi \<longrightarrow> P r)"
        by (rule 1(2) [OF True refl a(1)]) (use P a m 1(5,6) in auto)
      then obtain r s'' where r: "search ask (?mid + 1) hi s' = Some (Some r, s'')" "I s''" "?mid + 1 \<le> r" "r \<le> hi"
        "\<forall>m. ?mid + 1 \<le> m \<longrightarrow> m < r \<longrightarrow> \<not> P m" "r < hi \<longrightarrow> P r" by blast
      have "\<not> P k" if "k < ?mid + 1" for k
      proof -
        have "unat k \<le> unat ?mid" using that u by (simp add: word_less_nat_alt)
        thus ?thesis using P 1(6) by (auto simp: word_le_nat_alt)
      qed
      hence "\<forall>k. lo \<le> k \<longrightarrow> k < r \<longrightarrow> \<not> P k" using r(5) by (metis linorder_not_le)
      moreover have "search ask lo hi s = Some (Some r, s'')"
        using True P a(1) r(1) by (subst search.simps) (simp add: Let_def)
      moreover have "lo \<le> r" using m(1,4) r(3) by (meson order.strict_implies_order order.trans)
      ultimately show ?thesis using r by blast
    qed
  qed (use 1 in \<open>auto simp: search.simps\<close>)
qed

lemma solves_search:
  assumes "lo \<le> hi" "\<forall>mid. lo \<le> mid \<and> mid < hi \<longrightarrow> solves True I (\<lambda>b. b = P mid) (ask mid)"
    and "\<forall>m m'. m \<le> m' \<longrightarrow> P m \<longrightarrow> P m'"
  shows "solves True I (\<lambda>r. lo \<le> r \<and> r \<le> hi \<and> (\<forall>m. lo \<le> m \<longrightarrow> m < r \<longrightarrow> \<not> P m) \<and> (r < hi \<longrightarrow> P r)) (search ask lo hi)"
  unfolding solves_def using search_state [OF _ assms] by fastforce

subsection \<open>Correctness of the front end\<close>

context apint_laws
begin

lemma has_model:
  assumes "query_ok E q"
  obtains \<alpha> where "models \<alpha> (q_constraints q)" "bytes \<alpha>"
  using assms by (auto simp: query_ok_def models_def)

lemma negate_ok:
  assumes "query_ok E q" "getWidth (q_expr q) = 1"
  obtains e where "negateExpr E q = Some (withExpr q e)" "query_ok E (withExpr q e)" "getWidth e = 1"
    "\<forall>\<alpha>. bytes \<alpha> \<longrightarrow> eval \<alpha> e = of_bool (eval \<alpha> (q_expr q) = 0)"
proof -
  from has_model [OF assms(1)] obtain \<alpha>\<^sub>0 where "bytes \<alpha>\<^sub>0" by blast
  moreover have "\<forall>\<alpha>. bytes \<alpha> \<longrightarrow> creates E \<alpha> 1 (of_bool (eval \<alpha> (q_expr q) = 0)) (createIsZero E (q_expr q))"
    by (intro allI impI createIsZero_ok query_ok_D [OF assms(1)])
  ultimately obtain e where "createIsZero E (q_expr q) = Some e" "getWidth e = 1"
    "\<forall>\<alpha>. bytes \<alpha> \<longrightarrow> expr_ok E \<alpha> e \<and> eval \<alpha> e = of_bool (eval \<alpha> (q_expr q) = 0)" by (rule creates_all)
  with assms show thesis
    by (intro that [of e]) (simp_all add: negateExpr_def query_ok_withExpr)
qed

text \<open>\<^verbatim>\<open>SolverImpl::computeValidity\<close> asks for the truth of the expression and of its negation.\<close>

lemma validity_by_truth:
  assumes "query_ok E q" "getWidth (q_expr q) = 1" "solves sure I (\<lambda>b. b = valid q) (truth q)"
    and "\<And>e. negateExpr E q = Some (withExpr q e) \<Longrightarrow> query_ok E (withExpr q e) \<Longrightarrow> getWidth e = 1 \<Longrightarrow>
      \<forall>\<alpha>. bytes \<alpha> \<longrightarrow> eval \<alpha> e = of_bool (eval \<alpha> (q_expr q) = 0) \<Longrightarrow>
      solves sure I (\<lambda>b. b = valid (withExpr q e)) (truth (withExpr q e))"
  shows "solves sure I (\<lambda>v. v = validity_of q) (SolverImpl_computeValidity E truth q)"
proof -
  from negate_ok [OF assms(1,2)] obtain e where e: "negateExpr E q = Some (withExpr q e)" "query_ok E (withExpr q e)"
    "getWidth e = 1" "\<forall>\<alpha>. bytes \<alpha> \<longrightarrow> eval \<alpha> e = of_bool (eval \<alpha> (q_expr q) = 0)" .
  have v: "valid (withExpr q e) = unsat q"
    using e(4) by (auto simp: valid_def unsat_def models_def)
  note t = assms(4) [OF e, unfolded v]
  show ?thesis
    unfolding SolverImpl_computeValidity_def
    by (rule solves_if_ok [OF assms(3)])
      (auto simp: e(1) validity_of_def intro!: solves_return solves_if_ok [OF t] solves_if_ok [where P = "\<lambda>x. x = withExpr q e"] solves_abort)
qed

end

text \<open>The questions that a solver can be asked directly.\<close>

locale solver_user = apint_laws E + solver_spec E Q sure S I for E Q sure and S :: "'s solver_impl" and I
begin

lemma const_query:
  assumes "query_ok E q" "q_expr q = ConstantExpr c"
  shows "wf_ap c" "valid q \<longleftrightarrow> ap_val c = 1" "unsat q \<longleftrightarrow> ap_val c = 0"
proof -
  from has_model [OF assms(1)] obtain \<alpha> where a: "models \<alpha> (q_constraints q)" "bytes \<alpha>" .
  from query_ok_D(1) [OF assms(1) a(2)] show "wf_ap c" using assms(2) by simp
  show "valid q \<longleftrightarrow> ap_val c = 1" "unsat q \<longleftrightarrow> ap_val c = 0"
    using a assms(2) by (auto simp: valid_def unsat_def)
qed

lemma must_be_true:
  assumes "Q q" "query_ok E q" "getWidth (q_expr q) = 1"
  shows "solves sure I (\<lambda>b. b = valid q) (mustBeTrue E S q)"
proof (cases "dyn_const (q_expr q)")
  case None
  thus ?thesis using truth [OF assms] assms(3) by (simp add: mustBeTrue_def)
next
  case (Some c)
  hence "q_expr q = ConstantExpr c" by (simp add: dyn_const_Some)
  with const_query [OF assms(2) this] assms(3) show ?thesis
    by (simp add: mustBeTrue_def isTrue_eq solves_abort)
qed

lemma may_be_false:
  assumes "Q q" "query_ok E q" "getWidth (q_expr q) = 1"
  shows "solves sure I (\<lambda>b. b = (\<exists>\<alpha>. models \<alpha> (q_constraints q) \<and> eval \<alpha> (q_expr q) = 0)) (mayBeFalse E S q)"
  unfolding mayBeFalse_def using bool_eval [OF assms(2,3)]
  by (intro solves_if_ok [OF must_be_true [OF assms]] solves_return) (auto simp: valid_def models_def)

lemma evaluate_ok:
  assumes "Q q" "query_ok E q" "getWidth (q_expr q) = 1"
  shows "solves sure I (\<lambda>v. v = validity_of q) (evaluate_query E S q)"
proof (cases "dyn_const (q_expr q)")
  case None
  thus ?thesis using full_validity [OF assms] assms(3) by (simp add: evaluate_query_def)
next
  case (Some c)
  hence c: "q_expr q = ConstantExpr c" by (simp add: dyn_const_Some)
  from has_model [OF assms(2)] obtain \<alpha> where "bytes \<alpha>" by blast
  from bool_eval [OF assms(2,3) this] const_query [OF assms(2) c] assms(3) c show ?thesis
    by (auto simp: evaluate_query_def isTrue_eq validity_of_def
        intro!: solves_if_ok [where P = "\<lambda>b. b = (ap_val c = 1)"] solves_abort solves_return)
qed

lemma get_value:
  assumes "Q q" "query_ok E q"
  shows "solves sure I (\<lambda>c. ap_width c = getWidth (q_expr q) \<and> (\<exists>\<alpha>. models \<alpha> (q_constraints q) \<and> ap_val c = eval \<alpha> (q_expr q)))
    (getValue S q)"
proof (cases "dyn_const (q_expr q)")
  case None
  have "solves sure I (\<lambda>c. ap_width c = getWidth (q_expr q) \<and> (\<exists>\<alpha>. models \<alpha> (q_constraints q) \<and> ap_val c = eval \<alpha> (q_expr q)))
    (if_ok (computeValue S q) (\<lambda>tmp. or_abort (dyn_const tmp)))"
    by (rule solves_if_ok [OF a_value [OF assms]]) (auto intro: solves_abort)
  with None show ?thesis by (simp add: getValue_def)
next
  case (Some c)
  hence "q_expr q = ConstantExpr c" by (simp add: dyn_const_Some)
  with has_model [OF assms(2)] Some show ?thesis by (auto simp: getValue_def intro!: solves_return)
qed

lemma get_initial_values:
  assumes "Q q" "query_ok E q" "getWidth (q_expr q) = 1" "objects_ok objects"
  shows "\<not> valid q \<Longrightarrow> solves sure I (\<lambda>vals. \<exists>\<alpha>. models \<alpha> (q_constraints q) \<and> eval \<alpha> (q_expr q) = 0 \<and> vals = values_of \<alpha> objects)
      (getInitialValues S q objects)"
    and "valid q \<Longrightarrow> solves False I (\<lambda>_. False) (getInitialValues S q objects)"
proof -
  note i = initial_values [OF assms]
  show "\<not> valid q \<Longrightarrow> solves sure I (\<lambda>vals. \<exists>\<alpha>. models \<alpha> (q_constraints q) \<and> eval \<alpha> (q_expr q) = 0 \<and> vals = values_of \<alpha> objects)
      (getInitialValues S q objects)"
    unfolding getInitialValues_def by (rule solves_if_ok [OF i]) (auto intro!: solves_return)
  have "solves False I (\<lambda>(vals, hasSolution). hasSolution \<longleftrightarrow> \<not> valid q) (computeInitialValues S q objects)"
    using i by (fastforce simp: solves_def)
  then show "valid q \<Longrightarrow> solves False I (\<lambda>_. False) (getInitialValues S q objects)"
    unfolding getInitialValues_def by (rule solves_if_ok) (auto intro!: solves_false)
qed

end

text \<open>
  A client of a solver asks questions about the same constraints, whose expressions have values that depend on the
  value of the first one only. The queries it has to be right for include them.
\<close>

locale solver_client = solver_user E Q sure S I for E Q sure and S :: "'s solver_impl" and I +
  assumes Q_withExpr: "Q q \<Longrightarrow> \<forall>\<alpha>. bytes \<alpha> \<longrightarrow> eval \<alpha> e = f (eval \<alpha> (q_expr q)) \<Longrightarrow> Q (withExpr q e)"
begin

lemma must_be_false:
  assumes "Q q" "query_ok E q" "getWidth (q_expr q) = 1"
  shows "solves sure I (\<lambda>b. b = unsat q) (mustBeFalse E S q)"
proof -
  from negate_ok [OF assms(2,3)] obtain e where e: "negateExpr E q = Some (withExpr q e)" "query_ok E (withExpr q e)"
    "getWidth e = 1" "\<forall>\<alpha>. bytes \<alpha> \<longrightarrow> eval \<alpha> e = of_bool (eval \<alpha> (q_expr q) = 0)" .
  have "valid (withExpr q e) = unsat q"
    using e(4) by (auto simp: valid_def unsat_def models_def)
  with must_be_true [OF Q_withExpr [where f = "\<lambda>x. of_bool (x = 0)", OF assms(1) e(4)] e(2)] e show ?thesis
    unfolding mustBeFalse_def
    by (intro solves_if_ok [where P = "\<lambda>x. x = withExpr q e"] solves_abort) auto
qed

lemma may_be_true:
  assumes "Q q" "query_ok E q" "getWidth (q_expr q) = 1"
  shows "solves sure I (\<lambda>b. b = (\<exists>\<alpha>. models \<alpha> (q_constraints q) \<and> eval \<alpha> (q_expr q) = 1)) (mayBeTrue E S q)"
  unfolding mayBeTrue_def using bool_eval [OF assms(2,3)]
  by (intro solves_if_ok [OF must_be_false [OF assms]] solves_return) (auto simp: unsat_def models_def)

lemma default_validity:
  assumes "Q q" "query_ok E q" "getWidth (q_expr q) = 1"
  shows "solves sure I (\<lambda>v. v = validity_of q) (SolverImpl_computeValidity E (computeTruth S) q)"
proof (rule validity_by_truth [where truth = "computeTruth S", OF assms(2,3) truth [OF assms]])
  fix e assume "query_ok E (withExpr q e)" "getWidth e = 1" "\<forall>\<alpha>. bytes \<alpha> \<longrightarrow> eval \<alpha> e = of_bool (eval \<alpha> (q_expr q) = 0)"
  with truth [OF Q_withExpr [where f = "\<lambda>x. of_bool (x = 0)", OF assms(1)]]
  show "solves sure I (\<lambda>b. b = valid (withExpr q e)) (computeTruth S (withExpr q e))" by simp
qed

end

subsection \<open>The range of an expression\<close>

lemma least_of_search:
  assumes "V \<noteq> {}" "\<forall>v\<in>V. 0 \<le> v \<and> v \<le> uint hi" "(r :: uint64_t) \<le> hi"
    and "\<forall>m. 0 \<le> m \<longrightarrow> m < r \<longrightarrow> \<not> (\<exists>v\<in>V. v \<le> uint m)" "r < hi \<longrightarrow> (\<exists>v\<in>V. v \<le> uint r)"
  shows "uint r \<in> V \<and> (\<forall>v\<in>V. uint r \<le> v)"
proof -
  have l: "uint r \<le> v" if "v \<in> V" for v
  proof (rule ccontr)
    assume "\<not> uint r \<le> v"
    moreover from this have "uint (word_of_int v :: uint64_t) = v"
      using assms(2) that unsigned_less [where ?'a = int, of r] by (simp add: uint_word_of_int)
    ultimately have "word_of_int v < r" by (simp add: word_less_def)
    with assms(4) that \<open>uint (word_of_int v :: uint64_t) = v\<close> show False by (metis order.refl word_zero_le)
  qed
  have "\<exists>v\<in>V. v \<le> uint r"
  proof (cases "r < hi")
    case False
    with assms(3) have "r = hi" by simp
    thus ?thesis using assms(1,2) by blast
  qed (use assms(5) in blast)
  with l show ?thesis by (metis order.antisym)
qed

lemma greatest_of_search:
  assumes "V \<noteq> {}" "\<forall>v\<in>V. uint lo \<le> v \<and> v \<le> uint hi" "lo \<le> (r :: uint64_t)" "r \<le> hi"
    and "\<forall>m. lo \<le> m \<longrightarrow> m < r \<longrightarrow> \<not> (\<forall>v\<in>V. v \<le> uint m)" "r < hi \<longrightarrow> (\<forall>v\<in>V. v \<le> uint r)"
  shows "uint r \<in> V \<and> (\<forall>v\<in>V. v \<le> uint r)"
proof -
  have l: "\<forall>v\<in>V. v \<le> uint r"
    using assms(2,4,6) by (cases "r < hi") (auto simp: order.order_iff_strict)
  moreover have "uint r \<in> V"
  proof (cases "lo = r")
    case True
    thus ?thesis using l assms(1,2) by (metis all_not_in_conv order.antisym)
  next
    case False
    with assms(3) have "uint lo < uint r" by (simp add: word_less_def order.order_iff_strict)
    moreover have "0 \<le> uint r - 1" "uint r - 1 < 2 ^ 64"
      using calculation uint_ge_0 [of lo] unsigned_less [where ?'a = int, of r] by (linarith, simp)
    moreover from this have u: "uint (r - 1) = uint r - 1"
      by (simp only: uint_word_ariths(2)) (simp add: mod_pos_pos_trivial)
    ultimately have "lo \<le> r - 1" "r - 1 < r" by (simp_all add: word_le_def word_less_def)
    with assms(5) obtain v where "v \<in> V" "\<not> v \<le> uint (r - 1)" by blast
    with l u have "v = uint r" by force
    with \<open>v \<in> V\<close> show ?thesis by simp
  qed
  ultimately show ?thesis by blast
qed

lemma uint_maxValueOfNBits: "n \<le> 64 \<Longrightarrow> uint (maxValueOfNBits n) = 2 ^ n - 1"
proof -
  assume n: "n \<le> 64"
  have "(2 :: int) ^ n \<le> 2 ^ 64" using n by (intro power_increasing) auto
  hence "(2 ^ n - 1 :: int) mod 2 ^ 64 = 2 ^ n - 1" by (intro mod_pos_pos_trivial) auto
  thus ?thesis unfolding apint_env.maxValueOfNBits_word [OF n] by (simp only: uint_word_of_int) simp
qed

text \<open>The values of the expression of a query.\<close>

definition query_values :: "query \<Rightarrow> int set" where
  "query_values q = {eval \<alpha> (q_expr q) |\<alpha>. models \<alpha> (q_constraints q)}"

text \<open>A pair of constants that are the smallest and the largest of them.\<close>

definition range_of_query :: "query \<Rightarrow> apint \<times> apint \<Rightarrow> bool" where
  "range_of_query q = (\<lambda>(a, b). ap_width a = getWidth (q_expr q) \<and> ap_width b = getWidth (q_expr q) \<and>
    ap_val a \<in> query_values q \<and> ap_val b \<in> query_values q \<and> (\<forall>v \<in> query_values q. ap_val a \<le> v \<and> v \<le> ap_val b))"

definition tight :: "query \<Rightarrow> uint64_t \<times> uint64_t \<Rightarrow> bool" where
  "tight q = (\<lambda>(min, max). uint min \<in> query_values q \<and> uint max \<in> query_values q \<and>
    (\<forall>v \<in> query_values q. uint min \<le> v \<and> v \<le> uint max))"

context solver_client
begin

lemma values_range:
  assumes "query_ok E q"
  shows "query_values q \<noteq> {}" "\<forall>v \<in> query_values q. 0 \<le> v \<and> v < 2 ^ getWidth (q_expr q)"
proof -
  show "query_values q \<noteq> {}" using has_model [OF assms] by (auto simp: query_values_def)
  show "\<forall>v \<in> query_values q. 0 \<le> v \<and> v < 2 ^ getWidth (q_expr q)"
    using query_ok_D(1) [OF assms] eval_range(1) by (auto simp: query_values_def models_def expr_ok_def)
qed

lemma const_create:
  assumes "0 < w" "w \<le> 64" "uint v < 2 ^ w"
  shows "ConstantExpr_create E v w = Some (APInt w (uint v))" "wf_ap (APInt w (uint v))"
proof -
  have "uint (truncateToNBits v w) = uint v" using assms by (simp add: uint_truncateToNBits)
  then have "truncateToNBits v w = v" by (simp only: word_uint_eq_iff)
  then show "ConstantExpr_create E v w = Some (APInt w (uint v))" using assms by (simp add: ConstantExpr_create_def ConstantExpr_alloc_def ap_new)
  show "wf_ap (APInt w (uint v))" using assms by (simp add: wf_ap_def)
qed

lemma cmp_query_ok:
  assumes "query_ok E q" "\<forall>\<alpha>. bytes \<alpha> \<longrightarrow> expr_ok E \<alpha> e \<and> eval \<alpha> e = f \<alpha>" "getWidth e = getWidth (q_expr q)"
    and "uint v < 2 ^ getWidth (q_expr q)"
  obtains e' where "cmp_query E q k e v = Some (withExpr q e')" "query_ok E (withExpr q e')" "getWidth e' = 1"
    "\<forall>\<alpha>. bytes \<alpha> \<longrightarrow> eval \<alpha> e' = of_bool (sem_cmp k (getWidth (q_expr q)) (f \<alpha>) (uint v))"
proof -
  let ?w = "getWidth (q_expr q)"
  from has_model [OF assms(1)] obtain \<alpha>\<^sub>0 where b: "bytes \<alpha>\<^sub>0" by blast
  note D = query_ok_D [OF assms(1)]
  have w: "0 < ?w" "?w \<le> 64" using D(1,2) [OF b] by (simp_all add: expr_ok_width)
  note c = const_create [OF w assms(4)]
  have "\<forall>\<alpha>. bytes \<alpha> \<longrightarrow> creates E \<alpha> 1 (of_bool (sem_cmp k ?w (f \<alpha>) (uint v))) (create_cmp E k e (ConstantExpr (APInt ?w (uint v))))"
    using create_cmp_ok [of _ e "ConstantExpr (APInt ?w (uint v))" ?w k] assms(2,3) c(2) w(2) by simp
  from creates_all [OF b this] obtain e' where "create_cmp E k e (ConstantExpr (APInt ?w (uint v))) = Some e'" "getWidth e' = 1"
    "\<forall>\<alpha>. bytes \<alpha> \<longrightarrow> expr_ok E \<alpha> e' \<and> eval \<alpha> e' = of_bool (sem_cmp k ?w (f \<alpha>) (uint v))" .
  thus thesis using assms(1) c(1) by (intro that [of e']) (simp_all add: cmp_query_def query_ok_withExpr)
qed

lemma ask_max_ok:
  assumes "Q q" "query_ok E q" "uint v < 2 ^ getWidth (q_expr q)"
  shows "solves sure I (\<lambda>b. b = (\<forall>x \<in> query_values q. x \<le> uint v)) (ask_max E S q v)"
proof -
  from cmp_query_ok [OF assms(2) _ refl assms(3), of "\<lambda>\<alpha>. eval \<alpha> (q_expr q)" Ule] query_ok_D(1) [OF assms(2)] obtain e where
    e: "cmp_query E q Ule (q_expr q) v = Some (withExpr q e)" "query_ok E (withExpr q e)" "getWidth e = 1"
      "\<forall>\<alpha>. bytes \<alpha> \<longrightarrow> eval \<alpha> e = of_bool (eval \<alpha> (q_expr q) \<le> uint v)" by auto
  have "valid (withExpr q e) = (\<forall>x \<in> query_values q. x \<le> uint v)"
    using e(4) by (auto simp: valid_def query_values_def models_def)
  with must_be_true [OF Q_withExpr [where f = "\<lambda>x. of_bool (x \<le> uint v)", OF assms(1) e(4)] e(2)] e show ?thesis
    unfolding ask_max_def by (intro solves_if_ok [where P = "\<lambda>x. x = withExpr q e"] solves_abort) auto
qed

lemma ask_min_ok:
  assumes "Q q" "query_ok E q" "uint v < 2 ^ getWidth (q_expr q)"
  shows "solves sure I (\<lambda>b. b = (\<exists>x \<in> query_values q. x \<le> uint v)) (ask_min E S q v)"
proof -
  from cmp_query_ok [OF assms(2) _ refl assms(3), of "\<lambda>\<alpha>. eval \<alpha> (q_expr q)" Ule] query_ok_D(1) [OF assms(2)] obtain e where
    e: "cmp_query E q Ule (q_expr q) v = Some (withExpr q e)" "query_ok E (withExpr q e)" "getWidth e = 1"
      "\<forall>\<alpha>. bytes \<alpha> \<longrightarrow> eval \<alpha> e = of_bool (eval \<alpha> (q_expr q) \<le> uint v)" by auto
  have "(\<exists>\<alpha>. models \<alpha> (q_constraints q) \<and> eval \<alpha> e = 1) = (\<exists>x \<in> query_values q. x \<le> uint v)"
    using e(4) by (auto simp: query_values_def models_def)
  with may_be_true [OF Q_withExpr [where f = "\<lambda>x. of_bool (x \<le> uint v)", OF assms(1) e(4)] e(2)] e show ?thesis
    unfolding ask_min_def by (intro solves_if_ok [where P = "\<lambda>x. x = withExpr q e"] solves_abort) auto
qed

lemma ask_zero_ok:
  assumes "Q q" "query_ok E q"
  shows "solves sure I (\<lambda>b. b = (0 \<in> query_values q)) (if_ok (or_abort (cmp_query E q Eq (q_expr q) 0)) (mayBeTrue E S))"
proof -
  from cmp_query_ok [OF assms(2) _ refl, of "\<lambda>\<alpha>. eval \<alpha> (q_expr q)" 0 Eq] query_ok_D(1) [OF assms(2)] obtain e where
    e: "cmp_query E q Eq (q_expr q) 0 = Some (withExpr q e)" "query_ok E (withExpr q e)" "getWidth e = 1"
      "\<forall>\<alpha>. bytes \<alpha> \<longrightarrow> eval \<alpha> e = of_bool (eval \<alpha> (q_expr q) = 0)" by auto
  have "(\<exists>\<alpha>. models \<alpha> (q_constraints q) \<and> eval \<alpha> e = 1) = (0 \<in> query_values q)"
    using e(4) by (auto simp: query_values_def models_def) 
  with may_be_true [OF Q_withExpr [where f = "\<lambda>x. of_bool (x = 0)", OF assms(1) e(4)] e(2)] e show ?thesis
    by (intro solves_if_ok [where P = "\<lambda>x. x = withExpr q e"] solves_abort) auto
qed

lemma ask_bits_ok:
  assumes "Q q" "query_ok E q" "unat v < getWidth (q_expr q)"
  shows "solves sure I (\<lambda>b. b = (\<forall>x \<in> query_values q. x < 2 ^ unat v)) (ask_bits E S q v)"
proof -
  let ?w = "getWidth (q_expr q)"
  from has_model [OF assms(2)] obtain \<alpha>\<^sub>0 where b: "bytes \<alpha>\<^sub>0" by blast
  note D = query_ok_D [OF assms(2)]
  have w: "0 < ?w" "?w \<le> 64" using D(1,2) [OF b] by (simp_all add: expr_ok_width)
  have u: "uint v < int ?w" using assms(3) by (simp only: unat_eq_nat_uint)
  also have "\<dots> < 2 ^ ?w" using less_exp [of ?w] by (metis of_nat_less_iff of_nat_numeral of_nat_power)
  finally have v: "uint v < 2 ^ ?w" .
  note c = const_create [OF w v]
  have "\<forall>\<alpha>. bytes \<alpha> \<longrightarrow> creates E \<alpha> ?w (eval \<alpha> (q_expr q) div 2 ^ unat v) (create_bin E LShr (q_expr q) (ConstantExpr (APInt ?w (uint v))))"
  proof (intro allI impI)
    fix \<alpha> assume a: "bytes \<alpha>"
    have r: "0 \<le> eval \<alpha> (q_expr q)" "eval \<alpha> (q_expr q) < 2 ^ ?w" using eval_range(1) [OF a] D(1) [OF a] by (auto simp: expr_ok_def)
    hence "eval \<alpha> (q_expr q) div 2 ^ unat v \<le> eval \<alpha> (q_expr q)" using zdiv_mono2 [of "eval \<alpha> (q_expr q)" 1 "2 ^ unat v"] by simp
    with r have "sem_bin LShr ?w (eval \<alpha> (q_expr q)) (uint v) = eval \<alpha> (q_expr q) div 2 ^ unat v"
      using assms(3) u by (simp add: sem_bin.simps mod_pos_pos_trivial pos_imp_zdiv_nonneg_iff)
    with create_bin_ok [OF a D(1) [OF a], of "ConstantExpr (APInt ?w (uint v))" ?w LShr] c(2) w(2)
    show "creates E \<alpha> ?w (eval \<alpha> (q_expr q) div 2 ^ unat v) (create_bin E LShr (q_expr q) (ConstantExpr (APInt ?w (uint v))))"
      by (simp add: is_div_def)
  qed
  from creates_all [OF b this] obtain l where l: "create_bin E LShr (q_expr q) (ConstantExpr (APInt ?w (uint v))) = Some l" "getWidth l = ?w"
    "\<forall>\<alpha>. bytes \<alpha> \<longrightarrow> expr_ok E \<alpha> l \<and> eval \<alpha> l = eval \<alpha> (q_expr q) div 2 ^ unat v" .
  from cmp_query_ok [OF assms(2) l(3,2), of 0 Eq] obtain e where
    e: "cmp_query E q Eq l 0 = Some (withExpr q e)" "query_ok E (withExpr q e)" "getWidth e = 1"
      "\<forall>\<alpha>. bytes \<alpha> \<longrightarrow> eval \<alpha> e = of_bool (eval \<alpha> (q_expr q) div 2 ^ unat v = 0)" by auto
  have "(eval \<alpha> (q_expr q) div 2 ^ unat v = 0) = (eval \<alpha> (q_expr q) < 2 ^ unat v)" if "bytes \<alpha>" for \<alpha>
  proof -
    have "0 \<le> eval \<alpha> (q_expr q)" using eval_range(1) [OF that] D(1) [OF that] by (auto simp: expr_ok_def)
    moreover have "(0 :: int) < 2 ^ unat v" by simp
    ultimately show ?thesis by (simp only: zdiv_eq_0_iff) auto
  qed
  hence "valid (withExpr q e) = (\<forall>x \<in> query_values q. x < 2 ^ unat v)"
    using e(4) by (auto simp: valid_def query_values_def models_def)
  with must_be_true [OF Q_withExpr [where f = "\<lambda>x. of_bool (x div 2 ^ unat v = 0)", OF assms(1) e(4)] e(2)] e c(1) l(1) show ?thesis
    unfolding ask_bits_def by (intro solves_if_ok [where P = "\<lambda>x. x = withExpr q e"] solves_abort) auto
qed

lemma bits_search_ok:
  assumes sure "Q q" "query_ok E q"
  shows "solves sure I (\<lambda>bits. unat bits \<le> getWidth (q_expr q) \<and> (\<forall>x \<in> query_values q. x < 2 ^ unat bits))
    (search (ask_bits E S q) 0 (of_nat (getWidth (q_expr q))))"
proof -
  let ?w = "getWidth (q_expr q)"
  from has_model [OF assms(3)] obtain \<alpha> where "bytes \<alpha>" by blast
  from query_ok_D(2) [OF assms(3) this] have w: "unat (of_nat ?w :: uint64_t) = ?w"
    by (simp add: unat_of_nat)
  have t: "sure = True" using assms(1) by simp
  have *: "solves True I (\<lambda>r. 0 \<le> r \<and> r \<le> of_nat ?w \<and> (\<forall>m. 0 \<le> m \<longrightarrow> m < r \<longrightarrow> \<not> (\<forall>x \<in> query_values q. x < 2 ^ unat m)) \<and>
      (r < of_nat ?w \<longrightarrow> (\<forall>x \<in> query_values q. x < 2 ^ unat r))) (search (ask_bits E S q) 0 (of_nat ?w))"
  proof (rule solves_search)
    show "\<forall>mid. 0 \<le> mid \<and> mid < of_nat ?w \<longrightarrow>
        solves True I (\<lambda>b. b = (\<forall>x \<in> query_values q. x < 2 ^ unat mid)) (ask_bits E S q mid)"
      using ask_bits_ok [OF assms(2,3)] t w by (simp add: word_less_nat_alt)
    show "\<forall>m m'. m \<le> m' \<longrightarrow> (\<forall>x \<in> query_values q. x < 2 ^ unat m) \<longrightarrow> (\<forall>x \<in> query_values q. x < 2 ^ unat (m' :: uint64_t))"
      by (auto simp: word_le_nat_alt intro: less_le_trans power_increasing)
  qed simp
  have "unat r \<le> ?w \<and> (\<forall>x \<in> query_values q. x < 2 ^ unat r)"
    if "r \<le> of_nat ?w" "r < of_nat ?w \<longrightarrow> (\<forall>x \<in> query_values q. x < 2 ^ unat r)" for r :: uint64_t
  proof (cases "r = of_nat ?w")
    case True
    thus ?thesis using values_range(2) [OF assms(3)] by (simp add: w)
  next
    case False
    with that have "r < of_nat ?w" by simp
    with that(2) show ?thesis using w by (simp add: word_less_nat_alt)
  qed
  thus ?thesis unfolding t by (intro solves_weaken [OF *]) blast
qed

lemma min_search_ok:
  assumes sure "Q q" "query_ok E q" "uint hi < 2 ^ getWidth (q_expr q)" "\<forall>x \<in> query_values q. x \<le> uint hi"
  shows "solves sure I (\<lambda>m. m \<le> hi \<and> uint m \<in> query_values q \<and> (\<forall>v \<in> query_values q. uint m \<le> v)) (search (ask_min E S q) 0 hi)"
proof -
  have t: "sure = True" using assms(1) by simp
  have *: "solves True I (\<lambda>r. 0 \<le> r \<and> r \<le> hi \<and> (\<forall>m. 0 \<le> m \<longrightarrow> m < r \<longrightarrow> \<not> (\<exists>x \<in> query_values q. x \<le> uint m)) \<and>
      (r < hi \<longrightarrow> (\<exists>x \<in> query_values q. x \<le> uint r))) (search (ask_min E S q) 0 hi)"
  proof (rule solves_search)
    show "\<forall>mid. 0 \<le> mid \<and> mid < hi \<longrightarrow> solves True I (\<lambda>b. b = (\<exists>x \<in> query_values q. x \<le> uint mid)) (ask_min E S q mid)"
      using ask_min_ok [OF assms(2,3)] t assms(4) by (auto simp: word_less_def)
    show "\<forall>m m'. m \<le> m' \<longrightarrow> (\<exists>x \<in> query_values q. x \<le> uint m) \<longrightarrow> (\<exists>x \<in> query_values q. x \<le> uint (m' :: uint64_t))"
      unfolding word_le_def by (meson order.trans)
  qed simp
  show ?thesis unfolding t
    using least_of_search [OF values_range(1) [OF assms(3)]] values_range(2) [OF assms(3)] assms(5)
    by (intro solves_weaken [OF *]) blast
qed

lemma max_search_ok:
  assumes sure "Q q" "query_ok E q" "uint hi < 2 ^ getWidth (q_expr q)" "lo \<le> hi"
    and "\<forall>x \<in> query_values q. uint lo \<le> x \<and> x \<le> uint hi"
  shows "solves sure I (\<lambda>m. m \<le> hi \<and> uint m \<in> query_values q \<and> (\<forall>v \<in> query_values q. v \<le> uint m)) (search (ask_max E S q) lo hi)"
proof -
  have t: "sure = True" using assms(1) by simp
  have *: "solves True I (\<lambda>r. lo \<le> r \<and> r \<le> hi \<and> (\<forall>m. lo \<le> m \<longrightarrow> m < r \<longrightarrow> \<not> (\<forall>x \<in> query_values q. x \<le> uint m)) \<and>
      (r < hi \<longrightarrow> (\<forall>x \<in> query_values q. x \<le> uint r))) (search (ask_max E S q) lo hi)"
  proof (rule solves_search)
    show "\<forall>mid. lo \<le> mid \<and> mid < hi \<longrightarrow> solves True I (\<lambda>b. b = (\<forall>x \<in> query_values q. x \<le> uint mid)) (ask_max E S q mid)"
      using ask_max_ok [OF assms(2,3)] t assms(4) by (auto simp: word_less_def)
    show "\<forall>m m'. m \<le> m' \<longrightarrow> (\<forall>x \<in> query_values q. x \<le> uint m) \<longrightarrow> (\<forall>x \<in> query_values q. x \<le> uint (m' :: uint64_t))"
      by (auto simp: word_le_def)
  qed fact
  show ?thesis unfolding t
    using greatest_of_search [OF values_range(1) [OF assms(3)] assms(6)] by (intro solves_weaken [OF *]) blast
qed

lemma tight_bool:
  assumes "query_ok E q" "getWidth (q_expr q) = 1"
  shows "tight q (range_of_bool (validity_of q))"
proof -
  have "\<forall>v \<in> query_values q. v = 0 \<or> v = 1"
    using bool_eval [OF assms] by (auto simp: query_values_def models_def)
  moreover have "valid q \<longleftrightarrow> (\<forall>v \<in> query_values q. v = 1)" "unsat q \<longleftrightarrow> (\<forall>v \<in> query_values q. v = 0)"
    by (auto simp: query_values_def valid_def unsat_def)
  moreover obtain v where "v \<in> query_values q" using values_range(1) [OF assms(1)] by blast
  ultimately show ?thesis
    by (cases "valid q"; cases "unsat q") (fastforce simp: tight_def range_of_bool_def validity_of_def)+
qed

lemma tight_const:
  assumes "query_ok E q" "q_expr q = ConstantExpr c"
  shows "tight q (word_of_int (ap_val c), word_of_int (ap_val c))"
proof -
  from has_model [OF assms(1)] obtain \<alpha> where "bytes \<alpha>" "models \<alpha> (q_constraints q)" by blast
  with query_ok_D(2) [OF assms(1)] assms(2) have "uint (word_of_int (ap_val c) :: uint64_t) = ap_val c"
    using const_query(1) [OF assms] wf_ap_64 [of c] by (simp add: uint_word_of_int wf_ap_def)
  thus ?thesis using \<open>models \<alpha> (q_constraints q)\<close> assms(2) by (auto simp: tight_def query_values_def)
qed

lemma tight_search:
  assumes sure "Q q" "query_ok E q"
  shows "solves sure I (tight q)
     (if_ok (search (ask_bits E S q) 0 (of_nat (getWidth (q_expr q)))) (\<lambda>bits.
      if_ok (assert_ok (if_ok (or_abort (cmp_query E q Eq (q_expr q) 0)) (mayBeTrue E S))) (\<lambda>res.
      if_ok (if res then return_ok 0 else search (ask_min E S q) 0 (maxValueOfNBits (unat bits))) (\<lambda>min.
      if_ok (search (ask_max E S q) min (maxValueOfNBits (unat bits))) (\<lambda>max.
      return_ok (min, max))))))"
proof (rule solves_if_ok [OF bits_search_ok [OF assms]])
  fix bits :: uint64_t
  assume b: "unat bits \<le> getWidth (q_expr q) \<and> (\<forall>x \<in> query_values q. x < 2 ^ unat bits)"
  let ?hi = "maxValueOfNBits (unat bits)"
  have t: "sure = True" using assms(1) by simp
  from has_model [OF assms(3)] obtain \<alpha> where "bytes \<alpha>" by blast
  from query_ok_D(2) [OF assms(3) this] b have "unat bits \<le> 64" by simp
  note u = uint_maxValueOfNBits [OF this]
  have "(2 :: int) ^ unat bits \<le> 2 ^ getWidth (q_expr q)" using b by (intro power_increasing) auto
  hence "uint ?hi < 2 ^ getWidth (q_expr q)" unfolding u by linarith
  moreover have "\<forall>x \<in> query_values q. x \<le> uint ?hi" using u b by auto
  ultimately have hi: "uint ?hi < 2 ^ getWidth (q_expr q)" "\<forall>x \<in> query_values q. x \<le> uint ?hi" by auto
  have z: "solves sure I (\<lambda>m. m \<le> ?hi \<and> uint m \<in> query_values q \<and> (\<forall>v \<in> query_values q. uint m \<le> v))
      (if res then return_ok 0 else search (ask_min E S q) 0 ?hi)" if "res = (0 \<in> query_values q)" for res
    using that min_search_ok [OF assms hi] values_range(2) [OF assms(3)] by (auto intro: solves_return)
  show "solves sure I (tight q) (if_ok (assert_ok (if_ok (or_abort (cmp_query E q Eq (q_expr q) 0)) (mayBeTrue E S))) (\<lambda>res.
      if_ok (if res then return_ok 0 else search (ask_min E S q) 0 ?hi) (\<lambda>min.
      if_ok (search (ask_max E S q) min ?hi) (\<lambda>max. return_ok (min, max)))))"
    using ask_zero_ok [OF assms(2,3)] unfolding t
    apply (rule solves_if_ok [OF solves_assert_ok])
    apply (rule solves_if_ok [OF z [unfolded t]], assumption)
    apply (rule solves_if_ok [OF max_search_ok [OF assms hi(1), unfolded t]])
    using hi(2) by (auto simp: tight_def intro!: solves_return)
qed

lemma get_range:
  assumes sure "Q q" "query_ok E q"
  shows "solves sure I (range_of_query q) (getRange E S q)"
proof -
  let ?w = "getWidth (q_expr q)"
  have t: "sure = True" using assms(1) by simp
  from has_model [OF assms(3)] obtain \<alpha> where b: "bytes \<alpha>" by blast
  note D = query_ok_D(1,2) [OF assms(3) b]
  have w: "0 < ?w" "?w \<le> 64" using D by (simp_all add: expr_ok_width)
  have c: "solves sure I (range_of_query q) (or_abort (do { a \<leftarrow> ConstantExpr_create E min ?w; b \<leftarrow> ConstantExpr_create E max ?w; Some (a, b) }))"
    if "tight q (min, max)" for min max
  proof -
    have "uint min < 2 ^ ?w" "uint max < 2 ^ ?w" using that values_range(2) [OF assms(3)] by (auto simp: tight_def)
    thus ?thesis using const_create [OF w] that by (auto simp: tight_def range_of_query_def intro!: solves_abort)
  qed
  have "solves sure I (tight q) (if_ok (assert_ok (evaluate_query E S q)) (\<lambda>result. return_ok (range_of_bool result)))" if "?w = 1"
    using evaluate_ok [OF assms(2,3) that] tight_bool [OF assms(3) that] unfolding t
    by (auto intro!: solves_if_ok [OF solves_assert_ok] solves_return)
  moreover have "solves sure I (tight q) (if_ok (or_abort (getZExtValue E 64 CE)) (\<lambda>v. return_ok (v, v)))" if "dyn_const (q_expr q) = Some CE" for CE
    using that const_query(1) [OF assms(3)] tight_const [OF assms(3)] w(2)
    by (auto simp: dyn_const_Some getZExtValue_eq intro!: solves_if_ok [where P = "\<lambda>v. v = word_of_int (ap_val CE)"] solves_abort solves_return)
  ultimately show ?thesis
    unfolding getRange_def Let_def using tight_search [OF assms] c
    by (intro solves_if_ok [where P = "tight q"]) (auto split: option.split)
qed

end

subsection \<open>Solvers\<close>

text \<open>\<^verbatim>\<open>DummySolverImpl\<close> fails on every query. The counters of the statistics are left out.\<close>

definition DummySolverImpl :: "'s solver_impl" where
  "DummySolverImpl = \<lparr>computeValidity = (\<lambda>_. return_false), computeTruth = (\<lambda>_. return_false),
     computeValue = (\<lambda>_. return_false), computeInitialValues = (\<lambda>_ _. return_false)\<rparr>"

interpretation dummy: solver_spec E "\<lambda>_. True" False DummySolverImpl "\<lambda>_. True"
  by unfold_locales (simp_all add: DummySolverImpl_def solves_false)

text \<open>
  A solver that tries the values of one byte, for queries that depend on one byte only. It shows that the
  promises can be kept without failures.
\<close>

definition byte_solutions :: "expr list \<Rightarrow> int list" where
  "byte_solutions cs = filter (\<lambda>v. \<forall>c \<in> set cs. eval (\<lambda>_ _. v) c = 1) [0..255]"

definition byte_solver :: "unit solver_impl" where
  "byte_solver = \<lparr>
     computeValidity = (\<lambda>q. let vs = map (\<lambda>v. eval (\<lambda>_ _. v) (q_expr q)) (byte_solutions (q_constraints q))
       in return_ok (if \<forall>v \<in> set vs. v = 1 then VTrue else if \<forall>v \<in> set vs. v = 0 then VFalse else VUnknown)),
     computeTruth = (\<lambda>q. return_ok (\<forall>v \<in> set (byte_solutions (q_constraints q)). eval (\<lambda>_ _. v) (q_expr q) = 1)),
     computeValue = (\<lambda>q. return_ok (ConstantExpr (APInt (getWidth (q_expr q)) (eval (\<lambda>_ _. hd (byte_solutions (q_constraints q))) (q_expr q))))),
     computeInitialValues = (\<lambda>q objects.
       let vs = filter (\<lambda>v. eval (\<lambda>_ _. v) (q_expr q) \<noteq> 1) (byte_solutions (q_constraints q))
       in return_ok (values_of (\<lambda>_ _. hd vs) objects, vs \<noteq> []))\<rparr>"

definition one_byte :: "query \<Rightarrow> bool" where
  "one_byte q \<longleftrightarrow> (\<exists>a i. \<forall>e \<in> insert (q_expr q) (set (q_constraints q)). \<forall>\<alpha>. bytes \<alpha> \<longrightarrow> eval \<alpha> e = eval (\<lambda>_ _. \<alpha> a i) e)"

lemma byte_solutions_bytes: "v \<in> set (byte_solutions cs) \<Longrightarrow> models (\<lambda>_ _. v) cs"
  by (auto simp: byte_solutions_def models_def bytes_def)

lemma one_byte_solutions:
  assumes "one_byte q" "models \<alpha> (q_constraints q)"
  obtains v where "v \<in> set (byte_solutions (q_constraints q))" "eval \<alpha> (q_expr q) = eval (\<lambda>_ _. v) (q_expr q)"
proof -
  from assms obtain a i where "\<forall>e \<in> insert (q_expr q) (set (q_constraints q)). eval \<alpha> e = eval (\<lambda>_ _. \<alpha> a i) e"
    unfolding one_byte_def models_def by blast
  moreover have "0 \<le> \<alpha> a i" "\<alpha> a i < 256" using assms(2) by (auto simp: models_def bytes_def)
  hence "\<alpha> a i \<in> set [0..255]" by simp
  ultimately show thesis using assms(2)
    by (intro that [of "\<alpha> a i"]) (auto simp: byte_solutions_def models_def simp del: set_upto)
qed

lemma one_byte_valid:
  assumes "one_byte q"
  shows "valid q \<longleftrightarrow> (\<forall>v \<in> set (byte_solutions (q_constraints q)). eval (\<lambda>_ _. v) (q_expr q) = 1)"
    and "unsat q \<longleftrightarrow> (\<forall>v \<in> set (byte_solutions (q_constraints q)). eval (\<lambda>_ _. v) (q_expr q) = 0)"
  using one_byte_solutions [OF assms] byte_solutions_bytes by (metis valid_def, metis unsat_def)

interpretation byte_client: solver_client "apint_env opt" one_byte True byte_solver "\<lambda>_. True"
proof unfold_locales
  fix q objects
  assume q: "one_byte q" "query_ok (apint_env opt) q"
  note v = one_byte_valid [OF q(1)]
  from q(2) obtain \<alpha> where "models \<alpha> (q_constraints q)" by (auto simp: query_ok_def)
  from one_byte_solutions [OF q(1) this] have "hd (byte_solutions (q_constraints q)) \<in> set (byte_solutions (q_constraints q))"
    by (metis hd_in_set list.set(1) empty_iff)
  from byte_solutions_bytes [OF this] show "solves True (\<lambda>_. True) (\<lambda>e. \<exists>c \<alpha>. e = ConstantExpr c \<and> ap_width c = getWidth (q_expr q) \<and>
      models \<alpha> (q_constraints q) \<and> ap_val c = eval \<alpha> (q_expr q)) (computeValue byte_solver q)"
    by (auto simp: byte_solver_def intro!: solves_return)
  assume w: "getWidth (q_expr q) = 1"
  show "solves True (\<lambda>_. True) (\<lambda>b. b = valid q) (computeTruth byte_solver q)"
    by (simp add: byte_solver_def v solves_return)
  show "solves True (\<lambda>_. True) (\<lambda>b. b = validity_of q) (computeValidity byte_solver q)"
    by (simp add: byte_solver_def v validity_of_def solves_return Let_def)
  let ?vs = "filter (\<lambda>v. eval (\<lambda>_ _. v) (q_expr q) \<noteq> 1) (byte_solutions (q_constraints q))"
  have "models (\<lambda>_ _. hd ?vs) (q_constraints q) \<and> eval (\<lambda>_ _. hd ?vs) (q_expr q) = 0" if "?vs \<noteq> []"
    using hd_in_set [OF that] byte_solutions_bytes bool_eval [OF q(2) w] by (force simp: models_def)
  thus "solves True (\<lambda>_. True) (\<lambda>(vals, hasSolution). (hasSolution \<longleftrightarrow> \<not> valid q) \<and> (hasSolution \<longrightarrow>
        (\<exists>\<alpha>. models \<alpha> (q_constraints q) \<and> eval \<alpha> (q_expr q) = 0 \<and> vals = values_of \<alpha> objects)))
        (computeInitialValues byte_solver q objects)"
    unfolding byte_solver_def Let_def by (simp, intro solves_return) (auto simp: v filter_empty_conv)
next
  fix q e f
  assume q: "one_byte q" and e: "\<forall>\<alpha>. bytes \<alpha> \<longrightarrow> eval \<alpha> e = f (eval \<alpha> (q_expr q))"
  from q obtain a i where
    a: "\<forall>e \<in> insert (q_expr q) (set (q_constraints q)). \<forall>\<alpha>. bytes \<alpha> \<longrightarrow> eval \<alpha> e = eval (\<lambda>_ _. \<alpha> a i) e"
    unfolding one_byte_def by blast
  have "eval \<alpha> e = eval (\<lambda>_ _. \<alpha> a i) e" if "bytes \<alpha>" for \<alpha>
  proof -
    have "bytes (\<lambda>_ _. \<alpha> a i)" using that by (simp add: bytes_def)
    hence "eval (\<lambda>_ _. \<alpha> a i) e = f (eval (\<lambda>_ _. \<alpha> a i) (q_expr q))" using e by blast
    moreover have "eval \<alpha> (q_expr q) = eval (\<lambda>_ _. \<alpha> a i) (q_expr q)" using a that by blast
    ultimately show ?thesis using e that by metis
  qed
  with a have "\<forall>e' \<in> insert e (set (q_constraints q)). \<forall>\<alpha>. bytes \<alpha> \<longrightarrow> eval \<alpha> e' = eval (\<lambda>_ _. \<alpha> a i) e'" by blast
  thus "one_byte (withExpr q e)" unfolding one_byte_def withExpr_simps by blast
qed

subsection \<open>Properties\<close>

text \<open>C11: the front end. For a query about a Boolean expression, \<^verbatim>\<open>Solver::evaluate\<close>, \<^verbatim>\<open>mustBeTrue\<close>,
  \<^verbatim>\<open>mustBeFalse\<close>, \<^verbatim>\<open>mayBeTrue\<close> and \<^verbatim>\<open>mayBeFalse\<close> never abort and, when the solver behind them
  keeps its promises, return what the models of the constraints say: constants are decided without the solver, and the
  other questions are asked for the negated expression. \<^verbatim>\<open>getValue\<close> returns a value of the expression in some
  model, and \<^verbatim>\<open>getInitialValues\<close> the contents of symbolic objects, of less than \<open>2 ^ 20\<close> bytes together, in a model of the
  constraints in which the expression is false, if there is one; it returns \<^verbatim>\<open>false\<close> for a valid query.\<close>

theorem front_end_correct:
  assumes "solver_client E Q sure S I" "Q q" "query_ok E q" "getWidth (q_expr q) = 1" "objects_ok objects"
  shows "solves sure I (\<lambda>v. v = validity_of q) (evaluate_query E S q) \<and>
    solves sure I (\<lambda>b. b = valid q) (mustBeTrue E S q) \<and> solves sure I (\<lambda>b. b = unsat q) (mustBeFalse E S q) \<and>
    solves sure I (\<lambda>b. b = (\<exists>\<alpha>. models \<alpha> (q_constraints q) \<and> eval \<alpha> (q_expr q) = 1)) (mayBeTrue E S q) \<and>
    solves sure I (\<lambda>b. b = (\<exists>\<alpha>. models \<alpha> (q_constraints q) \<and> eval \<alpha> (q_expr q) = 0)) (mayBeFalse E S q) \<and>
    solves sure I (\<lambda>c. ap_width c = 1 \<and> (\<exists>\<alpha>. models \<alpha> (q_constraints q) \<and> ap_val c = eval \<alpha> (q_expr q))) (getValue S q) \<and>
    (if valid q then solves False I (\<lambda>_. False) (getInitialValues S q objects)
     else solves sure I (\<lambda>vals. \<exists>\<alpha>. models \<alpha> (q_constraints q) \<and> eval \<alpha> (q_expr q) = 0 \<and> vals = values_of \<alpha> objects)
       (getInitialValues S q objects))"
proof -
  from assms(1) have u: "solver_user E Q sure S I" by (simp add: solver_client_def)
  show ?thesis
    using solver_user.evaluate_ok [OF u assms(2-4)] solver_user.must_be_true [OF u assms(2-4)] solver_client.must_be_false [OF assms(1-4)]
      solver_client.may_be_true [OF assms(1-4)] solver_user.may_be_false [OF u assms(2-4)] solver_user.get_value [OF u assms(2,3)]
      solver_user.get_initial_values [OF u assms(2-5)] assms(4) by simp
qed

text \<open>The queries of the witnesses: a byte of which it is known that it is at least 5 and below 9.\<close>

abbreviation demo_byte :: expr where
  "demo_byte \<equiv> ReadExpr \<lparr>arr_address = 1, arr_name = ''b'', arr_size = 1, constantValues = []\<rparr> NoUpdate (ConstantExpr (APInt 32 0))"

definition demo_query :: "expr \<Rightarrow> query" where
  "demo_query e = \<lparr>q_constraints = [CmpExpr Ule (ConstantExpr (APInt 8 5)) demo_byte, CmpExpr Ult demo_byte (ConstantExpr (APInt 8 9))],
     q_expr = e\<rparr>"

lemmas demo_simps = demo_query_def query_ok_def models_def bytes_def wf_ap_def wf_array_def isConstantArray_def
  isSymbolicArray_def initial_value_def

lemma demo_query_ok:
  "query_ok (apint_env False) (demo_query demo_byte)" "one_byte (demo_query demo_byte)"
  "query_ok (apint_env False) (demo_query (CmpExpr Ule demo_byte (ConstantExpr (APInt 8 8))))"
  "one_byte (demo_query (CmpExpr Ule demo_byte (ConstantExpr (APInt 8 8))))"
  "query_ok (apint_env False) (demo_query (CmpExpr Ule demo_byte (ConstantExpr (APInt 8 7))))"
  "one_byte (demo_query (CmpExpr Ule demo_byte (ConstantExpr (APInt 8 7))))"
proof -
  have "\<exists>\<alpha>. models \<alpha> (q_constraints (demo_query e))" for e
    by (rule exI [where x = "\<lambda>_ _. 5"]) (simp add: demo_simps)
  thus "query_ok (apint_env False) (demo_query demo_byte)"
    "query_ok (apint_env False) (demo_query (CmpExpr Ule demo_byte (ConstantExpr (APInt 8 8))))"
    "query_ok (apint_env False) (demo_query (CmpExpr Ule demo_byte (ConstantExpr (APInt 8 7))))"
    unfolding query_ok_def by (simp_all add: demo_query_def wf_ap_def wf_array_def isConstantArray_def isSymbolicArray_def)
  show "one_byte (demo_query demo_byte)" "one_byte (demo_query (CmpExpr Ule demo_byte (ConstantExpr (APInt 8 8))))"
    "one_byte (demo_query (CmpExpr Ule demo_byte (ConstantExpr (APInt 8 7))))"
    unfolding one_byte_def
    by (rule exI [where x = "\<lparr>arr_address = 1, arr_name = ''b'', arr_size = 1, constantValues = []\<rparr>"], rule exI [where x = 0],
        simp add: demo_simps)+
qed

theorem front_end_correct_witness:
  "solves True (\<lambda>_. True) (\<lambda>b. b = valid (demo_query (CmpExpr Ule demo_byte (ConstantExpr (APInt 8 7)))))
    (mustBeTrue (apint_env False) byte_solver (demo_query (CmpExpr Ule demo_byte (ConstantExpr (APInt 8 7))))) \<and>
   solves True (\<lambda>_. True) (\<lambda>vals. vals = [[8]])
    (getInitialValues byte_solver (demo_query (CmpExpr Ule demo_byte (ConstantExpr (APInt 8 7))))
      [\<lparr>arr_address = 1, arr_name = ''b'', arr_size = 1, constantValues = []\<rparr>])"
proof -
  let ?a = "\<lparr>arr_address = 1, arr_name = ''b'', arr_size = 1, constantValues = []\<rparr>" and ?q = "demo_query (CmpExpr Ule demo_byte (ConstantExpr (APInt 8 7)))"
  have o: "objects_ok [?a]" by (simp add: objects_ok_def wf_array_def isSymbolicArray_def isConstantArray_def)
  have "models (\<lambda>_ _. 8) (q_constraints ?q) \<and> eval (\<lambda>_ _. 8) (q_expr ?q) = 0" by (simp add: demo_simps)
  hence n: "\<not> valid ?q" unfolding valid_def by (metis zero_neq_one)
  have "values_of \<alpha> [?a] = [[8]]" if "models \<alpha> (q_constraints ?q) \<and> eval \<alpha> (q_expr ?q) = 0" for \<alpha>
  proof -
    have "\<alpha> ?a 0 = 8" using that by (auto simp: demo_simps split: if_splits)
    thus ?thesis by (simp add: values_of_def upt_rec)
  qed
  hence v: "solves True (\<lambda>_. True) (\<lambda>vals. vals = [[8]]) m"
    if "solves True (\<lambda>_. True) (\<lambda>vals. \<exists>\<alpha>. models \<alpha> (q_constraints ?q) \<and> eval \<alpha> (q_expr ?q) = 0 \<and> vals = values_of \<alpha> [?a]) m" for m
    using that by (auto intro: solves_weaken)
  have "getWidth (q_expr ?q) = 1" by (simp add: demo_query_def)
  from front_end_correct [OF byte_client.solver_client_axioms demo_query_ok(6,5) this o] show ?thesis
    unfolding if_not_P [OF n] by (elim conjE) (intro conjI v; assumption)
qed

text \<open>C12: \<^verbatim>\<open>Solver::getRange\<close>. When the solver answers, the three binary searches end and return the
  smallest and the largest value that the expression takes in a model of the constraints, for every width up to 64.\<close>

theorem getRange_tight:
  assumes "solver_client E Q True S I" "Q q" "query_ok E q" "I s"
  shows "\<exists>a b s'. getRange E S q s = Some (Some (a, b), s') \<and> ap_val a \<in> query_values q \<and> ap_val b \<in> query_values q \<and>
    (\<forall>v \<in> query_values q. ap_val a \<le> v \<and> v \<le> ap_val b)"
proof -
  have "solves True I (range_of_query q) (getRange E S q)"
    by (rule solver_client.get_range [OF assms(1) _ assms(2,3)]) simp
  from solvesD [OF this assms(4)] show ?thesis by (auto simp: range_of_query_def)
qed

theorem getRange_tight_witness:
  "\<exists>a b s'. getRange (apint_env False) byte_solver (demo_query demo_byte) () = Some (Some (a, b), s') \<and> ap_val a = 5 \<and> ap_val b = 8"
proof -
  have v: "query_values (demo_query demo_byte) = {5..8}"
  proof
    show "{5..8} \<subseteq> query_values (demo_query demo_byte)"
    proof
      fix x :: int assume "x \<in> {5..8}"
      hence "models (\<lambda>_ _. x) (q_constraints (demo_query demo_byte)) \<and> eval (\<lambda>_ _. x) (q_expr (demo_query demo_byte)) = x"
        by (simp add: demo_simps)
      thus "x \<in> query_values (demo_query demo_byte)" unfolding query_values_def mem_Collect_eq by (intro exI [where x = "\<lambda>_ _. x"]) simp
    qed
  qed (auto simp: query_values_def demo_simps)
  from getRange_tight [OF byte_client.solver_client_axioms demo_query_ok(2,1) TrueI, of "()"] obtain a b s' where
    g: "getRange (apint_env False) byte_solver (demo_query demo_byte) () = Some (Some (a, b), s')"
    "ap_val a \<in> {5..8}" "ap_val b \<in> {5..8}" "\<forall>x \<in> {5..8}. ap_val a \<le> x \<and> x \<le> ap_val b"
    unfolding v by (elim exE conjE) (rule that; assumption)
  hence "ap_val a \<le> 5" "8 \<le> ap_val b" by (auto dest: bspec [of _ _ "5 :: int"] bspec [of _ _ "8 :: int"])
  with g show ?thesis by auto
qed

end
