(* ===== verification/CachingSolver.thy ===== *)
theory CachingSolver
  imports Solver ExprOrder
begin

text \<open>
  Partial answers and the solvers that use them: \<^verbatim>\<open>IncompleteSolver.cpp\<close>, where a solver that may not know
  is staged before a complete one, and \<^verbatim>\<open>CachingSolver.cpp\<close>, which remembers the answers of the solver it wraps.
\<close>

declare One_nat_def [simp del]

subsection \<open>Partial validity\<close>

datatype partial_validity = MustBeTrue | MustBeFalse | MayBeTrue | MayBeFalse | TrueOrFalse | PVNone

definition negatePartialValidity :: "partial_validity \<Rightarrow> partial_validity may_abort" where
  "negatePartialValidity pv =
    (case pv of
       MustBeTrue \<Rightarrow> Some MustBeFalse
     | MustBeFalse \<Rightarrow> Some MustBeTrue
     | MayBeTrue \<Rightarrow> Some MayBeFalse
     | MayBeFalse \<Rightarrow> Some MayBeTrue
     | TrueOrFalse \<Rightarrow> Some TrueOrFalse
     | PVNone \<Rightarrow> None)"

text \<open>The virtual functions of \<^verbatim>\<open>IncompleteSolver\<close>.\<close>

record incomplete_solver =
  i_computeValidity :: "query \<Rightarrow> partial_validity may_abort"
  i_computeTruth :: "query \<Rightarrow> partial_validity may_abort"
  i_computeValue :: "query \<Rightarrow> expr option may_abort"
  i_computeInitialValues :: "query \<Rightarrow> array list \<Rightarrow> (uint8_t list list \<times> bool) option may_abort"

definition IncompleteSolver_computeValidity :: "expr_env \<Rightarrow> (query \<Rightarrow> partial_validity may_abort) \<Rightarrow> query \<Rightarrow> partial_validity may_abort" where
  "IncompleteSolver_computeValidity E truth q = do {
    trueResult \<leftarrow> truth q;
    if trueResult = MustBeTrue then Some MustBeTrue
    else do {
      nq \<leftarrow> negateExpr E q;
      falseResult \<leftarrow> truth nq;
      Some (if falseResult = MustBeTrue then MustBeFalse
        else let trueCorrect = trueResult \<noteq> PVNone; falseCorrect = falseResult \<noteq> PVNone
          in if trueCorrect \<and> falseCorrect then TrueOrFalse
             else if trueCorrect then MayBeFalse
             else if falseCorrect then MayBeTrue
             else PVNone) } }"

subsection \<open>A staged solver\<close>

definition Staged_computeTruth :: "incomplete_solver \<Rightarrow> 's solver_impl \<Rightarrow> query \<Rightarrow> (bool, 's) solve" where
  "Staged_computeTruth primary secondary q =
    if_ok (or_abort (i_computeTruth primary q)) (\<lambda>trueResult.
      if trueResult \<noteq> PVNone then return_ok (trueResult = MustBeTrue)
      else computeTruth secondary q)"

definition Staged_computeValidity :: "expr_env \<Rightarrow> incomplete_solver \<Rightarrow> 's solver_impl \<Rightarrow> query \<Rightarrow> (validity, 's) solve" where
  "Staged_computeValidity E primary secondary q =
    if_ok (or_abort (i_computeValidity primary q)) (\<lambda>pv. case pv of
        MustBeTrue \<Rightarrow> return_ok VTrue
      | MustBeFalse \<Rightarrow> return_ok VFalse
      | TrueOrFalse \<Rightarrow> return_ok VUnknown
      | MayBeTrue \<Rightarrow> if_ok (computeTruth secondary q) (\<lambda>tmp. return_ok (if tmp then VTrue else VUnknown))
      | MayBeFalse \<Rightarrow> if_ok (or_abort (negateExpr E q)) (\<lambda>nq.
          if_ok (computeTruth secondary nq) (\<lambda>tmp. return_ok (if tmp then VFalse else VUnknown)))
      | PVNone \<Rightarrow> computeValidity secondary q)"

definition Staged_computeValue :: "incomplete_solver \<Rightarrow> 's solver_impl \<Rightarrow> query \<Rightarrow> (expr, 's) solve" where
  "Staged_computeValue primary secondary q =
    if_ok (or_abort (i_computeValue primary q)) (\<lambda>r. case r of Some e \<Rightarrow> return_ok e | None \<Rightarrow> computeValue secondary q)"

definition Staged_computeInitialValues ::
  "incomplete_solver \<Rightarrow> 's solver_impl \<Rightarrow> query \<Rightarrow> array list \<Rightarrow> (uint8_t list list \<times> bool, 's) solve" where
  "Staged_computeInitialValues primary secondary q objects =
    if_ok (or_abort (i_computeInitialValues primary q objects)) (\<lambda>r. case r of
        Some v \<Rightarrow> return_ok v | None \<Rightarrow> computeInitialValues secondary q objects)"

definition StagedSolverImpl :: "expr_env \<Rightarrow> incomplete_solver \<Rightarrow> 's solver_impl \<Rightarrow> 's solver_impl" where
  "StagedSolverImpl E primary secondary = \<lparr>
     computeValidity = Staged_computeValidity E primary secondary,
     computeTruth = Staged_computeTruth primary secondary,
     computeValue = Staged_computeValue primary secondary,
     computeInitialValues = Staged_computeInitialValues primary secondary\<rparr>"

subsection \<open>A caching solver\<close>

text \<open>
  \<^verbatim>\<open>CacheEntry\<close> and \<^verbatim>\<open>cache_map\<close>: the constraints and the canonical query are compared for equality. Equal
  entries have equal hash values, so that the hash function does not matter for what is found. Where the order of a query and its negation
  depends on the hash value of a \<^verbatim>\<open>Not\<close> node, which is never set, the choice between them is the parameter \<open>unset_less\<close>; nothing that is
  stored depends on it. For the same reason the code may miss an entry with such nodes and ask again.
\<close>

type_synonym cache_map = "expr list \<times> expr \<rightharpoonup> partial_validity"

definition canonicalizeQuery :: "hash_env \<Rightarrow> expr \<Rightarrow> (expr \<times> bool) may_abort" where
  "canonicalizeQuery H originalQuery = do {
    negatedQuery \<leftarrow> createIsZero (henv H) originalQuery;
    let less = (case compare H originalQuery negatedQuery of Some c \<Rightarrow> c < 0 | None \<Rightarrow> unset_less H originalQuery negatedQuery);
    Some (if less then (originalQuery, False) else (negatedQuery, True)) }"

definition cacheLookup :: "hash_env \<Rightarrow> query \<Rightarrow> cache_map \<Rightarrow> partial_validity option may_abort" where
  "cacheLookup H q cache = do {
    (canonicalQuery, negationUsed) \<leftarrow> canonicalizeQuery H (q_expr q);
    case cache (q_constraints q, canonicalQuery) of
      Some pv \<Rightarrow> if negationUsed then map_option Some (negatePartialValidity pv) else Some (Some pv)
    | None \<Rightarrow> Some None }"

text \<open>\<^verbatim>\<open>cache.insert\<close> leaves an entry that is there as it is.\<close>

definition cacheInsert :: "hash_env \<Rightarrow> query \<Rightarrow> partial_validity \<Rightarrow> cache_map \<Rightarrow> cache_map may_abort" where
  "cacheInsert H q result cache = do {
    (canonicalQuery, negationUsed) \<leftarrow> canonicalizeQuery H (q_expr q);
    cachedResult \<leftarrow> if negationUsed then negatePartialValidity result else Some result;
    Some (case cache (q_constraints q, canonicalQuery) of
        Some _ \<Rightarrow> cache
      | None \<Rightarrow> cache((q_constraints q, canonicalQuery) \<mapsto> cachedResult)) }"

text \<open>The operations on the state, which is that of the wrapped solver and the cache.\<close>

definition inner :: "('a, 's) solve \<Rightarrow> ('a, 's \<times> cache_map) solve" where
  "inner m = (\<lambda>(s, cache). case m s of None \<Rightarrow> None | Some (r, s') \<Rightarrow> Some (r, (s', cache)))"

definition lookup_entry :: "hash_env \<Rightarrow> query \<Rightarrow> (partial_validity option, 's \<times> cache_map) solve" where
  "lookup_entry H q = (\<lambda>(s, cache). map_option (\<lambda>r. (Some r, (s, cache))) (cacheLookup H q cache))"

definition insert_entry :: "hash_env \<Rightarrow> query \<Rightarrow> partial_validity \<Rightarrow> (unit, 's \<times> cache_map) solve" where
  "insert_entry H q pv = (\<lambda>(s, cache). map_option (\<lambda>c. (Some (), (s, c))) (cacheInsert H q pv cache))"

definition Caching_computeValidity :: "hash_env \<Rightarrow> 's solver_impl \<Rightarrow> query \<Rightarrow> (validity, 's \<times> cache_map) solve" where
  "Caching_computeValidity H S q =
    if_ok (lookup_entry H q) (\<lambda>cached. case cached of
        Some MustBeTrue \<Rightarrow> return_ok VTrue
      | Some MustBeFalse \<Rightarrow> return_ok VFalse
      | Some TrueOrFalse \<Rightarrow> return_ok VUnknown
      | Some MayBeTrue \<Rightarrow> if_ok (inner (computeTruth S q)) (\<lambda>tmp.
          if tmp then if_ok (insert_entry H q MustBeTrue) (\<lambda>_. return_ok VTrue)
          else if_ok (insert_entry H q TrueOrFalse) (\<lambda>_. return_ok VUnknown))
      | Some MayBeFalse \<Rightarrow> if_ok (or_abort (negateExpr (henv H) q)) (\<lambda>nq. if_ok (inner (computeTruth S nq)) (\<lambda>tmp.
          if tmp then if_ok (insert_entry H q MustBeFalse) (\<lambda>_. return_ok VFalse)
          else if_ok (insert_entry H q TrueOrFalse) (\<lambda>_. return_ok VUnknown)))
      | Some PVNone \<Rightarrow> or_abort None
      | None \<Rightarrow> if_ok (inner (computeValidity S q)) (\<lambda>result.
          if_ok (insert_entry H q (case result of VTrue \<Rightarrow> MustBeTrue | VFalse \<Rightarrow> MustBeFalse | VUnknown \<Rightarrow> TrueOrFalse)) (\<lambda>_.
          return_ok result)))"

definition Caching_computeTruth :: "hash_env \<Rightarrow> 's solver_impl \<Rightarrow> query \<Rightarrow> (bool, 's \<times> cache_map) solve" where
  "Caching_computeTruth H S q =
    if_ok (lookup_entry H q) (\<lambda>cached.
      if cached \<noteq> None \<and> cached \<noteq> Some MayBeTrue then return_ok (cached = Some MustBeTrue)
      else if_ok (inner (computeTruth S q)) (\<lambda>isValid.
        if_ok (insert_entry H q (if isValid then MustBeTrue else if cached \<noteq> None then TrueOrFalse else MayBeFalse)) (\<lambda>_.
        return_ok isValid)))"

definition CachingSolver :: "hash_env \<Rightarrow> 's solver_impl \<Rightarrow> ('s \<times> cache_map) solver_impl" where
  "CachingSolver H S = \<lparr>
     computeValidity = Caching_computeValidity H S,
     computeTruth = Caching_computeTruth H S,
     computeValue = (\<lambda>q. inner (computeValue S q)),
     computeInitialValues = (\<lambda>q objects. inner (computeInitialValues S q objects))\<rparr>"

subsection \<open>What partial answers mean\<close>

definition pv_holds :: "query \<Rightarrow> partial_validity \<Rightarrow> bool" where
  "pv_holds q pv =
    (case pv of
       MustBeTrue \<Rightarrow> valid q
     | MustBeFalse \<Rightarrow> unsat q
     | MayBeTrue \<Rightarrow> \<not> unsat q
     | MayBeFalse \<Rightarrow> \<not> valid q
     | TrueOrFalse \<Rightarrow> \<not> valid q \<and> \<not> unsat q
     | PVNone \<Rightarrow> True)"

lemma pv_holds_simps [simp]:
  "pv_holds q MustBeTrue = valid q" "pv_holds q MustBeFalse = unsat q" "pv_holds q MayBeTrue = (\<not> unsat q)"
  "pv_holds q MayBeFalse = (\<not> valid q)" "pv_holds q TrueOrFalse = (\<not> valid q \<and> \<not> unsat q)" "pv_holds q PVNone"
  by (simp_all add: pv_holds_def)

lemma valid_not_unsat: "query_ok E q \<Longrightarrow> valid q \<Longrightarrow> \<not> unsat q"
  unfolding query_ok_def valid_def unsat_def by (metis zero_neq_one)

lemma pv_holds_negate:
  assumes "valid q' = unsat q" "unsat q' = valid q" "negatePartialValidity pv = Some pv'"
  shows "pv_holds q' pv' = pv_holds q pv"
  using assms by (cases pv) (auto simp: negatePartialValidity_def)

lemma negate_PV:
  "pv \<noteq> PVNone \<Longrightarrow> \<exists>pv'. negatePartialValidity pv = Some pv' \<and> pv' \<noteq> PVNone \<and> negatePartialValidity pv' = Some pv"
  by (cases pv) (auto simp: negatePartialValidity_def)

text \<open>The queries that are right together with their negation.\<close>

definition negation_too :: "expr_env \<Rightarrow> (query \<Rightarrow> bool) \<Rightarrow> query \<Rightarrow> bool" where
  "negation_too E Q q \<longleftrightarrow> Q q \<and> (getWidth (q_expr q) = 1 \<longrightarrow> (\<forall>e. negateExpr E q = Some (withExpr q e) \<longrightarrow> Q (withExpr q e)))"

context solver_user
begin

lemma negated_query:
  assumes "query_ok E q" "getWidth (q_expr q) = 1"
  obtains e where "createIsZero E (q_expr q) = Some e" "negateExpr E q = Some (withExpr q e)" "query_ok E (withExpr q e)"
    "getWidth e = 1" "valid (withExpr q e) = unsat q" "unsat (withExpr q e) = valid q" "negation_too E Q q \<Longrightarrow> Q (withExpr q e)"
proof -
  from negate_ok [OF assms] obtain e where e: "negateExpr E q = Some (withExpr q e)" "query_ok E (withExpr q e)" "getWidth e = 1"
    "\<forall>\<alpha>. bytes \<alpha> \<longrightarrow> eval \<alpha> e = of_bool (eval \<alpha> (q_expr q) = 0)" .
  have "createIsZero E (q_expr q) = Some e" using e(1) by (auto simp: negateExpr_def withExpr_def)
  moreover have "valid (withExpr q e) = unsat q" using e(4) by (auto simp: valid_def unsat_def models_def)
  moreover have "unsat (withExpr q e) = valid q"
    using e(4) bool_eval [OF assms] by (auto simp: valid_def unsat_def models_def)
  ultimately show thesis using e assms(2) by (intro that [of e]) (simp_all add: negation_too_def)
qed

end

lemma negation_tooD: "negation_too E Q q \<Longrightarrow> Q q"
  by (simp add: negation_too_def)

text \<open>For the queries of a client this is no restriction.\<close>

lemma negation_too_client:
  assumes "solver_client E Q sure S I" "Q q" "query_ok E q"
  shows "negation_too E Q q"
  unfolding negation_too_def
proof (intro conjI impI allI assms(2))
  have l: "apint_laws E" using assms(1) by (simp add: solver_client_def solver_user_def)
  fix e assume "getWidth (q_expr q) = 1" and e: "negateExpr E q = Some (withExpr q e)"
  from apint_laws.negate_ok [OF l assms(3) this(1)] obtain e' where e': "negateExpr E q = Some (withExpr q e')"
    "\<forall>\<alpha>. bytes \<alpha> \<longrightarrow> eval \<alpha> e' = of_bool (eval \<alpha> (q_expr q) = 0)" .
  from solver_client.Q_withExpr [where f = "\<lambda>x. of_bool (x = 0)", OF assms(1,2) e'(2)] e e'(1)
  show "Q (withExpr q e)" by simp
qed

lemma client_of_spec:
  assumes "solver_client E Q sure S I" "solver_spec E (negation_too E Q) sure S' I'"
  shows "solver_client E Q sure S' I'"
proof -
  have l: "apint_laws E" using assms(1) by (simp add: solver_client_def solver_user_def)
  note s = solver_spec.truth [OF assms(2)] solver_spec.full_validity [OF assms(2)] solver_spec.a_value [OF assms(2)]
    solver_spec.initial_values [OF assms(2)]
  show ?thesis
    by (intro solver_client.intro solver_user.intro solver_spec.intro solver_client_axioms.intro l s negation_too_client [OF assms(1)]
        solver_client.Q_withExpr [OF assms(1)])
qed

subsection \<open>The staged solver is a solver\<close>

text \<open>
  What the solver that is asked first promises. A positive answer to \<^verbatim>\<open>computeTruth\<close> is never \<open>MayBeTrue\<close>,
  as the staged solver takes every other answer for a refutation.
\<close>

definition incomplete_ok :: "expr_env \<Rightarrow> (query \<Rightarrow> bool) \<Rightarrow> incomplete_solver \<Rightarrow> bool" where
  "incomplete_ok E Q P \<longleftrightarrow> (\<forall>q. Q q \<and> query_ok E q \<longrightarrow>
    (\<exists>r. i_computeValue P q = Some r \<and> (\<forall>e. r = Some e \<longrightarrow>
        (\<exists>c \<alpha>. e = ConstantExpr c \<and> ap_width c = getWidth (q_expr q) \<and> models \<alpha> (q_constraints q) \<and> ap_val c = eval \<alpha> (q_expr q)))) \<and>
    (getWidth (q_expr q) = 1 \<longrightarrow>
      (\<exists>pv. i_computeTruth P q = Some pv \<and> pv_holds q pv \<and> pv \<noteq> MayBeTrue) \<and>
      (\<exists>pv. i_computeValidity P q = Some pv \<and> pv_holds q pv) \<and>
      (\<forall>objects. objects_ok objects \<longrightarrow> (\<exists>r. i_computeInitialValues P q objects = Some r \<and> (\<forall>vals hasSolution. r = Some (vals, hasSolution) \<longrightarrow>
        (hasSolution \<longleftrightarrow> \<not> valid q) \<and> (hasSolution \<longrightarrow>
        (\<exists>\<alpha>. models \<alpha> (q_constraints q) \<and> eval \<alpha> (q_expr q) = 0 \<and> vals = values_of \<alpha> objects)))))))"

lemma incomplete_okD:
  assumes "incomplete_ok E Q P" "Q q" "query_ok E q"
  shows "getWidth (q_expr q) = 1 \<Longrightarrow> \<exists>pv. i_computeTruth P q = Some pv \<and> pv_holds q pv \<and> pv \<noteq> MayBeTrue"
    and "getWidth (q_expr q) = 1 \<Longrightarrow> \<exists>pv. i_computeValidity P q = Some pv \<and> pv_holds q pv"
    and "\<exists>r. i_computeValue P q = Some r \<and> (\<forall>e. r = Some e \<longrightarrow>
        (\<exists>c \<alpha>. e = ConstantExpr c \<and> ap_width c = getWidth (q_expr q) \<and> models \<alpha> (q_constraints q) \<and> ap_val c = eval \<alpha> (q_expr q)))"
    and "getWidth (q_expr q) = 1 \<Longrightarrow> objects_ok objects \<Longrightarrow>
      \<exists>r. i_computeInitialValues P q objects = Some r \<and> (\<forall>vals hasSolution. r = Some (vals, hasSolution) \<longrightarrow>
        (hasSolution \<longleftrightarrow> \<not> valid q) \<and> (hasSolution \<longrightarrow>
        (\<exists>\<alpha>. models \<alpha> (q_constraints q) \<and> eval \<alpha> (q_expr q) = 0 \<and> vals = values_of \<alpha> objects)))"
  using assms unfolding incomplete_ok_def by blast+

context solver_user
begin

lemma default_partial_validity:
  assumes "negation_too E Q q" "query_ok E q" "getWidth (q_expr q) = 1"
    and t: "\<forall>q. Q q \<longrightarrow> query_ok E q \<longrightarrow> getWidth (q_expr q) = 1 \<longrightarrow> (\<exists>pv. tr q = Some pv \<and> pv_holds q pv \<and> pv \<in> {MustBeTrue, MayBeFalse, PVNone})"
  shows "\<exists>pv. IncompleteSolver_computeValidity E tr q = Some pv \<and> pv_holds q pv"
proof -
  from negated_query [OF assms(2,3)] obtain e where
    e: "negateExpr E q = Some (withExpr q e)" "query_ok E (withExpr q e)" "getWidth e = 1"
      "valid (withExpr q e) = unsat q" "unsat (withExpr q e) = valid q" "Q (withExpr q e)" using assms(1) by metis
  from t negation_tooD [OF assms(1)] assms(2,3) obtain pv where "tr q = Some pv" "pv_holds q pv" "pv \<in> {MustBeTrue, MayBeFalse, PVNone}" by blast
  moreover from t e obtain pv' where "tr (withExpr q e) = Some pv'" "pv_holds (withExpr q e) pv'" "pv' \<in> {MustBeTrue, MayBeFalse, PVNone}"
    by (metis withExpr_simps(2))
  ultimately show ?thesis using e by (auto simp: IncompleteSolver_computeValidity_def Let_def)
qed

lemma staged_truth:
  assumes "incomplete_ok E Q P" "Q q" "query_ok E q" "getWidth (q_expr q) = 1"
  shows "solves sure I (\<lambda>b. b = valid q) (Staged_computeTruth P S q)"
proof -
  from incomplete_okD(1) [OF assms] obtain pv where pv: "i_computeTruth P q = Some pv" "pv_holds q pv" "pv \<noteq> MayBeTrue" by blast
  have "(pv = MustBeTrue) = valid q" if "pv \<noteq> PVNone"
    using pv(2,3) that valid_not_unsat [OF assms(3)] by (cases pv) auto
  thus ?thesis
    unfolding Staged_computeTruth_def using truth [OF assms(2-4)]
    by (intro solves_if_ok [where P = "\<lambda>x. x = pv"] solves_abort [OF pv(1)]) (auto intro: solves_return)
qed

lemma staged_validity:
  assumes "incomplete_ok E Q P" "negation_too E Q q" "query_ok E q" "getWidth (q_expr q) = 1"
  shows "solves sure I (\<lambda>v. v = validity_of q) (Staged_computeValidity E P S q)"
proof -
  note q = negation_tooD [OF assms(2)]
  from incomplete_okD(2) [OF assms(1) q assms(3,4)] obtain pv where pv: "i_computeValidity P q = Some pv" "pv_holds q pv" by blast
  from negated_query [OF assms(3,4)] obtain e where
    e: "negateExpr E q = Some (withExpr q e)" "query_ok E (withExpr q e)" "getWidth e = 1"
      "valid (withExpr q e) = unsat q" "Q (withExpr q e)" using assms(2) by metis
  note n = truth [OF e(5,2), simplified, OF e(3), unfolded e(4)]
  show ?thesis
    unfolding Staged_computeValidity_def
    by (rule solves_if_ok [where P = "\<lambda>x. x = pv", OF solves_abort [OF pv(1) refl]])
      (use pv(2) valid_not_unsat [OF assms(3)] full_validity [OF q assms(3,4)] in
        \<open>auto split: partial_validity.split simp: validity_of_def intro!: solves_return solves_if_ok [OF truth [OF q assms(3,4)]]
          solves_if_ok [where P = "\<lambda>x. x = withExpr q e", OF solves_abort [OF e(1) refl]] solves_if_ok [OF n]\<close>)
qed

lemma staged_spec:
  assumes "incomplete_ok E Q P"
  shows "solver_spec E (negation_too E Q) sure (StagedSolverImpl E P S) I"
proof (unfold_locales, goal_cases)
  case (3 q)
  note q = negation_tooD [OF 3(1)]
  from incomplete_okD(3) [OF assms q 3(2)] obtain r where r: "i_computeValue P q = Some r"
    "\<forall>e. r = Some e \<longrightarrow> (\<exists>c \<alpha>. e = ConstantExpr c \<and> ap_width c = getWidth (q_expr q) \<and> models \<alpha> (q_constraints q) \<and> ap_val c = eval \<alpha> (q_expr q))"
    by blast
  show ?case
    unfolding StagedSolverImpl_def Staged_computeValue_def solver_impl.simps
    by (rule solves_if_ok [where P = "\<lambda>x. x = r", OF solves_abort [OF r(1) refl]])
      (use r(2) a_value [OF q 3(2)] in \<open>auto split: option.split intro!: solves_return\<close>)
next
  case (4 q objects)
  note q = negation_tooD [OF 4(1)]
  from incomplete_okD(4) [OF assms q 4(2-4)] obtain r where r: "i_computeInitialValues P q objects = Some r"
    "\<forall>vals hasSolution. r = Some (vals, hasSolution) \<longrightarrow>
        (hasSolution \<longleftrightarrow> \<not> valid q) \<and> (hasSolution \<longrightarrow>
        (\<exists>\<alpha>. models \<alpha> (q_constraints q) \<and> eval \<alpha> (q_expr q) = 0 \<and> vals = values_of \<alpha> objects))"
    by blast
  show ?case
    unfolding StagedSolverImpl_def Staged_computeInitialValues_def solver_impl.simps
    by (rule solves_if_ok [where P = "\<lambda>x. x = r", OF solves_abort [OF r(1) refl]])
      (use r(2) initial_values [OF q 4(2-4)] in \<open>auto split: option.split intro!: solves_return\<close>)
qed (use assms staged_truth staged_validity in \<open>simp_all add: StagedSolverImpl_def negation_tooD [of E Q]\<close>)

end

subsection \<open>The caching solver is a solver\<close>

text \<open>The invariant of the cache: every entry is right.\<close>

definition entries_ok :: "cache_map \<Rightarrow> bool" where
  "entries_ok c \<longleftrightarrow> (\<forall>cs k pv. c (cs, k) = Some pv \<longrightarrow> pv \<noteq> PVNone \<and> pv_holds \<lparr>q_constraints = cs, q_expr = k\<rparr> pv)"

definition caching_inv :: "('s \<Rightarrow> bool) \<Rightarrow> 's \<times> cache_map \<Rightarrow> bool" where
  "caching_inv I = (\<lambda>(s, c). I s \<and> entries_ok c)"

lemma withExpr_eq: "\<lparr>q_constraints = q_constraints q, q_expr = e\<rparr> = withExpr q e" "withExpr q (q_expr q) = q"
  by (simp_all add: withExpr_def)

lemma solves_inner: "solves sure I P m \<Longrightarrow> solves sure (caching_inv I) P (inner m)"
  unfolding solves_def by (fastforce simp: caching_inv_def inner_def)

context solver_user
begin

lemma canonical:
  assumes "henv H = E" "query_ok E q" "getWidth (q_expr q) = 1"
  obtains k neg where "canonicalizeQuery H (q_expr q) = Some (k, neg)"
    "\<not> neg \<Longrightarrow> k = q_expr q" "neg \<Longrightarrow> valid (withExpr q k) = unsat q" "neg \<Longrightarrow> unsat (withExpr q k) = valid q"
proof -
  from negated_query [OF assms(2,3)] obtain e where
    "createIsZero E (q_expr q) = Some e" "valid (withExpr q e) = unsat q" "unsat (withExpr q e) = valid q" by metis
  thus thesis using assms(1)
    by (cases "case compare H (q_expr q) e of Some c \<Rightarrow> c < 0 | None \<Rightarrow> unset_less H (q_expr q) e")
      (auto simp: canonicalizeQuery_def Let_def intro!: that)
qed

lemma lookup_ok:
  assumes "henv H = E" "query_ok E q" "getWidth (q_expr q) = 1"
  shows "solves sure (caching_inv I) (\<lambda>r. \<forall>pv. r = Some pv \<longrightarrow> pv \<noteq> PVNone \<and> pv_holds q pv) (lookup_entry H q)"
proof -
  from canonical [OF assms] obtain k neg where c: "canonicalizeQuery H (q_expr q) = Some (k, neg)" "\<not> neg \<Longrightarrow> k = q_expr q"
    "neg \<Longrightarrow> valid (withExpr q k) = unsat q" "neg \<Longrightarrow> unsat (withExpr q k) = valid q" by blast
  have "\<exists>r. cacheLookup H q cache = Some r \<and> (\<forall>pv. r = Some pv \<longrightarrow> pv \<noteq> PVNone \<and> pv_holds q pv)" if "entries_ok cache" for cache
  proof (cases "cache (q_constraints q, k)")
    case (Some pv)
    with that have pv: "pv \<noteq> PVNone" "pv_holds (withExpr q k) pv" by (auto simp: entries_ok_def withExpr_def)
    from negate_PV [OF pv(1)] obtain pv' where n: "negatePartialValidity pv = Some pv'" "pv' \<noteq> PVNone" by blast
    show ?thesis
    proof (cases neg)
      case True
      from pv_holds_negate [OF _ _ n(1), of q "withExpr q k"] c(3,4) [OF True] pv(2) have "pv_holds q pv'" by simp
      with True Some n show ?thesis by (simp add: cacheLookup_def c(1))
    qed (use Some pv c(1,2) in \<open>simp add: cacheLookup_def withExpr_eq\<close>)
  qed (simp add: cacheLookup_def c(1))
  thus ?thesis unfolding solves_def lookup_entry_def caching_inv_def by (fastforce split: prod.split)
qed

lemma insert_ok:
  assumes "henv H = E" "query_ok E q" "getWidth (q_expr q) = 1" "pv \<noteq> PVNone" "pv_holds q pv"
  shows "solves sure (caching_inv I) (\<lambda>_. True) (insert_entry H q pv)"
proof -
  from canonical [OF assms(1-3)] obtain k neg where c: "canonicalizeQuery H (q_expr q) = Some (k, neg)" "\<not> neg \<Longrightarrow> k = q_expr q"
    "neg \<Longrightarrow> valid (withExpr q k) = unsat q" "neg \<Longrightarrow> unsat (withExpr q k) = valid q" by blast
  from negate_PV [OF assms(4)] obtain pv' where n: "negatePartialValidity pv = Some pv'" "pv' \<noteq> PVNone" by blast
  define w where "w = (if neg then pv' else pv)"
  have w: "w \<noteq> PVNone" "pv_holds (withExpr q k) w"
    using assms(4,5) n c pv_holds_negate [OF _ _ n(1), of "withExpr q k" q] by (auto simp: w_def withExpr_eq)
  have "\<exists>c. cacheInsert H q pv cache = Some c \<and> entries_ok c" if "entries_ok cache" for cache
    using that w n(1)
    by (cases "cache (q_constraints q, k)"; cases neg)
      (auto simp: cacheInsert_def c(1) entries_ok_def w_def withExpr_eq)
  thus ?thesis unfolding solves_def insert_entry_def caching_inv_def by (fastforce split: prod.split)
qed

lemma caching_truth:
  assumes "henv H = E" "Q q" "query_ok E q" "getWidth (q_expr q) = 1"
  shows "solves sure (caching_inv I) (\<lambda>b. b = valid q) (Caching_computeTruth H S q)"
  unfolding Caching_computeTruth_def
proof (rule solves_if_ok [OF lookup_ok [OF assms(1,3,4)]], goal_cases)
  case (1 cached)
  show ?case
  proof (cases "cached \<noteq> None \<and> cached \<noteq> Some MayBeTrue")
    case True
    then obtain pv where "cached = Some pv" "pv \<noteq> MayBeTrue" by auto
    with 1 have "(cached = Some MustBeTrue) = valid q" using valid_not_unsat [OF assms(3)] by (cases pv) auto
    with True show ?thesis by (simp add: solves_return)
  next
    case False
    with 1 have "pv_holds q (if valid q then MustBeTrue else if cached \<noteq> None then TrueOrFalse else MayBeFalse)" by auto
    hence "solves sure (caching_inv I) (\<lambda>_. True) (insert_entry H q (if valid q then MustBeTrue else if cached \<noteq> None then TrueOrFalse else MayBeFalse))"
      by (intro insert_ok [OF assms(1,3,4)]) simp_all
    with False show ?thesis
      by (auto intro!: solves_if_ok [OF solves_inner [OF truth [OF assms(2-4)]]] solves_if_ok [where P = "\<lambda>_. True"] solves_return)
  qed
qed

lemma caching_validity:
  assumes "henv H = E" "negation_too E Q q" "query_ok E q" "getWidth (q_expr q) = 1"
  shows "solves sure (caching_inv I) (\<lambda>v. v = validity_of q) (Caching_computeValidity H S q)"
proof -
  note q = negation_tooD [OF assms(2)] assms(3,4)
  from negated_query [OF assms(3,4)] obtain e where
    e: "negateExpr E q = Some (withExpr q e)" "query_ok E (withExpr q e)" "getWidth e = 1"
      "valid (withExpr q e) = unsat q" "Q (withExpr q e)" using assms(2) by metis
  note n = solves_inner [OF truth [OF e(5,2), simplified, OF e(3), unfolded e(4)]]
  note t = solves_inner [OF truth [OF q]] and v = solves_inner [OF full_validity [OF q]]
  note ins = solves_if_ok [OF insert_ok [OF assms(1,3,4)]]
  note vu = valid_not_unsat [OF assms(3)]
  show ?thesis
    unfolding Caching_computeValidity_def assms(1)
  proof (rule solves_if_ok [OF lookup_ok [OF assms(1,3,4)]], goal_cases)
    case (1 cached)
    show ?case
    proof (cases cached)
      case None
      thus ?thesis
        by (auto simp: validity_of_def intro!: solves_if_ok [OF v] ins solves_return)
    next
      case (Some pv)
      with 1 have pv: "pv \<noteq> PVNone" "pv_holds q pv" by auto
      show ?thesis
      proof (cases pv)
        case MayBeTrue
        with pv Some show ?thesis
          by (auto simp: validity_of_def intro!: solves_if_ok [OF t] ins solves_return)
      next
        case MayBeFalse
        with pv Some show ?thesis
          by (auto simp: validity_of_def
              intro!: solves_if_ok [where P = "\<lambda>x. x = withExpr q e", OF solves_abort [OF e(1) refl]] solves_if_ok [OF n] ins solves_return)
      qed (use pv Some vu in \<open>auto simp: validity_of_def intro!: solves_return\<close>)
    qed
  qed
qed

lemma caching_spec:
  assumes "henv H = E"
  shows "solver_spec E (negation_too E Q) sure (CachingSolver H S) (caching_inv I)"
  by unfold_locales
    (use caching_truth [OF assms] caching_validity [OF assms] solves_inner [OF a_value] solves_inner [OF initial_values] in
      \<open>simp_all add: CachingSolver_def negation_tooD [of E Q]\<close>)

end

text \<open>The caching solver over the solver for one byte, and an incomplete solver: a constraint itself must be true.\<close>

abbreviation demo_hash :: hash_env where
  "demo_hash \<equiv> \<lparr>henv = apint_env False, ap_hash = (\<lambda>a. word_of_int (ap_val a)), unset_less = (\<lambda>_ _. True)\<rparr>"

interpretation caching_byte: solver_client "apint_env False" one_byte True "CachingSolver demo_hash byte_solver" "caching_inv (\<lambda>_. True)"
  by (rule client_of_spec [OF byte_client.solver_client_axioms byte_client.caching_spec]) simp

definition member_truth :: "query \<Rightarrow> partial_validity may_abort" where
  "member_truth q = Some (if q_expr q \<in> set (q_constraints q) then MustBeTrue else PVNone)"

definition member_solver :: "expr_env \<Rightarrow> incomplete_solver" where
  "member_solver E = \<lparr>i_computeValidity = IncompleteSolver_computeValidity E member_truth, i_computeTruth = member_truth,
     i_computeValue = (\<lambda>_. Some None), i_computeInitialValues = (\<lambda>_ _. Some None)\<rparr>"

lemma member_truth_holds: "\<exists>pv. member_truth q = Some pv \<and> pv_holds q pv \<and> pv \<in> {MustBeTrue, MayBeFalse, PVNone}"
  by (auto simp: member_truth_def valid_def models_def)

lemma member_incomplete_ok: "incomplete_ok (apint_env False) one_byte (member_solver (apint_env False))"
  unfolding incomplete_ok_def member_solver_def incomplete_solver.simps
  using byte_client.default_partial_validity [where tr = member_truth and opt = False, OF negation_too_client [OF byte_client.solver_client_axioms]]
    member_truth_holds by fastforce

subsection \<open>Properties\<close>

text \<open>C9: a solver with a cache keeps the promises of the solver it wraps, whatever the state of the cache. The answers that were
  stored for a query or its negation, complete or partial, are only used where they decide the question, and every entry stays right.\<close>

theorem caching_solver_correct:
  assumes "solver_client (henv H) Q sure S I"
  shows "solver_client (henv H) Q sure (CachingSolver H S) (caching_inv I) \<and> (\<forall>s. caching_inv I (s, Map.empty) = I s)"
proof -
  have "solver_user (henv H) Q sure S I" using assms by (simp add: solver_client_def)
  from client_of_spec [OF assms solver_user.caching_spec [OF this refl]] show ?thesis by (simp add: caching_inv_def entries_ok_def)
qed

theorem caching_solver_correct_witness:
  "solver_client (apint_env False) one_byte True (CachingSolver demo_hash byte_solver) (caching_inv (\<lambda>_. True))"
  using caching_solver_correct [of demo_hash, simplified, OF byte_client.solver_client_axioms] by simp

text \<open>C21: a staged solver keeps the promises of the complete solver, as long as the incomplete solver in front of it is right when
  it answers and never answers \<^verbatim>\<open>MayBeTrue\<close> to \<^verbatim>\<open>computeTruth\<close>; where the first solver gives a partial answer, the second
  one is asked only for what is missing.\<close>

theorem staged_solver_correct:
  assumes "solver_client E Q sure S I" "incomplete_ok E Q P"
  shows "solver_client E Q sure (StagedSolverImpl E P S) I"
proof -
  have "solver_user E Q sure S I" using assms(1) by (simp add: solver_client_def)
  from client_of_spec [OF assms(1) solver_user.staged_spec [OF this assms(2)]] show ?thesis .
qed

theorem staged_solver_correct_witness:
  "solver_client (apint_env False) one_byte True (StagedSolverImpl (apint_env False) (member_solver (apint_env False)) byte_solver) (\<lambda>_. True)"
  by (rule staged_solver_correct [OF byte_client.solver_client_axioms member_incomplete_ok])

end
