(* ===== verification/IndependentSolver.thy ===== *)
theory IndependentSolver
  imports Solver Evaluator "HOL-Library.AList"
begin

text \<open>
  The solver that drops the constraints a query does not depend on, \<^verbatim>\<open>IndependentSolver.cpp\<close>, and the search for the
  reads of an expression that it uses, \<^verbatim>\<open>findReads\<close> in \<^verbatim>\<open>ExprUtil.cpp\<close>.
\<close>

declare One_nat_def [simp del]

subsection \<open>The reads of an expression\<close>

text \<open>\<^verbatim>\<open>if (!isa<ConstantExpr>(k) && visited.insert(k).second) stack.push_back(k)\<close>; the back of the stack is the head of the list.\<close>

definition push_new :: "expr \<Rightarrow> expr list \<times> expr list \<Rightarrow> expr list \<times> expr list" where
  "push_new k = (\<lambda>(stack, visited). if isConstant k \<or> k \<in> set visited then (stack, visited) else (k # stack, k # visited))"

fun push_updates :: "update_node \<Rightarrow> expr list \<times> expr list \<Rightarrow> expr list \<times> expr list" where
  "push_updates NoUpdate st = st"
| "push_updates (UpdateNode x v n) st = push_updates n (push_new v (push_new x st))"

definition push_kids :: "expr list \<Rightarrow> expr list \<times> expr list \<Rightarrow> expr list \<times> expr list" where
  "push_kids ks st = foldl (\<lambda>st k. push_new k st) st ks"

text \<open>The size of the stack, by which the loop ends.\<close>

definition stack_size :: "expr list \<Rightarrow> nat" where
  "stack_size stack = sum_list (map (\<lambda>e. 3 * size e + 1) stack)"

lemma stack_size_simps [simp]: "stack_size [] = 0" "stack_size (e # st) = 3 * size e + 1 + stack_size st"
  by (simp_all add: stack_size_def)

lemma push_new_size: "stack_size (fst (push_new k st)) \<le> stack_size (fst st) + (3 * size k + 1)"
  by (auto simp: push_new_def split: prod.split)

lemma push_updates_size: "stack_size (fst (push_updates us st)) \<le> stack_size (fst st) + 3 * size us"
proof (induction us st rule: push_updates.induct)
  case (2 x v n st)
  then show ?case using push_new_size [of v "push_new x st"] push_new_size [of x st] by simp
qed simp

lemma push_kids_size: "stack_size (fst (push_kids ks st)) \<le> stack_size (fst st) + stack_size ks"
proof (induction ks arbitrary: st)
  case (Cons k ks)
  show ?case using Cons.IH [of "push_new k st"] push_new_size [of k st] by (simp add: push_kids_def)
qed (simp add: push_kids_def)

lemma get_kids_size: "stack_size (get_kids e) < 3 * size e + 1"
  by (cases e) auto

text \<open>\<^verbatim>\<open>dyn_cast<ReadExpr>\<close>.\<close>

fun dyn_read :: "expr \<Rightarrow> (array \<times> update_node \<times> expr) option" where
  "dyn_read (ReadExpr root us i) = Some (root, us, i)"
| "dyn_read _ = None"

lemma dyn_read_Some: "dyn_read e = Some (root, us, i) \<longleftrightarrow> e = ReadExpr root us i"
  by (cases e) auto

text \<open>The loop. The set \<^verbatim>\<open>updates\<close> holds the heads of the update lists that were seen.\<close>

function findReads_loop :: "bool \<Rightarrow> expr list \<Rightarrow> expr list \<Rightarrow> update_node list \<Rightarrow> expr list \<Rightarrow> expr list" where
  "findReads_loop visitUpdates [] visited updates results = results"
| "findReads_loop visitUpdates (e # stack) visited updates results =
    (case dyn_read e of
       Some (root, us, i) \<Rightarrow>
         let (stack, visited) = push_new i (stack, visited);
             fresh = visitUpdates \<and> us \<notin> set updates;
             (stack, visited) = (if fresh then push_updates us (stack, visited) else (stack, visited))
         in findReads_loop visitUpdates stack visited (if fresh then us # updates else updates) (results @ [e])
     | None \<Rightarrow>
         let (stack, visited) = push_kids (get_kids e) (stack, visited)
         in findReads_loop visitUpdates stack visited updates results)"
  by pat_completeness auto
termination
proof (relation "measure (\<lambda>(visitUpdates, stack, visited, updates, results). stack_size stack)", goal_cases)
  case 1
  show ?case by simp
next
  case (2 vu e stack visited updates results x st vi)
  then show ?case
    using push_kids_size [of "get_kids e" "(stack, visited)"] get_kids_size [of e] by (auto dest: arg_cong [where f = fst])
next
  case (3 vu e stack visited updates results z root y us i x1 st vi fresh x2 st' vi')
  then show ?case
    using push_new_size [of i "(stack, visited)"] push_updates_size [of us "(st, vi)"]
    by (auto simp: dyn_read_Some split: if_splits dest: arg_cong [where f = fst] dest!: sym [of "(_, _)"])
qed

declare findReads_loop.simps [simp del]

definition findReads :: "expr \<Rightarrow> bool \<Rightarrow> expr list" where
  "findReads e visitUpdates = (if isConstant e then [] else findReads_loop visitUpdates [e] [e] [] [])"

subsection \<open>Every read is found\<close>

fun entries :: "update_node \<Rightarrow> expr list" where
  "entries NoUpdate = []"
| "entries (UpdateNode x v n) = x # v # entries n"

definition children :: "expr \<Rightarrow> expr list" where
  "children e = (case dyn_read e of Some (root, us, i) \<Rightarrow> i # entries us | None \<Rightarrow> get_kids e)"

definition seen :: "expr set \<Rightarrow> expr list \<Rightarrow> bool" where
  "seen V ks \<longleftrightarrow> (\<forall>k \<in> set ks. isConstant k \<or> k \<in> V)"

text \<open>What a step that offers the expressions \<open>ks\<close> does to the stack and to the visited expressions.\<close>

definition pushed :: "expr list \<Rightarrow> expr list \<times> expr list \<Rightarrow> expr list \<times> expr list \<Rightarrow> bool" where
  "pushed ks st st' \<longleftrightarrow> set (fst st) \<subseteq> set (fst st') \<and> set (snd st) \<subseteq> set (snd st') \<and> set (snd st') - set (snd st) \<subseteq> set (fst st') \<and>
    set (fst st') \<subseteq> set (fst st) \<union> set (snd st') \<and> seen (set (snd st')) ks"

lemma pushed_trans: "pushed ks st st' \<Longrightarrow> pushed ls st' st'' \<Longrightarrow> pushed (ks @ ls) st st''"
  unfolding pushed_def seen_def by auto

lemma pushed_none: "pushed [] st st"
  by (auto simp: pushed_def seen_def)

lemma pushed_new: "pushed [k] st (push_new k st)"
  by (auto simp: pushed_def seen_def push_new_def split: prod.split)

lemma pushed_updates: "pushed (entries us) st (push_updates us st)"
proof (induction us st rule: push_updates.induct)
  case (2 x v n st)
  from pushed_trans [OF pushed_trans [OF pushed_new pushed_new] 2] show ?case by simp
qed (simp add: pushed_none)

lemma pushed_kids: "pushed ks st (push_kids ks st)"
proof (induction ks arbitrary: st)
  case (Cons k ks)
  from pushed_trans [OF pushed_new Cons, of k st] show ?case by (simp add: push_kids_def)
qed (simp add: push_kids_def pushed_none)

definition loop_inv :: "expr list \<Rightarrow> expr list \<Rightarrow> update_node list \<Rightarrow> expr list \<Rightarrow> bool" where
  "loop_inv stack visited updates results \<longleftrightarrow>
    (\<forall>x \<in> set visited - set stack. seen (set visited) (children x) \<and> (dyn_read x \<noteq> None \<longrightarrow> x \<in> set results)) \<and>
    (\<forall>us \<in> set updates. seen (set visited) (entries us))"

lemma seen_mono: "seen V ks \<Longrightarrow> V \<subseteq> W \<Longrightarrow> seen W ks"
  by (auto simp: seen_def)

lemma loop_inv_step:
  assumes "loop_inv (e # stack) visited updates results" "pushed ks (stack, visited) (stack', visited')"
    and "seen (set visited') (children e)" "dyn_read e \<noteq> None \<longrightarrow> e \<in> set results'" "set results \<subseteq> set results'"
    and "\<forall>us \<in> set updates'. us \<in> set updates \<or> seen (set visited') (entries us)"
  shows "loop_inv stack' visited' updates' results'"
proof -
  have v: "set visited \<subseteq> set visited'" "set stack \<subseteq> set stack'" "set visited' - set visited \<subseteq> set stack'"
    using assms(2) by (auto simp: pushed_def)
  have "seen (set visited') (children x) \<and> (dyn_read x \<noteq> None \<longrightarrow> x \<in> set results')"
    if "x \<in> set visited'" "x \<notin> set stack'" for x
  proof (cases "x = e")
    case False
    with that v have "x \<in> set visited - set (e # stack)" by auto
    with assms(1) have "seen (set visited) (children x) \<and> (dyn_read x \<noteq> None \<longrightarrow> x \<in> set results)" unfolding loop_inv_def by blast
    with v(1) assms(5) show ?thesis by (meson seen_mono subset_iff)
  qed (use assms(3,4) in simp)
  moreover have "seen (set visited') (entries us)" if "us \<in> set updates'" for us
    using assms(1,6) that v(1) unfolding loop_inv_def by (meson seen_mono)
  ultimately show ?thesis unfolding loop_inv_def by blast
qed

lemma findReads_loop_closed:
  assumes "loop_inv stack visited updates results"
  shows "\<exists>V. set visited \<subseteq> V \<and> (\<forall>x \<in> V. seen V (children x) \<and> (dyn_read x \<noteq> None \<longrightarrow> x \<in> set (findReads_loop True stack visited updates results)))"
  using assms
proof (induction True stack visited updates results rule: findReads_loop.induct)
  case (1 visited updates results)
  then show ?case by (intro exI [where x = "set visited"]) (simp add: findReads_loop.simps loop_inv_def)
next
  case (2 e stack visited updates results)
  show ?case
  proof (cases "dyn_read e")
    case None
    obtain st vi where p: "push_kids (get_kids e) (stack, visited) = (st, vi)" by fastforce
    have k: "pushed (get_kids e) (stack, visited) (st, vi)" using pushed_kids p by metis
    hence "set visited \<subseteq> set vi" "seen (set vi) (children e)" by (auto simp: pushed_def children_def None)
    with loop_inv_step [OF 2(3) k, of results updates] None have "loop_inv st vi updates results" by simp
    from 2(1) [OF None p [symmetric] refl this] \<open>set visited \<subseteq> set vi\<close> show ?thesis
      by (simp add: findReads_loop.simps None p) (meson subset_trans)
  next
    case (Some r)
    obtain root us i where r: "r = (root, us, i)" by (cases r)
    obtain st vi where p: "push_new i (stack, visited) = (st, vi)" by fastforce
    define fresh where "fresh = (us \<notin> set updates)"
    obtain st' vi' where p': "(if fresh then push_updates us (st, vi) else (st, vi)) = (st', vi')" by fastforce
    have k: "pushed [i] (stack, visited) (st, vi)" using pushed_new p by metis
    have k': "pushed (if fresh then entries us else []) (st, vi) (st', vi')"
      using p' pushed_updates [of us "(st, vi)"] pushed_none [of "(st, vi)"] by (auto split: if_splits)
    note kk = pushed_trans [OF k k']
    hence v: "set visited \<subseteq> set vi'" by (auto simp: pushed_def)
    have u: "seen (set vi') (entries us)"
    proof (cases fresh)
      case True
      with kk show ?thesis by (auto simp: pushed_def seen_def)
    next
      case False
      with 2(3) have "seen (set visited) (entries us)" by (simp add: loop_inv_def fresh_def)
      with v show ?thesis by (rule seen_mono [rotated])
    qed
    moreover have "seen (set vi') [i]" using kk by (auto simp: pushed_def seen_def)
    ultimately have c: "seen (set vi') (children e)" by (simp add: children_def Some r seen_def)
    have "loop_inv st' vi' (if fresh then us # updates else updates) (results @ [e])"
      by (rule loop_inv_step [OF 2(3) kk c]) (use u in auto)
    moreover have "findReads_loop True (e # stack) visited updates results =
        findReads_loop True st' vi' (if fresh then us # updates else updates) (results @ [e])"
      using p' unfolding findReads_loop.simps(2) by (cases fresh) (simp_all add: Some r p flip: fresh_def)
    ultimately show ?thesis
      using 2(2) [OF Some r [symmetric] refl refl p [symmetric] _ refl, of fresh st' vi'] p' v unfolding fresh_def
      by (simp only: simp_thms) (meson subset_trans)
  qed
qed

lemma findReads_closed:
  obtains V where "isConstant e \<or> e \<in> V" "\<forall>x \<in> V. seen V (children x) \<and> (dyn_read x \<noteq> None \<longrightarrow> x \<in> set (findReads e True))"
proof (cases "isConstant e")
  case True
  show thesis by (rule that [of "{}"]) (simp_all add: True)
next
  case False
  from findReads_loop_closed [of "[e]" "[e]" "[]" "[]"] obtain V where
    "e \<in> V" "\<forall>x \<in> V. seen V (children x) \<and> (dyn_read x \<noteq> None \<longrightarrow> x \<in> set (findReads_loop True [e] [e] [] []))"
    by (auto simp: loop_inv_def)
  with False show thesis by (intro that [of V]) (auto simp: findReads_def)
qed

text \<open>The cells of the arrays that the given reads can look at.\<close>

definition read_cells :: "expr list \<Rightarrow> (array \<times> nat) set" where
  "read_cells reads = {(root, j) |root us i j. ReadExpr root us i \<in> set reads \<and> \<not> (isConstantArray root \<and> us = NoUpdate) \<and>
    (\<forall>c. dyn_const i = Some c \<longrightarrow> j = nat (ap_val c))}"

lemma eval_cells:
  assumes closed: "\<forall>x \<in> V. seen V (children x) \<and> (dyn_read x \<noteq> None \<longrightarrow> x \<in> set reads)"
    and same: "\<forall>(root, j) \<in> read_cells reads. \<alpha> root j = \<beta> root j" and b: "bytes \<alpha>"
  shows "isConstant e \<or> e \<in> V \<Longrightarrow> reads_ok \<alpha> e \<Longrightarrow> wf_expr e \<Longrightarrow> eval \<alpha> e = eval \<beta> e"
    and "seen V (entries us) \<Longrightarrow> updates_reads_ok \<alpha> us \<Longrightarrow> wf_updates us \<Longrightarrow> eval_updates \<alpha> us x d = eval_updates \<beta> us x d"
proof (induction e and us arbitrary: and x d)
  case (ReadExpr root us i)
  from ReadExpr.prems(1) have v: "ReadExpr root us i \<in> V" by simp
  with closed have c: "seen V (i # entries us)" "ReadExpr root us i \<in> set reads" by (fastforce simp: children_def)+
  have i: "eval \<alpha> i = eval \<beta> i" using ReadExpr.IH(2) c(1) ReadExpr.prems(2,3) by (auto simp: seen_def)
  have "initial_value \<alpha> root (eval \<alpha> i) = initial_value \<beta> root (eval \<alpha> i)"
  proof (cases "isConstantArray root \<and> nat (eval \<alpha> i) < arr_size root")
    case False
    hence n: "\<not> (isConstantArray root \<and> us = NoUpdate)"
      using ReadExpr.prems(2,3) eval_range(1) [OF b, of i] by auto
    have "\<alpha> root (nat (eval \<alpha> i)) = \<beta> root (nat (eval \<alpha> i))"
    proof -
      have "(root, nat (eval \<alpha> i)) \<in> read_cells reads"
        unfolding read_cells_def using c(2) n by (auto simp: dyn_const_Some intro!: exI [where x = us] exI [where x = i])
      with same show ?thesis by blast
    qed
    with False show ?thesis by (auto simp: initial_value_def)
  qed (simp add: initial_value_def)
  with i ReadExpr.IH(1) c(1) ReadExpr.prems(2,3) show ?case by (simp add: seen_def)
qed (use closed in \<open>auto simp: seen_def children_def dest: bspec\<close>)

subsection \<open>Sets of elements\<close>

text \<open>\<^verbatim>\<open>DenseSet<unsigned>\<close> and \<^verbatim>\<open>IndependentElementSet\<close>; maps and sets are lists without repetitions.\<close>

definition DenseSet_add :: "nat list \<Rightarrow> nat list \<Rightarrow> nat list \<times> bool" where
  "DenseSet_add s b = foldl (\<lambda>(s, modified) x. if modified \<or> x \<notin> set s then (List.insert x s, True) else (s, modified)) (s, False) b"

definition DenseSet_intersects :: "nat list \<Rightarrow> nat list \<Rightarrow> bool" where
  "DenseSet_intersects s b \<longleftrightarrow> list_ex (\<lambda>x. x \<in> set b) s"

record element_set =
  elements :: "(array \<times> nat list) list"
  wholeObjects :: "array list"

definition empty_set :: element_set where
  "empty_set = \<lparr>elements = [], wholeObjects = []\<rparr>"

definition add_read :: "expr_env \<Rightarrow> expr \<Rightarrow> element_set \<Rightarrow> element_set may_abort" where
  "add_read E re x =
    (case dyn_read re of
       None \<Rightarrow> None
     | Some (array, us, index) \<Rightarrow>
         if isConstantArray array \<and> us = NoUpdate then Some x
         else if array \<in> set (wholeObjects x) then Some x
         else case dyn_const index of
           Some CE \<Rightarrow> do {
             v \<leftarrow> getZExtValue E 32 CE;
             let dis = (case map_of (elements x) array of Some d \<Rightarrow> d | None \<Rightarrow> []);
             Some (x\<lparr>elements := AList.update array (List.insert (unat (ucast v :: uint32_t)) dis) (elements x)\<rparr>) }
         | None \<Rightarrow> Some (x\<lparr>elements := AList.delete array (elements x), wholeObjects := List.insert array (wholeObjects x)\<rparr>))"

fun add_reads :: "expr_env \<Rightarrow> expr list \<Rightarrow> element_set \<Rightarrow> element_set may_abort" where
  "add_reads E [] x = Some x"
| "add_reads E (re # reads) x = do { x \<leftarrow> add_read E re x; add_reads E reads x }"

definition IndependentElementSet :: "expr_env \<Rightarrow> expr \<Rightarrow> element_set may_abort" where
  "IndependentElementSet E e = add_reads E (findReads e True) empty_set"

definition intersects :: "element_set \<Rightarrow> element_set \<Rightarrow> bool" where
  "intersects x b \<longleftrightarrow>
    list_ex (\<lambda>array. array \<in> set (wholeObjects b) \<or> map_of (elements b) array \<noteq> None) (wholeObjects x) \<or>
    list_ex (\<lambda>(array, dis). array \<in> set (wholeObjects b) \<or>
      (case map_of (elements b) array of Some dis' \<Rightarrow> DenseSet_intersects dis dis' | None \<Rightarrow> False)) (elements x)"

definition add_whole :: "element_set \<times> bool \<Rightarrow> array \<Rightarrow> element_set \<times> bool" where
  "add_whole = (\<lambda>(x, modified) array.
    if map_of (elements x) array \<noteq> None
    then (x\<lparr>elements := AList.delete array (elements x), wholeObjects := List.insert array (wholeObjects x)\<rparr>, True)
    else if array \<notin> set (wholeObjects x) then (x\<lparr>wholeObjects := List.insert array (wholeObjects x)\<rparr>, True)
    else (x, modified))"

definition add_elements :: "element_set \<times> bool \<Rightarrow> array \<times> nat list \<Rightarrow> element_set \<times> bool" where
  "add_elements = (\<lambda>(x, modified) (array, dis).
    if array \<in> set (wholeObjects x) then (x, modified)
    else case map_of (elements x) array of
        None \<Rightarrow> (x\<lparr>elements := AList.update array dis (elements x)\<rparr>, True)
      | Some d \<Rightarrow> (let (d', m) = DenseSet_add d dis in (x\<lparr>elements := AList.update array d' (elements x)\<rparr>, modified \<or> m)))"

definition add_set :: "element_set \<Rightarrow> element_set \<Rightarrow> element_set \<times> bool" where
  "add_set x b = foldl add_elements (foldl add_whole (x, False) (wholeObjects b)) (elements b)"

subsection \<open>Independent constraints\<close>

text \<open>One pass over the worklist: the closure, whether nothing was added, the required constraints and the rest.\<close>

fun ind_pass :: "(expr \<times> element_set) list \<Rightarrow> element_set \<Rightarrow> bool \<Rightarrow> expr list \<Rightarrow> (expr \<times> element_set) list \<Rightarrow>
    element_set \<times> bool \<times> expr list \<times> (expr \<times> element_set) list" where
  "ind_pass [] eltsClosure done result newWorklist = (eltsClosure, done, result, newWorklist)"
| "ind_pass ((c, x) # worklist) eltsClosure done result newWorklist =
    (if intersects x eltsClosure then
       let (eltsClosure, modified) = add_set eltsClosure x
       in ind_pass worklist eltsClosure (done \<and> \<not> modified) (result @ [c]) newWorklist
     else ind_pass worklist eltsClosure done result (newWorklist @ [(c, x)]))"

lemma ind_pass_length:
  "ind_pass wl cl d r nw = (cl', d', r', nw') \<Longrightarrow> length nw' \<le> length wl + length nw \<and> (d \<and> \<not> d' \<longrightarrow> length nw' < length wl + length nw)"
proof (induction wl cl d r nw rule: ind_pass.induct)
  case (2 c x wl cl d r nw)
  show ?case
  proof (cases "intersects x cl")
    case True
    obtain cl'' m where a: "add_set cl x = (cl'', m)" by fastforce
    from 2(1) [OF True a [symmetric] refl] 2(3) True a show ?thesis by (auto; fastforce)
  next
    case False
    from 2(2) [OF False] 2(3) False show ?thesis by auto
  qed
qed simp

function ind_loop :: "(expr \<times> element_set) list \<Rightarrow> element_set \<Rightarrow> expr list \<Rightarrow> element_set \<times> expr list" where
  "ind_loop worklist eltsClosure result =
    (case ind_pass worklist eltsClosure True result [] of
       (eltsClosure, done, result, newWorklist) \<Rightarrow>
         if done then (eltsClosure, result) else ind_loop newWorklist eltsClosure result)"
  by pat_completeness auto
termination
  by (relation "measure (\<lambda>(worklist, eltsClosure, result). length worklist)") (auto dest: ind_pass_length [OF sym])

declare ind_loop.simps [simp del]

fun element_sets :: "expr_env \<Rightarrow> expr list \<Rightarrow> (expr \<times> element_set) list may_abort" where
  "element_sets E [] = Some []"
| "element_sets E (c # cs) = do { x \<leftarrow> IndependentElementSet E c; r \<leftarrow> element_sets E cs; Some ((c, x) # r) }"

definition getIndependentConstraints :: "expr_env \<Rightarrow> query \<Rightarrow> (element_set \<times> expr list) may_abort" where
  "getIndependentConstraints E q = do {
    eltsClosure \<leftarrow> IndependentElementSet E (q_expr q);
    worklist \<leftarrow> element_sets E (q_constraints q);
    Some (ind_loop worklist eltsClosure []) }"

definition independent_query :: "expr_env \<Rightarrow> query \<Rightarrow> query may_abort" where
  "independent_query E q = do {
    (eltsClosure, required) \<leftarrow> getIndependentConstraints E q;
    Some \<lparr>q_constraints = required, q_expr = q_expr q\<rparr> }"

definition IndependentSolver :: "expr_env \<Rightarrow> 's solver_impl \<Rightarrow> 's solver_impl" where
  "IndependentSolver E S = \<lparr>
     computeValidity = (\<lambda>q. if_ok (or_abort (independent_query E q)) (computeValidity S)),
     computeTruth = (\<lambda>q. if_ok (or_abort (independent_query E q)) (computeTruth S)),
     computeValue = (\<lambda>q. if_ok (or_abort (independent_query E q)) (computeValue S)),
     computeInitialValues = computeInitialValues S\<rparr>"

subsection \<open>The cells of a set\<close>

definition cells :: "element_set \<Rightarrow> (array \<times> nat) set" where
  "cells x = {(a, j). a \<in> set (wholeObjects x) \<or> (\<exists>d. map_of (elements x) a = Some d \<and> j \<in> set d)}"

lemma cells_iff: "(a, j) \<in> cells x \<longleftrightarrow> a \<in> set (wholeObjects x) \<or> (\<exists>d. map_of (elements x) a = Some d \<and> j \<in> set d)"
  by (simp add: cells_def)

lemma not_intersects:
  assumes "\<not> intersects x b"
  shows "cells x \<inter> cells b = {}"
proof -
  have w: "a \<notin> set (wholeObjects b) \<and> map_of (elements b) a = None" if "a \<in> set (wholeObjects x)" for a
    using assms that by (auto simp: intersects_def list_ex_iff)
  have e: "a \<notin> set (wholeObjects b) \<and> (\<forall>d'. map_of (elements b) a = Some d' \<longrightarrow> set d \<inter> set d' = {})"
    if "map_of (elements x) a = Some d" for a d
    using assms map_of_SomeD [OF that] by (fastforce simp: intersects_def list_ex_iff DenseSet_intersects_def)
  have False if "(a, j) \<in> cells x" "(a, j) \<in> cells b" for a j
    using that w [of a] e [of a] by (auto simp: cells_iff)
  thus ?thesis by auto
qed

lemma DenseSet_add_fold:
  "foldl (\<lambda>(s, modified) x. if modified \<or> x \<notin> set s then (List.insert x s, True) else (s, modified)) (s, m) b = (s', m') \<Longrightarrow>
    set s' = set s \<union> set b \<and> (\<not> m' \<longrightarrow> s' = s \<and> \<not> m)"
  by (induction b arbitrary: s m) (auto split: if_splits)

lemma DenseSet_add: "DenseSet_add s b = (s', m) \<Longrightarrow> set s' = set s \<union> set b \<and> (\<not> m \<longrightarrow> s' = s)"
  unfolding DenseSet_add_def by (drule DenseSet_add_fold) simp

text \<open>Two sets with the same elements, up to the order of the entries.\<close>

definition same_set :: "element_set \<Rightarrow> element_set \<Rightarrow> bool" where
  "same_set x y \<longleftrightarrow> map_of (elements x) = map_of (elements y) \<and> set (wholeObjects x) = set (wholeObjects y)"

lemma same_set_refl [simp]: "same_set x x"
  by (simp add: same_set_def)

lemma same_set_trans: "same_set x y \<Longrightarrow> same_set y z \<Longrightarrow> same_set x z"
  by (simp add: same_set_def)

lemma same_set_intersects: "same_set b b' \<Longrightarrow> intersects x b = intersects x b'"
  unfolding intersects_def same_set_def by simp

lemma add_whole_cells:
  assumes "add_whole (x, m) a = (x', m')"
  shows "cells x \<union> {a} \<times> UNIV \<subseteq> cells x' \<and> (\<not> m' \<longrightarrow> \<not> m \<and> same_set x x')"
  using assms by (auto simp: add_whole_def cells_iff AList.delete_conv split: if_splits)

lemma add_elements_cells:
  assumes "add_elements (x, m) (a, d) = (x', m')"
  shows "cells x \<union> {a} \<times> set d \<subseteq> cells x' \<and> (\<not> m' \<longrightarrow> \<not> m \<and> same_set x x')"
proof (cases "a \<in> set (wholeObjects x)")
  case False
  show ?thesis
  proof (cases "map_of (elements x) a")
    case (Some d0)
    obtain d' k where d: "DenseSet_add d0 d = (d', k)" by fastforce
    with DenseSet_add [OF d] assms False Some show ?thesis
      by (auto simp: add_elements_def cells_iff same_set_def update_conv)
  qed (use assms False in \<open>auto simp: add_elements_def cells_iff update_conv\<close>)
qed (use assms in \<open>auto simp: add_elements_def cells_iff\<close>)

lemma fold_whole_cells:
  "foldl add_whole (x, m) as = (x', m') \<Longrightarrow> cells x \<union> set as \<times> UNIV \<subseteq> cells x' \<and> (\<not> m' \<longrightarrow> \<not> m \<and> same_set x x')"
proof (induction as arbitrary: x m)
  case (Cons a as)
  obtain y k where y: "add_whole (x, m) a = (y, k)" by fastforce
  with Cons.IH [of y k] Cons.prems add_whole_cells [OF y] show ?case by (auto intro: same_set_trans)
qed simp

lemma fold_elements_cells:
  "foldl add_elements (x, m) es = (x', m') \<Longrightarrow>
    cells x \<union> {(a, j). \<exists>d. (a, d) \<in> set es \<and> j \<in> set d} \<subseteq> cells x' \<and> (\<not> m' \<longrightarrow> \<not> m \<and> same_set x x')"
proof (induction es arbitrary: x m)
  case (Cons e es)
  obtain a d where e: "e = (a, d)" by fastforce
  obtain y k where y: "add_elements (x, m) (a, d) = (y, k)" by fastforce
  with Cons.IH [of y k] Cons.prems add_elements_cells [OF y] e show ?case by (auto intro: same_set_trans)
qed simp

lemma add_set_cells:
  assumes "add_set x b = (x', m)"
  shows "cells x \<union> cells b \<subseteq> cells x'" "\<not> m \<Longrightarrow> same_set x x'"
proof -
  obtain y k where y: "foldl add_whole (x, False) (wholeObjects b) = (y, k)" by fastforce
  with assms have e: "foldl add_elements (y, k) (elements b) = (x', m)" by (simp add: add_set_def)
  note f = fold_whole_cells [OF y] fold_elements_cells [OF e]
  have "cells b \<subseteq> set (wholeObjects b) \<times> UNIV \<union> {(a, j). \<exists>d. (a, d) \<in> set (elements b) \<and> j \<in> set d}"
    by (auto simp: cells_def dest: map_of_SomeD)
  with f show "cells x \<union> cells b \<subseteq> cells x'" by blast
  show "\<not> m \<Longrightarrow> same_set x x'" using f by (auto intro: same_set_trans)
qed

lemma add_read_cells:
  assumes "apint_laws E" "wf_expr (ReadExpr root us i)"
  obtains x' where "add_read E (ReadExpr root us i) x = Some x'" "cells x \<union> read_cells [ReadExpr root us i] \<subseteq> cells x'"
proof (cases "isConstantArray root \<and> us = NoUpdate \<or> root \<in> set (wholeObjects x)")
  case True
  thus thesis by (intro that [of x]) (auto simp: add_read_def read_cells_def cells_iff)
next
  case False
  show thesis
  proof (cases "dyn_const i")
    case None
    let ?x = "x\<lparr>elements := AList.delete root (elements x), wholeObjects := List.insert root (wholeObjects x)\<rparr>"
    from None False show thesis
      by (intro that [of ?x]) (auto simp: add_read_def cells_iff read_cells_def delete_conv)
  next
    case (Some c)
    have c: "wf_ap c" "ap_width c = 32" using assms(2) Some by (auto simp: dyn_const_Some)
    hence g: "getZExtValue E 32 c = Some (word_of_int (ap_val c))" using apint_laws.getZExtValue_eq [OF assms(1), of c 32] by simp
    have u: "unat (ucast (word_of_int (ap_val c) :: uint64_t) :: uint32_t) = nat (ap_val c)"
      using c by (simp add: unat_eq_nat_uint unsigned_ucast_eq take_bit_eq_mod uint_word_of_int wf_ap_def)
    let ?dis = "case map_of (elements x) root of Some d \<Rightarrow> d | None \<Rightarrow> []"
    let ?x = "x\<lparr>elements := AList.update root (List.insert (nat (ap_val c)) ?dis) (elements x)\<rparr>"
    from False Some g u show thesis
      by (intro that [of ?x]) (auto simp: add_read_def Let_def cells_iff read_cells_def update_conv split: option.splits)
  qed
qed

text \<open>The expressions found are well-formed reads.\<close>

definition wf_read :: "expr \<Rightarrow> bool" where
  "wf_read e \<longleftrightarrow> wf_expr e \<and> dyn_read e \<noteq> None"

lemma wf_entries: "wf_updates us \<Longrightarrow> k \<in> set (entries us) \<Longrightarrow> wf_expr k"
  by (induction us rule: entries.induct) auto

lemma wf_children: "wf_expr e \<Longrightarrow> k \<in> set (children e) \<Longrightarrow> wf_expr k"
  by (cases e) (auto simp: children_def dest: wf_entries)

lemma push_new_stack: "set (fst (push_new k st)) \<subseteq> insert k (set (fst st))"
  by (auto simp: push_new_def split: prod.splits if_splits)

lemma push_updates_stack: "set (fst (push_updates us st)) \<subseteq> set (entries us) \<union> set (fst st)"
proof (induction us st rule: push_updates.induct)
  case (2 x v n st)
  then show ?case using push_new_stack [of v "push_new x st"] push_new_stack [of x st] by auto
qed simp

lemma push_kids_stack: "set (fst (push_kids ks st)) \<subseteq> set ks \<union> set (fst st)"
proof (induction ks arbitrary: st)
  case (Cons k ks)
  have "set (fst (push_kids (k # ks) st)) \<subseteq> set ks \<union> set (fst (push_new k st))"
    using Cons.IH [of "push_new k st"] by (simp add: push_kids_def)
  with push_new_stack [of k st] show ?case by auto
qed (simp add: push_kids_def)

lemma findReads_loop_wf:
  assumes "\<forall>e \<in> set stack. wf_expr e" "\<forall>e \<in> set results. wf_read e"
  shows "\<forall>e \<in> set (findReads_loop vu stack visited updates results). wf_read e"
  using assms
proof (induction vu stack visited updates results rule: findReads_loop.induct)
  case (2 vu e stack visited updates results)
  have e: "wf_expr e" "\<forall>k \<in> set (children e). wf_expr k" using 2(3) wf_children by auto
  show ?case
  proof (cases "dyn_read e")
    case None
    obtain st vi where p: "push_kids (get_kids e) (stack, visited) = (st, vi)" by fastforce
    have "\<forall>x \<in> set st. wf_expr x" using push_kids_stack [of "get_kids e" "(stack, visited)"] p e 2(3) None by (auto simp: children_def)
    from 2(1) [OF None p [symmetric] refl this 2(4)] show ?thesis by (simp add: findReads_loop.simps None p)
  next
    case (Some r)
    obtain root us i where r: "r = (root, us, i)" by (cases r)
    obtain st vi where p: "push_new i (stack, visited) = (st, vi)" by fastforce
    define fresh where "fresh = (vu \<and> us \<notin> set updates)"
    obtain st' vi' where p': "(if fresh then push_updates us (st, vi) else (st, vi)) = (st', vi')" by fastforce
    have "set st' \<subseteq> set (children e) \<union> set stack"
      using push_new_stack [of i "(stack, visited)"] push_updates_stack [of us "(st, vi)"] p p'
      by (auto simp: children_def Some r split: if_splits)
    hence "\<forall>x \<in> set st'. wf_expr x" using e 2(3) by auto
    moreover have "\<forall>x \<in> set (results @ [e]). wf_read x" using 2(4) e(1) Some r by (auto simp: wf_read_def)
    moreover have "findReads_loop vu (e # stack) visited updates results =
        findReads_loop vu st' vi' (if fresh then us # updates else updates) (results @ [e])"
      using p' unfolding findReads_loop.simps(2) by (cases fresh) (simp_all add: Some r p flip: fresh_def)
    ultimately show ?thesis
      using 2(2) [OF Some r [symmetric] refl refl p [symmetric] _ refl, of fresh st' vi'] p' unfolding fresh_def
      by (simp only: simp_thms True_implies_equals)
  qed
qed (simp add: findReads_loop.simps)

lemma add_reads_cells:
  assumes "apint_laws E" "\<forall>e \<in> set reads. wf_read e"
  shows "\<exists>x'. add_reads E reads x = Some x' \<and> cells x \<union> read_cells reads \<subseteq> cells x'"
  using assms(2)
proof (induction reads arbitrary: x)
  case Nil
  thus ?case by (simp add: read_cells_def)
next
  case (Cons re reads)
  then obtain root us i where re: "re = ReadExpr root us i" "wf_expr re" by (auto simp: wf_read_def dyn_read_Some)
  with add_read_cells [OF assms(1), of root us i x] obtain y where
    y: "add_read E re x = Some y" "cells x \<union> read_cells [re] \<subseteq> cells y" by metis
  moreover obtain x' where "add_reads E reads y = Some x'" "cells y \<union> read_cells reads \<subseteq> cells x'"
    using Cons.IH [of y] Cons.prems by (meson list.set_intros(2))
  moreover have "read_cells (re # reads) = read_cells [re] \<union> read_cells reads"
    unfolding read_cells_def by (simp add: set_eq_iff) blast
  ultimately show ?case by auto
qed

text \<open>The value of an expression depends on the cells of its set only.\<close>

lemma IndependentElementSet_cells:
  assumes "apint_laws E" "wf_expr e"
  obtains x where "IndependentElementSet E e = Some x"
    "\<forall>\<alpha> \<beta>. bytes \<alpha> \<longrightarrow> reads_ok \<alpha> e \<longrightarrow> (\<forall>(a, j) \<in> cells x. \<alpha> a j = \<beta> a j) \<longrightarrow> eval \<alpha> e = eval \<beta> e"
proof -
  have "\<forall>r \<in> set (findReads e True). wf_read r"
    using findReads_loop_wf [of "[e]" "[]"] assms(2) by (auto simp: findReads_def)
  from add_reads_cells [OF assms(1) this, of empty_set] obtain x where
    x: "IndependentElementSet E e = Some x" "read_cells (findReads e True) \<subseteq> cells x" by (auto simp: IndependentElementSet_def)
  from findReads_closed [of e] obtain V where v: "isConstant e \<or> e \<in> V"
    "\<forall>x \<in> V. seen V (children x) \<and> (dyn_read x \<noteq> None \<longrightarrow> x \<in> set (findReads e True))" .
  show thesis
  proof (rule that [OF x(1)], intro allI impI)
    fix \<alpha> \<beta> assume "bytes \<alpha>" "reads_ok \<alpha> e" "\<forall>(a, j) \<in> cells x. \<alpha> a j = \<beta> a j"
    with x(2) show "eval \<alpha> e = eval \<beta> e"
      by (intro eval_cells(1) [OF v(2) _ _ v(1)]) (use assms(2) in auto)
  qed
qed

subsection \<open>The dropped constraints are independent\<close>

text \<open>
  After a pass, the constraints it has moved have their cells in the closure; the rest is still in the worklist.
  A pass that reports that it is done has left the closure as it was, so the rest does not intersect it.
\<close>

lemma ind_pass_moves:
  assumes "ind_pass wl cl d r nw = (cl', d', r', nw')"
  shows "cells cl \<subseteq> cells cl' \<and> set r \<subseteq> set r' \<and> set nw \<subseteq> set nw' \<and> set nw' \<subseteq> set nw \<union> set wl \<and>
    (\<forall>c x. (c, x) \<in> set wl \<longrightarrow> c \<in> set r' \<and> cells x \<subseteq> cells cl' \<or> (c, x) \<in> set nw') \<and>
    (\<forall>c. c \<in> set r' \<longrightarrow> c \<in> set r \<or> (\<exists>x. (c, x) \<in> set wl \<and> cells x \<subseteq> cells cl'))"
  using assms
proof (induction wl cl d r nw rule: ind_pass.induct)
  case (2 c x wl cl d r nw)
  show ?case
  proof (cases "intersects x cl")
    case True
    obtain cl'' m where a: "add_set cl x = (cl'', m)" by fastforce
    have eq: "ind_pass wl cl'' (d \<and> \<not> m) (r @ [c]) nw = (cl', d', r', nw')" using 2(3) True a by simp
    note ih = 2(1) [OF True a [symmetric] refl eq]
    from ih have "cells cl'' \<subseteq> cells cl'" by simp
    with add_set_cells(1) [OF a] have "cells cl \<subseteq> cells cl'" "cells x \<subseteq> cells cl'" by auto
    with ih show ?thesis by (auto 0 3)
  next
    case False
    hence eq: "ind_pass wl cl d r (nw @ [(c, x)]) = (cl', d', r', nw')" using 2(3) by simp
    from 2(2) [OF False eq] show ?thesis by (auto 0 3)
  qed
qed auto

lemma ind_pass_done:
  assumes "ind_pass wl cl d r nw = (cl', True, r', nw')"
  shows "d \<and> same_set cl cl' \<and> (\<forall>c x. (c, x) \<in> set nw' \<longrightarrow> (c, x) \<in> set nw \<or> \<not> intersects x cl')"
  using assms
proof (induction wl cl d r nw rule: ind_pass.induct)
  case (2 c x wl cl d r nw)
  show ?case
  proof (cases "intersects x cl")
    case True
    obtain cl'' m where a: "add_set cl x = (cl'', m)" by fastforce
    have eq: "ind_pass wl cl'' (d \<and> \<not> m) (r @ [c]) nw = (cl', True, r', nw')" using 2(3) True a by simp
    from 2(1) [OF True a [symmetric] refl eq] add_set_cells(2) [OF a] show ?thesis by (auto intro: same_set_trans)
  next
    case False
    hence eq: "ind_pass wl cl d r (nw @ [(c, x)]) = (cl', True, r', nw')" using 2(3) by simp
    from 2(2) [OF False eq] False same_set_intersects [of cl cl' x] show ?thesis by auto
  qed
qed auto

lemma ind_loop_split:
  assumes "ind_loop wl cl r = (cl', r')"
  shows "cells cl \<subseteq> cells cl' \<and> set r \<subseteq> set r' \<and>
    (\<forall>c x. (c, x) \<in> set wl \<longrightarrow> c \<in> set r' \<and> cells x \<subseteq> cells cl' \<or> cells x \<inter> cells cl' = {}) \<and>
    (\<forall>c. c \<in> set r' \<longrightarrow> c \<in> set r \<or> (\<exists>x. (c, x) \<in> set wl \<and> cells x \<subseteq> cells cl'))"
  using assms
proof (induction wl cl r rule: ind_loop.induct)
  case (1 wl cl r)
  obtain cl1 d r1 nw where p: "ind_pass wl cl True r [] = (cl1, d, r1, nw)" by (cases "ind_pass wl cl True r []") auto
  note m = ind_pass_moves [OF p]
  show ?case
  proof (cases d)
    case True
    with 1(2) p have e: "cl1 = cl'" "r1 = r'" and p': "ind_pass wl cl True r [] = (cl1, True, r1, nw)" by (auto simp: ind_loop.simps)
    have "\<forall>c x. (c, x) \<in> set nw \<longrightarrow> cells x \<inter> cells cl' = {}"
      using ind_pass_done [OF p'] not_intersects unfolding e by (metis empty_iff list.set(1))
    with m show ?thesis unfolding e by blast
  next
    case False
    hence "ind_loop nw cl1 r1 = (cl', r')" using 1(2) p by (simp add: ind_loop.simps [of wl])
    note ih = 1(1) [OF p [symmetric] refl refl False this]
    from ih m have k: "cells cl1 \<subseteq> cells cl'" "set r1 \<subseteq> set r'" "set nw \<subseteq> set wl" by auto
    show ?thesis
    proof (intro conjI allI impI)
      show "cells cl \<subseteq> cells cl'" "set r \<subseteq> set r'" using m k by auto
    next
      fix c x assume "(c, x) \<in> set wl"
      from m [THEN conjunct2, THEN conjunct2, THEN conjunct2, THEN conjunct2, THEN conjunct1, rule_format, OF this]
      consider "c \<in> set r1" "cells x \<subseteq> cells cl1" | "(c, x) \<in> set nw" by blast
      thus "c \<in> set r' \<and> cells x \<subseteq> cells cl' \<or> cells x \<inter> cells cl' = {}"
      proof cases
        case 2
        from ih [THEN conjunct2, THEN conjunct2, THEN conjunct1, rule_format, OF this] show ?thesis .
      qed (use k in auto)
    next
      fix c assume "c \<in> set r'"
      from ih [THEN conjunct2, THEN conjunct2, THEN conjunct2, rule_format, OF this]
      consider "c \<in> set r1" | x where "(c, x) \<in> set nw" "cells x \<subseteq> cells cl'" by blast
      thus "c \<in> set r \<or> (\<exists>x. (c, x) \<in> set wl \<and> cells x \<subseteq> cells cl')"
      proof cases
        case 1
        from m [THEN conjunct2, THEN conjunct2, THEN conjunct2, THEN conjunct2, THEN conjunct2, rule_format, OF this]
        consider "c \<in> set r" | x where "(c, x) \<in> set wl" "cells x \<subseteq> cells cl1" by blast
        thus ?thesis by cases (use k(1) in \<open>meson subset_trans\<close>)+
      qed (use k in auto)
    qed
  qed
qed

lemma element_sets_ok:
  assumes "apint_laws E" "\<forall>c \<in> set cs. wf_expr c"
  obtains wl where "element_sets E cs = Some wl" "map fst wl = cs"
    "\<forall>(c, x) \<in> set wl. \<forall>\<alpha> \<beta>. bytes \<alpha> \<longrightarrow> reads_ok \<alpha> c \<longrightarrow> (\<forall>(a, j) \<in> cells x. \<alpha> a j = \<beta> a j) \<longrightarrow> eval \<alpha> c = eval \<beta> c"
proof -
  have "\<exists>wl. element_sets E cs = Some wl \<and> map fst wl = cs \<and> 
    (\<forall>(c, x) \<in> set wl. \<forall>\<alpha> \<beta>. bytes \<alpha> \<longrightarrow> reads_ok \<alpha> c \<longrightarrow> (\<forall>(a, j) \<in> cells x. \<alpha> a j = \<beta> a j) \<longrightarrow> eval \<alpha> c = eval \<beta> c)"
    using assms(2)
  proof (induction cs)
    case (Cons c cs)
    then obtain wl where wl: "element_sets E cs = Some wl" "map fst wl = cs"
      "\<forall>(c, x) \<in> set wl. \<forall>\<alpha> \<beta>. bytes \<alpha> \<longrightarrow> reads_ok \<alpha> c \<longrightarrow> (\<forall>(a, j) \<in> cells x. \<alpha> a j = \<beta> a j) \<longrightarrow> eval \<alpha> c = eval \<beta> c" by auto
    from Cons.prems IndependentElementSet_cells [OF assms(1), of c] obtain x where
      "IndependentElementSet E c = Some x"
      "\<forall>\<alpha> \<beta>. bytes \<alpha> \<longrightarrow> reads_ok \<alpha> c \<longrightarrow> (\<forall>(a, j) \<in> cells x. \<alpha> a j = \<beta> a j) \<longrightarrow> eval \<alpha> c = eval \<beta> c" by auto
    with wl show ?case by (intro exI [where x = "(c, x) # wl"]) simp
  qed simp
  thus thesis using that by blast
qed

text \<open>The queries whose reads of constant arrays are in range; others of them are not taken into account by the element sets.\<close>

definition reads_in_range :: "query \<Rightarrow> bool" where
  "reads_in_range q \<longleftrightarrow> (\<forall>\<alpha>. bytes \<alpha> \<longrightarrow> reads_ok \<alpha> (q_expr q) \<and> (\<forall>c \<in> set (q_constraints q). reads_ok \<alpha> c))"

text \<open>A model of the required constraints inside the closure and a model of all of them outside make a model of all.\<close>

definition merge :: "(array \<times> nat) set \<Rightarrow> contents \<Rightarrow> contents \<Rightarrow> contents" where
  "merge C \<beta> \<gamma> = (\<lambda>a j. if (a, j) \<in> C then \<beta> a j else \<gamma> a j)"

lemma merge_bytes: "bytes \<beta> \<Longrightarrow> bytes \<gamma> \<Longrightarrow> bytes (merge C \<beta> \<gamma>)"
  by (auto simp: merge_def bytes_def)

lemma merge_constraint:
  assumes "\<forall>\<alpha> \<beta>. bytes \<alpha> \<longrightarrow> reads_ok \<alpha> c \<longrightarrow> (\<forall>(a, j) \<in> D. \<alpha> a j = \<beta> a j) \<longrightarrow> eval \<alpha> c = eval \<beta> c"
    and "bytes (merge C \<beta> \<gamma>)" "reads_ok (merge C \<beta> \<gamma>) c"
  shows "D \<subseteq> C \<Longrightarrow> eval (merge C \<beta> \<gamma>) c = eval \<beta> c" "D \<inter> C = {} \<Longrightarrow> eval (merge C \<beta> \<gamma>) c = eval \<gamma> c"
proof -
  assume "D \<subseteq> C"
  hence "\<forall>(a, j) \<in> D. merge C \<beta> \<gamma> a j = \<beta> a j" by (auto simp: merge_def)
  with assms show "eval (merge C \<beta> \<gamma>) c = eval \<beta> c" by blast
next
  assume "D \<inter> C = {}"
  hence "\<forall>(a, j) \<in> D. merge C \<beta> \<gamma> a j = \<gamma> a j" by (auto simp: merge_def)
  with assms show "eval (merge C \<beta> \<gamma>) c = eval \<gamma> c" by blast
qed

lemma independent_query_models:
  assumes "apint_laws E" "query_ok E q" "reads_in_range q"
  obtains q' where "independent_query E q = Some q'" "set (q_constraints q') \<subseteq> set (q_constraints q)" "q_expr q' = q_expr q"
    "\<forall>\<beta>. models \<beta> (q_constraints q') \<longrightarrow> (\<exists>\<delta>. models \<delta> (q_constraints q) \<and> eval \<delta> (q_expr q) = eval \<beta> (q_expr q))"
proof -
  from assms(2) obtain \<gamma> where g: "models \<gamma> (q_constraints q)" by (auto simp: query_ok_def)
  hence b: "bytes \<gamma>" by (simp add: models_def)
  have wf: "wf_expr (q_expr q)" "\<forall>c \<in> set (q_constraints q). wf_expr c"
    using assms(2) b by (auto simp: query_ok_def expr_ok_def)
  from IndependentElementSet_cells [OF assms(1) wf(1)] obtain x where x: "IndependentElementSet E (q_expr q) = Some x"
    "\<forall>\<alpha> \<beta>. bytes \<alpha> \<longrightarrow> reads_ok \<alpha> (q_expr q) \<longrightarrow> (\<forall>(a, j) \<in> cells x. \<alpha> a j = \<beta> a j) \<longrightarrow> eval \<alpha> (q_expr q) = eval \<beta> (q_expr q)" .
  from element_sets_ok [OF assms(1) wf(2)] obtain wl where wl: "element_sets E (q_constraints q) = Some wl" "map fst wl = q_constraints q"
    "\<forall>(c, x) \<in> set wl. \<forall>\<alpha> \<beta>. bytes \<alpha> \<longrightarrow> reads_ok \<alpha> c \<longrightarrow> (\<forall>(a, j) \<in> cells x. \<alpha> a j = \<beta> a j) \<longrightarrow> eval \<alpha> c = eval \<beta> c" .
  obtain cl r where l: "ind_loop wl x [] = (cl, r)" by fastforce
  note sp = ind_loop_split [OF l]
  let ?q = "\<lparr>q_constraints = r, q_expr = q_expr q\<rparr>"
  have r: "\<forall>c \<in> set r. \<exists>x. (c, x) \<in> set wl \<and> cells x \<subseteq> cells cl" using sp by simp
  have s: "fst ` set wl = set (q_constraints q)" using wl(2) by (metis set_map)
  show thesis
  proof (rule that [of ?q])
    show "independent_query E q = Some ?q" by (simp add: independent_query_def getIndependentConstraints_def x wl l)
    show "set (q_constraints ?q) \<subseteq> set (q_constraints q)" using r s by force
    show "\<forall>\<beta>. models \<beta> (q_constraints ?q) \<longrightarrow> (\<exists>\<delta>. models \<delta> (q_constraints q) \<and> eval \<delta> (q_expr q) = eval \<beta> (q_expr q))"
    proof (intro allI impI)
      fix \<beta> assume m: "models \<beta> (q_constraints ?q)"
      let ?d = "merge (cells cl) \<beta> \<gamma>"
      have d: "bytes ?d" using m b by (intro merge_bytes) (simp_all add: models_def)
      have "eval ?d c = 1" if c: "c \<in> set (q_constraints q)" for c
      proof -
        from c s obtain y where y: "(c, y) \<in> set wl" by force
        from assms(3) d c have "reads_ok ?d c" by (simp add: reads_in_range_def)
        from merge_constraint [OF _ d this, of "cells y"] wl(3) y
        have "cells y \<subseteq> cells cl \<Longrightarrow> eval ?d c = eval \<beta> c" "cells y \<inter> cells cl = {} \<Longrightarrow> eval ?d c = eval \<gamma> c" by auto
        moreover from sp y have "c \<in> set r \<and> cells y \<subseteq> cells cl \<or> cells y \<inter> cells cl = {}" by blast
        ultimately show ?thesis using m g c by (auto simp: models_def)
      qed
      hence "models ?d (q_constraints q)" using d by (simp add: models_def)
      moreover have "eval ?d (q_expr q) = eval \<beta> (q_expr q)"
        by (rule merge_constraint(1) [OF x(2) d]) (use d assms(3) sp in \<open>auto simp: reads_in_range_def\<close>)
      ultimately show "\<exists>\<delta>. models \<delta> (q_constraints q) \<and> eval \<delta> (q_expr q) = eval \<beta> (q_expr q)" by blast
    qed
  qed simp
qed

lemma independent_query_same:
  assumes "apint_laws E" "query_ok E q" "reads_in_range q"
  obtains q' where "independent_query E q = Some q'" "set (q_constraints q') \<subseteq> set (q_constraints q)" "q_expr q' = q_expr q"
    "query_ok E q'" "query_values q' = query_values q"
proof -
  from independent_query_models [OF assms] obtain q' where q: "independent_query E q = Some q'"
    "set (q_constraints q') \<subseteq> set (q_constraints q)" "q_expr q' = q_expr q"
    "\<forall>\<beta>. models \<beta> (q_constraints q') \<longrightarrow> (\<exists>\<delta>. models \<delta> (q_constraints q) \<and> eval \<delta> (q_expr q) = eval \<beta> (q_expr q))" .
  have m: "models \<alpha> (q_constraints q')" if "models \<alpha> (q_constraints q)" for \<alpha>
    using that q(2) by (auto simp: models_def)
  show thesis
  proof (rule that [OF q(1-3)])
    show "query_ok E q'" using assms(2) m q(2,3) unfolding query_ok_def by (metis subsetD)
    show "query_values q' = query_values q"
    proof (intro set_eqI iffI)
      fix v assume "v \<in> query_values q'"
      then obtain \<beta> where "v = eval \<beta> (q_expr q)" "models \<beta> (q_constraints q')" using q(3) by (auto simp: query_values_def)
      moreover from this(2) q(4) obtain \<delta> where "models \<delta> (q_constraints q)" "eval \<delta> (q_expr q) = eval \<beta> (q_expr q)" by blast
      ultimately show "v \<in> query_values q" by (auto simp: query_values_def intro!: exI [where x = \<delta>])
    next
      fix v assume "v \<in> query_values q"
      with q(3) m show "v \<in> query_values q'" by (auto simp: query_values_def)
    qed
  qed
qed

lemma values_decide:
  "valid q \<longleftrightarrow> (\<forall>v \<in> query_values q. v = 1)" "unsat q \<longleftrightarrow> (\<forall>v \<in> query_values q. v = 0)"
  by (auto simp: query_values_def valid_def unsat_def)

lemma if_ok_some: "if_ok (or_abort (Some x)) f = f x"
  by (simp add: fun_eq_iff if_ok_def or_abort_def)

lemma independent_spec:
  assumes "apint_laws E" "solver_spec E Q sure S I"
    and sub: "\<forall>q q'. Q q \<longrightarrow> set (q_constraints q') \<subseteq> set (q_constraints q) \<longrightarrow> q_expr q' = q_expr q \<longrightarrow> Q q'"
  shows "solver_spec E (\<lambda>q. Q q \<and> reads_in_range q) sure (IndependentSolver E S) I"
proof -
  have ex: "\<exists>q'. independent_query E q = Some q' \<and> q_expr q' = q_expr q \<and> query_ok E q' \<and> query_values q' = query_values q \<and> Q q'"
    if q: "Q q \<and> reads_in_range q" "query_ok E q" for q
    using independent_query_same [OF assms(1) q(2)] q(1) sub by metis
  show ?thesis
  proof (unfold_locales, goal_cases)
    case (1 q)
    from ex [OF 1(1,2)] obtain q' where q: "independent_query E q = Some q'" "q_expr q' = q_expr q" "query_ok E q'" "query_values q' = query_values q" "Q q'"
      by blast
    with solver_spec.truth [OF assms(2) q(5,3)] 1(3) show ?case by (simp add: IndependentSolver_def values_decide if_ok_some)
  next
    case (2 q)
    from ex [OF 2(1,2)] obtain q' where q: "independent_query E q = Some q'" "q_expr q' = q_expr q" "query_ok E q'" "query_values q' = query_values q" "Q q'"
      by blast
    have "validity_of q' = validity_of q" using q(4) by (simp add: validity_of_def values_decide cong: if_cong)
    with q solver_spec.full_validity [OF assms(2) q(5,3)] 2(3) show ?case
      by (simp add: IndependentSolver_def if_ok_some)
  next
    case (3 q)
    from ex [OF 3(1,2)] obtain q' where q: "independent_query E q = Some q'" "q_expr q' = q_expr q" "query_ok E q'" "query_values q' = query_values q" "Q q'"
      by blast
    have v: "(\<exists>\<alpha>. models \<alpha> (q_constraints q') \<and> v = eval \<alpha> (q_expr q)) = (\<exists>\<alpha>. models \<alpha> (q_constraints q) \<and> v = eval \<alpha> (q_expr q))" for v
      using q(2,4) by (auto simp: query_values_def set_eq_iff)
    from solver_spec.a_value [OF assms(2) q(5,3)] q(2) have "solves sure I (\<lambda>e. \<exists>c \<alpha>. e = ConstantExpr c \<and>
        ap_width c = getWidth (q_expr q) \<and> models \<alpha> (q_constraints q') \<and> ap_val c = eval \<alpha> (q_expr q)) (computeValue S q')" by simp
    hence "solves sure I (\<lambda>e. \<exists>c \<alpha>. e = ConstantExpr c \<and>
        ap_width c = getWidth (q_expr q) \<and> models \<alpha> (q_constraints q) \<and> ap_val c = eval \<alpha> (q_expr q)) (computeValue S q')"
      by (rule solves_weaken) (use v in metis)
    with q(1) show ?case by (simp add: IndependentSolver_def if_ok_some)
  next
    case (4 q objects)
    with solver_spec.initial_values [OF assms(2)] show ?case by (simp add: IndependentSolver_def)
  qed
qed

subsection \<open>Properties\<close>

text \<open>
  C22: \<^verbatim>\<open>findReads\<close> with \<^verbatim>\<open>visitUpdates\<close> finds every read that matters: the value of an expression is the same for any
  two contents of the arrays that agree on the cells its reads can look at, whatever is shared between its parts.
\<close>

theorem findReads_complete:
  assumes "bytes \<alpha>" "wf_expr e" "reads_ok \<alpha> e" "\<forall>(root, j) \<in> read_cells (findReads e True). \<alpha> root j = \<beta> root j"
  shows "eval \<alpha> e = eval \<beta> e"
proof -
  from findReads_closed [of e] obtain V where v: "isConstant e \<or> e \<in> V"
    "\<forall>x \<in> V. seen V (children x) \<and> (dyn_read x \<noteq> None \<longrightarrow> x \<in> set (findReads e True))" .
  show ?thesis by (rule eval_cells(1) [OF v(2) assms(4,1) v(1) assms(3,2)])
qed

theorem findReads_complete_witness:
  "eval (\<lambda>_ _. 7) (BinaryExpr Add demo_byte demo_byte) = eval (\<lambda>a j. if j = 0 then 7 else 9) (BinaryExpr Add demo_byte demo_byte)"
proof (rule findReads_complete)
  have "findReads (BinaryExpr Add demo_byte demo_byte) True = [demo_byte]" by code_simp
  thus "\<forall>(root, j) \<in> read_cells (findReads (BinaryExpr Add demo_byte demo_byte) True). 7 = (if j = 0 then 7 else 9 :: int)"
    by (auto simp: read_cells_def)
qed (simp_all add: demo_simps)

text \<open>
  C10: \<^verbatim>\<open>IndependentSolver\<close> may drop constraints: for a query whose constraints have a model and whose reads of constant
  arrays are in range, the query with the required constraints only has the same values, and a solver that keeps its
  promises for such queries still keeps them behind it.
\<close>

theorem independent_solver_correct:
  assumes "apint_laws E" "solver_spec E Q sure S I" "query_ok E q" "reads_in_range q"
    and "\<forall>q q'. Q q \<longrightarrow> set (q_constraints q') \<subseteq> set (q_constraints q) \<longrightarrow> q_expr q' = q_expr q \<longrightarrow> Q q'"
  shows "(\<exists>q'. independent_query E q = Some q' \<and> set (q_constraints q') \<subseteq> set (q_constraints q) \<and> query_values q' = query_values q) \<and>
    solver_spec E (\<lambda>q. Q q \<and> reads_in_range q) sure (IndependentSolver E S) I"
proof -
  from independent_query_same [OF assms(1,3,4)] obtain q' where "independent_query E q = Some q'"
    "set (q_constraints q') \<subseteq> set (q_constraints q)" "query_values q' = query_values q" by metis
  with independent_spec [OF assms(1,2,5)] show ?thesis by blast
qed

lemma demo_in_range: "reads_in_range (demo_query demo_byte)"
  by (simp add: reads_in_range_def demo_simps)

theorem independent_solver_correct_witness:
  "(\<exists>q'. independent_query (apint_env False) (demo_query demo_byte) = Some q' \<and> query_values q' = query_values (demo_query demo_byte)) \<and>
    solver_spec (apint_env False) (\<lambda>q. one_byte q \<and> reads_in_range q) True (IndependentSolver (apint_env False) byte_solver) (\<lambda>_. True)"
proof -
  have "\<forall>q q'. one_byte q \<longrightarrow> set (q_constraints q') \<subseteq> set (q_constraints q) \<longrightarrow> q_expr q' = q_expr q \<longrightarrow> one_byte q'"
    unfolding one_byte_def by (metis insert_iff subset_iff)
  from independent_solver_correct [OF apint_env.apint_laws_axioms byte_client.solver_spec_axioms demo_query_ok(1) demo_in_range this]
  show ?thesis by blast
qed

end
