(* ===== verification/STPSolver.thy ===== *)
theory STPSolver
  imports IndependentSolver STPBuilder_Correct
begin

text \<open>
  The solver on top of STP, \<^verbatim>\<open>STPSolverImpl\<close> in \<^verbatim>\<open>lib/Solver/Solver.cpp\<close>: the assertions of the validity checker, the
  query with and without a child process, the counterexample, and \<^verbatim>\<open>findSymbolicObjects\<close> of \<^verbatim>\<open>ExprUtil.cpp\<close>.

  The decision procedure of STP (\<^verbatim>\<open>TopLevelSTP\<close> and the counterexample it leaves) and the fate of the child process are
  parameters; \<open>stp_decides\<close> states what the solver relies on.
\<close>

declare One_nat_def [simp del]

subsection \<open>The validity checker\<close>

text \<open>What can happen to the child: \<^verbatim>\<open>fork\<close> or \<^verbatim>\<open>waitpid\<close> fails, a signal or the alarm ends it, or it exits by itself.\<close>

datatype fork_outcome = ForkFailed | WaitFailed | Signalled | TimedOut | Finished

record stp_solver_cfg =
  scfg :: stp_cfg
  TopLevelSTP :: "node \<Rightarrow> node \<Rightarrow> int"
  GetCounterExample :: "node \<Rightarrow> node \<Rightarrow> node \<Rightarrow> node"
  useForkedSTP :: bool
  ReinstantiateSolver :: bool
  fork_child :: "node \<Rightarrow> node \<Rightarrow> fork_outcome"
  solverVisitorHash :: bool

type_synonym vc_stack = "node list list"

definition Push :: "vc_stack \<Rightarrow> vc_stack" where
  "Push m = m @ [[]]"

definition Pop :: "vc_stack \<Rightarrow> vc_stack" where
  "Pop m = butlast m"

definition AddAssert :: "node \<Rightarrow> vc_stack \<Rightarrow> vc_stack may_abort" where
  "AddAssert a m = do {
    assert_that (is_Form_kind (GetKind a) \<and> GetType a = BOOLEAN_TYPE);
    Some (if m = [] then [[a]] else butlast m @ [last m @ [a]]) }"

definition GetAsserts :: "vc_stack \<Rightarrow> node list" where
  "GetAsserts m = concat m"

definition vc_assertFormula :: "node \<Rightarrow> vc_stack \<Rightarrow> vc_stack may_abort" where
  "vc_assertFormula a m = do {
    assert_that (is_Form_kind (GetKind a));
    assert_that (BVTypeCheck a);
    AddAssert a m }"

definition asserts_node :: "node_fact \<Rightarrow> node list \<Rightarrow> node" where
  "asserts_node NF v = (if v \<noteq> [] then (if length v = 1 then v ! 0 else CreateNode NF ANDF v) else CreateNode NF TRUE [])"

definition vc_query :: "stp_solver_cfg \<Rightarrow> node \<Rightarrow> vc_stack \<Rightarrow> int may_abort" where
  "vc_query C a m = do {
    assert_that (is_Form_kind (GetKind a));
    assert_that (BVTypeCheck a);
    Some (TopLevelSTP C (asserts_node (NFac (scfg C)) (GetAsserts m)) a) }"

definition vc_getCounterExample :: "stp_solver_cfg \<Rightarrow> node \<Rightarrow> vc_stack \<Rightarrow> node \<Rightarrow> node" where
  "vc_getCounterExample C a m t = GetCounterExample C (asserts_node (NFac (scfg C)) (GetAsserts m)) a t"

definition getBVUnsigned :: "node \<Rightarrow> uint32_t may_abort" where
  "getBVUnsigned n = (case n of BVConst w v \<Rightarrow> if w \<le> 32 \<or> v < 2 ^ 32 then Some (word_of_int v) else None | _ \<Rightarrow> None)"

subsection \<open>The solver\<close>

record stp_state =
  vc :: vc_stack
  builder :: stp_builder

definition new_builder :: stp_builder where
  "new_builder = \<lparr>constructed = Map.empty, stpInitialArray = Map.empty, stpArray = Map.empty\<rparr>"

definition reinstantiate :: "stp_solver_cfg \<Rightarrow> stp_state \<Rightarrow> stp_state" where
  "reinstantiate C s = (if ReinstantiateSolver C then \<lparr>vc = [], builder = new_builder\<rparr> else s)"

fun assert_constraints :: "stp_solver_cfg \<Rightarrow> expr list \<Rightarrow> stp_state \<Rightarrow> stp_state may_abort" where
  "assert_constraints C [] s = Some s"
| "assert_constraints C (c # cs) s = do {
    (t, b) \<leftarrow> construct (scfg C) c (builder s);
    m \<leftarrow> vc_assertFormula t (vc s);
    assert_constraints C cs \<lparr>vc = m, builder = b\<rparr> }"

text \<open>The loops over the objects and their bytes after a query with a counterexample.\<close>

fun cex_bytes :: "stp_solver_cfg \<Rightarrow> node \<Rightarrow> vc_stack \<Rightarrow> array \<Rightarrow> nat list \<Rightarrow> uint8_t list build" where
  "cex_bytes C q m array [] b = Some ([], b)"
| "cex_bytes C q m array (offset # offsets) b = do {
    (t, b) \<leftarrow> getInitialRead (scfg C) array (of_nat offset) b;
    val \<leftarrow> getBVUnsigned (vc_getCounterExample C q m t);
    (data, b) \<leftarrow> cex_bytes C q m array offsets b;
    Some (ucast val # data, b) }"

fun cex_values :: "stp_solver_cfg \<Rightarrow> node \<Rightarrow> vc_stack \<Rightarrow> array list \<Rightarrow> uint8_t list list build" where
  "cex_values C q m [] b = Some ([], b)"
| "cex_values C q m (array # objects) b = do {
    (data, b) \<leftarrow> cex_bytes C q m array [0..<arr_size array] b;
    (values, b) \<leftarrow> cex_values C q m objects b;
    Some (data # values, b) }"

text \<open>The exception for a negative result ends the program.\<close>

definition runAndGetCex :: "stp_solver_cfg \<Rightarrow> node \<Rightarrow> array list \<Rightarrow> (uint8_t list list \<times> bool, stp_state) solve" where
  "runAndGetCex C q objects s = do {
    result \<leftarrow> vc_query C q (vc s);
    assert_that (\<not> result < 0);
    let hasSolution = (result = 0) in
    if hasSolution then do {
      (values, b) \<leftarrow> cex_values C q (vc s) objects (builder s);
      Some (Some (values, True), s\<lparr>builder := b\<rparr>) }
    else Some (Some ([], False), s) }"

text \<open>
  The child works on a copy of the state; when it fails an assertion, a signal ends it. The parent looks at the
  exit code, of which eight bits remain.
\<close>

definition shared_memory_size :: uint32_t where
  "shared_memory_size = push_bit 20 1"

definition runAndGetCexForked :: "stp_solver_cfg \<Rightarrow> node \<Rightarrow> array list \<Rightarrow> (uint8_t list list \<times> bool, stp_state) solve" where
  "runAndGetCexForked C q objects s = do {
    assert_that (foldl (\<lambda>sum a. sum + of_nat (arr_size a)) 0 objects < shared_memory_size);
    case fork_child C (asserts_node (NFac (scfg C)) (GetAsserts (vc s))) q of
      Finished \<Rightarrow>
        (case vc_query C q (vc s) of
           None \<Rightarrow> return_false s
         | Some res \<Rightarrow>
             let exitcode = res mod 256 in
             if exitcode = 0 then
               (if res = 0 then
                  (case cex_values C q (vc s) objects (builder s) of
                     None \<Rightarrow> return_false s
                   | Some (values, _) \<Rightarrow> return_ok (values, True) s)
                else or_abort None s)
             else if exitcode = 1 then return_ok ([], False) s
             else return_false s)
    | _ \<Rightarrow> return_false s }"

definition STP_computeInitialValues :: "stp_solver_cfg \<Rightarrow> query \<Rightarrow> array list \<Rightarrow> (uint8_t list list \<times> bool, stp_state) solve" where
  "STP_computeInitialValues C q objects s = do {
    let s = reinstantiate C s;
    s \<leftarrow> assert_constraints C (q_constraints q) (s\<lparr>vc := Push (vc s)\<rparr>);
    (stp_e, b) \<leftarrow> construct (scfg C) (q_expr q) (builder s);
    (r, s) \<leftarrow> (if useForkedSTP C then runAndGetCexForked C stp_e objects (s\<lparr>builder := b\<rparr>)
      else runAndGetCex C stp_e objects (s\<lparr>builder := b\<rparr>));
    Some (r, s\<lparr>vc := Pop (vc s)\<rparr>) }"

definition STP_computeTruth :: "stp_solver_cfg \<Rightarrow> query \<Rightarrow> (bool, stp_state) solve" where
  "STP_computeTruth C q = if_ok (STP_computeInitialValues C q []) (\<lambda>(values, hasSolution). return_ok (\<not> hasSolution))"

subsection \<open>The symbolic objects of an expression\<close>

text \<open>
  \<^verbatim>\<open>SymbolicObjectFinder\<close>: the visitor with its table, the objects it has found, and the list it appends them to.
\<close>

record finder =
  visited :: visited_ty
  results :: "array set"
  found :: "array list"

definition finder_root :: "array \<Rightarrow> finder \<Rightarrow> finder" where
  "finder_root root st =
    (if isSymbolicArray root then
       (if root \<notin> results st then st\<lparr>results := insert root (results st), found := found st @ [root]\<rparr> else st)
     else st)"

function finder_visit :: "expr_env \<Rightarrow> bool \<Rightarrow> finder \<Rightarrow> expr \<Rightarrow> (expr \<times> finder) may_abort"
  and finder_visitActual :: "expr_env \<Rightarrow> bool \<Rightarrow> finder \<Rightarrow> expr \<Rightarrow> (expr \<times> finder) may_abort"
  and finder_kids :: "expr_env \<Rightarrow> bool \<Rightarrow> finder \<Rightarrow> expr list \<Rightarrow> (expr list \<times> finder) may_abort"
  and finder_updates :: "expr_env \<Rightarrow> bool \<Rightarrow> finder \<Rightarrow> update_node \<Rightarrow> finder may_abort" where
  "finder_visit E hash st e =
    (if \<not> hash \<or> isConstant e then finder_visitActual E hash st e
     else case visited st e of
       Some res \<Rightarrow> Some (res, st)
     | None \<Rightarrow> do {
         (res, st) \<leftarrow> finder_visitActual E hash st e;
         Some (res, st\<lparr>visited := visited_insert e res (visited st)\<rparr>) })"
| "finder_visitActual E hash st e =
    (if isConstant e then Some (e, st)
     else do {
       st \<leftarrow> (case e of
           ReadExpr root us i \<Rightarrow> do {
             st \<leftarrow> finder_updates E hash st us;
             Some (finder_root root st) }
         | _ \<Rightarrow> Some st);
       (kids, st) \<leftarrow> finder_kids E hash st (get_kids e);
       r \<leftarrow> rebuild_changed E e kids;
       Some (r, st) })"
| "finder_kids E hash st [] = Some ([], st)"
| "finder_kids E hash st (k # ks) = do {
     (k', st) \<leftarrow> finder_visit E hash st k;
     (ks', st) \<leftarrow> finder_kids E hash st ks;
     Some (k' # ks', st) }"
| "finder_updates E hash st NoUpdate = Some st"
| "finder_updates E hash st (UpdateNode x v n) = do {
     (_, st) \<leftarrow> finder_visit E hash st x;
     (_, st) \<leftarrow> finder_visit E hash st v;
     finder_updates E hash st n }"
  by pat_completeness auto
termination
proof (relation "measure (\<lambda>x. case x of
    Inl (Inl (E, hash, st, e)) \<Rightarrow> 10 * size e + 2
  | Inl (Inr (E, hash, st, e)) \<Rightarrow> 10 * size e + 1
  | Inr (Inl (E, hash, st, ks)) \<Rightarrow> (\<Sum>k\<leftarrow>ks. 10 * size k + 3)
  | Inr (Inr (E, hash, st, us)) \<Rightarrow> 10 * size us)")
  fix E hash st e y
  assume "\<not> isConstant e"
  thus "(Inr (Inl (E, hash, y, get_kids e)), Inl (Inr (E, hash, st, e))) \<in> measure (\<lambda>x. case x of
    Inl (Inl (E, hash, st, e)) \<Rightarrow> 10 * size e + 2
  | Inl (Inr (E, hash, st, e)) \<Rightarrow> 10 * size e + 1
  | Inr (Inl (E, hash, st, ks)) \<Rightarrow> (\<Sum>k\<leftarrow>ks. 10 * size k + 3)
  | Inr (Inr (E, hash, st, us)) \<Rightarrow> 10 * size us)" for E :: expr_env and hash :: bool and st y :: finder
    by (cases e) auto
qed auto

declare finder_visit.simps [simp del] finder_visitActual.simps [simp del]

definition findSymbolicObjects :: "expr_env \<Rightarrow> bool \<Rightarrow> expr list \<Rightarrow> array list \<Rightarrow> array list may_abort" where
  "findSymbolicObjects E hash es objs =
    map_option (\<lambda>(_, st). found st) (finder_kids E hash \<lparr>visited = Map.empty, results = {}, found = objs\<rparr> es)"

definition STP_computeValue :: "stp_solver_cfg \<Rightarrow> query \<Rightarrow> (expr, stp_state) solve" where
  "STP_computeValue C q =
    if_ok (or_abort (findSymbolicObjects (apenv (scfg C)) (solverVisitorHash C) [q_expr q] [])) (\<lambda>objects.
    if_ok (STP_computeInitialValues C (withFalse (apenv (scfg C)) q) objects) (\<lambda>(values, hasSolution).
    if_ok (or_abort (assert_that hasSolution)) (\<lambda>_.
    or_abort (evaluate (apenv (scfg C)) (solverVisitorHash C) (Assignment_new objects values False) (q_expr q)))))"

definition STPSolverImpl :: "stp_solver_cfg \<Rightarrow> stp_state solver_impl" where
  "STPSolverImpl C = \<lparr>
     computeValidity = SolverImpl_computeValidity (apenv (scfg C)) (STP_computeTruth C),
     computeTruth = STP_computeTruth C,
     computeValue = STP_computeValue C,
     computeInitialValues = STP_computeInitialValues C\<rparr>"

subsection \<open>What the objects of an expression are\<close>

fun sym_arrays :: "expr \<Rightarrow> array set" and sym_arrays_updates :: "update_node \<Rightarrow> array set" where
  "sym_arrays (ConstantExpr a) = {}"
| "sym_arrays (NotOptimizedExpr e) = sym_arrays e"
| "sym_arrays (ReadExpr a us i) = (if isSymbolicArray a then {a} else {}) \<union> sym_arrays_updates us \<union> sym_arrays i"
| "sym_arrays (SelectExpr c t f) = sym_arrays c \<union> sym_arrays t \<union> sym_arrays f"
| "sym_arrays (ConcatExpr l r) = sym_arrays l \<union> sym_arrays r"
| "sym_arrays (ExtractExpr e off w) = sym_arrays e"
| "sym_arrays (ZExtExpr e w) = sym_arrays e"
| "sym_arrays (SExtExpr e w) = sym_arrays e"
| "sym_arrays (NotExpr e) = sym_arrays e"
| "sym_arrays (BinaryExpr k l r) = sym_arrays l \<union> sym_arrays r"
| "sym_arrays (CmpExpr k l r) = sym_arrays l \<union> sym_arrays r"
| "sym_arrays_updates NoUpdate = {}"
| "sym_arrays_updates (UpdateNode x v n) = sym_arrays x \<union> sym_arrays v \<union> sym_arrays_updates n"

definition finder_inv :: "finder \<Rightarrow> bool" where
  "finder_inv st \<longleftrightarrow> (\<forall>e r. visited st e = Some r \<longrightarrow> r = e \<and> sym_arrays e \<subseteq> results st) \<and>
    set (found st) = results st \<and> distinct (found st)"

definition finds :: "finder \<Rightarrow> array set \<Rightarrow> finder \<Rightarrow> bool" where
  "finds st A st' \<longleftrightarrow> finder_inv st' \<and> results st' = results st \<union> A"

lemma finds_root: "finder_inv st \<Longrightarrow> finds st (if isSymbolicArray a then {a} else {}) (finder_root a st)"
  by (auto simp: finds_def finder_inv_def finder_root_def)

lemma finds_trans: "finds st A st1 \<Longrightarrow> finds st1 B st2 \<Longrightarrow> finds st (A \<union> B) st2"
  by (auto simp: finds_def)

lemma finds_inv: "finds st A st' \<Longrightarrow> finder_inv st'"
  by (simp add: finds_def)

lemma finds_insert:
  assumes "finds st (sym_arrays e) st'"
  shows "finds st (sym_arrays e) (st'\<lparr>visited := visited_insert e e (visited st')\<rparr>)"
proof -
  have "finder_inv st'" "sym_arrays e \<subseteq> results st'" using assms by (simp_all add: finds_def)
  hence "finder_inv (st'\<lparr>visited := visited_insert e e (visited st')\<rparr>)"
    by (auto simp: finder_inv_def visited_insert_def)
  with assms show ?thesis by (simp add: finds_def)
qed

lemma sym_arrays_kids:
  "\<not> isConstant e \<Longrightarrow> (\<Union>k \<in> set (get_kids e). sym_arrays k) \<union>
    (case e of ReadExpr a us i \<Rightarrow> sym_arrays_updates us \<union> (if isSymbolicArray a then {a} else {}) | _ \<Rightarrow> {}) = sym_arrays e"
  by (cases e) auto

lemma finder_ok:
  shows "finder_inv st \<Longrightarrow> \<exists>st'. finder_visit E hash st e = Some (e, st') \<and> finds st (sym_arrays e) st'"
    and "finder_inv st \<Longrightarrow> \<exists>st'. finder_visitActual E hash st e = Some (e, st') \<and> finds st (sym_arrays e) st'"
    and "finder_inv st \<Longrightarrow> \<exists>st'. finder_kids E hash st ks = Some (ks, st') \<and> finds st (\<Union>k \<in> set ks. sym_arrays k) st'"
    and "finder_inv st \<Longrightarrow> \<exists>st'. finder_updates E hash st us = Some st' \<and> finds st (sym_arrays_updates us) st'"
proof (induction E hash st e and E hash st e and E hash st ks and E hash st us
    rule: finder_visit_finder_visitActual_finder_kids_finder_updates.induct)
  case (1 E hash st e)
  show ?case
  proof (cases "\<not> hash \<or> isConstant e")
    case True
    with 1 show ?thesis by (simp add: finder_visit.simps)
  next
    case h: False
    show ?thesis
    proof (cases "visited st e")
      case None
      with 1 h obtain st' where "finder_visitActual E hash st e = Some (e, st')" "finds st (sym_arrays e) st'" by auto
      with None h show ?thesis using finds_insert by (auto simp: finder_visit.simps)
    next
      case (Some r)
      with 1 h show ?thesis by (auto simp: finder_visit.simps finds_def finder_inv_def)
    qed
  qed
next
  case (2 E hash st e)
  show ?case
  proof (cases "isConstant e")
    case True
    with 2 show ?thesis by (auto simp: finder_visitActual.simps isConstant_iff finds_def)
  next
    case False
    let ?A = "case e of ReadExpr a us i \<Rightarrow> sym_arrays_updates us \<union> (if isSymbolicArray a then {a} else {}) | _ \<Rightarrow> {}"
    have "\<exists>st1. (case e of
           ReadExpr root us i \<Rightarrow> do {
             st \<leftarrow> finder_updates E hash st us;
             Some (finder_root root st) }
         | _ \<Rightarrow> Some st) = Some st1 \<and> finds st ?A st1"
    proof (cases e)
      case (ReadExpr a us i)
      with 2 False obtain st' where "finder_updates E hash st us = Some st'" "finds st (sym_arrays_updates us) st'" by auto
      with ReadExpr show ?thesis using finds_trans [OF _ finds_root [OF finds_inv]] by auto
    qed (use 2 in \<open>simp_all add: finds_def\<close>)
    then obtain st1 where st1: "(case e of
           ReadExpr root us i \<Rightarrow> do {
             st \<leftarrow> finder_updates E hash st us;
             Some (finder_root root st) }
         | _ \<Rightarrow> Some st) = Some st1" "finds st ?A st1" by blast
    with 2 False obtain st2 where st2: "finder_kids E hash st1 (get_kids e) = Some (get_kids e, st2)"
      "finds st1 (\<Union>k \<in> set (get_kids e). sym_arrays k) st2" using finds_inv [OF st1(2)] by blast
    from finds_trans [OF st1(2) st2(2)] have "finds st (sym_arrays e) st2"
      using sym_arrays_kids [OF False] by (simp add: Un_commute)
    with st1(1) st2(1) False show ?thesis by (simp add: finder_visitActual.simps rebuild_changed_def)
  qed
next
  case (3 E hash st)
  thus ?case by (simp add: finds_def)
next
  case (4 E hash st k ks)
  from 4(1) [OF 4(3)] obtain st1 where st1: "finder_visit E hash st k = Some (k, st1)" "finds st (sym_arrays k) st1" by blast
  from 4(2) [OF st1(1) refl finds_inv [OF st1(2)]] obtain st2 where
    st2: "finder_kids E hash st1 ks = Some (ks, st2)" "finds st1 (\<Union>k \<in> set ks. sym_arrays k) st2" by blast
  from st1(1) st2(1) finds_trans [OF st1(2) st2(2)] show ?case by simp
next
  case (5 E hash st)
  thus ?case by (simp add: finds_def)
next
  case (6 E hash st x v n)
  from 6(1) [OF 6(4)] obtain st1 where st1: "finder_visit E hash st x = Some (x, st1)" "finds st (sym_arrays x) st1" by blast
  from 6(2) [OF st1(1) refl finds_inv [OF st1(2)]] obtain st2 where
    st2: "finder_visit E hash st1 v = Some (v, st2)" "finds st1 (sym_arrays v) st2" by blast
  from 6(3) [OF st1(1) refl st2(1) refl finds_inv [OF st2(2)]] obtain st3 where
    st3: "finder_updates E hash st2 n = Some st3" "finds st2 (sym_arrays_updates n) st3" by blast
  from st1(1) st2(1) st3(1) finds_trans [OF finds_trans [OF st1(2) st2(2)] st3(2)] show ?case by simp
qed

lemma findSymbolicObjects_ok:
  obtains objects where "findSymbolicObjects E hash es [] = Some objects" "distinct objects" "set objects = (\<Union>e \<in> set es. sym_arrays e)"
proof -
  let ?st = "\<lparr>visited = Map.empty, results = {}, found = []\<rparr> :: finder"
  have "finder_inv ?st" by (simp add: finder_inv_def)
  from finder_ok(3) [OF this, of E hash es] obtain st' where "finder_kids E hash ?st es = Some (es, st')" "finds ?st (\<Union>e \<in> set es. sym_arrays e) st'"
    by blast
  thus thesis by (intro that [of "found st'"]) (auto simp: findSymbolicObjects_def finds_def finder_inv_def)
qed

end
