(* ===== verification/STPSolver_Correct.thy ===== *)
theory STPSolver_Correct
  imports STPSolver
begin

text \<open>
  The solver on top of STP keeps the contract of \<open>solver_spec\<close>, for a decision procedure that is right when it answers.
\<close>

declare One_nat_def [simp del]

subsection \<open>Expressions and the bytes they read\<close>

text \<open>All reads of the initial contents of an array are inside it.\<close>

fun in_bounds :: "contents \<Rightarrow> expr \<Rightarrow> bool" and updates_in_bounds :: "contents \<Rightarrow> update_node \<Rightarrow> bool" where
  "in_bounds \<alpha> (ConstantExpr a) = True"
| "in_bounds \<alpha> (NotOptimizedExpr e) = in_bounds \<alpha> e"
| "in_bounds \<alpha> (ReadExpr a us i) = (eval \<alpha> i < int (arr_size a) \<and> in_bounds \<alpha> i \<and> updates_in_bounds \<alpha> us)"
| "in_bounds \<alpha> (SelectExpr c t f) = (in_bounds \<alpha> c \<and> in_bounds \<alpha> t \<and> in_bounds \<alpha> f)"
| "in_bounds \<alpha> (ConcatExpr l r) = (in_bounds \<alpha> l \<and> in_bounds \<alpha> r)"
| "in_bounds \<alpha> (ExtractExpr e off w) = in_bounds \<alpha> e"
| "in_bounds \<alpha> (ZExtExpr e w) = in_bounds \<alpha> e"
| "in_bounds \<alpha> (SExtExpr e w) = in_bounds \<alpha> e"
| "in_bounds \<alpha> (NotExpr e) = in_bounds \<alpha> e"
| "in_bounds \<alpha> (BinaryExpr k l r) = (in_bounds \<alpha> l \<and> in_bounds \<alpha> r)"
| "in_bounds \<alpha> (CmpExpr k l r) = (in_bounds \<alpha> l \<and> in_bounds \<alpha> r)"
| "updates_in_bounds \<alpha> NoUpdate = True"
| "updates_in_bounds \<alpha> (UpdateNode x v n) = (in_bounds \<alpha> x \<and> in_bounds \<alpha> v \<and> updates_in_bounds \<alpha> n)"

text \<open>The value depends on the symbolic arrays only, and on the bytes inside them when the reads are in bounds.\<close>

lemma eval_agree:
  assumes "bytes \<alpha>"
  shows "\<forall>a \<in> sym_arrays e. \<forall>i. full \<or> i < arr_size a \<longrightarrow> \<alpha> a i = \<beta> a i \<Longrightarrow> wf_expr e \<Longrightarrow> reads_ok \<alpha> e \<Longrightarrow>
      full \<or> in_bounds \<alpha> e \<Longrightarrow> eval \<alpha> e = eval \<beta> e"
    and "\<forall>a \<in> sym_arrays_updates us. \<forall>i. full \<or> i < arr_size a \<longrightarrow> \<alpha> a i = \<beta> a i \<Longrightarrow> wf_updates us \<Longrightarrow> updates_reads_ok \<alpha> us \<Longrightarrow>
      full \<or> updates_in_bounds \<alpha> us \<Longrightarrow> eval_updates \<alpha> us x d = eval_updates \<beta> us x d"
proof (induction e and us arbitrary: and x d)
  case (ReadExpr root us i)
  have i: "eval \<alpha> i = eval \<beta> i" by (rule ReadExpr.IH(2)) (use ReadExpr.prems in auto)
  have r: "0 \<le> eval \<alpha> i" using eval_range(1) [OF assms, of i] ReadExpr.prems by simp
  have "initial_value \<alpha> root (eval \<alpha> i) = initial_value \<beta> root (eval \<alpha> i)"
  proof (cases "isSymbolicArray root")
    case True
    have "full \<or> nat (eval \<alpha> i) < arr_size root" using ReadExpr.prems(4) r by auto
    with True ReadExpr.prems(1) show ?thesis by (auto simp: initial_value_def)
  next
    case False
    hence "isConstantArray root" by (simp add: isConstantArray_def)
    moreover have "nat (eval \<alpha> i) < arr_size root" using calculation ReadExpr.prems(3) r by auto
    ultimately show ?thesis by (simp add: initial_value_def)
  qed
  moreover have "eval_updates \<alpha> us x d = eval_updates \<beta> us x d" for x d by (rule ReadExpr.IH(1)) (use ReadExpr.prems in auto)
  ultimately show ?case using i by simp
qed auto

subsection \<open>Formulas\<close>

lemma no_term_formula:
  assumes "NonMemberBVConstEvaluator z k w vs = Some (CBool b)" "is_Term_kind k" "k \<noteq> ITE" "k \<noteq> SYMBOL"
  shows "k = READ \<or> k = WRITE \<or> k = BVCONST"
  using assms
  by (cases k) (auto simp: NonMemberBVConstEvaluator_def is_Term_kind_def const_extend_def const_shift_def const_nary_def const_sdiv_def
      const_smod_def const_udiv_def const_bool_def bind_eq_Some_conv Let_def split: list.splits cval.splits if_splits prod.splits)

lemma fm_form_kind:
  assumes "fm z \<mu> n b"
  shows "is_Form_kind (GetKind n)"
proof (cases n)
  case (Interior k iw vw cs)
  note f = fmD [OF assms]
  show ?thesis
  proof (cases "is_Term_kind k \<and> k \<noteq> ITE \<and> k \<noteq> SYMBOL")
    case True
    from f(4) Interior obtain vs where "(case (k, vs) of
      (READ, [CArr f, CBV _ i]) \<Rightarrow> Some (CBV vw (f i))
    | (WRITE, [CArr f, CBV _ i, CBV _ v]) \<Rightarrow> Some (CArr (f(i := v)))
    | _ \<Rightarrow> NonMemberBVConstEvaluator z k vw vs) = Some (CBool b)" by (auto simp: bind_eq_Some_conv)
    hence "NonMemberBVConstEvaluator z k vw vs = Some (CBool b)" by (auto split: Kind.splits list.splits cval.splits)
    with no_term_formula [OF this] True f(5) Interior show ?thesis
      by (auto simp: NonMemberBVConstEvaluator_def const_bool_def bind_eq_Some_conv)
  next
    case False
    with f(5) Interior show ?thesis by (auto simp: BVTypeCheck_def is_Form_kind_def split: if_splits)
  qed
qed (use fmD [OF assms] in \<open>simp_all add: is_Form_kind_def\<close>)

lemma formula_asserted: "fm z \<mu> n b \<Longrightarrow> vc_assertFormula n m = Some (if m = [] then [[n]] else butlast m @ [last m @ [n]])"
  using fm_form_kind fmD(5,6) by (auto simp: vc_assertFormula_def AddAssert_def)

lemma formula_queried: "fm z \<mu> n b \<Longrightarrow> vc_query C n m = Some (TopLevelSTP C (asserts_node (NFac (scfg C)) (GetAsserts m)) n)"
  using fm_form_kind fmD(5) by (auto simp: vc_query_def)

subsection \<open>What the solver relies on\<close>

text \<open>A node that is a formula whatever the arrays contain.\<close>

definition formula :: "bool \<Rightarrow> node \<Rightarrow> bool" where
  "formula z n \<longleftrightarrow> (\<forall>\<mu>. byte_vals \<mu> \<longrightarrow> (\<exists>b. fm z \<mu> n b))"

text \<open>The node stands for the Boolean expression, and the state of the builder is right, whatever the arrays contain.\<close>

definition means :: "stp_cfg \<Rightarrow> bool \<Rightarrow> expr \<Rightarrow> node \<Rightarrow> bool" where
  "means B z e t \<longleftrightarrow> (\<forall>\<mu>. byte_vals \<mu> \<longrightarrow> fm z \<mu> t (eval (stp_contents B \<mu>) e = 1))"

definition stored :: "stp_cfg \<Rightarrow> bool \<Rightarrow> stp_builder \<Rightarrow> bool" where
  "stored B z b \<longleftrightarrow> (\<forall>\<mu>. byte_vals \<mu> \<longrightarrow> stored_ok B z \<mu> b)"

text \<open>A Boolean expression that the builder can translate.\<close>

definition stp_ok :: "expr \<Rightarrow> bool" where
  "stp_ok e \<longleftrightarrow> wf_expr e \<and> getWidth e = 1 \<and> (\<forall>\<alpha>. bytes \<alpha> \<longrightarrow> buildable \<alpha> e)"

lemma zero_vals: "byte_vals (\<lambda>_ _. 0)"
  by (simp add: byte_vals_def)

lemma stp_bytes: "byte_vals \<mu> \<Longrightarrow> bytes (stp_contents B \<mu>)"
  by (simp add: byte_vals_def bytes_def stp_contents_def)

lemma means_formula: "means B z e t \<Longrightarrow> formula z t"
  by (auto simp: means_def formula_def)

lemma stored_new: "stored B z new_builder"
  using stored_ok_init by (simp add: stored_def new_builder_def stp_init_def)

text \<open>The queries the solver is right for: their expressions can be translated, and their arrays have names of their own.\<close>

definition query_arrays :: "query \<Rightarrow> array set" where
  "query_arrays q = (\<Union>e \<in> insert (q_expr q) (set (q_constraints q)). sym_arrays e)"

definition stp_query :: "stp_cfg \<Rightarrow> query \<Rightarrow> bool" where
  "stp_query B q \<longleftrightarrow> list_all stp_ok (q_constraints q) \<and> stp_ok (q_expr q) \<and> reads_in_range q \<and> inj_on (symbol_name B) (query_arrays q)"

text \<open>The arrays of the solver that have the given contents.\<close>

definition solver_contents :: "stp_cfg \<Rightarrow> array set \<Rightarrow> contents \<Rightarrow> string \<Rightarrow> int \<Rightarrow> int" where
  "solver_contents B A \<alpha> s i = (if s \<in> symbol_name B ` A then \<alpha> (inv_into A (symbol_name B) s) (nat i) else 0)"

lemma solver_contents_ok:
  assumes "bytes \<alpha>"
  shows "byte_vals (solver_contents B A \<alpha>)"
    and "inj_on (symbol_name B) A \<Longrightarrow> a \<in> A \<Longrightarrow> stp_contents B (solver_contents B A \<alpha>) a i = \<alpha> a i"
  using assms by (auto simp: byte_vals_def bytes_def solver_contents_def stp_contents_def)

lemma stp_query_eval:
  assumes "stp_query B q" "bytes \<alpha>" "e \<in> insert (q_expr q) (set (q_constraints q))"
  shows "eval \<alpha> e = eval (stp_contents B (solver_contents B (query_arrays q) \<alpha>)) e"
proof (rule eval_agree(1) [OF assms(2), where full = True])
  have "sym_arrays e \<subseteq> query_arrays q" using assms(3) by (auto simp: query_arrays_def)
  thus "\<forall>a \<in> sym_arrays e. \<forall>i. True \<or> i < arr_size a \<longrightarrow> \<alpha> a i = stp_contents B (solver_contents B (query_arrays q) \<alpha>) a i"
    using assms(1) solver_contents_ok(2) [OF assms(2)] by (metis stp_query_def subsetD)
  show "wf_expr e" "reads_ok \<alpha> e"
    using assms by (auto simp: stp_query_def stp_ok_def reads_in_range_def list_all_iff)
qed simp

text \<open>A query is valid when it holds for all contents of the solver's arrays.\<close>

lemma stp_valid:
  assumes "stp_query B q"
  shows "valid q \<longleftrightarrow> (\<forall>\<mu>. byte_vals \<mu> \<longrightarrow> (\<forall>c \<in> set (q_constraints q). eval (stp_contents B \<mu>) c = 1) \<longrightarrow>
    eval (stp_contents B \<mu>) (q_expr q) = 1)" (is "_ \<longleftrightarrow> ?v")
proof
  assume "valid q"
  thus ?v by (simp add: valid_def models_def stp_bytes)
next
  assume v: ?v
  show "valid q"
    unfolding valid_def models_def
  proof (intro allI impI, elim conjE)
    fix \<alpha> assume a: "bytes \<alpha>" "\<forall>c \<in> set (q_constraints q). eval \<alpha> c = 1"
    note e = stp_query_eval [OF assms a(1)]
    show "eval \<alpha> (q_expr q) = 1" using v solver_contents_ok(1) [OF a(1)] a(2) e by simp
  qed
qed

text \<open>What \<^verbatim>\<open>computeInitialValues\<close> has to return.\<close>

definition right_values :: "query \<Rightarrow> array list \<Rightarrow> uint8_t list list \<times> bool \<Rightarrow> bool" where
  "right_values q objects r \<longleftrightarrow> (snd r \<longleftrightarrow> \<not> valid q) \<and> (snd r \<longrightarrow>
    (\<exists>\<alpha>. models \<alpha> (q_constraints q) \<and> eval \<alpha> (q_expr q) = 0 \<and> fst r = values_of \<alpha> objects))"

text \<open>The queries for a value, whose expression the evaluator can evaluate and whose arrays fit into the shared memory.\<close>

definition value_query :: "query \<Rightarrow> bool" where
  "value_query q \<longleftrightarrow> optimizable (q_expr q) \<and> (\<forall>\<alpha>. bytes \<alpha> \<longrightarrow> evaluable \<alpha> (q_expr q) \<and> in_bounds \<alpha> (q_expr q)) \<and>
    (\<Sum>a \<in> sym_arrays (q_expr q). arr_size a) < 2 ^ 20"

definition stp_queries :: "stp_cfg \<Rightarrow> query \<Rightarrow> bool" where
  "stp_queries B q \<longleftrightarrow> stp_query B (withFalse (apenv B) q) \<and> value_query q \<and> (getWidth (q_expr q) = 1 \<longrightarrow>
    stp_query B q \<and> (\<forall>e. negateExpr (apenv B) q = Some (withExpr q e) \<longrightarrow> stp_query B (withExpr q e)))"

lemma sym_arrays_wf:
  shows "wf_expr e \<Longrightarrow> \<forall>a \<in> sym_arrays e. wf_array a \<and> isSymbolicArray a"
    and "wf_updates us \<Longrightarrow> \<forall>a \<in> sym_arrays_updates us. wf_array a \<and> isSymbolicArray a"
  by (induction e and us) auto

lemma in_bounds_reads:
  shows "in_bounds \<alpha> e \<Longrightarrow> reads_ok \<alpha> e" and "updates_in_bounds \<alpha> us \<Longrightarrow> updates_reads_ok \<alpha> us"
  by (induction e and us) auto

lemma new_bindings:
  "foldl (\<lambda>m (os, arr). if m os = None then m(os \<mapsto> arr) else m) m xs a = (case m a of Some x \<Rightarrow> Some x | None \<Rightarrow> map_of xs a)"
  by (induction xs arbitrary: m) (auto split: option.split if_splits)

lemma assigned_values:
  assumes "bytes \<alpha>" "a \<in> set objects" "i < arr_size a"
  shows "assigned (Assignment_new objects (values_of \<alpha> objects) False) a i = \<alpha> a i"
proof -
  have "map_of (zip objects (values_of \<alpha> objects)) a = Some (map (\<lambda>i. word_of_int (\<alpha> a i)) [0..<arr_size a])"
    using assms(2) by (simp add: values_of_def map_of_zip_map)
  moreover have "uint (word_of_int (\<alpha> a i) :: uint8_t) = \<alpha> a i"
    using assms(1) by (simp add: bytes_def uint_word_of_int mod_pos_pos_trivial)
  ultimately show ?thesis using assms(3) by (simp add: assigned_def Assignment_new_def new_bindings)
qed

text \<open>An expression evaluated with the values of its objects.\<close>

lemma evaluate_values:
  assumes "apint_laws E" "value_query q" "wf_expr (q_expr q)" "set objects = sym_arrays (q_expr q)" "bytes \<alpha>"
  shows "evaluate E hash (Assignment_new objects (values_of \<alpha> objects) False) (q_expr q) =
    Some (ConstantExpr (APInt (getWidth (q_expr q)) (eval \<alpha> (q_expr q))))"
proof -
  let ?a = "Assignment_new objects (values_of \<alpha> objects) False"
  from assms(2) bytes_assigned have v: "optimizable (q_expr q)" "evaluable (assigned ?a) (q_expr q)" "in_bounds (assigned ?a) (q_expr q)"
    "in_bounds \<alpha> (q_expr q)" using assms(5) by (auto simp: value_query_def)
  have "eval \<alpha> (q_expr q) = eval (assigned ?a) (q_expr q)"
    by (rule eval_agree(1) [OF assms(5), where full = False])
      (use assigned_values [OF assms(5)] assms(3,4) v(4) in_bounds_reads(1) in auto)
  moreover have "fine E (assigned ?a) (q_expr q)" using v assms(3) in_bounds_reads(1) by (auto simp: fine_def expr_ok_def)
  ultimately show ?thesis
    using AssignmentEvaluator_visit [OF assms(1), of ?a "q_expr q" Map.empty hash] v(1)
    by (auto simp: evaluate_def cache_ok_def Assignment_new_def)
qed

text \<open>\<open>sure\<close>: every query gets an answer. Without a child process nothing else is an answer.\<close>

definition answers :: "bool \<Rightarrow> stp_solver_cfg \<Rightarrow> bool" where
  "answers sure C \<longleftrightarrow> (\<forall>P q. (sure \<or> \<not> useForkedSTP C \<longrightarrow> TopLevelSTP C P q \<in> {0, 1}) \<and>
    (sure \<and> useForkedSTP C \<longrightarrow> fork_child C P q = Finished))"

definition stp_inv :: "stp_solver_cfg \<Rightarrow> bool \<Rightarrow> stp_state \<Rightarrow> bool" where
  "stp_inv C z s \<longleftrightarrow> vc s = [] \<and> stored (scfg C) z (builder s)"

lemma objects_fit:
  assumes "objects_ok objects"
  shows "foldl (\<lambda>sum a. sum + of_nat (arr_size a)) 0 objects < shared_memory_size"
proof -
  have "foldl (\<lambda>sum a. sum + of_nat (arr_size a)) k objects = k + of_nat (\<Sum>a\<leftarrow>objects. arr_size a)" for k :: uint32_t
    by (induction objects arbitrary: k) (simp_all add: add.assoc)
  moreover have "(of_nat (\<Sum>a\<leftarrow>objects. arr_size a) :: uint32_t) < of_nat (2 ^ 20)"
    using assms by (simp add: objects_ok_def word_less_nat_alt unsigned_of_nat take_bit_nat_eq_self)
  ultimately show ?thesis by (simp add: shared_memory_size_def push_bit_eq_mult)
qed

text \<open>
  What \<^verbatim>\<open>c_interface.h\<close> says of \<^verbatim>\<open>vc_query\<close>: 1 is returned for a query that is valid and 0 for one that is
  not, with a counterexample that gives every term its value. The other results of \<^verbatim>\<open>SOLVER_RETURN_TYPE\<close> say nothing.
\<close>

locale stp_decides = stp_laws "scfg C" for C :: stp_solver_cfg +
  fixes z :: bool
  assumes says_valid: "formula z P \<Longrightarrow> formula z q \<Longrightarrow> TopLevelSTP C P q = 1 \<Longrightarrow> byte_vals \<mu> \<Longrightarrow> fm z \<mu> P True \<Longrightarrow> fm z \<mu> q True"
    and says_invalid: "formula z P \<Longrightarrow> formula z q \<Longrightarrow> TopLevelSTP C P q = 0 \<Longrightarrow>
      \<exists>\<mu>. byte_vals \<mu> \<and> fm z \<mu> P True \<and> fm z \<mu> q False \<and>
        (\<forall>t w v. bv z \<mu> t w v \<longrightarrow> GetCounterExample C P q t = BVConst w v)"
    and solver_results: "TopLevelSTP C P q \<in> {0, 1, 2, -100}"
begin

lemma construct_means:
  assumes "stp_ok e" "stored (scfg C) z b"
  obtains t b' where "construct (scfg C) e b = Some (t, b')" "means (scfg C) z e t" "stored (scfg C) z b'"
proof -
  have c: "\<exists>t b'. construct (scfg C) e b = Some (t, b') \<and> stored_ok (scfg C) z \<mu> b' \<and> fm z \<mu> t (eval (stp_contents (scfg C) \<mu>) e = 1)"
    if "byte_vals \<mu>" for \<mu>
    using construct_ok [OF that, of e z b] assms stp_bytes [OF that] that by (auto simp: stp_ok_def stored_def den_def)
  from c [OF zero_vals] obtain t b' where t: "construct (scfg C) e b = Some (t, b')" by blast
  from c have "means (scfg C) z e t" "stored (scfg C) z b'" by (auto simp: means_def stored_def t)
  with t show thesis by (rule that)
qed

lemma assert_constraints_ok:
  assumes "list_all stp_ok cs" "stored (scfg C) z (builder s)" "vc s = [ts]"
  shows "\<exists>b ts'. assert_constraints C cs s = Some \<lparr>vc = [ts @ ts'], builder = b\<rparr> \<and> stored (scfg C) z b \<and> list_all2 (means (scfg C) z) cs ts'"
  using assms
proof (induction cs arbitrary: s ts)
  case (Cons c cs)
  from Cons.prems(1) have "stp_ok c" by simp
  from construct_means [OF this Cons.prems(2)] obtain t b where
    t: "construct (scfg C) c (builder s) = Some (t, b)" "means (scfg C) z c t" "stored (scfg C) z b" .
  from t(2) zero_vals have "vc_assertFormula t (vc s) = Some [ts @ [t]]"
    using formula_asserted Cons.prems(3) by (fastforce simp: means_def)
  moreover from Cons.IH [of "\<lparr>vc = [ts @ [t]], builder = b\<rparr>" "ts @ [t]"] Cons.prems(1) t(3) obtain b' ts' where
    "assert_constraints C cs \<lparr>vc = [ts @ [t]], builder = b\<rparr> = Some \<lparr>vc = [ts @ t # ts'], builder = b'\<rparr>"
    "stored (scfg C) z b'" "list_all2 (means (scfg C) z) cs ts'" by auto
  ultimately show ?case using t by (intro exI [of _ b'] exI [of _ "t # ts'"]) simp
next
  case (Nil s ts)
  thus ?case by (cases s) simp
qed

lemma asserts_node_fm:
  assumes "list_all2 (means (scfg C) z) cs ts" "byte_vals \<mu>"
  shows "fm z \<mu> (asserts_node (NFac (scfg C)) ts) (\<forall>c \<in> set cs. eval (stp_contents (scfg C) \<mu>) c = 1)"
proof -
  from assms have l: "list_all2 (\<lambda>c t. fm z \<mu> t (eval (stp_contents (scfg C) \<mu>) c = 1)) cs ts"
    by (auto simp: means_def elim!: list_all2_mono)
  hence bs: "those (map (node_eval z \<mu>) ts) = Some (map (\<lambda>c. CBool (eval (stp_contents (scfg C) \<mu>) c = 1)) cs)"
    by (induction rule: list_all2_induct) (auto dest: fmD(4))
  have "those (map bool_const (map (\<lambda>c. CBool (eval (stp_contents (scfg C) \<mu>) c = 1)) cs)) = Some (map (\<lambda>c. eval (stp_contents (scfg C) \<mu>) c = 1) cs)"
    by (induction cs) (simp_all add: bool_const_def)
  with bs have e: "node_eval z \<mu> (Interior ANDF 0 0 ts) = Some (CBool (\<forall>c \<in> set cs. eval (stp_contents (scfg C) \<mu>) c = 1))"
    by (simp add: NonMemberBVConstEvaluator_def const_bool_def list_all_iff comp_def)
  from l have w: "list_all node_wf ts" "list_all (\<lambda>t. GetType t = BOOLEAN_TYPE) ts"
    by (induction rule: list_all2_induct) (auto dest: fmD)
  have and_fm: "fm z \<mu> (Interior ANDF 0 0 ts) (\<forall>c \<in> set cs. eval (stp_contents (scfg C) \<mu>) c = 1)" if "2 \<le> length ts"
    using that w e by (simp add: fm_def check_defs GetType_def)
  have true_fm: "fm z \<mu> (Interior TRUE 0 0 []) True" by (simp add: fm_def check_defs GetType_def NonMemberBVConstEvaluator_def)
  consider "ts = []" | t where "ts = [t]" | t t' us where "ts = t # t' # us"
    by (metis neq_Nil_conv)
  thus ?thesis
  proof cases
    case 1
    with l fm_made [OF true_fm] show ?thesis by (simp add: asserts_node_def CreateNode_def)
  next
    case 2
    with l show ?thesis by (auto simp: asserts_node_def list_all2_Cons2)
  next
    case 3
    with fm_made [OF and_fm] show ?thesis by (simp add: asserts_node_def CreateNode_def)
  qed
qed

lemma getInitialRead_ok:
  assumes "wf_array a" "isSymbolicArray a" "i < 2 ^ 32" "stored (scfg C) z b"
  obtains t b' where "getInitialRead (scfg C) a (of_nat i) b = Some (t, b')" "stored (scfg C) z b'"
    "\<forall>\<mu>. byte_vals \<mu> \<longrightarrow> bv z \<mu> t 8 (stp_contents (scfg C) \<mu> a i)"
proof -
  have c: "\<exists>t b'. getInitialRead (scfg C) a (of_nat i) b = Some (t, b') \<and> stored_ok (scfg C) z \<mu> b' \<and>
    bv z \<mu> t 8 (stp_contents (scfg C) \<mu> a i)" if m: "byte_vals \<mu>" for \<mu>
  proof -
    from getInitialArray_ok [OF m assms(1), of z] assms(4) m obtain n b' f where n: "getInitialArray (scfg C) a b = Some (n, b')"
      "stored_ok (scfg C) z \<mu> b'" "arr z \<mu> n f"
      "\<forall>i\<ge>0. f i = initial_value (stp_contents (scfg C) \<mu>) a i" by (auto simp: makes_array_def stored_def arr_den_def)
    have u: "uint (of_nat i :: uint32_t) = int i" using assms(3) by (simp add: unsigned_of_nat take_bit_nat_eq_self)
    with assms(3) bv_consts(4) [of 32 "of_nat i" z \<mu>] obtain c where c: "bvConst32 32 (of_nat i) = Some c" "bv z \<mu> c 32 (int i)" by auto
    from vc_arrays(1) [OF n(3) c(2)] obtain t where "vc_readExpr (NFac (scfg C)) n c = Some t" "bv z \<mu> t 8 (f (int i))" by blast
    moreover have "f (int i) = stp_contents (scfg C) \<mu> a i" using n(4) assms(2) by (simp add: initial_value_def isConstantArray_def)
    ultimately show ?thesis using n c by (simp add: getInitialRead_def)
  qed
  from c [OF zero_vals] obtain t b' where t: "getInitialRead (scfg C) a (of_nat i) b = Some (t, b')" by blast
  from c have "stored (scfg C) z b'" "\<forall>\<mu>. byte_vals \<mu> \<longrightarrow> bv z \<mu> t 8 (stp_contents (scfg C) \<mu> a i)" by (auto simp: stored_def t)
  with t show thesis by (rule that)
qed

lemma cex_bytes_ok:
  assumes "byte_vals \<mu>" "\<forall>t w v. bv z \<mu> t w v \<longrightarrow> vc_getCounterExample C q m t = BVConst w v" "wf_array a" "isSymbolicArray a"
  shows "\<forall>i \<in> set is. i < 2 ^ 32 \<Longrightarrow> stored (scfg C) z b \<Longrightarrow>
    \<exists>b'. cex_bytes C q m a is b = Some (map (\<lambda>i. word_of_int (stp_contents (scfg C) \<mu> a i)) is, b') \<and> stored (scfg C) z b'"
proof (induction "is" arbitrary: b)
  case (Cons i "is")
  from Cons.prems(1) have "i < 2 ^ 32" by simp
  from getInitialRead_ok [OF assms(3,4) this Cons.prems(2)] obtain t b1 where
    t: "getInitialRead (scfg C) a (of_nat i) b = Some (t, b1)" "stored (scfg C) z b1" "bv z \<mu> t 8 (stp_contents (scfg C) \<mu> a i)"
    using assms(1) by metis
  let ?v = "stp_contents (scfg C) \<mu> a i"
  have "getBVUnsigned (vc_getCounterExample C q m t) = Some (word_of_int ?v)"
    using t(3) assms(2) by (simp add: getBVUnsigned_def)
  moreover have "ucast (word_of_int ?v :: uint32_t) = (word_of_int ?v :: uint8_t)" by (rule bit_word_eqI) (simp add: bit_simps)
  moreover from Cons.IH [OF _ t(2)] Cons.prems(1) obtain b' where
    "cex_bytes C q m a is b1 = Some (map (\<lambda>i. word_of_int (stp_contents (scfg C) \<mu> a i)) is, b')" "stored (scfg C) z b'" by auto
  ultimately show ?case using t(1) by simp
qed simp

lemma cex_values_ok:
  assumes "byte_vals \<mu>" "\<forall>t w v. bv z \<mu> t w v \<longrightarrow> vc_getCounterExample C q m t = BVConst w v"
  shows "\<forall>a \<in> set objects. wf_array a \<and> isSymbolicArray a \<Longrightarrow> stored (scfg C) z b \<Longrightarrow>
    \<exists>b'. cex_values C q m objects b = Some (values_of (stp_contents (scfg C) \<mu>) objects, b') \<and> stored (scfg C) z b'"
proof (induction objects arbitrary: b)
  case (Cons a objects)
  hence a: "wf_array a" "isSymbolicArray a" by simp_all
  from a(1) have "\<forall>i \<in> set [0..<arr_size a]. i < 2 ^ 32" by (auto simp: wf_array_def)
  from cex_bytes_ok [OF assms a this Cons.prems(2)] obtain b1 where
    b1: "cex_bytes C q m a [0..<arr_size a] b = Some (map (\<lambda>i. word_of_int (stp_contents (scfg C) \<mu> a i)) [0..<arr_size a], b1)" "stored (scfg C) z b1" by blast
  from Cons.IH [OF _ b1(2)] Cons.prems(1) b1(1) show ?case by (auto simp: values_of_def)
qed (simp add: values_of_def)

text \<open>The answer of the decision procedure to a translated query.\<close>

lemma decided:
  assumes "stp_query (scfg C) q" "list_all2 (means (scfg C) z) (q_constraints q) ts" "means (scfg C) z (q_expr q) t"
  defines "P \<equiv> asserts_node (NFac (scfg C)) ts"
  shows "TopLevelSTP C P t = 1 \<Longrightarrow> valid q"
    and "TopLevelSTP C P t = 0 \<Longrightarrow> \<exists>\<mu>. byte_vals \<mu> \<and> models (stp_contents (scfg C) \<mu>) (q_constraints q) \<and>
      eval (stp_contents (scfg C) \<mu>) (q_expr q) = 0 \<and> (\<forall>u w v. bv z \<mu> u w v \<longrightarrow> GetCounterExample C P t u = BVConst w v)"
proof -
  have p: "fm z \<mu> P (\<forall>c \<in> set (q_constraints q). eval (stp_contents (scfg C) \<mu>) c = 1)" if "byte_vals \<mu>" for \<mu>
    unfolding P_def using asserts_node_fm [OF assms(2) that] .
  have t: "fm z \<mu> t (eval (stp_contents (scfg C) \<mu>) (q_expr q) = 1)" if "byte_vals \<mu>" for \<mu>
    using assms(3) that by (simp add: means_def)
  have f: "formula z P" "formula z t" using p t by (auto simp: formula_def)
  have unique: "b = b'" if "fm z \<mu> n b" "fm z \<mu> n b'" for n \<mu> b b' using fmD(4) [OF that(1)] fmD(4) [OF that(2)] by simp
  show "valid q" if "TopLevelSTP C P t = 1"
    unfolding stp_valid [OF assms(1)]
  proof (intro allI impI)
    fix \<mu> assume m: "byte_vals \<mu>" "\<forall>c \<in> set (q_constraints q). eval (stp_contents (scfg C) \<mu>) c = 1"
    have "fm z \<mu> P True" using p [OF m(1)] unfolding eqTrueI [OF m(2)] .
    from unique [OF says_valid [OF f that m(1) this] t [OF m(1)]] show "eval (stp_contents (scfg C) \<mu>) (q_expr q) = 1" by simp
  qed
  assume "TopLevelSTP C P t = 0"
  from says_invalid [OF f this] obtain \<mu> where m: "byte_vals \<mu>" "fm z \<mu> P True" "fm z \<mu> t False"
    "\<forall>u w v. bv z \<mu> u w v \<longrightarrow> GetCounterExample C P t u = BVConst w v" by blast
  let ?\<alpha> = "stp_contents (scfg C) \<mu>"
  have "models ?\<alpha> (q_constraints q)" "eval ?\<alpha> (q_expr q) \<noteq> 1"
    using unique [OF m(2) p [OF m(1)]] unique [OF m(3) t [OF m(1)]] stp_bytes [OF m(1)] by (auto simp: models_def)
  moreover have "0 \<le> eval ?\<alpha> (q_expr q) \<and> eval ?\<alpha> (q_expr q) < 2 ^ 1"
    using eval_range(1) [OF stp_bytes [OF m(1)], of "q_expr q"] assms(1) by (simp add: stp_query_def stp_ok_def)
  ultimately show "\<exists>\<mu>. byte_vals \<mu> \<and> models (stp_contents (scfg C) \<mu>) (q_constraints q) \<and>
      eval (stp_contents (scfg C) \<mu>) (q_expr q) = 0 \<and> (\<forall>u w v. bv z \<mu> u w v \<longrightarrow> GetCounterExample C P t u = BVConst w v)"
    using m(1,4) by (intro exI [of _ \<mu>]) auto
qed

lemma cex_right:
  assumes "stp_query (scfg C) q" "list_all2 (means (scfg C) z) (q_constraints q) ts" "means (scfg C) z (q_expr q) t"
    "\<forall>a \<in> set objects. wf_array a \<and> isSymbolicArray a" "stored (scfg C) z b"
    "TopLevelSTP C (asserts_node (NFac (scfg C)) ts) t = 0"
  obtains vals b' where "cex_values C t [ts] objects b = Some (vals, b')" "stored (scfg C) z b'" "right_values q objects (vals, True)"
proof -
  from decided(2) [OF assms(1-3,6)] obtain \<mu> where m: "byte_vals \<mu>" "models (stp_contents (scfg C) \<mu>) (q_constraints q)"
    "eval (stp_contents (scfg C) \<mu>) (q_expr q) = 0" "\<forall>u w v. bv z \<mu> u w v \<longrightarrow> vc_getCounterExample C t [ts] u = BVConst w v"
    by (auto simp: vc_getCounterExample_def GetAsserts_def)
  from cex_values_ok [OF m(1,4) assms(4,5)] obtain b' where
    "cex_values C t [ts] objects b = Some (values_of (stp_contents (scfg C) \<mu>) objects, b')" "stored (scfg C) z b'" by blast
  moreover have "right_values q objects (values_of (stp_contents (scfg C) \<mu>) objects, True)"
    using m(2,3) by (auto simp: right_values_def valid_def)
  ultimately show thesis by (rule that)
qed

lemma run_ok:
  assumes "stp_query (scfg C) q" "list_all2 (means (scfg C) z) (q_constraints q) ts" "means (scfg C) z (q_expr q) t"
    "objects_ok objects" "stored (scfg C) z b" "answers sure C"
  shows "\<exists>r b'. (if useForkedSTP C then runAndGetCexForked C t objects \<lparr>vc = [ts], builder = b\<rparr>
      else runAndGetCex C t objects \<lparr>vc = [ts], builder = b\<rparr>) = Some (r, \<lparr>vc = [ts], builder = b'\<rparr>) \<and> stored (scfg C) z b' \<and>
    (sure \<longrightarrow> r \<noteq> None) \<and> (\<forall>x. r = Some x \<longrightarrow> right_values q objects x)"
proof -
  let ?R = "TopLevelSTP C (asserts_node (NFac (scfg C)) ts) t"
  from assms(3) zero_vals have query: "vc_query C t [ts] = Some ?R"
    using formula_queried by (fastforce simp: means_def GetAsserts_def)
  have none: "right_values q objects ([], False)" if "?R = 1"
    using decided(1) [OF assms(1-3) that] by (simp add: right_values_def)
  have objs: "\<forall>a \<in> set objects. wf_array a \<and> isSymbolicArray a" using assms(4) by (simp add: objects_ok_def)
  note cex = cex_right [OF assms(1-3) objs assms(5)]
  show ?thesis
  proof (cases "useForkedSTP C")
    case True
    let ?F = "fork_child C (asserts_node (NFac (scfg C)) ts) t"
    have s: "sure \<longrightarrow> ?F = Finished \<and> (?R = 0 \<or> ?R = 1)" using assms(6) True by (auto simp: answers_def)
    consider "?F \<noteq> Finished" | "?F = Finished" "?R = 0" | "?F = Finished" "?R = 1" | "?F = Finished" "?R = 2 \<or> ?R = -100"
      using solver_results [of "asserts_node (NFac (scfg C)) ts" t] by blast
    thus ?thesis
    proof cases
      case 1
      with True s assms(5) objects_fit [OF assms(4)] show ?thesis
        by (cases ?F) (auto simp: runAndGetCexForked_def return_false_def GetAsserts_def)
    next
      case 2
      from cex [OF 2(2)] obtain vals b' where "cex_values C t [ts] objects b = Some (vals, b')" "right_values q objects (vals, True)" .
      with 2 True assms(5) objects_fit [OF assms(4)] query show ?thesis
        by (auto simp: runAndGetCexForked_def return_ok_def GetAsserts_def)
    next
      case 3
      with True assms(5) objects_fit [OF assms(4)] query none show ?thesis
        by (auto simp: runAndGetCexForked_def return_ok_def GetAsserts_def)
    next
      case 4
      with True assms(5) objects_fit [OF assms(4)] query s show ?thesis
        by (auto simp: runAndGetCexForked_def return_false_def GetAsserts_def)
    qed
  next
    case False
    with assms(6) have "?R = 0 \<or> ?R = 1" by (auto simp: answers_def)
    thus ?thesis
    proof
      assume r: "?R = 0"
      from cex [OF r] obtain vals b' where "cex_values C t [ts] objects b = Some (vals, b')" "stored (scfg C) z b'" "right_values q objects (vals, True)" .
      with r False query show ?thesis by (auto simp: runAndGetCex_def)
    next
      assume "?R = 1"
      with none False query assms(5) show ?thesis by (auto simp: runAndGetCex_def)
    qed
  qed
qed

text \<open>The translated query is what the decision procedure is asked.\<close>

lemma translated:
  assumes "stp_query (scfg C) q" "stp_inv C z s"
  obtains ts t b where "list_all2 (means (scfg C) z) (q_constraints q) ts" "means (scfg C) z (q_expr q) t" "stored (scfg C) z b"
    "STP_computeInitialValues C q objects s = do {
      (r, s) \<leftarrow> (if useForkedSTP C then runAndGetCexForked C t objects \<lparr>vc = [ts], builder = b\<rparr>
        else runAndGetCex C t objects \<lparr>vc = [ts], builder = b\<rparr>);
      Some (r, s\<lparr>vc := Pop (vc s)\<rparr>) }"
proof -
  from assms(2) have s: "vc (reinstantiate C s) = []" "stored (scfg C) z (builder (reinstantiate C s))"
    using stored_new by (auto simp: stp_inv_def reinstantiate_def)
  let ?s = "(reinstantiate C s)\<lparr>vc := Push (vc (reinstantiate C s))\<rparr>"
  from assms(1) have ok: "list_all stp_ok (q_constraints q)" "stp_ok (q_expr q)" by (auto simp: stp_query_def)
  have "stored (scfg C) z (builder ?s)" "vc ?s = [[]]" using s by (simp_all add: Push_def)
  from assert_constraints_ok [OF ok(1) this] obtain b ts where a: "assert_constraints C (q_constraints q) ?s = Some \<lparr>vc = [ts], builder = b\<rparr>"
    "stored (scfg C) z b" "list_all2 (means (scfg C) z) (q_constraints q) ts" by auto
  from construct_means [OF ok(2) a(2)] obtain t b1 where t: "construct (scfg C) (q_expr q) b = Some (t, b1)"
    "means (scfg C) z (q_expr q) t" "stored (scfg C) z b1" .
  show thesis by (rule that [OF a(3) t(2,3)]) (use a(1) t(1) in \<open>simp add: STP_computeInitialValues_def Let_def\<close>)
qed

lemma initial_values_ok:
  assumes "stp_query (scfg C) q" "objects_ok objects" "answers sure C"
  shows "solves sure (stp_inv C z) (right_values q objects) (STP_computeInitialValues C q objects)"
  unfolding solves_def
proof (intro allI impI)
  fix s assume "stp_inv C z s"
  from translated [OF assms(1) this, of objects] obtain ts t b where
    t: "list_all2 (means (scfg C) z) (q_constraints q) ts" "means (scfg C) z (q_expr q) t" "stored (scfg C) z b"
    "STP_computeInitialValues C q objects s = do {
      (r, s) \<leftarrow> (if useForkedSTP C then runAndGetCexForked C t objects \<lparr>vc = [ts], builder = b\<rparr>
        else runAndGetCex C t objects \<lparr>vc = [ts], builder = b\<rparr>);
      Some (r, s\<lparr>vc := Pop (vc s)\<rparr>) }" .
  from run_ok [OF assms(1) t(1,2) assms(2) t(3) assms(3)] obtain r b' where
    r: "(if useForkedSTP C then runAndGetCexForked C t objects \<lparr>vc = [ts], builder = b\<rparr>
      else runAndGetCex C t objects \<lparr>vc = [ts], builder = b\<rparr>) = Some (r, \<lparr>vc = [ts], builder = b'\<rparr>)" "stored (scfg C) z b'"
    "sure \<longrightarrow> r \<noteq> None" "\<forall>x. r = Some x \<longrightarrow> right_values q objects x" by blast
  have "STP_computeInitialValues C q objects s = Some (r, \<lparr>vc = [], builder = b'\<rparr>)"
    unfolding t(4) r(1) by (simp add: Pop_def)
  with r(2-4) show "\<exists>r s'. STP_computeInitialValues C q objects s = Some (r, s') \<and> stp_inv C z s' \<and> (sure \<longrightarrow> r \<noteq> None) \<and>
      (\<forall>x. r = Some x \<longrightarrow> right_values q objects x)" by (auto simp: stp_inv_def)
qed

lemma truth_ok:
  assumes "stp_query (scfg C) q" "answers sure C"
  shows "solves sure (stp_inv C z) (\<lambda>b. b = valid q) (STP_computeTruth C q)"
  unfolding STP_computeTruth_def
proof (rule solves_if_ok [OF initial_values_ok [OF assms(1) _ assms(2)]])
  show "objects_ok []" by (simp add: objects_ok_def)
  show "solves sure (stp_inv C z) (\<lambda>b. b = valid q) (case x of (values, hasSolution) \<Rightarrow> return_ok (\<not> hasSolution))"
    if "right_values q [] x" for x using that by (cases x) (simp add: right_values_def solves_return)
qed

lemma withFalse_simps [simp]: "q_constraints (withFalse (apenv (scfg C)) q) = q_constraints q" "eval \<alpha> (q_expr (withFalse (apenv (scfg C)) q)) = 0"
  by (simp_all add: withFalse_def ConstantExpr_alloc_def ap_new)

lemma withFalse_not_valid: "models \<alpha> (q_constraints q) \<Longrightarrow> \<not> valid (withFalse (apenv (scfg C)) q)"
  by (auto simp: valid_def)

lemma value_ok:
  assumes "stp_query (scfg C) (withFalse (apenv (scfg C)) q)" "value_query q" "query_ok (apenv (scfg C)) q" "answers sure C"
  shows "solves sure (stp_inv C z) (\<lambda>e. \<exists>c \<alpha>. e = ConstantExpr c \<and> ap_width c = getWidth (q_expr q) \<and>
        models \<alpha> (q_constraints q) \<and> ap_val c = eval \<alpha> (q_expr q)) (STP_computeValue C q)"
proof -
  let ?E = "apenv (scfg C)"
  let ?q = "withFalse ?E q"
  from findSymbolicObjects_ok [of ?E "solverVisitorHash C" "[q_expr q]"] obtain objects where
    o: "findSymbolicObjects ?E (solverVisitorHash C) [q_expr q] [] = Some objects" "distinct objects" "set objects = sym_arrays (q_expr q)" by auto
  have wf: "wf_expr (q_expr q)" using assms(3) by (auto simp: query_ok_def expr_ok_def models_def)
  from assms(2) o(2,3) sym_arrays_wf(1) [OF wf] have ok: "objects_ok objects"
    by (simp add: objects_ok_def value_query_def sum_list_distinct_conv_sum_set)
  have solution: "\<exists>\<alpha>. models \<alpha> (q_constraints q) \<and> x = (values_of \<alpha> objects, True)" if "right_values ?q objects x" for x
    using that assms(3) withFalse_not_valid by (cases x) (auto simp: right_values_def query_ok_def)
  have evaluates: "evaluate ?E (solverVisitorHash C) (Assignment_new objects (values_of \<alpha> objects) False) (q_expr q) =
      Some (ConstantExpr (APInt (getWidth (q_expr q)) (eval \<alpha> (q_expr q))))" if "models \<alpha> (q_constraints q)" for \<alpha>
    using evaluate_values [OF _ assms(2) wf o(3)] apint_laws_axioms that by (simp add: models_def)
  show ?thesis
    unfolding STP_computeValue_def
  proof (rule solves_if_ok [where P = "\<lambda>x. x = objects", OF solves_abort [OF o(1) refl]])
    fix x assume x: "x = objects"
    show "solves sure (stp_inv C z) (\<lambda>e. \<exists>c \<alpha>. e = ConstantExpr c \<and> ap_width c = getWidth (q_expr q) \<and>
        models \<alpha> (q_constraints q) \<and> ap_val c = eval \<alpha> (q_expr q))
      (if_ok (STP_computeInitialValues C ?q x) (\<lambda>(values, hasSolution). if_ok (or_abort (assert_that hasSolution)) (\<lambda>_.
        or_abort (evaluate ?E (solverVisitorHash C) (Assignment_new x values False) (q_expr q)))))"
      unfolding x
    proof (rule solves_if_ok [OF initial_values_ok [OF assms(1) ok assms(4)]])
      fix y assume "right_values ?q objects y"
      from solution [OF this] obtain \<alpha> where a: "models \<alpha> (q_constraints q)" "y = (values_of \<alpha> objects, True)" by blast
      show "solves sure (stp_inv C z) (\<lambda>e. \<exists>c \<alpha>. e = ConstantExpr c \<and> ap_width c = getWidth (q_expr q) \<and>
          models \<alpha> (q_constraints q) \<and> ap_val c = eval \<alpha> (q_expr q))
        (case y of (values, hasSolution) \<Rightarrow> if_ok (or_abort (assert_that hasSolution)) (\<lambda>_.
          or_abort (evaluate ?E (solverVisitorHash C) (Assignment_new objects values False) (q_expr q))))"
        unfolding a(2) prod.case
        by (rule solves_if_ok [where P = "\<lambda>_. True"]) (use a(1) evaluates [OF a(1)] in \<open>auto intro!: solves_abort\<close>)
    qed
  qed
qed

lemma stp_spec:
  assumes "answers sure C"
  shows "solver_spec (apenv (scfg C)) (stp_queries (scfg C)) sure (STPSolverImpl C) (stp_inv C z)"
proof (unfold_locales, goal_cases)
  case (1 q)
  thus ?case using truth_ok [OF _ assms] by (simp add: STPSolverImpl_def stp_queries_def)
next
  case (2 q)
  thus ?case
    using validity_by_truth [OF 2(2,3), of sure "stp_inv C z" "STP_computeTruth C"] truth_ok [OF _ assms]
    by (auto simp: STPSolverImpl_def stp_queries_def)
next
  case (3 q)
  thus ?case using value_ok [OF _ _ _ assms] by (simp add: STPSolverImpl_def stp_queries_def)
next
  case (4 q objects)
  hence "stp_query (scfg C) q" using 4(3) by (simp add: stp_queries_def)
  show ?case
    unfolding STPSolverImpl_def solver_impl.simps
    by (rule solves_weaken [OF initial_values_ok [OF \<open>stp_query (scfg C) q\<close> 4(4) assms]]) (auto simp: right_values_def)
qed

end

subsection \<open>A decision procedure\<close>

text \<open>
  A procedure with the laws: it tries all arrays whose bytes are equal, and knows that a formula without symbols has one value.
\<close>

definition refutes :: "bool \<Rightarrow> node \<Rightarrow> node \<Rightarrow> int \<Rightarrow> bool" where
  "refutes z P q c \<longleftrightarrow> node_eval z (\<lambda>_ _. c) P = Some (CBool True) \<and> node_eval z (\<lambda>_ _. c) q = Some (CBool False)"

fun symbol_free :: "node \<Rightarrow> bool" where
  "symbol_free (BVConst w v) = True"
| "symbol_free (Symbol s iw vw) = False"
| "symbol_free (Interior k iw vw cs) = list_all symbol_free cs"

definition trial_STP :: "bool \<Rightarrow> node \<Rightarrow> node \<Rightarrow> int" where
  "trial_STP z P q = (if find (refutes z P q) [0..255] \<noteq> None then 0 else if symbol_free P \<and> symbol_free q then 1 else 2)"

definition trial_example :: "bool \<Rightarrow> node \<Rightarrow> node \<Rightarrow> node \<Rightarrow> node" where
  "trial_example z P q t = (case find (refutes z P q) [0..255] of
     Some c \<Rightarrow> (case node_eval z (\<lambda>_ _. c) t of Some (CBV w v) \<Rightarrow> BVConst w v | _ \<Rightarrow> t)
   | None \<Rightarrow> t)"

definition trial_cfg :: "bool \<Rightarrow> bool \<Rightarrow> stp_solver_cfg" where
  "trial_cfg z forked = \<lparr>scfg = stp_config (\<lambda>_. 0) True, TopLevelSTP = trial_STP z, GetCounterExample = trial_example z,
     useForkedSTP = forked, ReinstantiateSolver = False, fork_child = (\<lambda>_ _. Finished), solverVisitorHash = True\<rparr>"

lemma symbol_free_eval: "symbol_free n \<Longrightarrow> node_eval z \<mu> n = node_eval z \<mu>' n"
proof (induction n)
  case (Interior k iw vw cs)
  hence "map (node_eval z \<mu>) cs = map (node_eval z \<mu>') cs" by (simp add: list_all_iff)
  thus ?case by (simp only: node_eval.simps)
qed simp_all

interpretation trial: stp_decides "trial_cfg z forked" z
proof -
  have l: "stp_laws (scfg (trial_cfg z forked))" using stp.stp_laws_axioms by (simp add: trial_cfg_def)
  have v: "byte_vals (\<lambda>_ _. c)" if "0 \<le> c" "c < 256" for c using that by (simp add: byte_vals_def)
  have f: "fm z (\<lambda>_ _. c) n b" if "formula z n" "node_eval z (\<lambda>_ _. c) n = Some (CBool b)" "0 \<le> c" "c < 256" for n b c
    using that v fmD(4) by (force simp: formula_def)
  show "stp_decides (trial_cfg z forked) z"
  proof (rule stp_decides.intro [OF l], unfold_locales, goal_cases)
    case (1 P q \<mu>)
    hence r: "find (refutes z P q) [0..255] = None" "symbol_free P" "symbol_free q"
      by (auto simp: trial_cfg_def trial_STP_def split: if_splits)
    from r(1) have "\<not> refutes z P q 0" by (auto simp: find_None_iff)
    moreover have "node_eval z (\<lambda>_ _. 0) P = Some (CBool True)" using fmD(4) [OF 1(5)] symbol_free_eval [OF r(2)] by metis
    moreover obtain b where b: "fm z \<mu> q b" using 1(2,4) by (auto simp: formula_def)
    moreover have "node_eval z (\<lambda>_ _. 0) q = Some (CBool b)" using fmD(4) [OF b] symbol_free_eval [OF r(3)] by metis
    ultimately show ?case by (cases b) (auto simp: refutes_def)
  next
    case (2 P q)
    then obtain c where c: "find (refutes z P q) [0..255] = Some c" by (auto simp: trial_cfg_def trial_STP_def split: if_splits)
    hence "refutes z P q c" "0 \<le> c" "c < 256" by (auto simp: find_Some_iff dest!: nth_mem)
    thus ?case using f 2(1,2) v c
      by (intro exI [of _ "\<lambda>_ _. c"]) (auto simp: refutes_def trial_cfg_def trial_example_def dest: bvD(5))
  next
    case (3 P q)
    show ?case by (simp add: trial_cfg_def trial_STP_def)
  qed
qed

text \<open>The queries stay in the fragment when constraints are dropped.\<close>

lemma stp_queries_subset:
  assumes "stp_queries B q" "set (q_constraints q') \<subseteq> set (q_constraints q)" "q_expr q' = q_expr q"
  shows "stp_queries B q'"
proof -
  have sub: "stp_query B q\<^sub>2" if "stp_query B q\<^sub>1" "set (q_constraints q\<^sub>2) \<subseteq> set (q_constraints q\<^sub>1)" "q_expr q\<^sub>2 = q_expr q\<^sub>1" for q\<^sub>1 q\<^sub>2
  proof -
    have "query_arrays q\<^sub>2 \<subseteq> query_arrays q\<^sub>1" using that(2,3) by (auto simp: query_arrays_def)
    with that show ?thesis by (auto simp: stp_query_def reads_in_range_def list_all_iff intro: inj_on_subset)
  qed
  have n: "negateExpr (apenv B) q = Some (withExpr q e)" if "negateExpr (apenv B) q' = Some (withExpr q' e)" for e
    using that assms(3) by (auto simp: negateExpr_def withExpr_def)
  from assms(1) have q: "stp_query B (withFalse (apenv B) q)" "value_query q"
    "getWidth (q_expr q) = 1 \<Longrightarrow> stp_query B q \<and> (\<forall>e. negateExpr (apenv B) q = Some (withExpr q e) \<longrightarrow> stp_query B (withExpr q e))"
    by (auto simp: stp_queries_def)
  show ?thesis
    unfolding stp_queries_def
  proof (intro conjI impI allI)
    show "stp_query B (withFalse (apenv B) q')" by (rule sub [OF q(1)]) (use assms(2) in \<open>simp_all add: withFalse_def\<close>)
    show "value_query q'" using q(2) assms(3) by (simp add: value_query_def)
    assume "getWidth (q_expr q') = 1"
    with q(3) assms(3) have w: "stp_query B q" "\<forall>e. negateExpr (apenv B) q = Some (withExpr q e) \<longrightarrow> stp_query B (withExpr q e)" by simp_all
    show "stp_query B q'" by (rule sub [OF w(1) assms(2,3)])
    fix e assume "negateExpr (apenv B) q' = Some (withExpr q' e)"
    from w(2) n [OF this] have "stp_query B (withExpr q e)" by blast
    thus "stp_query B (withExpr q' e)" by (rule sub) (use assms(2) in simp_all)
  qed
qed

subsection \<open>Properties\<close>

text \<open>
  The solver on top of STP keeps the contract of a solver: the constraints are asserted and the expression is asked for in the
  solver's own terms, an answer of the decision procedure is passed on as the validity of the query, a value or the bytes of a
  counterexample, whatever happens to the child process, and the state it leaves is right for the next query. The procedure is right
  when it answers; without a child it always answers.
\<close>

theorem stp_solver_correct:
  assumes "stp_decides C z" "answers sure C"
  shows "solver_spec (apenv (scfg C)) (stp_queries (scfg C)) sure (STPSolverImpl C) (stp_inv C z) \<and>
    stp_inv C z \<lparr>vc = [], builder = new_builder\<rparr>"
  using stp_decides.stp_spec [OF assms] stored_new by (simp add: stp_inv_def)

definition demo_bound :: query where
  "demo_bound = demo_query (CmpExpr Ule demo_byte (ConstantExpr (APInt 8 6)))"

lemma demo_negated:
  "negateExpr (apint_env True) demo_bound = Some (withExpr demo_bound (CmpExpr Eq (ConstantExpr (APInt 1 0)) (CmpExpr Ule demo_byte (ConstantExpr (APInt 8 6)))))"
  by code_simp

lemma demo_stp: "stp_queries (stp_config (\<lambda>_. 0) True) demo_bound"
proof -
  have e: "apenv (stp_config (\<lambda>_. 0) True) = apint_env True" by (simp add: stp_config_def)
  have z: "ConstantExpr_alloc (apint_env True) 0 1 = APInt 1 0" by code_simp
  show ?thesis
    unfolding stp_queries_def e demo_negated
    by (auto simp: demo_bound_def demo_simps withExpr_def withFalse_def z stp_query_def stp_ok_def reads_in_range_def query_arrays_def
        value_query_def)
qed

lemma demo_bound_ok: "query_ok (apint_env True) demo_bound"
proof -
  have "models (\<lambda>_ _. 5) (q_constraints demo_bound)" by (simp add: demo_bound_def demo_simps)
  thus ?thesis unfolding query_ok_def by (intro conjI exI [of _ "\<lambda>_ _. 5"]) (auto simp: demo_bound_def demo_simps)
qed

theorem stp_solver_correct_witness:
  "solves False (stp_inv (trial_cfg False True) False) (\<lambda>b. b = valid demo_bound)
    (computeTruth (STPSolverImpl (trial_cfg False True)) demo_bound)"
proof -
  have "answers False (trial_cfg False True)" by (simp add: answers_def trial_cfg_def)
  from stp_solver_correct [OF trial.stp_decides_axioms this] have
    "solver_spec (apint_env True) (stp_queries (stp_config (\<lambda>_. 0) True)) False (STPSolverImpl (trial_cfg False True)) (stp_inv (trial_cfg False True) False)"
    by (simp add: trial_cfg_def stp_config_def)
  from solver_spec.truth [OF this demo_stp demo_bound_ok] show ?thesis by (simp add: demo_bound_def demo_query_def)
qed

text \<open>
  Without a child process, a query that STP could not decide is reported as valid: only the result 0 counts as a solution, and
  \<^verbatim>\<open>SOLVER_UNDECIDED\<close>, which is 2, is not an error.
\<close>

theorem undecided_reported_valid:
  assumes "stp_laws (scfg C)" "\<not> useForkedSTP C" "\<forall>P t. TopLevelSTP C P t = 2" "stp_query (scfg C) q" "stp_inv C z s"
  shows "\<exists>s'. STP_computeTruth C q s = Some (Some True, s')"
proof -
  have d: "stp_decides C z" by (rule stp_decides.intro [OF assms(1)], unfold_locales) (use assms(3) in auto)
  from stp_decides.translated [OF d assms(4,5), of "[]"] obtain ts t b where t: "means (scfg C) z (q_expr q) t"
    "STP_computeInitialValues C q [] s = do {
      (r, s) \<leftarrow> (if useForkedSTP C then runAndGetCexForked C t [] \<lparr>vc = [ts], builder = b\<rparr>
        else runAndGetCex C t [] \<lparr>vc = [ts], builder = b\<rparr>);
      Some (r, s\<lparr>vc := Pop (vc s)\<rparr>) }" .
  have "vc_query C t [ts] = Some 2"
    using t(1) zero_vals formula_queried assms(3) by (fastforce simp: means_def)
  with t(2) assms(2) show ?thesis by (simp add: STP_computeTruth_def if_ok_def runAndGetCex_def return_ok_def)
qed

text \<open>In the query of the witness a byte that may be 7 or 8 is said to be at most 6.\<close>

definition silent_cfg :: stp_solver_cfg where
  "silent_cfg = (trial_cfg False False)\<lparr>TopLevelSTP := \<lambda>_ _. 2\<rparr>"

theorem undecided_reported_valid_witness:
  "(\<exists>s'. STP_computeTruth silent_cfg demo_bound \<lparr>vc = [], builder = new_builder\<rparr> = Some (Some True, s')) \<and> \<not> valid demo_bound"
proof -
  have c: "scfg silent_cfg = stp_config (\<lambda>_. 0) True" "\<not> useForkedSTP silent_cfg" "\<forall>P t. TopLevelSTP silent_cfg P t = 2"
    by (simp_all add: silent_cfg_def trial_cfg_def)
  have "stp_query (stp_config (\<lambda>_. 0) True) demo_bound" using demo_stp by (simp add: stp_queries_def demo_bound_def demo_query_def)
  with undecided_reported_valid [OF _ c(2,3), of demo_bound False "\<lparr>vc = [], builder = new_builder\<rparr>"] stp.stp_laws_axioms stored_new
  have "\<exists>s'. STP_computeTruth silent_cfg demo_bound \<lparr>vc = [], builder = new_builder\<rparr> = Some (Some True, s')"
    by (simp add: c(1) stp_inv_def)
  moreover have "models (\<lambda>_ _. 7) (q_constraints demo_bound) \<and> eval (\<lambda>_ _. 7) (q_expr demo_bound) \<noteq> 1"
    by (simp add: demo_bound_def demo_simps)
  ultimately show ?thesis unfolding valid_def by blast
qed

end
