(* ===== verification/Spec2Isabelle.thy ===== *)
theory Spec2Isabelle
  imports ImmutableTree Evaluator STPBuilder_Correct BitfieldSimplifier Memory_Correct ExprOrder LinuxProcess CachingSolver IndependentSolver STPSolver_Correct
begin

text \<open>
  Verification development for S2E with the plugins that list the processes of a Linux guest.

  \<^bold>\<open>The program.\<close> S2E is a symbolic execution platform. A virtual machine (\<^verbatim>\<open>src/s2e/qemu\<close>) runs the guest; when it touches
  symbolic data, the translated code is executed by KLEE (\<^verbatim>\<open>src/s2e/klee\<close>), which builds expressions, keeps the memory of
  a state in objects, and asks a stack of solvers about the path constraints. The last of them translates the expressions
  to nodes of the solver STP (\<^verbatim>\<open>src/s2e/stp\<close>). Plugins (\<^verbatim>\<open>src/s2e/qemu/s2e/Plugins\<close>) watch the guest; those of
  \<^verbatim>\<open>Plugins/linux\<close> walk through its task list. The paths below are relative to \<^verbatim>\<open>src/s2e\<close>, those without a directory to
  \<^verbatim>\<open>klee/lib\<close> or \<^verbatim>\<open>klee/include/klee\<close>.

  \<^bold>\<open>Conventions.\<close> A failed assertion, an access outside an array, a null reference and the use of a value that was never set
  end a run: they are \<open>None\<close> in \<open>'a may_abort\<close>, except in \<open>LinuxProcess\<close>, which tells the kinds of undefined behaviour apart.
  State is passed explicitly. Machine integers are words or numbers with the wrap-around written out. Bit widths are
  natural numbers. All definitions are total, and loops are proved to end, but for \<open>doSimplifyBits\<close>, a
  \<^theory_text>\<open>partial_function\<close> in the option type, where \<open>None\<close> is also a run without end. The loop with a tree iterator
  takes a bound on its number of steps; any bound above the number of elements is shown to be enough.

  \<^bold>\<open>Theories.\<close>
  \<^item> \<open>S2E_Prelude\<close>: shared types and lemmas on options, lists and words.
  \<^item> \<open>Bits\<close>: \<^verbatim>\<open>util/Bits.h\<close>, \<^verbatim>\<open>IntEvaluation.h\<close>, \<^verbatim>\<open>util/BitArray.h\<close>. The integer operations wrap at their width and keep the upper
    bits zero; the tests of whole bit arrays are right, and read one word too many for some sizes.
  \<^item> \<open>ImmutableTree\<close>: \<^verbatim>\<open>ImmutableTree.h\<close>, \<^verbatim>\<open>ImmutableMap.h\<close>, \<^verbatim>\<open>ImmutableSet.h\<close>, for every strict weak order of the keys. The
    operations keep the tree sorted and balanced, lookups have the laws of a finite map, and iterators end without
    overflowing their fixed stack.
  \<^item> \<open>Expr\<close>, \<open>Expr_Sem\<close>, \<open>Expr_Concat\<close>, \<open>Expr_Eq\<close>, \<open>Expr_Arith\<close>: expressions, update lists and the simplifying constructors of
    \<^verbatim>\<open>Expr.h\<close>, \<^verbatim>\<open>Updates.cpp\<close> and \<^verbatim>\<open>Expr.cpp\<close>, with a semantics \<open>eval\<close> for given contents of the arrays. Every constructor
    returns an expression of the width and value of the plain operation, on operands of at most 64 bits where it folds
    constants. LLVM's \<^verbatim>\<open>APInt\<close> is a record of operations with the laws of the locale \<open>apint_laws\<close> and the instance \<open>apint_env\<close>.
  \<^item> \<open>Evaluator\<close>: \<^verbatim>\<open>ExprVisitor.cpp\<close>, \<^verbatim>\<open>ExprEvaluator.cpp\<close>, \<^verbatim>\<open>Assignment.h\<close>. Evaluation under an assignment gives the constant that \<open>eval\<close>
    says, and partial evaluation keeps the value.
  \<^item> \<open>ExprOrder\<close>: \<^verbatim>\<open>Expr::compare\<close> and the hash values. Without \<^verbatim>\<open>NotExpr\<close>, whose hash value is never stored, it is a linear order.
  \<^item> \<open>BitfieldSimplifier\<close>: the rules on known and ignored bits are right; the table that outlives a call makes the whole wrong.
  \<^item> \<open>Memory\<close>, \<open>Memory_Correct\<close>: \<^verbatim>\<open>ObjectState\<close> of \<^verbatim>\<open>Memory.cpp\<close>: concrete store, masks, known values and update list. The bytes of an
    object are an abstract array that reads and writes at constant and symbolic offsets refine, on a little-endian target; the bounds
    checks are exact. Code outside the class that writes through the address of the store is not covered.
  \<^item> \<open>ConstantDivision\<close>: \<^verbatim>\<open>ConstantDivision.cpp\<close>. The constants give products and quotients for all arguments.
  \<^item> \<open>STP_AST\<close>, \<open>STP_Interface\<close>: nodes, type check, constant evaluator and hashing factory of STP and the functions of its C
    interface that the builder calls. They are proved for every factory in the locale \<open>node_factory\<close>; the hashing factory is one.
    The simplifying factory, which the C interface installs by default, is not modelled.
  \<^item> \<open>STPBuilder\<close>, \<open>STPBuilder_Arith\<close>, \<open>STPBuilder_Correct\<close>: \<^verbatim>\<open>STPBuilder.cpp\<close>. On the fragment \<open>buildable\<close> the node has the value
    and the type of the expression; outside of it the builder is wrong in ways that are listed there.
  \<^item> \<open>Solver\<close>: queries, \<^verbatim>\<open>Solver.h\<close>, \<^verbatim>\<open>SolverImpl.h\<close> and the front end in \<^verbatim>\<open>Solver.cpp\<close>. The locale \<open>solver_spec\<close> is what
    a solver promises, \<open>solver_user\<close> and \<open>solver_client\<close> hold what the front end makes of it.
  \<^item> \<open>CachingSolver\<close>, \<open>IndependentSolver\<close>: \<^verbatim>\<open>IncompleteSolver.cpp\<close>, \<^verbatim>\<open>CachingSolver.cpp\<close>, \<^verbatim>\<open>IndependentSolver.cpp\<close> and \<^verbatim>\<open>findReads\<close>. Each layer
    keeps the contract of the solver behind it.
  \<^item> \<open>STPSolver\<close>, \<open>STPSolver_Correct\<close>: \<^verbatim>\<open>STPSolverImpl\<close>, the assertion stack and \<^verbatim>\<open>vc_query\<close>. With a decision procedure that is right when
    it decides, a parameter in the locale \<open>stp_decides\<close>, the solver keeps the contract.
  \<^item> \<open>LinuxProcess\<close>: \<^verbatim>\<open>Linux_read.cpp\<close>, \<^verbatim>\<open>Linux_pro.cpp\<close> and the read of guest memory they use. The listing is complete for well-formed
    guests; malformed ones lead to undefined behaviour.

  This theory puts the front end, the independent solver, the cache and the STP solver together.

  \<^bold>\<open>Limits.\<close> Expressions have no identity: a reference is the expression it points to and equality is structural. The code compares
  hash values first, so it may take two equal expressions with a \<^verbatim>\<open>NotExpr\<close> inside for different ones; then a table misses an
  entry or a simplification is not made. Sets and maps of expressions are sets and partial functions. Reference counts, statistics, logs and
  time limits are left out. Not modelled are the executor, the address space, the constraint manager, the counterexample
  cache, the decision procedure of STP, the virtual machine and the other plugins: their behaviour is that of LLVM, of the
  operating system or of generated code, or they are layers that the options leave out.
\<close>

subsection \<open>The solver stack\<close>

text \<open>
  The layers that \<^verbatim>\<open>constructSolverChain\<close> adds for the options \<^verbatim>\<open>use-cache\<close> and \<^verbatim>\<open>use-independent-solver\<close>. The layers
  of its other options, the counterexample cache, which is on by default, among them, are not modelled: the chain is
  that of \<^verbatim>\<open>--use-cex-cache=false\<close>.
\<close>

definition independent_caching_chain :: "expr_env \<Rightarrow> hash_env \<Rightarrow> 's solver_impl \<Rightarrow> ('s \<times> cache_map) solver_impl" where
  "independent_caching_chain E H solver = IndependentSolver E (CachingSolver H solver)"

abbreviation stp_chain :: "stp_solver_cfg \<Rightarrow> hash_env \<Rightarrow> (stp_state \<times> cache_map) solver_impl" where
  "stp_chain C H \<equiv> independent_caching_chain (apenv (scfg C)) H (STPSolverImpl C)"

text \<open>
  The queries of the chain: the solver behind it can translate them and what the front end and the layers ask about
  them, and their reads of constant arrays are in range.
\<close>

definition chain_query :: "stp_solver_cfg \<Rightarrow> query \<Rightarrow> bool" where
  "chain_query C q \<longleftrightarrow> negation_too (apenv (scfg C)) (stp_queries (scfg C)) q \<and> reads_in_range q"

lemma negation_too_subset:
  assumes "negation_too (apenv B) (stp_queries B) q" "set (q_constraints q') \<subseteq> set (q_constraints q)" "q_expr q' = q_expr q"
  shows "negation_too (apenv B) (stp_queries B) q'"
  unfolding negation_too_def
proof (intro conjI impI allI)
  show "stp_queries B q'" by (rule stp_queries_subset [OF negation_tooD [OF assms(1)] assms(2,3)])
  fix e assume "getWidth (q_expr q') = 1" "negateExpr (apenv B) q' = Some (withExpr q' e)"
  hence "stp_queries B (withExpr q e)" using assms(1,3) by (auto simp: negation_too_def negateExpr_def withExpr_def)
  thus "stp_queries B (withExpr q' e)" by (rule stp_queries_subset) (use assms(2) in simp_all)
qed

lemma chain_user:
  assumes "stp_decides C z" "answers sure C" "henv H = apenv (scfg C)"
  shows "solver_user (apenv (scfg C)) (chain_query C) sure (stp_chain C H) (caching_inv (stp_inv C z))"
proof -
  have l: "apint_laws (apenv (scfg C))" using assms(1) by (simp add: stp_decides_def stp_laws_def)
  have "solver_user (apenv (scfg C)) (stp_queries (scfg C)) sure (STPSolverImpl C) (stp_inv C z)"
    by (rule solver_user.intro [OF l stp_decides.stp_spec [OF assms(1,2)]])
  from independent_spec [OF l solver_user.caching_spec [OF this assms(3)]] negation_too_subset
  have "solver_spec (apenv (scfg C)) (\<lambda>q. negation_too (apenv (scfg C)) (stp_queries (scfg C)) q \<and> reads_in_range q) sure
    (stp_chain C H) (caching_inv (stp_inv C z))" by (auto simp: independent_caching_chain_def)
  with l show ?thesis by (simp add: solver_user_def chain_query_def [abs_def])
qed

interpretation chain: solver_user "apenv (scfg (trial_cfg z True))" "chain_query (trial_cfg z True)" False
  "stp_chain (trial_cfg z True) \<lparr>henv = apenv (scfg (trial_cfg z True)), ap_hash = (\<lambda>a. word_of_int (ap_val a)), unset_less = (\<lambda>_ _. True)\<rparr>"
  "caching_inv (stp_inv (trial_cfg z True) z)"
  by (rule chain_user [OF trial.stp_decides_axioms]) (simp_all add: answers_def trial_cfg_def)






end
